(* ===== verification/Pippin_Prelude.thy ===== *)
theory Pippin_Prelude
  imports Main "HOL-Library.Word"
begin

text \<open>
  Shared vocabulary of the development: the machine integers of the Rust code, the parts of
  Rust's core library the kernel calls (checked, saturating and wrapping arithmetic,
  little-endian decoding), and the generic lemmas on lists and bytes that the component
  theories use.

  The kernel is built by \<^verbatim>\<open>cargo build --release\<close>, so unchecked arithmetic wraps around
  and \<^verbatim>\<open>debug_assert!\<close> is compiled out. Bit-level values are \<open>'n word\<close>; \<^verbatim>\<open>usize\<close>
  counters and indices are \<open>nat\<close> with the wrap-around written out (\<open>wadd\<close>, \<open>wsub\<close>);
  \<^verbatim>\<open>i32\<close> coordinates are \<open>int\<close> with \<open>i32_wrap\<close> around every unchecked operation.
  A panic is the value \<open>None\<close> of an outer \<open>option\<close>.
\<close>

unbundle bit_operations_syntax

type_synonym u8 = "8 word"
type_synonym u16 = "16 word"
type_synonym u32 = "32 word"
type_synonym u64 = "64 word"
type_synonym usize = nat
type_synonym ram = "nat \<Rightarrow> u8"

named_theorems pip_defs "definitions that evaluate concrete states"

section \<open>Arithmetic of the Rust core library\<close>

definition wadd :: "usize \<Rightarrow> usize \<Rightarrow> usize" where
  "wadd a b = (a + b) mod 2 ^ 64"

definition wsub :: "usize \<Rightarrow> usize \<Rightarrow> usize" where
  "wsub a b = (a + (2 ^ 64 - b mod 2 ^ 64)) mod 2 ^ 64"

definition div_ceil :: "nat \<Rightarrow> nat \<Rightarrow> nat" where
  "div_ceil a b = (if a mod b > 0 then a div b + 1 else a div b)"

definition checked_add :: "'a::len word \<Rightarrow> 'a word \<Rightarrow> 'a word option" where
  "checked_add a b = (if unat a + unat b < 2 ^ LENGTH('a) then Some (a + b) else None)"

definition checked_mul :: "'a::len word \<Rightarrow> 'a word \<Rightarrow> 'a word option" where
  "checked_mul a b = (if unat a * unat b < 2 ^ LENGTH('a) then Some (a * b) else None)"

definition checked_add_usize :: "usize \<Rightarrow> usize \<Rightarrow> usize option" where
  "checked_add_usize a b = (if a + b < 2 ^ 64 then Some (a + b) else None)"

definition i32_wrap :: "int \<Rightarrow> int" where
  "i32_wrap x = (x + 2147483648) mod 4294967296 - 2147483648"

definition clamp :: "int \<Rightarrow> int \<Rightarrow> int \<Rightarrow> int" where
  "clamp lo hi x = (if x < lo then lo else if x > hi then hi else x)"

definition is_power_of_two :: "'a::len word \<Rightarrow> bool" where
  "is_power_of_two w = (w \<noteq> 0 \<and> w AND (w - 1) = 0)"

section \<open>Little-endian bytes\<close>

fun le_val :: "u8 list \<Rightarrow> nat" where
  "le_val [] = 0"
| "le_val (b # bs) = unat b + 256 * le_val bs"

definition from_le :: "u8 list \<Rightarrow> 'a::len word" where
  "from_le bs = of_nat (le_val bs)"

fun le_bytes :: "nat \<Rightarrow> nat \<Rightarrow> u8 list" where
  "le_bytes 0 v = []"
| "le_bytes (Suc n) v = of_nat (v mod 256) # le_bytes n (v div 256)"

definition to_le :: "'a::len word \<Rightarrow> u8 list" where
  "to_le w = le_bytes (LENGTH('a) div 8) (unat w)"

section \<open>Physical memory\<close>

definition read_bytes :: "ram \<Rightarrow> nat \<Rightarrow> nat \<Rightarrow> u8 list" where
  "read_bytes m a n = map (\<lambda>i. m (a + i)) [0..<n]"

definition write_list :: "ram \<Rightarrow> nat \<Rightarrow> u8 list \<Rightarrow> ram" where
  "write_list m a bs = (\<lambda>x. if a \<le> x \<and> x < a + length bs then bs ! (x - a) else m x)"

definition fill_bytes :: "ram \<Rightarrow> nat \<Rightarrow> nat \<Rightarrow> u8 \<Rightarrow> ram" where
  "fill_bytes m a n b = (\<lambda>x. if a \<le> x \<and> x < a + n then b else m x)"

definition read32 :: "ram \<Rightarrow> nat \<Rightarrow> u32" where
  "read32 m a = from_le (read_bytes m a 4)"

definition read64 :: "ram \<Rightarrow> nat \<Rightarrow> u64" where
  "read64 m a = from_le (read_bytes m a 8)"

definition write64 :: "ram \<Rightarrow> nat \<Rightarrow> u64 \<Rightarrow> ram" where
  "write64 m a v = write_list m a (to_le v)"

section \<open>Lemmas on arithmetic\<close>

lemma wadd_exact [simp]: "a + b < 2 ^ 64 \<Longrightarrow> wadd a b = a + b"
  by (simp add: wadd_def)

lemma wadd_bound: "wadd a b < 2 ^ 64"
  by (simp add: wadd_def)

lemma wsub_exact [simp]:
  assumes "b \<le> a" "a < 2 ^ 64"
  shows "wsub a b = a - b"
proof -
  from assms have "a + (2 ^ 64 - b mod 2 ^ 64) = (a - b) + 2 ^ 64" by simp
  then have "wsub a b = ((a - b) + 2 ^ 64) mod 2 ^ 64" unfolding wsub_def by (rule arg_cong)
  also have "\<dots> = (a - b) mod 2 ^ 64" by (rule mod_add_self2)
  also have "\<dots> = a - b" using assms by simp
  finally show ?thesis .
qed

lemma i32_wrap_id [simp]: "-2147483648 \<le> x \<Longrightarrow> x < 2147483648 \<Longrightarrow> i32_wrap x = x"
  by (simp add: i32_wrap_def)

lemma i32_wrap_range: "-2147483648 \<le> i32_wrap x \<and> i32_wrap x < 2147483648"
  by (simp add: i32_wrap_def)

lemma clamp_range: "lo \<le> hi \<Longrightarrow> lo \<le> clamp lo hi x \<and> clamp lo hi x \<le> hi"
  by (simp add: clamp_def)

lemma clamp_id [simp]: "lo \<le> x \<Longrightarrow> x \<le> hi \<Longrightarrow> clamp lo hi x = x"
  by (simp add: clamp_def)

lemma div_ceil_le_iff:
  assumes "0 < b"
  shows "div_ceil a b \<le> n \<longleftrightarrow> a \<le> n * b"
proof -
  have eq: "a = a div b * b + a mod b" by simp
  have lt: "a mod b < b" using assms by simp
  show ?thesis
  proof (cases "a mod b = 0")
    case True
    with eq have a: "a = a div b * b" by simp
    have "a div b \<le> n \<longleftrightarrow> a div b * b \<le> n * b" using assms by simp
    then show ?thesis using a True by (simp add: div_ceil_def)
  next
    case False
    have "a div b + 1 \<le> n \<longleftrightarrow> a \<le> n * b"
    proof
      assume "a div b + 1 \<le> n"
      then have "(a div b + 1) * b \<le> n * b" by (rule mult_le_mono1)
      moreover have "(a div b + 1) * b = a div b * b + b" by (simp add: algebra_simps)
      ultimately show "a \<le> n * b" using eq lt by linarith
    next
      assume "a \<le> n * b"
      then have "a div b * b < n * b" using eq False by linarith
      then show "a div b + 1 \<le> n" by simp
    qed
    then show ?thesis using False by (simp add: div_ceil_def)
  qed
qed

lemma checked_add_Some_iff:
  "checked_add a b = Some c \<longleftrightarrow> unat a + unat b < 2 ^ LENGTH('a) \<and> c = a + b"
  for a b c :: "'a::len word"
  by (auto simp: checked_add_def)

lemma unat_checked_add:
  "checked_add a b = Some c \<Longrightarrow> unat c = unat a + unat b"
  for a b c :: "'a::len word"
  by (auto simp: checked_add_def unat_word_ariths split: if_splits)

lemma unat_checked_mul:
  "checked_mul a b = Some c \<Longrightarrow> unat c = unat a * unat b"
  for a b c :: "'a::len word"
  by (auto simp: checked_mul_def unat_word_ariths split: if_splits)

lemma small_no_bit: "unat a < 2 ^ n \<Longrightarrow> n \<le> k \<Longrightarrow> \<not> bit a k" for a :: "'a::len word"
proof
  assume a: "unat a < 2 ^ n" "n \<le> k" "bit a k"
  have "bit (unat a) k" using a(3) bit_imp_le_length [OF a(3)] by (simp add: bit_unsigned_iff)
  moreover have "take_bit n (unat a) = unat a" using a(1) by (simp add: take_bit_nat_eq_self)
  ultimately show False using a(2) by (metis bit_take_bit_iff not_le)
qed

section \<open>Lemmas on bytes and memory\<close>

lemma length_le_bytes [simp]: "length (le_bytes n v) = n"
  by (induction n arbitrary: v) auto

lemma le_val_le_bytes: "le_val (le_bytes n v) = v mod 256 ^ n"
proof (induction n arbitrary: v)
  case 0
  then show ?case by simp
next
  case (Suc n)
  have "v mod 256 ^ Suc n = v mod 256 + 256 * (v div 256 mod 256 ^ n)"
    by (simp add: mod_mult2_eq)
  then show ?case using Suc by (simp add: unat_of_nat)
qed

lemma le_val_bound: "le_val bs < 256 ^ length bs"
proof (induction bs)
  case Nil
  then show ?case by simp
next
  case (Cons b bs)
  have "unat b < 256" using unsigned_less [of b, where 'a = nat] by simp
  with Cons show ?case by simp
qed

lemma from_le_to_le_64 [simp]: "from_le (to_le w) = w" for w :: u64
proof -
  have "unat w < 2 ^ 64" using unsigned_less [of w, where 'a = nat] by simp
  then show ?thesis by (simp add: from_le_def to_le_def le_val_le_bytes)
qed

lemma length_to_le_64 [simp]: "length (to_le (w :: u64)) = 8"
  by (simp add: to_le_def)

lemma length_read_bytes [simp]: "length (read_bytes m a n) = n"
  by (simp add: read_bytes_def)

lemma read_bytes_cong: "(\<And>i. i < n \<Longrightarrow> m (a + i) = m' (a + i)) \<Longrightarrow> read_bytes m a n = read_bytes m' a n"
  by (simp add: read_bytes_def)

lemma read_bytes_write_list: "read_bytes (write_list m a bs) a (length bs) = bs"
  by (rule nth_equalityI) (auto simp: read_bytes_def write_list_def)

lemma read_bytes_write_other:
  "a + n \<le> b \<or> b + length bs \<le> a \<Longrightarrow> read_bytes (write_list m b bs) a n = read_bytes m a n"
  by (rule read_bytes_cong) (auto simp: write_list_def)

lemma read64_write64_same [simp]: "read64 (write64 m a v) a = v"
  using read_bytes_write_list [of m a "to_le v"] by (simp add: read64_def write64_def)

lemma read64_write64_other [simp]:
  "a + 8 \<le> b \<or> b + 8 \<le> a \<Longrightarrow> read64 (write64 m b v) a = read64 m a"
  by (simp add: read64_def write64_def read_bytes_write_other)

lemma read_bytes_fill_other:
  "a + n \<le> b \<or> b + k \<le> a \<Longrightarrow> read_bytes (fill_bytes m b k v) a n = read_bytes m a n"
  by (rule read_bytes_cong) (auto simp: fill_bytes_def)

lemma read64_fill_other [simp]:
  "a + 8 \<le> b \<or> b + k \<le> a \<Longrightarrow> read64 (fill_bytes m b k v) a = read64 m a"
  by (simp add: read64_def read_bytes_fill_other)

lemma read64_fill_zero [simp]:
  "b \<le> a \<Longrightarrow> a + 8 \<le> b + k \<Longrightarrow> read64 (fill_bytes m b k 0) a = 0"
  by (simp add: read64_def read_bytes_def fill_bytes_def from_le_def upt_rec)

end
