(* ===== verification/Ring_Queue.thy ===== *)
theory Ring_Queue
  imports Pippin_Prelude
begin

text \<open>
  The bounded FIFO queue that the scheduler (run queue, \<^verbatim>\<open>sched.rs\<close>) and the message ports
  (\<^verbatim>\<open>ipc.rs\<close>) both keep in a fixed array with a head index and a length. \<open>ring_items\<close>
  reads the array as the list of queued values; the locale \<open>bounded_fifo\<close> states what a
  client may rely on, and proves once what follows for any sequence of operations.
\<close>

section \<open>Array representation\<close>

definition ring_items :: "'a list \<Rightarrow> nat \<Rightarrow> nat \<Rightarrow> 'a list" where
  "ring_items buf head len = map (\<lambda>i. buf ! ((head + i) mod length buf)) [0..<len]"

lemma length_ring_items [simp]: "length (ring_items buf head n) = n"
  by (simp add: ring_items_def)

lemma ring_items_0 [simp]: "ring_items buf head 0 = []"
  by (simp add: ring_items_def)

lemma ring_slot_inj:
  fixes h i j n :: nat
  assumes "i < n" "j < n" "(h + i) mod n = (h + j) mod n"
  shows "i = j"
proof -
  have "i mod n = j mod n" using assms(3) by (simp add: nat_mod_eq_iff)
  then show ?thesis using assms by simp
qed

lemma ring_items_push:
  assumes "n < length buf"
  shows "ring_items (buf[(head + n) mod length buf := x]) head (Suc n) = ring_items buf head n @ [x]"
proof -
  have "(head + n) mod length buf < length buf" using assms by (intro mod_less_divisor) auto
  moreover have "(head + n) mod length buf \<noteq> (head + i) mod length buf" if "i < n" for i
    using ring_slot_inj [of n "length buf" i head] assms that by auto
  ultimately show ?thesis by (simp add: ring_items_def)
qed

lemma ring_items_pop:
  assumes "0 < n" "head < length buf"
  shows "ring_items buf head n = buf ! head # ring_items buf ((head + 1) mod length buf) (n - 1)"
proof (rule nth_equalityI)
  show "length (ring_items buf head n) = length (buf ! head # ring_items buf ((head + 1) mod length buf) (n - 1))"
    using assms by simp
next
  fix i assume "i < length (ring_items buf head n)"
  then show "ring_items buf head n ! i = (buf ! head # ring_items buf ((head + 1) mod length buf) (n - 1)) ! i"
    using assms by (cases i) (auto simp: ring_items_def mod_add_left_eq)
qed

section \<open>The interface\<close>

datatype 'a qop = Enq 'a | Deq

text \<open>Running operations: the values accepted, the values taken out, the final queue.\<close>

fun fifo_run ::
  "('a \<Rightarrow> 'q \<Rightarrow> bool \<times> 'q) \<Rightarrow> ('q \<Rightarrow> 'a option \<times> 'q) \<Rightarrow> 'a qop list \<Rightarrow> 'q \<Rightarrow> 'a list \<times> 'a list \<times> 'q" where
  "fifo_run enq deq [] q = ([], [], q)"
| "fifo_run enq deq (Enq x # ops) q =
     (case enq x q of (ok, q') \<Rightarrow>
        (case fifo_run enq deq ops q' of (ins, outs, r) \<Rightarrow> (if ok then x # ins else ins, outs, r)))"
| "fifo_run enq deq (Deq # ops) q =
     (case deq q of (v, q') \<Rightarrow>
        (case fifo_run enq deq ops q' of (ins, outs, r) \<Rightarrow>
           (ins, (case v of None \<Rightarrow> outs | Some x \<Rightarrow> x # outs), r)))"

locale bounded_fifo =
  fixes enq :: "'a \<Rightarrow> 'q \<Rightarrow> bool \<times> 'q"
    and deq :: "'q \<Rightarrow> 'a option \<times> 'q"
    and items :: "'q \<Rightarrow> 'a list"
    and invar :: "'q \<Rightarrow> bool"
    and cap :: nat
  assumes enq_room: "invar q \<Longrightarrow> length (items q) < cap \<Longrightarrow>
      fst (enq x q) \<and> items (snd (enq x q)) = items q @ [x]"
    and enq_full: "invar q \<Longrightarrow> \<not> length (items q) < cap \<Longrightarrow> enq x q = (False, q)"
    and deq_items: "invar q \<Longrightarrow> items q = y # ys \<Longrightarrow> fst (deq q) = Some y \<and> items (snd (deq q)) = ys"
    and deq_empty: "invar q \<Longrightarrow> items q = [] \<Longrightarrow> deq q = (None, q)"
    and invar_enq: "invar q \<Longrightarrow> invar (snd (enq x q))"
    and invar_deq: "invar q \<Longrightarrow> invar (snd (deq q))"
begin

lemma enq_step: "invar q \<Longrightarrow> items (snd (enq x q)) = items q @ (if fst (enq x q) then [x] else [])"
  using enq_room [of q x] enq_full [of q x] by (cases "length (items q) < cap") auto

lemma deq_step: "invar q \<Longrightarrow> items q = (case fst (deq q) of None \<Rightarrow> [] | Some y \<Rightarrow> [y]) @ items (snd (deq q))"
  using deq_items [of q] deq_empty [of q] by (cases "items q") auto

lemma run_invar: "invar q \<Longrightarrow> invar (snd (snd (fifo_run enq deq ops q)))"
proof (induction ops arbitrary: q)
  case Nil
  then show ?case by simp
next
  case (Cons op ops)
  show ?case
  proof (cases op)
    case (Enq x)
    then show ?thesis using Cons.IH [OF invar_enq [OF Cons.prems, of x]]
      by (auto split: prod.splits)
  next
    case Deq
    then show ?thesis using Cons.IH [OF invar_deq [OF Cons.prems]]
      by (auto split: prod.splits)
  qed
qed

text \<open>First in, first out, with nothing lost and nothing invented: what was queued followed by
  what was accepted is what came out followed by what is still queued.\<close>

lemma run_fifo:
  assumes "invar q" "fifo_run enq deq ops q = (ins, outs, r)"
  shows "items q @ ins = outs @ items r"
  using assms
proof (induction ops arbitrary: q ins outs)
  case Nil
  then show ?case by simp
next
  case (Cons op ops)
  show ?case
  proof (cases op)
    case (Enq x)
    obtain ok q' where e: "enq x q = (ok, q')" by fastforce
    obtain ins' outs' where f: "fifo_run enq deq ops q' = (ins', outs', r)"
      using Cons.prems(2) Enq e by (auto split: prod.splits)
    have inv: "invar q'" using invar_enq [OF Cons.prems(1), of x] e by simp
    have "items q' = items q @ (if ok then [x] else [])"
      using enq_step [OF Cons.prems(1), of x] e by simp
    then show ?thesis using Cons.IH [OF inv f] Cons.prems(2) Enq e f by (auto split: if_splits)
  next
    case Deq
    obtain v q' where e: "deq q = (v, q')" by fastforce
    obtain outs' where f: "fifo_run enq deq ops q' = (ins, outs', r)"
      using Cons.prems(2) Deq e by (auto split: prod.splits)
    have inv: "invar q'" using invar_deq [OF Cons.prems(1)] e by simp
    have "items q = (case v of None \<Rightarrow> [] | Some y \<Rightarrow> [y]) @ items q'"
      using deq_step [OF Cons.prems(1)] e by simp
    then show ?thesis using Cons.IH [OF inv f] Cons.prems(2) Deq e f by (auto split: option.splits)
  qed
qed

end

end
