(* ===== verification/Frame_Alloc.thy ===== *)
theory Frame_Alloc
  imports Pippin_Prelude
begin

text \<open>
  The physical frame allocator of \<^verbatim>\<open>kernel/rust/src/mem.rs\<close>: the frame bitmap and its
  counters (\<open>frame_state\<close>), the Multiboot memory-map reader, the two boot-time
  initialisers, and allocation and release of frame ranges. The bitmap is the static array
  of \<open>BITMAP_WORDS\<close> 64-bit words; \<open>wf_frames\<close> is what its Rust type guarantees.
  \<open>free_set\<close> is the abstract state: the set of frames the allocator may hand out.
\<close>

unbundle bit_operations_syntax

section \<open>Constants and state\<close>

definition KERNEL_LOAD_BASE :: u64 where "KERNEL_LOAD_BASE = 0x100000"
definition BOOT_MAPPED_END :: nat where "BOOT_MAPPED_END = 0x40000000"
definition FRAME_SIZE :: nat where "FRAME_SIZE = 4096"
definition HIGHER_HALF_BASE :: u64 where "HIGHER_HALF_BASE = 0xFFFF800000000000"
definition MAX_FRAMES :: usize where "MAX_FRAMES = BOOT_MAPPED_END div FRAME_SIZE"
definition BITMAP_WORDS :: usize where "BITMAP_WORDS = MAX_FRAMES div 64"

record region =
  r_base :: u64
  r_len :: u64
  r_kind :: u32

record memory_map =
  mm_ptr :: nat
  mm_remaining :: usize

record frame_state =
  FRAME_BITMAP :: "u64 list"
  FRAME_TOTAL :: usize
  FRAME_FREE :: usize
  SEARCH_HINT :: usize

record init_report =
  region_count :: usize
  usable_kib :: u64
  free_frames_rep :: usize
  total_frames :: usize

text \<open>The part of the machine the memory managers work on: the allocator statics, physical
  memory (identity mapped, so an address is a physical address) and the page-table root.\<close>

record machine =
  m_frames :: frame_state
  m_ram :: ram
  m_cr3 :: u64

section \<open>Multiboot information\<close>

definition from_multiboot :: "ram \<Rightarrow> u32 \<Rightarrow> memory_map option" where
  "from_multiboot m mb_info =
     (if mb_info = 0 then None
      else let p = unat mb_info; flags = read32 m p in
        if flags AND push_bit 6 1 = 0 then None
        else Some \<lparr>mm_ptr = unat (read32 m (p + 48)), mm_remaining = unat (read32 m (p + 44))\<rparr>)"

definition map_next :: "ram \<Rightarrow> memory_map \<Rightarrow> (region \<times> memory_map) option" where
  "map_next m it =
     (if mm_remaining it < 4 then None
      else let size = unat (read32 m (mm_ptr it)) in
        if size < 20 \<or> mm_remaining it < size + 4 then None
        else Some (\<lparr>r_base = read64 m (mm_ptr it + 4), r_len = read64 m (mm_ptr it + 12),
                    r_kind = read32 m (mm_ptr it + 20)\<rparr>,
                   \<lparr>mm_ptr = mm_ptr it + (size + 4), mm_remaining = mm_remaining it - (size + 4)\<rparr>))"

function map_regions :: "ram \<Rightarrow> memory_map \<Rightarrow> region list" where
  "map_regions m it =
     (case map_next m it of None \<Rightarrow> [] | Some (r, it') \<Rightarrow> r # map_regions m it')"
  by pat_completeness auto
termination
  by (relation "measure (\<lambda>(m, it). mm_remaining it)")
     (auto simp: map_next_def Let_def split: if_splits)

definition multiboot_upper_memory :: "ram \<Rightarrow> u32 \<Rightarrow> u64" where
  "multiboot_upper_memory m mb_info =
     (if mb_info = 0 then 0 else ucast (read32 m (unat mb_info + 8)) * 1024)"

definition link_to_phys :: "u64 \<Rightarrow> u64" where
  "link_to_phys vma = vma - HIGHER_HALF_BASE"

definition kernel_image_phys_range :: "u64 \<Rightarrow> u64 \<times> u64" where
  "kernel_image_phys_range bss_end = (KERNEL_LOAD_BASE, link_to_phys bss_end)"

section \<open>Bitmap operations\<close>

definition frame_index :: "u64 \<Rightarrow> usize" where
  "frame_index b = unat b div FRAME_SIZE"

definition bit_is_used :: "frame_state \<Rightarrow> usize \<Rightarrow> bool" where
  "bit_is_used s frame =
     ((FRAME_BITMAP s ! (frame div 64)) AND push_bit (frame mod 64) 1 \<noteq> 0)"

definition bit_set :: "usize \<Rightarrow> bool \<Rightarrow> frame_state \<Rightarrow> frame_state" where
  "bit_set frame used s =
     (let w = FRAME_BITMAP s ! (frame div 64); m = push_bit (frame mod 64) 1 in
      s\<lparr>FRAME_BITMAP := (FRAME_BITMAP s)[frame div 64 := (if used then w OR m else w AND NOT m)]\<rparr>)"

definition set_range :: "usize \<Rightarrow> usize \<Rightarrow> bool \<Rightarrow> frame_state \<Rightarrow> frame_state" where
  "set_range first stop used s = fold (\<lambda>f. bit_set f used) [first..<stop] s"

definition paint_range :: "u64 \<Rightarrow> u64 \<Rightarrow> bool \<Rightarrow> frame_state \<Rightarrow> frame_state" where
  "paint_range b l used s =
     (let e = min (unat b + unat l) (2 ^ 64 - 1);
          first = (if used then unat b div FRAME_SIZE else div_ceil (unat b) FRAME_SIZE);
          stop = (if used then div_ceil e FRAME_SIZE else e div FRAME_SIZE);
          first = min (max first 1) MAX_FRAMES;
          stop = min stop MAX_FRAMES
      in set_range first stop used s)"

definition count_free :: "frame_state \<Rightarrow> usize" where
  "count_free s = length (filter (\<lambda>f. \<not> bit_is_used s f) [1..<MAX_FRAMES])"

section \<open>Initialisation\<close>

definition init_statics :: frame_state where
  "init_statics = \<lparr>FRAME_BITMAP = replicate BITMAP_WORDS (- 1), FRAME_TOTAL = MAX_FRAMES,
                   FRAME_FREE = 0, SEARCH_HINT = 1\<rparr>"

fun free_regions :: "u32 \<Rightarrow> region list \<Rightarrow> usize \<times> u64 \<times> frame_state \<Rightarrow> usize \<times> u64 \<times> frame_state" where
  "free_regions usable [] (n, kib, s) = (n, kib, s)"
| "free_regions usable (r # rs) (n, kib, s) =
     free_regions usable rs
       (n + 1, if r_kind r = usable then kib + r_len r div 1024 else kib,
        if r_kind r = usable then paint_range (r_base r) (r_len r) False s else s)"

definition reserve_low :: "frame_state \<Rightarrow> frame_state" where
  "reserve_low s =
     paint_range 0x100000 0x200000 True
       (paint_range 0xA0000 0x100000 True
         (paint_range 0x9000 0xA000 True
           (paint_range 0x0 0x1000 True s)))"

definition mem_init :: "ram \<Rightarrow> u64 \<Rightarrow> u32 \<Rightarrow> init_report \<times> frame_state" where
  "mem_init m bss_end mb_info =
     (let (regions, kib, s) =
        (case from_multiboot m mb_info of
           Some it \<Rightarrow> free_regions 1 (map_regions m it) (0, 0, init_statics)
         | None \<Rightarrow> (let upper = multiboot_upper_memory m mb_info in
             (1, upper, paint_range KERNEL_LOAD_BASE upper False init_statics)));
          s = reserve_low s;
          (kstart, kend) = kernel_image_phys_range bss_end;
          s = paint_range kstart (kend - kstart) True s;
          free = count_free s
      in (\<lparr>region_count = regions, usable_kib = kib, free_frames_rep = free,
           total_frames = FRAME_TOTAL s\<rparr>, s\<lparr>FRAME_FREE := free\<rparr>))"

text \<open>\<open>limine_map\<close> stands for the regions the bootloader reports one by one through
  \<^verbatim>\<open>pippin_limine_region\<close>; its kind 0 is USABLE.\<close>

definition init_limine :: "region list \<Rightarrow> init_report \<times> frame_state" where
  "init_limine limine_map =
     (let (regions, kib, s) = free_regions 0 limine_map (0, 0, init_statics);
          free = count_free s
      in (\<lparr>region_count = regions, usable_kib = kib, free_frames_rep = free,
           total_frames = FRAME_TOTAL s\<rparr>, s\<lparr>FRAME_FREE := free\<rparr>))"

section \<open>Allocation and release\<close>

function alloc_scan ::
  "usize \<Rightarrow> usize \<Rightarrow> usize \<Rightarrow> usize \<Rightarrow> usize \<Rightarrow> usize \<Rightarrow> frame_state \<Rightarrow> u64 option \<times> frame_state" where
  "alloc_scan count limit scanned frame run start s =
     (if scanned < limit then
        let (frame, run) = (if frame \<ge> MAX_FRAMES then (1, 0) else (frame, run)) in
        if \<not> bit_is_used s frame then
          let start = (if run = 0 then frame else start); run = run + 1 in
          if run = count then
            (Some (of_nat start * of_nat FRAME_SIZE),
             (set_range start (start + count) True s)
               \<lparr>FRAME_FREE := wsub (FRAME_FREE s) count, SEARCH_HINT := start + count\<rparr>)
          else alloc_scan count limit (scanned + 1) (frame + 1) run start s
        else alloc_scan count limit (scanned + 1) (frame + 1) 0 start s
      else (None, s))"
  by pat_completeness auto
termination
  by (relation "measure (\<lambda>(count, limit, scanned, frame, run, start, s). limit - scanned)") auto

declare alloc_scan.simps [simp del]

definition alloc_frames :: "usize \<Rightarrow> frame_state \<Rightarrow> u64 option \<times> frame_state" where
  "alloc_frames count s =
     alloc_scan count (wadd MAX_FRAMES count) 0 (max (SEARCH_HINT s) 1) 0 1 s"

definition alloc_zeroed_frame :: "machine \<Rightarrow> u64 option \<times> machine" where
  "alloc_zeroed_frame mc =
     (case alloc_frames 1 (m_frames mc) of
        (None, fs) \<Rightarrow> (None, mc\<lparr>m_frames := fs\<rparr>)
      | (Some phys, fs) \<Rightarrow>
          (Some phys, mc\<lparr>m_frames := fs, m_ram := fill_bytes (m_ram mc) (unat phys) FRAME_SIZE 0\<rparr>))"

text \<open>Releasing indexes the bitmap without a range check: an index past the array panics.\<close>

definition free_frames :: "u64 \<Rightarrow> usize \<Rightarrow> frame_state \<Rightarrow> frame_state option" where
  "free_frames phys count s =
     (let first = frame_index phys in
      if \<exists>f \<in> set [first..<first + count]. f div 64 \<ge> length (FRAME_BITMAP s) then None
      else Some ((set_range first (first + count) False s)
                   \<lparr>FRAME_FREE := wadd (FRAME_FREE s) count\<rparr>))"

definition free_frame_count :: "frame_state \<Rightarrow> usize" where
  "free_frame_count s = FRAME_FREE s"

section \<open>Abstract state and invariant\<close>

definition free_set :: "frame_state \<Rightarrow> nat set" where
  "free_set s = {f. 1 \<le> f \<and> f < MAX_FRAMES \<and> \<not> bit_is_used s f}"

definition wf_frames :: "frame_state \<Rightarrow> bool" where
  "wf_frames s \<longleftrightarrow> length (FRAME_BITMAP s) = BITMAP_WORDS"

definition frames_inv :: "frame_state \<Rightarrow> bool" where
  "frames_inv s \<longleftrightarrow> wf_frames s \<and> FRAME_FREE s = card (free_set s) \<and> bit_is_used s 0 \<and>
     SEARCH_HINT s \<le> MAX_FRAMES"

section \<open>Bitmap lemmas\<close>

lemmas frame_consts =
  MAX_FRAMES_def BITMAP_WORDS_def BOOT_MAPPED_END_def FRAME_SIZE_def

lemma bit_is_used_iff: "bit_is_used s f \<longleftrightarrow> bit (FRAME_BITMAP s ! (f div 64)) (f mod 64)"
  by (simp add: bit_is_used_def bit_iff_and_push_bit_not_eq_0)

lemma bit_set_fields [simp]:
  "FRAME_TOTAL (bit_set f u s) = FRAME_TOTAL s"
  "FRAME_FREE (bit_set f u s) = FRAME_FREE s"
  "SEARCH_HINT (bit_set f u s) = SEARCH_HINT s"
  "length (FRAME_BITMAP (bit_set f u s)) = length (FRAME_BITMAP s)"
  by (simp_all add: bit_set_def Let_def)

lemma bit_is_used_fields [simp]:
  "bit_is_used (s\<lparr>FRAME_FREE := n\<rparr>) f = bit_is_used s f"
  "bit_is_used (s\<lparr>SEARCH_HINT := n\<rparr>) f = bit_is_used s f"
  by (simp_all add: bit_is_used_def)

lemma frame_word_in_range: "wf_frames s \<Longrightarrow> f < MAX_FRAMES \<Longrightarrow> f div 64 < length (FRAME_BITMAP s)"
  by (auto simp: wf_frames_def frame_consts)

lemma bit_is_used_bit_set:
  assumes "wf_frames s" "f < MAX_FRAMES"
  shows "bit_is_used (bit_set f u s) g = (if g = f then u else bit_is_used s g)"
proof (cases "g div 64 = f div 64")
  case True
  have eq: "g = f \<longleftrightarrow> g mod 64 = f mod 64"
    using True by (metis div_mod_decomp)
  have "f div 64 < length (FRAME_BITMAP s)" using assms by (rule frame_word_in_range)
  then show ?thesis using True eq
    by (auto simp: bit_is_used_iff bit_set_def Let_def bit_or_iff bit_and_iff bit_not_iff
        bit_exp_iff)
next
  case False
  then have "g \<noteq> f" by auto
  with False show ?thesis by (simp add: bit_is_used_iff bit_set_def Let_def)
qed

lemma wf_bit_set [simp]: "wf_frames (bit_set f u s) = wf_frames s"
  by (simp add: wf_frames_def)

lemma set_range_fold:
  assumes "wf_frames s" "\<forall>f \<in> set fs. f < MAX_FRAMES"
  shows "bit_is_used (fold (\<lambda>f. bit_set f u) fs s) g = (if g \<in> set fs then u else bit_is_used s g)"
  using assms
proof (induction fs arbitrary: s)
  case Nil
  then show ?case by simp
next
  case (Cons f fs)
  then show ?case by (auto simp: bit_is_used_bit_set)
qed

lemma fold_bit_set_fields:
  "FRAME_TOTAL (fold (\<lambda>f. bit_set f u) fs s) = FRAME_TOTAL s \<and>
   FRAME_FREE (fold (\<lambda>f. bit_set f u) fs s) = FRAME_FREE s \<and>
   SEARCH_HINT (fold (\<lambda>f. bit_set f u) fs s) = SEARCH_HINT s \<and>
   length (FRAME_BITMAP (fold (\<lambda>f. bit_set f u) fs s)) = length (FRAME_BITMAP s)"
  by (induction fs arbitrary: s) auto

lemma set_range_fields [simp]:
  "FRAME_TOTAL (set_range i j u s) = FRAME_TOTAL s"
  "FRAME_FREE (set_range i j u s) = FRAME_FREE s"
  "SEARCH_HINT (set_range i j u s) = SEARCH_HINT s"
  "length (FRAME_BITMAP (set_range i j u s)) = length (FRAME_BITMAP s)"
  "wf_frames (set_range i j u s) = wf_frames s"
  by (simp_all add: set_range_def fold_bit_set_fields wf_frames_def)

lemma wf_frames_fields [simp]:
  "wf_frames (s\<lparr>FRAME_FREE := n\<rparr>) = wf_frames s"
  "wf_frames (s\<lparr>SEARCH_HINT := n\<rparr>) = wf_frames s"
  by (simp_all add: wf_frames_def)

lemma bit_is_used_set_range:
  assumes "wf_frames s" "j \<le> MAX_FRAMES"
  shows "bit_is_used (set_range i j u s) g = (if i \<le> g \<and> g < j then u else bit_is_used s g)"
proof -
  have "\<forall>f \<in> set [i..<j]. f < MAX_FRAMES" using assms(2) by auto
  from set_range_fold [OF assms(1) this] show ?thesis by (simp add: set_range_def)
qed

lemma free_set_fields [simp]:
  "free_set (s\<lparr>FRAME_FREE := n\<rparr>) = free_set s"
  "free_set (s\<lparr>SEARCH_HINT := n\<rparr>) = free_set s"
  by (simp_all add: free_set_def)

lemma finite_free_set [simp]: "finite (free_set s)"
  by (rule finite_subset [of _ "{..<MAX_FRAMES}"]) (auto simp: free_set_def)

lemma free_set_bounds: "f \<in> free_set s \<Longrightarrow> 1 \<le> f \<and> f < MAX_FRAMES"
  by (simp add: free_set_def)

lemma free_set_take:
  assumes "wf_frames s" "1 \<le> i" "j \<le> MAX_FRAMES"
  shows "free_set (set_range i j True s) = free_set s - {i..<j}"
  using assms by (auto simp: free_set_def bit_is_used_set_range)

lemma free_set_release:
  assumes "wf_frames s" "1 \<le> i" "j \<le> MAX_FRAMES"
  shows "free_set (set_range i j False s) = free_set s \<union> {i..<j}"
  using assms by (auto simp: free_set_def bit_is_used_set_range)

lemma count_free_card: "count_free s = card (free_set s)"
proof -
  have "free_set s = set (filter (\<lambda>f. \<not> bit_is_used s f) [1..<MAX_FRAMES])"
    by (auto simp: free_set_def)
  then have "card (free_set s) = card (set (filter (\<lambda>f. \<not> bit_is_used s f) [1..<MAX_FRAMES]))"
    by (rule arg_cong)
  also have "\<dots> = count_free s"
    unfolding count_free_def by (rule distinct_card) simp
  finally show ?thesis ..
qed

section \<open>The scan\<close>

text \<open>What the loop keeps: the current run of free frames ends just before \<open>frame\<close>, is
  shorter than the request, and lies inside the allocatable range.\<close>

definition scan_inv :: "usize \<Rightarrow> usize \<Rightarrow> usize \<Rightarrow> usize \<Rightarrow> frame_state \<Rightarrow> bool" where
  "scan_inv count frame run start s \<longleftrightarrow>
     1 \<le> frame \<and> frame \<le> MAX_FRAMES \<and> run < count \<and>
     (run > 0 \<longrightarrow> 1 \<le> start \<and> start + run = frame \<and> {start..<frame} \<subseteq> free_set s)"

lemma scan_inv_free:
  assumes "scan_inv count frame run start s" "frame < MAX_FRAMES" "\<not> bit_is_used s frame"
    "Suc run \<noteq> count"
  shows "scan_inv count (Suc frame) (Suc run) (if run = 0 then frame else start) s"
proof -
  have "frame \<in> free_set s" using assms by (simp add: scan_inv_def free_set_def)
  moreover have "{frame..<Suc frame} = {frame}" by auto
  moreover have "{start..<Suc frame} = insert frame {start..<frame}" if "run > 0"
    using assms(1) that by (auto simp: scan_inv_def)
  ultimately show ?thesis using assms
    by (cases "run = 0") (auto simp: scan_inv_def)
qed

lemma scan_inv_used:
  "scan_inv count frame run start s \<Longrightarrow> frame < MAX_FRAMES \<Longrightarrow> scan_inv count (Suc frame) 0 start s"
  by (auto simp: scan_inv_def)

lemma scan_inv_wrap: "0 < count \<Longrightarrow> scan_inv count 1 0 start s"
  by (simp add: scan_inv_def frame_consts)


text \<open>One iteration of the loop, by cases.\<close>

definition alloc_result :: "usize \<Rightarrow> frame_state \<Rightarrow> usize \<Rightarrow> frame_state" where
  "alloc_result count s start =
     (set_range start (start + count) True s)
       \<lparr>FRAME_FREE := wsub (FRAME_FREE s) count, SEARCH_HINT := start + count\<rparr>"

lemma alloc_scan_end: "limit \<le> scanned \<Longrightarrow> alloc_scan count limit scanned frame run start s = (None, s)"
  by (subst alloc_scan.simps) simp

lemma alloc_scan_wrap:
  "MAX_FRAMES \<le> frame \<Longrightarrow>
   alloc_scan count limit scanned frame run start s = alloc_scan count limit scanned 1 0 start s"
  by (subst (1 2) alloc_scan.simps) (simp add: frame_consts)

lemma alloc_scan_used:
  "scanned < limit \<Longrightarrow> frame < MAX_FRAMES \<Longrightarrow> bit_is_used s frame \<Longrightarrow>
   alloc_scan count limit scanned frame run start s =
   alloc_scan count limit (Suc scanned) (Suc frame) 0 start s"
  by (subst alloc_scan.simps) simp

lemma alloc_scan_more:
  "scanned < limit \<Longrightarrow> frame < MAX_FRAMES \<Longrightarrow> \<not> bit_is_used s frame \<Longrightarrow> Suc run \<noteq> count \<Longrightarrow>
   alloc_scan count limit scanned frame run start s =
   alloc_scan count limit (Suc scanned) (Suc frame) (Suc run) (if run = 0 then frame else start) s"
  by (subst alloc_scan.simps) (simp add: Let_def)

lemma alloc_scan_hit:
  "scanned < limit \<Longrightarrow> frame < MAX_FRAMES \<Longrightarrow> \<not> bit_is_used s frame \<Longrightarrow> Suc run = count \<Longrightarrow>
   alloc_scan count limit scanned frame run start s =
   (let st = (if run = 0 then frame else start) in
     (Some (of_nat st * of_nat FRAME_SIZE), alloc_result count s st))"
  by (subst alloc_scan.simps) (simp add: Let_def alloc_result_def)

lemmas alloc_scan_steps = alloc_scan_used alloc_scan_more

text \<open>A run found by the scan: \<open>count\<close> free frames inside the allocatable range.\<close>

definition free_run :: "usize \<Rightarrow> usize \<Rightarrow> frame_state \<Rightarrow> bool" where
  "free_run count start s \<longleftrightarrow>
     1 \<le> start \<and> start + count \<le> MAX_FRAMES \<and> {start..<start + count} \<subseteq> free_set s"

lemma scan_inv_hit:
  assumes "scan_inv count frame run start s" "frame < MAX_FRAMES" "\<not> bit_is_used s frame"
    "Suc run = count"
  shows "free_run count (if run = 0 then frame else start) s"
proof -
  have fr: "frame \<in> free_set s" using assms by (simp add: scan_inv_def free_set_def)
  have "{frame..<Suc frame} = {frame}" by auto
  moreover have "{start..<Suc frame} = insert frame {start..<frame}" if "run > 0"
    using assms(1) that by (auto simp: scan_inv_def)
  ultimately show ?thesis using assms fr
    by (cases "run = 0") (auto simp: scan_inv_def free_run_def)
qed

lemma alloc_scan_sound:
  assumes "scan_inv count frame run start s"
    and "alloc_scan count limit scanned frame run start s = (r, s')"
  shows "(r = None \<and> s' = s) \<or>
    (\<exists>st. r = Some (of_nat st * of_nat FRAME_SIZE) \<and> free_run count st s \<and> s' = alloc_result count s st)"
  using assms
proof (induction "limit - scanned" arbitrary: scanned frame run start)
  case 0
  then show ?case by (simp add: alloc_scan_end)
next
  case (Suc n)
  have step: ?case if inv: "scan_inv count fr rn start s" and fr: "fr < MAX_FRAMES"
    and eq: "alloc_scan count limit scanned fr rn start s = (r, s')" for fr rn
  proof -
    have lt: "scanned < limit" and n: "n = limit - Suc scanned" using Suc.hyps(2) by auto
    consider "bit_is_used s fr" | "\<not> bit_is_used s fr" "Suc rn = count"
      | "\<not> bit_is_used s fr" "Suc rn \<noteq> count" by blast
    then show ?thesis
    proof cases
      case 1
      then show ?thesis using Suc.hyps(1) [OF n scan_inv_used [OF inv fr]] eq lt fr
        by (simp add: alloc_scan_used)
    next
      case 2
      then show ?thesis using scan_inv_hit [OF inv fr 2] eq lt fr
        by (auto simp: alloc_scan_hit Let_def)
    next
      case 3
      then show ?thesis using Suc.hyps(1) [OF n scan_inv_free [OF inv fr 3]] eq lt fr
        by (simp add: alloc_scan_more)
    qed
  qed
  show ?case
  proof (cases "frame < MAX_FRAMES")
    case True
    then show ?thesis using step Suc.prems by blast
  next
    case False
    have "scan_inv count 1 0 start s" using Suc.prems(1) by (auto simp: scan_inv_def frame_consts)
    then show ?thesis using step [of 1 0] Suc.prems(2) False
      by (simp add: alloc_scan_wrap frame_consts)
  qed
qed

text \<open>The scan reaches every free run: first from the hint upwards, then, after wrapping
  to frame 1, up to and past the hint.\<close>

definition found :: "u64 option \<times> frame_state \<Rightarrow> bool" where
  "found r \<longleftrightarrow> fst r \<noteq> None"

lemma found_hit:
  "scanned < limit \<Longrightarrow> frame < MAX_FRAMES \<Longrightarrow> \<not> bit_is_used s frame \<Longrightarrow> Suc run = count \<Longrightarrow>
   found (alloc_scan count limit scanned frame run start s)"
  by (simp add: alloc_scan_hit found_def Let_def)

lemma free_run_at: "free_run count a s \<Longrightarrow> j < count \<Longrightarrow> a + j < MAX_FRAMES \<and> \<not> bit_is_used s (a + j)"
  using subsetD [of "{a..<a + count}" "free_set s" "a + j"] by (simp add: free_run_def free_set_def)

lemma scan_inside_run:
  assumes "free_run count a s" "frame = a + j" "j \<le> run" "run < count"
    and "j < count" "scanned + (count - j) \<le> limit"
  shows "found (alloc_scan count limit scanned frame run start s)"
  using assms
proof (induction "count - j" arbitrary: j scanned frame run start)
  case 0
  then show ?case by simp
next
  case (Suc n)
  have fr: "frame < MAX_FRAMES" "\<not> bit_is_used s frame"
    using free_run_at [OF Suc.prems(1,5)] Suc.prems(2) by auto
  have lim: "scanned < limit" using Suc.prems(5,6) by linarith
  note fr = fr lim
  show ?case
  proof (cases "Suc run = count")
    case True
    then show ?thesis using found_hit fr by blast
  next
    case False
    have "found (alloc_scan count limit (Suc scanned) (Suc frame) (Suc run)
      (if run = 0 then frame else start) s)"
      by (rule Suc.hyps(1) [of "Suc j"]) (use Suc False in auto)
    then show ?thesis using False fr by (simp add: alloc_scan_more)
  qed
qed

lemma scan_before_run:
  assumes "free_run count a s" "frame \<le> a" "run < count"
    and "scanned + (a - frame) + count \<le> limit"
  shows "found (alloc_scan count limit scanned frame run start s)"
  using assms
proof (induction "a - frame" arbitrary: scanned frame run start)
  case 0
  have "frame = a + 0" using "0.hyps" "0.prems"(2) by linarith
  moreover have "0 < count" "scanned + (count - 0) \<le> limit" using "0.prems"(3,4) by linarith+
  ultimately show ?case using "0.prems"(1,3) by (blast intro: scan_inside_run)
next
  case (Suc n)
  have fr: "frame < MAX_FRAMES" "scanned < limit" using Suc by (auto simp: free_run_def)
  have IH: "found (alloc_scan count limit (Suc scanned) (Suc frame) run' start' s)" if "run' < count" for run' start'
    by (rule Suc.hyps(1)) (use Suc that in auto)
  show ?case
  proof (cases "bit_is_used s frame")
    case True
    then show ?thesis using IH [of 0] Suc.prems fr by (simp add: alloc_scan_used)
  next
    case False
    then show ?thesis using IH [of "Suc run"] Suc.prems fr found_hit
      by (cases "Suc run = count") (auto simp: alloc_scan_more)
  qed
qed

lemma scan_wraps_to_run:
  assumes "free_run count a s" "frame \<le> MAX_FRAMES" "run < count"
    and "scanned + (MAX_FRAMES - frame) + a + count \<le> Suc limit"
  shows "found (alloc_scan count limit scanned frame run start s)"
  using assms
proof (induction "MAX_FRAMES - frame" arbitrary: scanned frame run start)
  case 0
  then have "found (alloc_scan count limit scanned 1 0 start s)"
    by (intro scan_before_run) (auto simp: free_run_def)
  then show ?case using 0 by (simp add: alloc_scan_wrap)
next
  case (Suc n)
  have fr: "frame < MAX_FRAMES" "scanned < limit" using Suc by (auto simp: free_run_def)
  have IH: "found (alloc_scan count limit (Suc scanned) (Suc frame) run' start' s)" if "run' < count" for run' start'
    by (rule Suc.hyps(1)) (use Suc that in auto)
  show ?case
  proof (cases "bit_is_used s frame")
    case True
    then show ?thesis using IH [of 0] Suc.prems fr by (simp add: alloc_scan_used)
  next
    case False
    then show ?thesis using IH [of "Suc run"] Suc.prems fr found_hit
      by (cases "Suc run = count") (auto simp: alloc_scan_more)
  qed
qed


section \<open>Allocation\<close>

lemma alloc_frames_cases:
  assumes "0 < count" "SEARCH_HINT s \<le> MAX_FRAMES" "alloc_frames count s = (r, s')"
  shows "(r = None \<and> s' = s) \<or>
    (\<exists>st. r = Some (of_nat st * of_nat FRAME_SIZE) \<and> free_run count st s \<and> s' = alloc_result count s st)"
proof (rule alloc_scan_sound)
  show "scan_inv count (max (SEARCH_HINT s) 1) 0 1 s"
    using assms(1,2) by (simp add: scan_inv_def frame_consts)
  show "alloc_scan count (wadd MAX_FRAMES count) 0 (max (SEARCH_HINT s) 1) 0 1 s = (r, s')"
    using assms(3) by (simp add: alloc_frames_def)
qed

lemma alloc_frames_finds:
  assumes "0 < count" "SEARCH_HINT s \<le> MAX_FRAMES" "free_run count a s"
  shows "found (alloc_frames count s)"
proof -
  let ?h = "max (SEARCH_HINT s) 1"
  have hint: "?h \<le> MAX_FRAMES" using assms(2) by (simp add: frame_consts)
  have a: "1 \<le> a" "a + count \<le> MAX_FRAMES" using assms(3) by (auto simp: free_run_def)
  have lim: "wadd MAX_FRAMES count = MAX_FRAMES + count"
    using a by (intro wadd_exact) (simp add: frame_consts)
  show ?thesis
  proof (cases "?h \<le> a")
    case True
    then show ?thesis unfolding alloc_frames_def lim
      by (intro scan_before_run [OF assms(3)]) (use assms(1) a in auto)
  next
    case False
    then show ?thesis unfolding alloc_frames_def lim
      by (intro scan_wraps_to_run [OF assms(3) hint]) (use assms(1) a hint in auto)
  qed
qed

lemma unat_frame_addr: "st < MAX_FRAMES \<Longrightarrow> unat (of_nat st * of_nat FRAME_SIZE :: u64) = st * FRAME_SIZE"
  by (simp add: frame_consts unat_word_ariths unat_of_nat take_bit_eq_mod)

lemma frame_index_addr: "st < MAX_FRAMES \<Longrightarrow> frame_index (of_nat st * of_nat FRAME_SIZE) = st"
  by (simp add: frame_index_def unat_frame_addr) (simp add: frame_consts)

lemma alloc_result_free_set:
  assumes "wf_frames s" "free_run count st s"
  shows "free_set (alloc_result count s st) = free_set s - {st..<st + count}"
  using assms by (simp add: alloc_result_def free_run_def free_set_take)

lemma frames_inv_alloc_result:
  assumes inv: "frames_inv s" and run: "free_run count st s"
  shows "frames_inv (alloc_result count s st)"
proof -
  let ?A = "{st..<st + count}"
  have wf: "wf_frames s" and free: "FRAME_FREE s = card (free_set s)" using inv by (auto simp: frames_inv_def)
  have sub: "?A \<subseteq> free_set s" and st: "1 \<le> st" "st + count \<le> MAX_FRAMES" using run by (auto simp: free_run_def)
  have "card (free_set s) \<le> card {..<MAX_FRAMES}"
    by (rule card_mono) (auto simp: free_set_def)
  then have small: "FRAME_FREE s < 2 ^ 64" using free by (simp add: frame_consts)
  have le: "count \<le> FRAME_FREE s" using card_mono [OF finite_free_set sub] free by simp
  have "card (free_set s - ?A) = card (free_set s) - count"
    using sub by (simp add: card_Diff_subset)
  moreover have "FRAME_FREE (alloc_result count s st) = FRAME_FREE s - count"
    using small le by (simp add: alloc_result_def)
  ultimately have "FRAME_FREE (alloc_result count s st) = card (free_set (alloc_result count s st))"
    unfolding alloc_result_free_set [OF wf run] free by simp
  then show ?thesis using inv wf st
    by (auto simp: frames_inv_def alloc_result_def bit_is_used_set_range)
qed

text \<open>C1. Allocation of a range, in every case. On success the returned address is the first
  byte of \<open>count\<close> contiguous frames that were all free, lie in the direct map above frame 0
  and are exactly the frames removed from the free set; the free counter stays exact. The
  allocator reports failure only when no such run of frames exists anywhere.\<close>

theorem alloc_frames_correct:
  assumes "frames_inv s" "0 < count" "alloc_frames count s = (r, s')"
  shows "frames_inv s' \<and>
    (case r of
       Some phys \<Rightarrow> \<exists>st. unat phys = st * FRAME_SIZE \<and> 1 \<le> st \<and> st + count \<le> MAX_FRAMES \<and>
         {st..<st + count} \<subseteq> free_set s \<and> free_set s' = free_set s - {st..<st + count} \<and>
         FRAME_FREE s' + count = FRAME_FREE s
     | None \<Rightarrow> s' = s \<and> (\<forall>st. 1 \<le> st \<longrightarrow> st + count \<le> MAX_FRAMES \<longrightarrow> \<not> {st..<st + count} \<subseteq> free_set s))"
proof (cases r)
  case None
  have hint: "SEARCH_HINT s \<le> MAX_FRAMES" using assms(1) by (simp add: frames_inv_def)
  have "s' = s" using alloc_frames_cases [OF assms(2) hint assms(3)] None by auto
  moreover have "\<not> free_run count st s" for st
    using alloc_frames_finds [OF assms(2) hint] assms(3) None by (auto simp: found_def)
  ultimately show ?thesis using None assms(1) by (auto simp: free_run_def)
next
  case (Some phys)
  have hint: "SEARCH_HINT s \<le> MAX_FRAMES" and wf: "wf_frames s" using assms(1) by (auto simp: frames_inv_def)
  obtain st where st: "phys = of_nat st * of_nat FRAME_SIZE" "free_run count st s" "s' = alloc_result count s st"
    using alloc_frames_cases [OF assms(2) hint assms(3)] Some by auto
  have inv: "frames_inv s'" using frames_inv_alloc_result [OF assms(1) st(2)] st(3) by simp
  have fs: "free_set s' = free_set s - {st..<st + count}" using alloc_result_free_set [OF wf st(2)] st(3) by simp
  have run: "1 \<le> st" "st + count \<le> MAX_FRAMES" "{st..<st + count} \<subseteq> free_set s"
    using st(2) by (auto simp: free_run_def)
  have "card (free_set s') + count = card (free_set s)"
    using fs run(3) card_mono [OF finite_free_set run(3)] by (simp add: card_Diff_subset)
  then have "FRAME_FREE s' + count = FRAME_FREE s" using inv assms(1) by (simp add: frames_inv_def)
  moreover have "unat phys = st * FRAME_SIZE" using st(1) run(2) assms(2) by (simp add: unat_frame_addr)
  ultimately show ?thesis using Some inv fs run by auto
qed


section \<open>Release\<close>

lemma free_frames_in_range:
  assumes "wf_frames s" "frame_index phys + count \<le> MAX_FRAMES"
  shows "free_frames phys count s =
    Some ((set_range (frame_index phys) (frame_index phys + count) False s)
            \<lparr>FRAME_FREE := wadd (FRAME_FREE s) count\<rparr>)"
  using assms frame_word_in_range [OF assms(1)]
  by (fastforce simp: free_frames_def Let_def not_le)

lemma free_count_small: "frames_inv s \<Longrightarrow> FRAME_FREE s \<le> MAX_FRAMES"
  using card_mono [of "{..<MAX_FRAMES}" "free_set s"] by (auto simp: frames_inv_def free_set_def)

lemma free_frames_release:
  assumes "frames_inv s" "1 \<le> frame_index phys" "frame_index phys + count \<le> MAX_FRAMES"
    and "{frame_index phys..<frame_index phys + count} \<inter> free_set s = {}"
  shows "\<exists>s'. free_frames phys count s = Some s' \<and> frames_inv s' \<and>
    free_set s' = free_set s \<union> {frame_index phys..<frame_index phys + count} \<and>
    FRAME_FREE s' = FRAME_FREE s + count"
proof -
  let ?i = "frame_index phys" and ?A = "{frame_index phys..<frame_index phys + count}"
  let ?t = "set_range ?i (?i + count) False s"
  have wf: "wf_frames s" and free: "FRAME_FREE s = card (free_set s)" using assms(1) by (auto simp: frames_inv_def)
  have fs: "free_set ?t = free_set s \<union> ?A" using free_set_release [OF wf assms(2,3)] .
  have sum: "FRAME_FREE s + count = card (free_set ?t)"
    unfolding fs free using assms(4) by (subst card_Un_disjoint) auto
  have "wadd (FRAME_FREE s) count = FRAME_FREE s + count"
    using free_count_small [OF assms(1)] assms(3) by (intro wadd_exact) (simp add: frame_consts)
  moreover have "bit_is_used ?t 0" using assms(1,2) bit_is_used_set_range [OF wf assms(3)]
    by (simp add: frames_inv_def)
  ultimately show ?thesis
    using assms(1) wf fs sum free_frames_in_range [OF wf assms(3)] by (simp add: frames_inv_def)
qed

lemma free_frames_panics:
  assumes "wf_frames s" "MAX_FRAMES < frame_index phys + count" "0 < count"
  shows "free_frames phys count s = None"
proof -
  let ?f = "frame_index phys + count - 1"
  have "?f \<in> set [frame_index phys..<frame_index phys + count]" using assms(3) by auto
  moreover have "length (FRAME_BITMAP s) \<le> ?f div 64"
    using assms by (simp add: wf_frames_def frame_consts less_eq_div_iff_mult_less_eq)
  ultimately show ?thesis unfolding free_frames_def Let_def by (metis (no_types, lifting))
qed


text \<open>Allocating a range and releasing it again restores the free set and the counter.\<close>

theorem alloc_free_roundtrip:
  assumes "frames_inv s" "0 < count" "alloc_frames count s = (Some phys, s1)"
  shows "\<exists>s2. free_frames phys count s1 = Some s2 \<and> frames_inv s2 \<and>
    free_set s2 = free_set s \<and> FRAME_FREE s2 = FRAME_FREE s"
proof -
  have hint: "SEARCH_HINT s \<le> MAX_FRAMES" and wf: "wf_frames s" using assms(1) by (auto simp: frames_inv_def)
  obtain st where st: "phys = of_nat st * of_nat FRAME_SIZE" "free_run count st s" "s1 = alloc_result count s st"
    using alloc_frames_cases [OF assms(2) hint assms(3)] by auto
  have run: "1 \<le> st" "st + count \<le> MAX_FRAMES" "{st..<st + count} \<subseteq> free_set s"
    using st(2) by (auto simp: free_run_def)
  have idx: "frame_index phys = st" using st(1) run(2) assms(2) by (simp add: frame_index_addr)
  have inv: "frames_inv s1" using frames_inv_alloc_result [OF assms(1) st(2)] st(3) by simp
  have fs: "free_set s1 = free_set s - {st..<st + count}" using alloc_result_free_set [OF wf st(2)] st(3) by simp
  obtain s2 where s2: "free_frames phys count s1 = Some s2" "frames_inv s2"
    "free_set s2 = free_set s1 \<union> {st..<st + count}"
    using free_frames_release [OF inv, of phys count] idx run fs by auto
  have "free_set s2 = free_set s" using s2(3) fs run(3) by auto
  then show ?thesis using s2 assms(1) by (auto simp: frames_inv_def)
qed

section \<open>Boot-time initialisation\<close>

definition frame_inside :: "nat \<Rightarrow> u64 \<Rightarrow> u64 \<Rightarrow> bool" where
  "frame_inside f b l \<longleftrightarrow> unat b \<le> f * FRAME_SIZE \<and> (f + 1) * FRAME_SIZE \<le> unat b + unat l"

definition frame_touches :: "nat \<Rightarrow> u64 \<Rightarrow> u64 \<Rightarrow> bool" where
  "frame_touches f b l \<longleftrightarrow> unat b < (f + 1) * FRAME_SIZE \<and> f * FRAME_SIZE < unat b + unat l"

lemma paint_range_free:
  assumes "wf_frames s"
  shows "free_set (paint_range b l False s) = free_set s \<union> {f. 1 \<le> f \<and> f < MAX_FRAMES \<and> frame_inside f b l}"
proof -
  let ?e = "min (unat b + unat l) (2 ^ 64 - 1)"
  have "f < ?e div FRAME_SIZE \<longleftrightarrow> (f + 1) * FRAME_SIZE \<le> unat b + unat l" if "f < MAX_FRAMES" for f
    using that by (auto simp: frame_consts less_eq_div_iff_mult_less_eq Suc_le_eq [symmetric])
  moreover have "div_ceil (unat b) FRAME_SIZE \<le> f \<longleftrightarrow> unat b \<le> f * FRAME_SIZE" for f
    by (rule div_ceil_le_iff) (simp add: FRAME_SIZE_def)
  ultimately show ?thesis using assms
    by (auto simp: paint_range_def Let_def free_set_def bit_is_used_set_range frame_inside_def
        min_le_iff_disj)
qed

lemma paint_range_used:
  assumes "wf_frames s"
  shows "free_set (paint_range b l True s) = free_set s - {f. frame_touches f b l}"
proof -
  let ?e = "min (unat b + unat l) (2 ^ 64 - 1)"
  have "f < div_ceil ?e FRAME_SIZE \<longleftrightarrow> f * FRAME_SIZE < unat b + unat l" if "f < MAX_FRAMES" for f
    using that div_ceil_le_iff [of FRAME_SIZE ?e f] by (auto simp: frame_consts not_le [symmetric])
  moreover have "unat b div FRAME_SIZE \<le> f \<longleftrightarrow> unat b < (f + 1) * FRAME_SIZE" for f
    by (auto simp: frame_consts div_less_iff_less_mult less_Suc_eq_le [symmetric])
  ultimately show ?thesis using assms
    by (auto simp: paint_range_def Let_def free_set_def bit_is_used_set_range frame_touches_def
        min_le_iff_disj)
qed

lemma paint_range_keeps [simp]:
  "wf_frames (paint_range b l u s) = wf_frames s"
  "FRAME_TOTAL (paint_range b l u s) = FRAME_TOTAL s"
  "SEARCH_HINT (paint_range b l u s) = SEARCH_HINT s"
  by (simp_all add: paint_range_def Let_def)

lemma paint_range_frame0:
  "wf_frames s \<Longrightarrow> bit_is_used (paint_range b l u s) 0 = bit_is_used s 0"
  by (auto simp: paint_range_def Let_def bit_is_used_set_range frame_consts min_def)

lemma init_statics_used: "bit_is_used init_statics f" if "f < MAX_FRAMES"
  using that by (simp add: bit_is_used_iff init_statics_def frame_consts)

lemma init_statics_inv:
  "wf_frames init_statics" "free_set init_statics = {}" "bit_is_used init_statics 0"
  "SEARCH_HINT init_statics = 1" "FRAME_TOTAL init_statics = MAX_FRAMES"
  by (auto simp: free_set_def init_statics_used)
     (simp_all add: init_statics_def wf_frames_def bit_is_used_iff frame_consts)

definition usable_frames :: "u32 \<Rightarrow> region list \<Rightarrow> nat set" where
  "usable_frames usable rs =
     {f. 1 \<le> f \<and> f < MAX_FRAMES \<and> (\<exists>r \<in> set rs. r_kind r = usable \<and> frame_inside f (r_base r) (r_len r))}"

lemma free_regions_frames:
  assumes "wf_frames s" "free_regions usable rs (n, kib, s) = (n', kib', s')"
  shows "wf_frames s' \<and> free_set s' = free_set s \<union> usable_frames usable rs \<and> n' = n + length rs \<and>
    bit_is_used s' 0 = bit_is_used s 0 \<and> SEARCH_HINT s' = SEARCH_HINT s \<and> FRAME_TOTAL s' = FRAME_TOTAL s"
  using assms
proof (induction rs arbitrary: n kib s)
  case Nil
  then show ?case by (auto simp: usable_frames_def)
next
  case (Cons r rs)
  show ?case
  proof (cases "r_kind r = usable")
    case True
    then show ?thesis using Cons.prems Cons.IH [of "paint_range (r_base r) (r_len r) False s" "Suc n"]
      by (auto simp: usable_frames_def paint_range_free paint_range_frame0)
  next
    case False
    then show ?thesis using Cons.prems Cons.IH [of s "Suc n"] by (auto simp: usable_frames_def)
  qed
qed

lemma count_free_inv:
  "wf_frames t \<Longrightarrow> bit_is_used t 0 \<Longrightarrow> SEARCH_HINT t \<le> MAX_FRAMES \<Longrightarrow>
   frames_inv (t\<lparr>FRAME_FREE := count_free t\<rparr>)"
  by (simp add: frames_inv_def count_free_card)

text \<open>Limine boot: the allocator starts with exactly the frames that lie entirely inside a
  USABLE region of the bootloader's map and below the direct-map limit, frame 0 excepted, and
  it reports that number.\<close>

theorem init_limine_correct:
  "frames_inv (snd (init_limine limine_map)) \<and>
   free_set (snd (init_limine limine_map)) = usable_frames 0 limine_map \<and>
   free_frames_rep (fst (init_limine limine_map)) = card (usable_frames 0 limine_map) \<and>
   region_count (fst (init_limine limine_map)) = length limine_map"
proof -
  obtain n kib t where t: "free_regions 0 limine_map (0, 0, init_statics) = (n, kib, t)"
    by (metis prod_cases3)
  note fr = free_regions_frames [OF init_statics_inv(1) t]
  then show ?thesis using count_free_inv [of t] init_statics_inv
    by (simp add: init_limine_def t count_free_card frame_consts Let_def)
qed

definition multiboot_frames :: "ram \<Rightarrow> u32 \<Rightarrow> nat set" where
  "multiboot_frames m mb_info =
     (case from_multiboot m mb_info of
        Some it \<Rightarrow> usable_frames 1 (map_regions m it)
      | None \<Rightarrow> {f. 1 \<le> f \<and> f < MAX_FRAMES \<and>
                  frame_inside f KERNEL_LOAD_BASE (multiboot_upper_memory m mb_info)})"

definition reserved_frames :: "u64 \<Rightarrow> nat set" where
  "reserved_frames bss_end =
     {f. frame_touches f 0 0x1000 \<or> frame_touches f 0x9000 0xA000 \<or>
         frame_touches f 0xA0000 0x100000 \<or> frame_touches f 0x100000 0x200000 \<or>
         frame_touches f KERNEL_LOAD_BASE (link_to_phys bss_end - KERNEL_LOAD_BASE)}"

lemma reserve_low_keeps [simp]:
  "wf_frames (reserve_low s) = wf_frames s"
  "FRAME_TOTAL (reserve_low s) = FRAME_TOTAL s"
  "SEARCH_HINT (reserve_low s) = SEARCH_HINT s"
  by (simp_all add: reserve_low_def)

lemma reserve_low_frame0: "wf_frames s \<Longrightarrow> bit_is_used (reserve_low s) 0 = bit_is_used s 0"
  by (simp add: reserve_low_def paint_range_frame0)

lemma mem_init_reserve:
  assumes "wf_frames t"
  shows "free_set (paint_range KERNEL_LOAD_BASE (link_to_phys bss_end - KERNEL_LOAD_BASE) True (reserve_low t))
    = free_set t - reserved_frames bss_end"
  using assms by (auto simp: reserve_low_def paint_range_used reserved_frames_def)

text \<open>C3. Multiboot boot: the allocator starts with exactly the frames that lie inside a usable
  region of the firmware map (or, without a map, inside upper memory) and touch neither the
  reserved low ranges nor the kernel image, and it reports that number.\<close>

theorem mem_init_correct:
  "frames_inv (snd (mem_init m bss_end mb_info)) \<and>
   free_set (snd (mem_init m bss_end mb_info)) = multiboot_frames m mb_info - reserved_frames bss_end \<and>
   free_frames_rep (fst (mem_init m bss_end mb_info)) =
     card (multiboot_frames m mb_info - reserved_frames bss_end)"
proof -
  obtain n kib t where t: "(case from_multiboot m mb_info of
           Some it \<Rightarrow> free_regions 1 (map_regions m it) (0, 0, init_statics)
         | None \<Rightarrow> (let upper = multiboot_upper_memory m mb_info in
             (1, upper, paint_range KERNEL_LOAD_BASE upper False init_statics))) = (n, kib, t)"
    by (metis prod_cases3)
  have ft: "wf_frames t \<and> free_set t = multiboot_frames m mb_info \<and> bit_is_used t 0 \<and> SEARCH_HINT t = 1"
  proof (cases "from_multiboot m mb_info")
    case None
    then show ?thesis using t init_statics_inv
      by (auto simp: Let_def multiboot_frames_def paint_range_free paint_range_frame0)
  next
    case (Some it)
    then show ?thesis using t init_statics_inv free_regions_frames [OF init_statics_inv(1)]
      by (fastforce simp: multiboot_frames_def)
  qed
  let ?u = "paint_range KERNEL_LOAD_BASE (link_to_phys bss_end - KERNEL_LOAD_BASE) True (reserve_low t)"
  have "frames_inv (?u\<lparr>FRAME_FREE := count_free ?u\<rparr>)"
    using ft by (intro count_free_inv) (simp_all add: paint_range_frame0 reserve_low_frame0 frame_consts)
  then show ?thesis using ft mem_init_reserve [of t]
    unfolding mem_init_def t by (simp add: kernel_image_phys_range_def Let_def count_free_card)
qed

text \<open>Without a firmware map the boot report's \<open>usable_kib\<close> holds a number of bytes: it is
  1024 times the kibibyte count read from the Multiboot information.\<close>

theorem mem_init_usable_kib_is_bytes:
  assumes "mb_info \<noteq> 0" "from_multiboot m mb_info = None"
  shows "usable_kib (fst (mem_init m bss_end mb_info)) = 1024 * ucast (read32 m (unat mb_info + 8))"
  using assms by (simp add: mem_init_def multiboot_upper_memory_def kernel_image_phys_range_def Let_def)

section \<open>Concrete runs\<close>

definition demo_frames :: frame_state where
  "demo_frames = (set_range 1 9 False init_statics)\<lparr>FRAME_FREE := 8\<rparr>"

lemma demo_frames_free_set: "free_set demo_frames = {1..<9}"
  using free_set_release [OF init_statics_inv(1), of 1 9] init_statics_inv
  by (simp add: demo_frames_def frame_consts)

lemma demo_frames_inv: "frames_inv demo_frames"
  using demo_frames_free_set init_statics_inv
  by (simp add: frames_inv_def) (simp add: demo_frames_def bit_is_used_set_range frame_consts)

lemma demo_frames_alloc:
  "alloc_frames 2 demo_frames = (Some 4096, alloc_result 2 demo_frames 1)"
proof -
  have used: "bit_is_used demo_frames f = (\<not> (1 \<le> f \<and> f < 9))" if "f < MAX_FRAMES" for f
    using that init_statics_inv init_statics_used
    by (simp add: demo_frames_def bit_is_used_set_range frame_consts)
  have hint: "SEARCH_HINT demo_frames = 1" by (simp add: demo_frames_def init_statics_inv)
  have small: "wadd MAX_FRAMES 2 = 262146" "1 < MAX_FRAMES" "Suc 1 < MAX_FRAMES"
    by (simp_all add: frame_consts wadd_def)
  have "alloc_frames 2 demo_frames = alloc_scan 2 262146 (Suc 0) (Suc 1) (Suc 0) 1 demo_frames"
    unfolding alloc_frames_def hint small(1) using used [of 1] small
    by (simp add: alloc_scan_more)
  also have "\<dots> = (Some 4096, alloc_result 2 demo_frames 1)"
    using used [of 2] small by (simp add: alloc_scan_hit numeral_2_eq_2) (simp add: frame_consts)
  finally show ?thesis .
qed

theorem alloc_frames_correct_witness:
  "frames_inv (alloc_result 2 demo_frames 1) \<and>
   free_set (alloc_result 2 demo_frames 1) = free_set demo_frames - {1..<3}"
proof -
  obtain st where st: "unat (4096 :: u64) = st * FRAME_SIZE"
    "free_set (alloc_result 2 demo_frames 1) = free_set demo_frames - {st..<st + 2}"
    "frames_inv (alloc_result 2 demo_frames 1)"
    using alloc_frames_correct [OF demo_frames_inv _ demo_frames_alloc] by auto
  from st(1) have "st = 1" by (simp add: FRAME_SIZE_def)
  with st show ?thesis by (simp add: numeral_3_eq_3)
qed


theorem alloc_free_roundtrip_witness:
  "\<exists>s2. free_frames 4096 2 (alloc_result 2 demo_frames 1) = Some s2 \<and> free_set s2 = {1..<9}"
  using alloc_free_roundtrip [OF demo_frames_inv _ demo_frames_alloc] demo_frames_free_set by auto

theorem mem_init_usable_kib_witness:
  "usable_kib (fst (mem_init (\<lambda>a. if a = 0x9008 then 64 else 0) 0xFFFF800000200000 0x9000)) = 1024 * 64"
proof -
  let ?m = "\<lambda>a :: nat. if a = 0x9008 then 64 else 0 :: u8"
  have "from_multiboot ?m 0x9000 = None"
    by (simp add: from_multiboot_def read32_def read_bytes_def from_le_def upt_rec Let_def)
  from mem_init_usable_kib_is_bytes [OF _ this] show ?thesis
    by (simp add: read32_def read_bytes_def from_le_def upt_rec)
qed

end
