(* ===== verification/Sched.thy ===== *)
theory Sched
  imports Ring_Queue
begin

text \<open>
  The single-CPU scheduler of \<^verbatim>\<open>kernel/rust/src/sched.rs\<close>: task table, process slots, the
  run queue and the preemption timer, with the interrupt frame of \<^verbatim>\<open>idt.rs\<close> and the TSS
  stack pointer of \<^verbatim>\<open>gdt.rs\<close> that a switch writes. Link-time addresses (task stacks, FPU
  areas) are the parameter \<open>layout\<close>. \<open>sched_inv\<close> is the invariant of the task table;
  \<open>sched_step\<close> collects the entry points as a step relation.
\<close>

unbundle bit_operations_syntax

section \<open>State\<close>

definition MAX_TASKS :: usize where "MAX_TASKS = 4"
definition STACK_SIZE :: u64 where "STACK_SIZE = 16 * 1024"
definition QUANTUM_TICKS :: nat where "QUANTUM_TICKS = 10"
definition READY :: u8 where "READY = 1"
definition RUNNING :: u8 where "RUNNING = 2"
definition DEAD :: u8 where "DEAD = 3"

record int_frame =
  fr_r15 :: u64
  fr_r14 :: u64
  fr_r13 :: u64
  fr_r12 :: u64
  fr_r11 :: u64
  fr_r10 :: u64
  fr_r9 :: u64
  fr_r8 :: u64
  fr_rbp :: u64
  fr_rdi :: u64
  fr_rsi :: u64
  fr_rdx :: u64
  fr_rcx :: u64
  fr_rbx :: u64
  fr_rax :: u64
  fr_vector :: u64
  fr_err :: u64
  fr_rip :: u64
  fr_cs :: u64
  fr_rflags :: u64
  fr_rsp :: u64
  fr_ss :: u64

definition INT_FRAME_BYTES :: u64 where "INT_FRAME_BYTES = 22 * 8"

definition zero_frame :: int_frame where
  "zero_frame = \<lparr>fr_r15 = 0, fr_r14 = 0, fr_r13 = 0, fr_r12 = 0, fr_r11 = 0, fr_r10 = 0,
     fr_r9 = 0, fr_r8 = 0, fr_rbp = 0, fr_rdi = 0, fr_rsi = 0, fr_rdx = 0, fr_rcx = 0,
     fr_rbx = 0, fr_rax = 0, fr_vector = 0, fr_err = 0, fr_rip = 0, fr_cs = 0,
     fr_rflags = 0, fr_rsp = 0, fr_ss = 0\<rparr>"

record task =
  t_frame :: u64
  t_stack_top :: u64
  t_state :: u8
  t_slot :: u8
  t_ticks :: u64

record process_slot =
  pid :: u32
  main_thread :: u8
  event_port :: u16
  zone :: u8

record layout =
  stack_base :: "nat \<Rightarrow> u64"
  fx_area :: "nat \<Rightarrow> u64"

record sched =
  TASKS :: "task list"
  SLOTS :: "process_slot list"
  CURRENT :: usize
  QUEUE :: "usize list"
  Q_HEAD :: usize
  Q_LEN :: usize
  REMAINING :: nat
  SWITCHES :: u64
  current_fx_area :: u64
  syscall_kernel_rsp :: u64
  tss_rsp0 :: u64
  frame_store :: "u64 \<Rightarrow> int_frame"

definition empty_task :: task where
  "empty_task = \<lparr>t_frame = 0, t_stack_top = 0, t_state = 0, t_slot = 0, t_ticks = 0\<rparr>"

definition empty_slot :: process_slot where
  "empty_slot = \<lparr>pid = 0, main_thread = 0, event_port = 0, zone = 0\<rparr>"

definition sched_statics :: sched where
  "sched_statics = \<lparr>TASKS = replicate MAX_TASKS empty_task, SLOTS = replicate MAX_TASKS empty_slot,
     CURRENT = 0, QUEUE = replicate MAX_TASKS 0, Q_HEAD = 0, Q_LEN = 0, REMAINING = QUANTUM_TICKS,
     SWITCHES = 0, current_fx_area = 0, syscall_kernel_rsp = 0, tss_rsp0 = 0,
     frame_store = (\<lambda>_. zero_frame)\<rparr>"

section \<open>Operations\<close>

definition enqueue :: "usize \<Rightarrow> sched \<Rightarrow> sched" where
  "enqueue index s =
     (if Q_LEN s < MAX_TASKS
      then s\<lparr>QUEUE := (QUEUE s)[(Q_HEAD s + Q_LEN s) mod MAX_TASKS := index], Q_LEN := Q_LEN s + 1\<rparr>
      else s)"

definition dequeue :: "sched \<Rightarrow> usize option \<times> sched" where
  "dequeue s =
     (if Q_LEN s = 0 then (None, s)
      else (Some (QUEUE s ! Q_HEAD s),
            s\<lparr>Q_HEAD := (Q_HEAD s + 1) mod MAX_TASKS, Q_LEN := Q_LEN s - 1\<rparr>))"

definition stack_top_of :: "layout \<Rightarrow> usize \<Rightarrow> u64" where
  "stack_top_of L index = ((stack_base L index + STACK_SIZE) AND NOT 15) - 8"

definition set_gdt_kernel_stack :: "u64 \<Rightarrow> sched \<Rightarrow> sched" where
  "set_gdt_kernel_stack rsp s = s\<lparr>tss_rsp0 := rsp\<rparr>"

definition spawn :: "layout \<Rightarrow> usize \<Rightarrow> u64 \<Rightarrow> sched \<Rightarrow> sched" where
  "spawn L index entry s =
     (let top = stack_top_of L index;
          frame = top - INT_FRAME_BYTES;
          content = zero_frame\<lparr>fr_rip := entry, fr_cs := 0x08, fr_rflags := 0x202,
                               fr_rsp := top, fr_ss := 0x10\<rparr>;
          task = (TASKS s ! index)\<lparr>t_frame := frame, t_stack_top := top,
                               t_slot := of_nat index, t_state := READY\<rparr>
      in enqueue index
           (s\<lparr>TASKS := (TASKS s)[index := task],
              SLOTS := (SLOTS s)[index := \<lparr>pid = of_nat (index + 1), main_thread = of_nat index,
                                           event_port = 0, zone = of_nat index\<rparr>],
              frame_store := (frame_store s)(frame := content)\<rparr>))"

definition sched_init :: "layout \<Rightarrow> u64 \<Rightarrow> u64 \<Rightarrow> u64 \<Rightarrow> sched \<Rightarrow> sched" where
  "sched_init L rsp first second s =
     (let s = s\<lparr>TASKS := (TASKS s)[0 := (TASKS s ! 0)\<lparr>t_state := RUNNING, t_slot := 0\<rparr>],
                SLOTS := (SLOTS s)[0 := \<lparr>pid = 1, main_thread = 0, event_port = 0, zone = 0\<rparr>],
                current_fx_area := fx_area L 0, syscall_kernel_rsp := rsp\<rparr>
      in (spawn L 2 second (spawn L 1 first s))\<lparr>REMAINING := QUANTUM_TICKS\<rparr>)"

text \<open>The value an interrupt stub gets back: the frame to restore, the end of a thread with
  nothing left to run (the loop of \<^verbatim>\<open>hlt\<close>), or the \<^verbatim>\<open>unwrap\<close> panic.\<close>

datatype resume = Resume u64 | Halted | Panicked

definition set_task_state :: "usize \<Rightarrow> u8 \<Rightarrow> sched \<Rightarrow> sched" where
  "set_task_state i v s = s\<lparr>TASKS := (TASKS s)[i := (TASKS s ! i)\<lparr>t_state := v\<rparr>]\<rparr>"

definition schedule :: "layout \<Rightarrow> u64 \<Rightarrow> bool \<Rightarrow> sched \<Rightarrow> resume \<times> sched" where
  "schedule L frame requeue s =
     (if Q_LEN s = 0 then
        (if \<not> requeue then (Halted, set_task_state (CURRENT s) DEAD s)
         else (Resume frame, s\<lparr>REMAINING := QUANTUM_TICKS\<rparr>))
      else
        let cur = CURRENT s;
            s = s\<lparr>TASKS := (TASKS s)[cur := (TASKS s ! cur)\<lparr>t_frame := frame\<rparr>]\<rparr>;
            s = (if requeue then enqueue cur (set_task_state cur READY s)
                 else set_task_state cur DEAD s)
        in case dequeue s of
             (None, s) \<Rightarrow> (Panicked, s)
           | (Some nxt, s) \<Rightarrow>
               let s = set_task_state nxt RUNNING (s\<lparr>CURRENT := nxt\<rparr>);
                   top = t_stack_top (TASKS s ! nxt);
                   s = s\<lparr>REMAINING := QUANTUM_TICKS, SWITCHES := SWITCHES s + 1,
                         current_fx_area := fx_area L nxt\<rparr>;
                   s = (set_gdt_kernel_stack top s)\<lparr>syscall_kernel_rsp := top\<rparr>
               in (Resume (t_frame (TASKS s ! nxt)), s))"

definition spawn_user :: "layout \<Rightarrow> u64 \<Rightarrow> u64 \<Rightarrow> u16 \<Rightarrow> sched \<Rightarrow> bool \<times> sched" where
  "spawn_user L rip user_rsp port s =
     (let index = 3; task = TASKS s ! index in
      if t_state task \<noteq> 0 \<and> t_state task \<noteq> DEAD then (False, s)
      else
        let top = stack_top_of L index;
            frame = top - INT_FRAME_BYTES;
            content = zero_frame\<lparr>fr_rip := rip, fr_cs := 0x33, fr_rflags := 0x202,
                                 fr_rsp := user_rsp, fr_ss := 0x2b, fr_rdi := ucast port\<rparr>;
            task = task\<lparr>t_frame := frame, t_stack_top := top, t_slot := of_nat index,
                        t_state := READY, t_ticks := 0\<rparr>
        in (True, enqueue index
             (s\<lparr>TASKS := (TASKS s)[index := task],
                SLOTS := (SLOTS s)[index := \<lparr>pid = of_nat (index + 1), main_thread = of_nat index,
                                             event_port = port, zone = 0\<rparr>],
                frame_store := (frame_store s)(frame := content)\<rparr>)))"

definition sched_on_tick :: "layout \<Rightarrow> u64 \<Rightarrow> sched \<Rightarrow> resume \<times> sched" where
  "sched_on_tick L frame s =
     (if current_fx_area s = 0 then (Resume frame, s)
      else
        let cur = CURRENT s;
            s = s\<lparr>TASKS := (TASKS s)[cur := (TASKS s ! cur)\<lparr>t_ticks := t_ticks (TASKS s ! cur) + 1\<rparr>],
                  REMAINING := REMAINING s - 1\<rparr>
        in if REMAINING s = 0 then schedule L frame True s else (Resume frame, s))"

definition on_yield :: "layout \<Rightarrow> u64 \<Rightarrow> sched \<Rightarrow> resume \<times> sched" where
  "on_yield L frame s =
     (if current_fx_area s = 0 then (Resume frame, s) else schedule L frame True s)"

definition on_exit :: "layout \<Rightarrow> u64 \<Rightarrow> sched \<Rightarrow> resume \<times> sched" where
  "on_exit L frame s = schedule L frame False s"

definition current_slot_index :: "sched \<Rightarrow> usize" where
  "current_slot_index s = unat (t_slot (TASKS s ! CURRENT s))"

definition current_pid :: "sched \<Rightarrow> u32" where
  "current_pid s = pid (SLOTS s ! current_slot_index s)"

definition current_slot :: "sched \<Rightarrow> process_slot" where
  "current_slot s = SLOTS s ! current_slot_index s"

definition task_dead :: "sched \<Rightarrow> usize \<Rightarrow> bool" where
  "task_dead s index = (t_state (TASKS s ! index) = DEAD)"

definition task_ticks :: "sched \<Rightarrow> usize \<Rightarrow> u64" where
  "task_ticks s index = t_ticks (TASKS s ! index)"

definition set_event_port :: "u16 \<Rightarrow> sched \<Rightarrow> sched" where
  "set_event_port port s =
     s\<lparr>SLOTS := (SLOTS s)[current_slot_index s := (SLOTS s ! current_slot_index s)\<lparr>event_port := port\<rparr>]\<rparr>"

definition set_zone :: "u8 \<Rightarrow> sched \<Rightarrow> sched" where
  "set_zone z s =
     s\<lparr>SLOTS := (SLOTS s)[current_slot_index s := (SLOTS s ! current_slot_index s)\<lparr>zone := z\<rparr>]\<rparr>"

section \<open>The run queue as a FIFO\<close>

definition runq :: "sched \<Rightarrow> usize list" where
  "runq s = ring_items (QUEUE s) (Q_HEAD s) (Q_LEN s)"

definition wf_sched :: "sched \<Rightarrow> bool" where
  "wf_sched s \<longleftrightarrow> length (TASKS s) = MAX_TASKS \<and> length (SLOTS s) = MAX_TASKS \<and>
     length (QUEUE s) = MAX_TASKS \<and> Q_HEAD s < MAX_TASKS \<and> Q_LEN s \<le> MAX_TASKS"

lemma length_runq [simp]: "length (runq s) = Q_LEN s"
  by (simp add: runq_def)

definition try_enqueue :: "usize \<Rightarrow> sched \<Rightarrow> bool \<times> sched" where
  "try_enqueue index s = (Q_LEN s < MAX_TASKS, enqueue index s)"

lemma runq_enqueue: "wf_sched s \<Longrightarrow> Q_LEN s < MAX_TASKS \<Longrightarrow> runq (enqueue i s) = runq s @ [i]"
  using ring_items_push [of "Q_LEN s" "QUEUE s" "Q_HEAD s" i]
  by (simp add: runq_def enqueue_def wf_sched_def)

lemma runq_dequeue:
  "wf_sched s \<Longrightarrow> runq s = y # ys \<Longrightarrow> fst (dequeue s) = Some y \<and> runq (snd (dequeue s)) = ys"
  using ring_items_pop [of "Q_LEN s" "Q_HEAD s" "QUEUE s"] length_runq [of s]
  by (auto simp: runq_def dequeue_def wf_sched_def)

lemma wf_enqueue: "wf_sched s \<Longrightarrow> wf_sched (enqueue i s)"
  by (auto simp: wf_sched_def enqueue_def)

lemma wf_dequeue: "wf_sched s \<Longrightarrow> wf_sched (snd (dequeue s))"
  by (auto simp: wf_sched_def dequeue_def MAX_TASKS_def)

interpretation rq: bounded_fifo try_enqueue dequeue runq wf_sched MAX_TASKS
proof unfold_locales
  fix q x assume "wf_sched q" "length (runq q) < MAX_TASKS"
  then show "fst (try_enqueue x q) \<and> runq (snd (try_enqueue x q)) = runq q @ [x]"
    by (simp add: try_enqueue_def runq_enqueue)
next
  fix q x assume "wf_sched q" "\<not> length (runq q) < MAX_TASKS"
  then show "try_enqueue x q = (False, q)" by (simp add: try_enqueue_def enqueue_def)
next
  fix q assume "wf_sched q" "runq q = []"
  then show "dequeue q = (None, q)" using length_runq [of q] by (simp add: dequeue_def)
qed (auto simp: runq_dequeue try_enqueue_def wf_enqueue wf_dequeue)

section \<open>The scheduler invariant\<close>

definition tstate :: "sched \<Rightarrow> usize \<Rightarrow> u8" where
  "tstate s i = t_state (TASKS s ! i)"

definition sched_inv :: "sched \<Rightarrow> bool" where
  "sched_inv s \<longleftrightarrow> wf_sched s \<and> CURRENT s < MAX_TASKS \<and> distinct (runq s) \<and>
     (\<forall>i. i \<in> set (runq s) \<longleftrightarrow> i < MAX_TASKS \<and> tstate s i = READY) \<and>
     (\<forall>i < MAX_TASKS. tstate s i = RUNNING \<longleftrightarrow> i = CURRENT s) \<and>
     1 \<le> REMAINING s \<and> REMAINING s \<le> QUANTUM_TICKS \<and>
     (\<forall>i < MAX_TASKS. tstate s i \<noteq> 0 \<longrightarrow>
        t_slot (TASKS s ! i) = of_nat i \<and> pid (SLOTS s ! i) = of_nat (i + 1))"

lemmas state_values = READY_def RUNNING_def DEAD_def

lemma runq_fields [simp]:
  "runq (s\<lparr>TASKS := x1\<rparr>) = runq s" "runq (s\<lparr>SLOTS := x2\<rparr>) = runq s" "runq (s\<lparr>CURRENT := x3\<rparr>) = runq s"
  "runq (s\<lparr>REMAINING := x4\<rparr>) = runq s" "runq (s\<lparr>SWITCHES := x5\<rparr>) = runq s"
  "runq (s\<lparr>current_fx_area := x6\<rparr>) = runq s" "runq (s\<lparr>syscall_kernel_rsp := x6\<rparr>) = runq s"
  "runq (s\<lparr>tss_rsp0 := x6\<rparr>) = runq s" "runq (s\<lparr>frame_store := x7\<rparr>) = runq s"
  by (simp_all add: runq_def)

lemma enqueue_fields [simp]:
  "TASKS (enqueue i s) = TASKS s" "SLOTS (enqueue i s) = SLOTS s" "CURRENT (enqueue i s) = CURRENT s"
  "REMAINING (enqueue i s) = REMAINING s" "frame_store (enqueue i s) = frame_store s"
  "SWITCHES (enqueue i s) = SWITCHES s" "current_fx_area (enqueue i s) = current_fx_area s"
  by (simp_all add: enqueue_def)

lemma state_distinct [simp]:
  "READY \<noteq> RUNNING" "RUNNING \<noteq> READY" "READY \<noteq> DEAD" "DEAD \<noteq> READY" "RUNNING \<noteq> DEAD" "DEAD \<noteq> RUNNING"
  "READY \<noteq> 0" "RUNNING \<noteq> 0" "DEAD \<noteq> 0"
  by (simp_all add: state_values)

lemma sched_invD:
  assumes "sched_inv s"
  shows "wf_sched s" "CURRENT s < MAX_TASKS" "distinct (runq s)" "tstate s (CURRENT s) = RUNNING"
    "i \<in> set (runq s) \<Longrightarrow> i < MAX_TASKS" "i \<in> set (runq s) \<Longrightarrow> tstate s i = READY"
    "i < MAX_TASKS \<Longrightarrow> tstate s i = READY \<Longrightarrow> i \<in> set (runq s)"
    "i < MAX_TASKS \<Longrightarrow> tstate s i = RUNNING \<Longrightarrow> i = CURRENT s"
    "1 \<le> REMAINING s" "REMAINING s \<le> QUANTUM_TICKS"
    "i < MAX_TASKS \<Longrightarrow> tstate s i \<noteq> 0 \<Longrightarrow> t_slot (TASKS s ! i) = of_nat i"
    "i < MAX_TASKS \<Longrightarrow> tstate s i \<noteq> 0 \<Longrightarrow> pid (SLOTS s ! i) = of_nat (i + 1)"
  using assms unfolding sched_inv_def by blast+

lemma current_not_queued:
  assumes "sched_inv s"
  shows "CURRENT s \<notin> set (runq s)"
proof
  assume "CURRENT s \<in> set (runq s)"
  then have "tstate s (CURRENT s) = READY" by (rule sched_invD(6) [OF assms])
  then show False using sched_invD(4) [OF assms] by simp
qed

lemma runq_room:
  assumes "sched_inv s"
  shows "Q_LEN s < MAX_TASKS"
proof -
  have "set (runq s) \<subseteq> {..<MAX_TASKS} - {CURRENT s}"
    using sched_invD(5) [OF assms] current_not_queued [OF assms] by auto
  then have "card (set (runq s)) \<le> card ({..<MAX_TASKS} - {CURRENT s})" by (intro card_mono) auto
  also have "\<dots> < MAX_TASKS" using sched_invD(2) [OF assms] by simp
  finally show ?thesis using distinct_card [OF sched_invD(3) [OF assms]] by simp
qed

text \<open>A switch, seen abstractly: the head of the queue runs, the preempted task (if it stays
  runnable) goes to the back, and only those two entries of the task table change.\<close>

definition switched :: "layout \<Rightarrow> u64 \<Rightarrow> bool \<Rightarrow> usize \<Rightarrow> sched \<Rightarrow> sched \<Rightarrow> bool" where
  "switched L frame requeue nxt s s' \<longleftrightarrow>
     CURRENT s' = nxt \<and> runq s' = tl (runq s) @ (if requeue then [CURRENT s] else []) \<and>
     TASKS s' = (TASKS s)[CURRENT s := (TASKS s ! CURRENT s)\<lparr>t_frame := frame,
                            t_state := (if requeue then READY else DEAD)\<rparr>,
                          nxt := (TASKS s ! nxt)\<lparr>t_state := RUNNING\<rparr>] \<and>
     SLOTS s' = SLOTS s \<and> REMAINING s' = QUANTUM_TICKS \<and> SWITCHES s' = SWITCHES s + 1 \<and>
     current_fx_area s' = fx_area L nxt \<and> tss_rsp0 s' = t_stack_top (TASKS s ! nxt) \<and>
     syscall_kernel_rsp s' = t_stack_top (TASKS s ! nxt) \<and> frame_store s' = frame_store s \<and> wf_sched s'"

lemma schedule_switches:
  assumes inv: "sched_inv s" and q: "runq s = nxt # rest"
  shows "\<exists>s'. schedule L frame requeue s = (Resume (t_frame (TASKS s ! nxt)), s') \<and>
    switched L frame requeue nxt s s'"
proof -
  let ?c = "CURRENT s"
  define t where "t = (TASKS s ! ?c)\<lparr>t_frame := frame, t_state := (if requeue then READY else DEAD)\<rparr>"
  let ?a = "s\<lparr>TASKS := (TASKS s)[?c := t]\<rparr>"
  let ?b = "if requeue then enqueue ?c ?a else ?a"
  have len: "Q_LEN s \<noteq> 0" using length_runq [of s] q by simp
  have wf: "wf_sched s" and c: "?c < length (TASKS s)" using inv by (auto simp: sched_inv_def wf_sched_def)
  have wfa: "wf_sched ?a" using wf by (simp add: wf_sched_def)
  have room: "Q_LEN ?a < MAX_TASKS" using runq_room [OF inv] by simp
  have wfb: "wf_sched ?b" using wfa by (simp add: wf_enqueue)
  have qb: "runq ?b = nxt # (rest @ (if requeue then [?c] else []))"
    using runq_enqueue [OF wfa room, of ?c] q by simp
  obtain s1 where d: "dequeue ?b = (Some nxt, s1)" "runq s1 = rest @ (if requeue then [?c] else [])"
    using runq_dequeue [OF wfb qb] by (metis prod.collapse)
  have s1: "TASKS s1 = TASKS ?b" "SLOTS s1 = SLOTS ?b" "frame_store s1 = frame_store ?b" "SWITCHES s1 = SWITCHES ?b"
    using d(1) by (auto simp: dequeue_def split: if_splits)
  have wf1: "wf_sched s1" using wf_dequeue [OF wfb] d(1) by simp
  have nxt: "nxt \<noteq> ?c" "nxt < length (TASKS s)"
    using current_not_queued [OF inv] q inv by (auto simp: sched_inv_def wf_sched_def)
  have "schedule L frame requeue s =
    (case dequeue ?b of (None, s) \<Rightarrow> (Panicked, s)
     | (Some nxt, s) \<Rightarrow>
         let s = set_task_state nxt RUNNING (s\<lparr>CURRENT := nxt\<rparr>);
             top = t_stack_top (TASKS s ! nxt);
             s = s\<lparr>REMAINING := QUANTUM_TICKS, SWITCHES := SWITCHES s + 1, current_fx_area := fx_area L nxt\<rparr>;
             s = (set_gdt_kernel_stack top s)\<lparr>syscall_kernel_rsp := top\<rparr>
         in (Resume (t_frame (TASKS s ! nxt)), s))"
    using len c by (simp add: schedule_def set_task_state_def Let_def t_def)
  then show ?thesis using d s1 wf1 nxt q c
    by (auto simp: switched_def set_task_state_def set_gdt_kernel_stack_def Let_def wf_sched_def t_def)
qed

lemma switched_inv:
  assumes inv: "sched_inv s" and q: "runq s = nxt # rest" and sw: "switched L frame requeue nxt s s'"
  shows "sched_inv s'"
proof -
  let ?c = "CURRENT s"
  note I = sched_invD [OF inv]
  have len: "length (TASKS s) = MAX_TASKS" using I(1) by (simp add: wf_sched_def)
  have nxt: "nxt \<noteq> ?c" "nxt < MAX_TASKS" "nxt \<notin> set rest"
    using current_not_queued [OF inv] q I(3,5) by auto
  have task: "TASKS s' ! i = (if i = nxt then (TASKS s ! i)\<lparr>t_state := RUNNING\<rparr>
      else if i = ?c then (TASKS s ! i)\<lparr>t_frame := frame, t_state := (if requeue then READY else DEAD)\<rparr>
      else TASKS s ! i)" for i
    using sw nxt I(2) len by (auto simp: switched_def nth_list_update)
  then have st: "tstate s' i = (if i = nxt then RUNNING
      else if i = ?c then (if requeue then READY else DEAD) else tstate s i)" for i
    by (simp add: tstate_def)
  have rq: "runq s' = rest @ (if requeue then [?c] else [])" and c': "CURRENT s' = nxt"
    using sw q by (simp_all add: switched_def)
  have rest: "i \<in> set rest \<longleftrightarrow> i \<noteq> nxt \<and> i < MAX_TASKS \<and> tstate s i = READY" for i
    using I(5-7) [of i] q nxt(3) by auto
  have "i \<in> set (runq s') \<longleftrightarrow> i < MAX_TASKS \<and> tstate s' i = READY" for i
    using rest [of i] nxt I(2,4) by (auto simp: rq st)
  moreover have "tstate s' i = RUNNING \<longleftrightarrow> i = CURRENT s'" if "i < MAX_TASKS" for i
    using I(8) [OF that] by (auto simp: st c')
  moreover have "distinct (runq s')" using rq q I(3) current_not_queued [OF inv] by auto
  moreover have "t_slot (TASKS s' ! i) = of_nat i \<and> pid (SLOTS s' ! i) = of_nat (i + 1)"
    if "i < MAX_TASKS" "tstate s' i \<noteq> 0" for i
  proof -
    have "tstate s i \<noteq> 0"
      using that I(4) I(6) [of nxt] q by (auto simp: st split: if_splits)
    moreover have "SLOTS s' = SLOTS s" using sw by (simp add: switched_def)
    ultimately show ?thesis using I(11,12) [OF that(1)] by (auto simp: task)
  qed
  ultimately show ?thesis using sw nxt(2) by (simp add: sched_inv_def switched_def QUANTUM_TICKS_def)
qed


section \<open>Entry points keep the invariant\<close>

lemma schedule_idle:
  "runq s = [] \<Longrightarrow> schedule L frame requeue s =
    (if requeue then (Resume frame, s\<lparr>REMAINING := QUANTUM_TICKS\<rparr>)
     else (Halted, set_task_state (CURRENT s) DEAD s))"
  using length_runq [of s] by (simp add: schedule_def)

lemma sched_inv_remaining:
  "sched_inv s \<Longrightarrow> 1 \<le> n \<Longrightarrow> n \<le> QUANTUM_TICKS \<Longrightarrow> sched_inv (s\<lparr>REMAINING := n\<rparr>)"
  by (simp add: sched_inv_def wf_sched_def tstate_def)

lemma schedule_cases:
  assumes inv: "sched_inv s" and eq: "schedule L frame requeue s = (r, s')"
  shows "(\<exists>nxt rest. runq s = nxt # rest \<and> r = Resume (t_frame (TASKS s ! nxt)) \<and> switched L frame requeue nxt s s') \<or>
    (runq s = [] \<and> requeue \<and> r = Resume frame \<and> s' = s\<lparr>REMAINING := QUANTUM_TICKS\<rparr>) \<or>
    (runq s = [] \<and> \<not> requeue \<and> r = Halted \<and> s' = set_task_state (CURRENT s) DEAD s)"
proof (cases "runq s")
  case Nil
  then show ?thesis using schedule_idle [OF Nil, of L frame requeue] eq by (auto split: if_splits)
next
  case (Cons nxt rest)
  then show ?thesis using schedule_switches [OF inv Cons, of L frame requeue] eq by auto
qed

lemma schedule_inv:
  assumes "sched_inv s" "schedule L frame requeue s = (Resume g, s')"
  shows "sched_inv s'"
  using schedule_cases [OF assms] switched_inv [OF assms(1)]
    sched_inv_remaining [OF assms(1), of QUANTUM_TICKS] by (auto simp: QUANTUM_TICKS_def)

definition charge_tick :: "sched \<Rightarrow> sched" where
  "charge_tick s =
     s\<lparr>TASKS := (TASKS s)[CURRENT s := (TASKS s ! CURRENT s)\<lparr>t_ticks := t_ticks (TASKS s ! CURRENT s) + 1\<rparr>],
       REMAINING := REMAINING s - 1\<rparr>"

lemma charge_tick_task:
  assumes "i < length (TASKS s)"
  shows "t_state (TASKS (charge_tick s) ! i) = t_state (TASKS s ! i)"
    "t_slot (TASKS (charge_tick s) ! i) = t_slot (TASKS s ! i)"
    "t_frame (TASKS (charge_tick s) ! i) = t_frame (TASKS s ! i)"
    "t_stack_top (TASKS (charge_tick s) ! i) = t_stack_top (TASKS s ! i)"
  using assms by (cases "CURRENT s = i"; simp add: charge_tick_def)+

lemma charge_tick_simps [simp]:
  "runq (charge_tick s) = runq s" "CURRENT (charge_tick s) = CURRENT s"
  "REMAINING (charge_tick s) = REMAINING s - 1" "current_fx_area (charge_tick s) = current_fx_area s"
  by (simp_all add: charge_tick_def)

lemma charge_tick_inv:
  assumes "sched_inv s"
  shows "sched_inv ((charge_tick s)\<lparr>REMAINING := QUANTUM_TICKS\<rparr>)"
    and "1 < REMAINING s \<Longrightarrow> sched_inv (charge_tick s)"
proof -
  note I = sched_invD [OF assms]
  have len: "length (TASKS s) = MAX_TASKS" using I(1) by (simp add: wf_sched_def)
  have wf: "wf_sched (charge_tick s)" using I(1) by (simp add: wf_sched_def charge_tick_def)
  have slots: "SLOTS (charge_tick s) = SLOTS s" by (simp add: charge_tick_def)
  have ts: "tstate (charge_tick s) i = tstate s i" if "i < MAX_TASKS" for i
    using that len by (simp add: tstate_def charge_tick_task)
  have "sched_inv ((charge_tick s)\<lparr>REMAINING := n\<rparr>)" if "1 \<le> n" "n \<le> QUANTUM_TICKS" for n
    using assms wf that len ts unfolding sched_inv_def wf_sched_def tstate_def
    by (simp add: charge_tick_task slots cong: conj_cong)
  note key = this
  show "sched_inv ((charge_tick s)\<lparr>REMAINING := QUANTUM_TICKS\<rparr>)"
    by (rule key) (simp_all add: QUANTUM_TICKS_def)
  assume "1 < REMAINING s"
  then show "sched_inv (charge_tick s)"
    using key [of "REMAINING s - 1"] I(10) by (simp add: charge_tick_def)
qed

lemma sched_on_tick_unfold:
  "current_fx_area s \<noteq> 0 \<Longrightarrow> sched_on_tick L frame s =
    (if REMAINING s - 1 = 0 then schedule L frame True (charge_tick s) else (Resume frame, charge_tick s))"
  by (simp add: sched_on_tick_def Let_def charge_tick_def)

text \<open>The countdown plays no part in a switch, which resets it.\<close>

lemma schedule_remaining: "schedule L frame requeue (s\<lparr>REMAINING := n\<rparr>) = schedule L frame requeue s"
  if "requeue \<or> runq s \<noteq> []"
proof -
  have upd: "enqueue i (t\<lparr>REMAINING := m\<rparr>) = (enqueue i t)\<lparr>REMAINING := m\<rparr>"
    "set_task_state i v (t\<lparr>REMAINING := m\<rparr>) = (set_task_state i v t)\<lparr>REMAINING := m\<rparr>"
    "dequeue (t\<lparr>REMAINING := m\<rparr>) = (fst (dequeue t), (snd (dequeue t))\<lparr>REMAINING := m\<rparr>)" for i v t m
    by (simp_all add: enqueue_def set_task_state_def dequeue_def)
  have len: "runq s \<noteq> [] \<longleftrightarrow> Q_LEN s \<noteq> 0" by (metis length_0_conv length_runq)
  show ?thesis using that len
    by (auto simp: schedule_def Let_def upd set_task_state_def set_gdt_kernel_stack_def dequeue_def enqueue_def)
qed


lemma sched_on_tick_inv:
  assumes "sched_inv s" "sched_on_tick L frame s = (Resume g, s')"
  shows "sched_inv s'"
proof (cases "current_fx_area s = 0")
  case True
  then show ?thesis using assms by (simp add: sched_on_tick_def)
next
  case fx: False
  show ?thesis
  proof (cases "REMAINING s = 1")
    case True
    have "schedule L frame True ((charge_tick s)\<lparr>REMAINING := QUANTUM_TICKS\<rparr>) = (Resume g, s')"
      using assms(2) fx True by (simp add: sched_on_tick_unfold schedule_remaining)
    then show ?thesis by (rule schedule_inv [OF charge_tick_inv(1) [OF assms(1)]])
  next
    case False
    then show ?thesis using assms fx charge_tick_inv(2) [OF assms(1)] sched_invD(9) [OF assms(1)]
      by (auto simp: sched_on_tick_unfold split: if_splits)
  qed
qed

lemma on_yield_inv:
  "sched_inv s \<Longrightarrow> on_yield L frame s = (Resume g, s') \<Longrightarrow> sched_inv s'"
  by (auto simp: on_yield_def schedule_inv split: if_splits)

lemma on_exit_inv:
  "sched_inv s \<Longrightarrow> on_exit L frame s = (Resume g, s') \<Longrightarrow> sched_inv s'"
  by (auto simp: on_exit_def schedule_inv)

text \<open>Putting a task that is neither queued nor running into the queue.\<close>

lemma make_ready_inv:
  assumes inv: "sched_inv s" and i: "i < MAX_TASKS" and st: "tstate s i \<noteq> READY" "tstate s i \<noteq> RUNNING"
    and t: "t_state t = READY" "t_slot t = of_nat i" and p: "pid p = of_nat (i + 1)"
  shows "sched_inv (enqueue i (s\<lparr>TASKS := (TASKS s)[i := t], SLOTS := (SLOTS s)[i := p], frame_store := fs\<rparr>))"
    (is "sched_inv (enqueue i ?a)")
proof -
  note I = sched_invD [OF inv]
  have len: "length (TASKS s) = MAX_TASKS" "length (SLOTS s) = MAX_TASKS" using I(1) by (auto simp: wf_sched_def)
  have wfa: "wf_sched ?a" using I(1) by (simp add: wf_sched_def)
  have rq: "runq (enqueue i ?a) = runq s @ [i]"
    using runq_enqueue [OF wfa, of i] runq_room [OF inv] by simp
  have ts: "tstate (enqueue i ?a) j = (if j = i then READY else tstate s j)" for j
    using i len t by (simp add: tstate_def nth_list_update)
  have "i \<notin> set (runq s)" "i \<noteq> CURRENT s" using I(4,6) st by auto
  then have "j \<in> set (runq (enqueue i ?a)) \<longleftrightarrow> j < MAX_TASKS \<and> tstate (enqueue i ?a) j = READY" for j
    using I(5-7) [of j] i by (auto simp: rq ts)
  moreover have "tstate (enqueue i ?a) j = RUNNING \<longleftrightarrow> j = CURRENT s" if "j < MAX_TASKS" for j
    using I(4) I(8) [OF that] \<open>i \<noteq> CURRENT s\<close> by (auto simp: ts)
  moreover have "t_slot (TASKS ?a ! j) = of_nat j \<and> pid (SLOTS ?a ! j) = of_nat (j + 1)"
    if "j < MAX_TASKS" "tstate (enqueue i ?a) j \<noteq> 0" for j
  proof (cases "j = i")
    case True
    then show ?thesis using i len t(2) p by simp
  next
    case False
    then show ?thesis using that(2) I(11,12) [OF that(1)] by (simp add: ts)
  qed
  ultimately show ?thesis
    using I(2,3,9,10) wf_enqueue [OF wfa] \<open>i \<notin> set (runq s)\<close> by (simp add: sched_inv_def rq)
qed

lemma spawn_user_inv:
  assumes "sched_inv s" "spawn_user L rip rsp port s = (ok, s')"
  shows "sched_inv s'"
proof (cases ok)
  case False
  then show ?thesis using assms by (auto simp: spawn_user_def Let_def split: if_splits)
next
  case True
  then have "tstate s 3 = 0 \<or> tstate s 3 = DEAD"
    using assms(2) by (auto simp: spawn_user_def Let_def tstate_def split: if_splits)
  then have st: "tstate s 3 \<noteq> READY" "tstate s 3 \<noteq> RUNNING" by (metis state_distinct)+
  show ?thesis using assms(2) True make_ready_inv [OF assms(1) _ st]
    by (auto simp: spawn_user_def Let_def MAX_TASKS_def split: if_splits)
qed

lemma current_slot_index_eq:
  assumes "sched_inv s"
  shows "current_slot_index s = CURRENT s"
proof -
  note I = sched_invD [OF assms]
  have "t_slot (TASKS s ! CURRENT s) = of_nat (CURRENT s)" using I(11) [OF I(2)] I(4) by simp
  then show ?thesis using I(2) by (simp add: current_slot_index_def MAX_TASKS_def unat_of_nat take_bit_eq_mod)
qed

lemma current_pid_eq:
  assumes "sched_inv s"
  shows "current_pid s = of_nat (CURRENT s + 1)"
proof -
  note I = sched_invD [OF assms]
  show ?thesis using I(12) [OF I(2)] I(4) by (simp add: current_pid_def current_slot_index_eq [OF assms])
qed

lemma unat_current_pid:
  assumes "sched_inv s"
  shows "unat (current_pid s) = CURRENT s + 1"
  unfolding current_pid_eq [OF assms] using sched_invD(2) [OF assms]
  by (simp only: unat_of_nat) (simp add: MAX_TASKS_def)

lemma current_pid_nonzero: "sched_inv s \<Longrightarrow> current_pid s \<noteq> 0"
  using unat_current_pid [of s] by auto

lemma slot_update_inv:
  assumes "sched_inv s" "pid p = pid (SLOTS s ! current_slot_index s)"
  shows "sched_inv (s\<lparr>SLOTS := (SLOTS s)[current_slot_index s := p]\<rparr>)"
proof -
  note I = sched_invD [OF assms(1)]
  have len: "length (SLOTS s) = MAX_TASKS" using I(1) by (auto simp: wf_sched_def)
  have "pid ((SLOTS s)[current_slot_index s := p] ! i) = pid (SLOTS s ! i)" if "i < MAX_TASKS" for i
    using that len assms(2) I(2) by (simp add: nth_list_update current_slot_index_eq [OF assms(1)])
  then show ?thesis using assms(1) by (simp add: sched_inv_def wf_sched_def tstate_def)
qed


section \<open>Reachable scheduler states\<close>

inductive sched_step :: "layout \<Rightarrow> sched \<Rightarrow> sched \<Rightarrow> bool" where
  step_tick: "sched_on_tick L frame s = (Resume g, s') \<Longrightarrow> sched_step L s s'"
| step_yield: "on_yield L frame s = (Resume g, s') \<Longrightarrow> sched_step L s s'"
| step_exit: "on_exit L frame s = (Resume g, s') \<Longrightarrow> sched_step L s s'"
| step_spawn: "spawn_user L rip rsp port s = (ok, s') \<Longrightarrow> sched_step L s s'"
| step_port: "sched_step L s (set_event_port port s)"
| step_zone: "sched_step L s (set_zone z s)"

inductive sched_reachable :: "layout \<Rightarrow> sched \<Rightarrow> bool" where
  boot: "sched_reachable L (sched_init L rsp first second sched_statics)"
| step: "sched_reachable L s \<Longrightarrow> sched_step L s s' \<Longrightarrow> sched_reachable L s'"

inductive_cases sched_step_cases: "sched_step L s s'"

lemma sched_step_inv: "sched_step L s s' \<Longrightarrow> sched_inv s \<Longrightarrow> sched_inv s'"
  by (erule sched_step_cases)
     (auto intro: sched_on_tick_inv on_yield_inv on_exit_inv spawn_user_inv
       simp: set_event_port_def set_zone_def intro!: slot_update_inv)

lemma sched_init_inv: "sched_inv (sched_init L rsp first second sched_statics)"
proof -
  let ?s0 = "sched_statics\<lparr>TASKS := (TASKS sched_statics)[0 := (TASKS sched_statics ! 0)\<lparr>t_state := RUNNING, t_slot := 0\<rparr>],
     SLOTS := (SLOTS sched_statics)[0 := \<lparr>pid = 1, main_thread = 0, event_port = 0, zone = 0\<rparr>],
     current_fx_area := fx_area L 0, syscall_kernel_rsp := rsp\<rparr>"
  have st: "tstate ?s0 i = (if i = 0 then RUNNING else 0)" if "i < MAX_TASKS" for i
    using that by (simp add: tstate_def sched_statics_def nth_list_update empty_task_def)
  have "runq ?s0 = []" "CURRENT ?s0 = 0" "REMAINING ?s0 = QUANTUM_TICKS" "wf_sched ?s0"
    "t_slot (TASKS ?s0 ! 0) = 0" "pid (SLOTS ?s0 ! 0) = 1"
    by (simp_all add: sched_statics_def runq_def wf_sched_def MAX_TASKS_def)
  then have "sched_inv ?s0"
    unfolding sched_inv_def by (auto simp: st QUANTUM_TICKS_def) (simp add: MAX_TASKS_def)
  moreover have "sched_inv (spawn L i entry s)" if "sched_inv s" "i < MAX_TASKS" "tstate s i = 0" for i entry s
    unfolding spawn_def Let_def by (rule make_ready_inv [OF that(1,2)]) (use that(3) in auto)
  moreover have "tstate ?s0 1 = 0" "tstate ?s0 2 = 0"
    by (simp_all add: tstate_def sched_statics_def MAX_TASKS_def empty_task_def)
  moreover have "tstate (spawn L 1 first s) 2 = tstate s 2" for s
    by (simp add: tstate_def spawn_def Let_def)
  ultimately have "sched_inv (spawn L 2 second (spawn L 1 first ?s0))"
    by (simp add: MAX_TASKS_def)
  then show ?thesis unfolding sched_init_def Let_def
    by (rule sched_inv_remaining) (simp_all add: QUANTUM_TICKS_def)
qed

text \<open>C4. In every state the scheduler can reach from boot, through any interleaving of timer
  ticks, yields, thread exits and user spawns, exactly the current task is RUNNING, the run
  queue holds exactly the READY tasks, each once, and no READY task is ever lost.\<close>

theorem sched_reachable_inv:
  assumes "sched_reachable L s"
  shows "sched_inv s"
  using assms
proof (induction rule: sched_reachable.induct)
  case (boot L rsp first second)
  then show ?case by (rule sched_init_inv)
next
  case (step L s s')
  then show ?case by (blast intro: sched_step_inv)
qed



section \<open>Fairness\<close>

text \<open>\<open>n\<close> timer ticks in a row, the \<open>k\<close>-th of them arriving with frame \<open>fs k\<close>.\<close>

fun tick_run :: "layout \<Rightarrow> (nat \<Rightarrow> u64) \<Rightarrow> nat \<Rightarrow> sched \<Rightarrow> sched" where
  "tick_run L fs 0 s = s"
| "tick_run L fs (Suc n) s = snd (sched_on_tick L (fs n) (tick_run L fs n s))"

lemma tick_counts_down:
  assumes "sched_inv s" "current_fx_area s \<noteq> 0" "1 < REMAINING s"
  shows "\<exists>s'. sched_on_tick L frame s = (Resume frame, s') \<and> sched_inv s' \<and> current_fx_area s' \<noteq> 0 \<and>
    CURRENT s' = CURRENT s \<and> runq s' = runq s \<and> REMAINING s' = REMAINING s - 1"
  using assms charge_tick_inv(2) [OF assms(1)] by (simp add: sched_on_tick_unfold)

lemma tick_switches:
  assumes inv: "sched_inv s" and fx: "current_fx_area s \<noteq> 0" and one: "REMAINING s = 1"
    and q: "runq s = nxt # rest" and fxL: "\<forall>i < MAX_TASKS. fx_area L i \<noteq> 0"
  shows "\<exists>g s'. sched_on_tick L frame s = (Resume g, s') \<and> sched_inv s' \<and> current_fx_area s' \<noteq> 0 \<and>
    CURRENT s' = nxt \<and> runq s' = rest @ [CURRENT s] \<and> REMAINING s' = QUANTUM_TICKS"
proof -
  let ?t = "(charge_tick s)\<lparr>REMAINING := QUANTUM_TICKS\<rparr>"
  have eq: "sched_on_tick L frame s = schedule L frame True ?t"
    using fx one by (simp add: sched_on_tick_unfold schedule_remaining)
  have inv': "sched_inv ?t" by (rule charge_tick_inv(1) [OF inv])
  have q': "runq ?t = nxt # rest" using q by simp
  obtain g s' where s': "schedule L frame True ?t = (Resume g, s')" "switched L frame True nxt ?t s'"
    using schedule_switches [OF inv' q'] by blast
  moreover have "nxt < MAX_TASKS" using sched_invD(5) [OF inv] q by simp
  ultimately show ?thesis
    using eq switched_inv [OF inv' q' s'(2)] fxL q by (auto simp: switched_def)
qed

lemma quantum_ends:
  assumes "sched_inv s" "current_fx_area s \<noteq> 0" "runq s = nxt # rest" "\<forall>i < MAX_TASKS. fx_area L i \<noteq> 0"
    and "tick_run L fs n t = s"
  shows "\<exists>m s'. m \<le> REMAINING s \<and> tick_run L fs (n + m) t = s' \<and> sched_inv s' \<and> current_fx_area s' \<noteq> 0 \<and>
    CURRENT s' = nxt \<and> runq s' = rest @ [CURRENT s] \<and> REMAINING s' = QUANTUM_TICKS"
  using assms
proof (induction "REMAINING s" arbitrary: s n)
  case 0
  then show ?case using sched_invD(9) [OF 0(2)] by simp
next
  case (Suc k)
  show ?case
  proof (cases "REMAINING s = 1")
    case True
    obtain g s' where "sched_on_tick L (fs n) s = (Resume g, s')" "sched_inv s'" "current_fx_area s' \<noteq> 0"
      "CURRENT s' = nxt" "runq s' = rest @ [CURRENT s]" "REMAINING s' = QUANTUM_TICKS"
      using tick_switches [OF Suc.prems(1,2) True Suc.prems(3,4)] by blast
    then show ?thesis using True Suc.prems(5) by (intro exI [of _ 1]) auto
  next
    case False
    then have "1 < REMAINING s" using sched_invD(9) [OF Suc.prems(1)] by simp
    then obtain s1 where s1: "sched_on_tick L (fs n) s = (Resume (fs n), s1)" "sched_inv s1"
      "current_fx_area s1 \<noteq> 0" "CURRENT s1 = CURRENT s" "runq s1 = runq s" "REMAINING s1 = REMAINING s - 1"
      using tick_counts_down [OF Suc.prems(1,2)] by blast
    have "k = REMAINING s1" "tick_run L fs (Suc n) t = s1" using s1 Suc.hyps(2) Suc.prems(5) by auto
    from Suc.hyps(1) [OF this(1) s1(2,3) _ Suc.prems(4) this(2)] s1 Suc.prems(3)
    obtain m s' where m: "m \<le> REMAINING s1" "tick_run L fs (Suc n + m) t = s'" "sched_inv s'"
      "current_fx_area s' \<noteq> 0" "CURRENT s' = nxt" "runq s' = rest @ [CURRENT s]" "REMAINING s' = QUANTUM_TICKS"
      by auto
    show ?thesis by (rule exI [of _ "Suc m"], rule exI [of _ s']) (use m s1(6) Suc.hyps(2) in auto)
  qed
qed

lemma round_robin:
  assumes "sched_inv s" "current_fx_area s \<noteq> 0" "k < length (runq s)" "\<forall>i < MAX_TASKS. fx_area L i \<noteq> 0"
    and "tick_run L fs n t = s"
  shows "\<exists>m \<le> QUANTUM_TICKS * Suc k. CURRENT (tick_run L fs (n + m) t) = runq s ! k"
  using assms
proof (induction k arbitrary: s n)
  case 0
  then obtain nxt rest where q: "runq s = nxt # rest" by (cases "runq s") auto
  obtain m where "m \<le> REMAINING s" "CURRENT (tick_run L fs (n + m) t) = nxt"
    using quantum_ends [OF 0(1,2) q 0(4,5)] by blast
  then show ?case using q sched_invD(10) [OF 0(1)] by (intro exI [of _ m]) auto
next
  case (Suc k)
  then obtain nxt rest where q: "runq s = nxt # rest" by (cases "runq s") auto
  obtain m1 s1 where s1: "m1 \<le> REMAINING s" "tick_run L fs (n + m1) t = s1" "sched_inv s1"
    "current_fx_area s1 \<noteq> 0" "runq s1 = rest @ [CURRENT s]"
    using quantum_ends [OF Suc.prems(1,2) q Suc.prems(4,5)] by blast
  have k: "k < length (runq s1)" "runq s1 ! k = runq s ! Suc k"
    using s1(5) q Suc.prems(3) by (auto simp: nth_append)
  obtain m2 where m2: "m2 \<le> QUANTUM_TICKS * Suc k" "CURRENT (tick_run L fs (n + m1 + m2) t) = runq s1 ! k"
    using Suc.IH [OF s1(3,4) k(1) Suc.prems(4) s1(2)] by blast
  show ?case
    by (rule exI [of _ "m1 + m2"]) (use m2 k(2) s1(1) sched_invD(10) [OF Suc.prems(1)] in \<open>auto simp: add.assoc\<close>)
qed

text \<open>C6. Round-robin fairness: a task at position \<open>k\<close> of the run queue is running after at
  most \<open>k + 1\<close> quanta of timer ticks, whatever the running tasks do in between.\<close>

theorem sched_fair:
  assumes "sched_inv s" "current_fx_area s \<noteq> 0" "\<forall>i < MAX_TASKS. fx_area L i \<noteq> 0" "k < length (runq s)"
  shows "\<exists>m \<le> QUANTUM_TICKS * (k + 1). CURRENT (tick_run L fs m s) = runq s ! k"
  using round_robin [OF assms(1,2,4,3), of fs 0 s] by simp

section \<open>Concrete runs\<close>

definition demo_layout :: layout where
  "demo_layout = \<lparr>stack_base = (\<lambda>i. 0x10000 * (of_nat i + 1)), fx_area = (\<lambda>i. 0x1000 * (of_nat i + 1))\<rparr>"

definition demo_sched :: sched where
  "demo_sched = sched_init demo_layout 0x9000 0x400 0x500 sched_statics"

lemma demo_sched_inv: "sched_inv demo_sched"
  unfolding demo_sched_def by (rule sched_init_inv)

lemmas demo_sched_eval =
  demo_sched_def sched_init_def spawn_def enqueue_def sched_statics_def demo_layout_def Let_def
  MAX_TASKS_def runq_def ring_items_def upt_rec

lemma demo_sched_runq: "runq demo_sched = [1, 2]"
  by (simp add: demo_sched_eval)

lemma demo_layout_fx: "i < MAX_TASKS \<Longrightarrow> fx_area demo_layout i \<noteq> 0"
proof -
  assume "i < MAX_TASKS"
  then have "i \<in> {0, 1, 2, 3}" by (auto simp: MAX_TASKS_def)
  then show ?thesis by (auto simp: demo_layout_def)
qed

theorem sched_reachable_inv_witness:
  "sched_inv (snd (on_exit demo_layout 0x777 demo_sched))"
proof -
  have r: "sched_reachable demo_layout demo_sched"
    unfolding demo_sched_def by (rule sched_reachable.boot)
  have "fst (on_exit demo_layout 0x777 demo_sched) \<noteq> Halted"
    "fst (on_exit demo_layout 0x777 demo_sched) \<noteq> Panicked"
    by (simp_all add: on_exit_def schedule_def set_task_state_def dequeue_def set_gdt_kernel_stack_def demo_sched_eval)
  then obtain g s' where "on_exit demo_layout 0x777 demo_sched = (Resume g, s')"
    by (cases "on_exit demo_layout 0x777 demo_sched"; cases "fst (on_exit demo_layout 0x777 demo_sched)") auto
  then show ?thesis using sched_reachable_inv [OF sched_reachable.step [OF r step_exit]] by simp
qed


theorem sched_fair_witness: "\<exists>m \<le> 20. CURRENT (tick_run demo_layout (\<lambda>_. 0x777) m demo_sched) = 2"
proof -
  have "current_fx_area demo_sched \<noteq> 0" by (simp add: demo_sched_eval)
  then show ?thesis
    using sched_fair [OF demo_sched_inv, of demo_layout 1 "\<lambda>_. 0x777"] demo_layout_fx
    by (simp add: demo_sched_runq QUANTUM_TICKS_def)
qed

end
