(* ===== verification/Ipc.thy ===== *)
theory Ipc
  imports Sched
begin

text \<open>
  Message ports (\<^verbatim>\<open>kernel/rust/src/ipc.rs\<close>) and the Event Manager on top of them
  (\<^verbatim>\<open>event.rs\<close>). A port is a 16-entry ring of events with an owner; the critical sections
  of the source (interrupts masked) make every operation one atomic step. \<open>port_push\<close> and
  \<open>port_pop\<close> are the queue halves of \<^verbatim>\<open>send_as\<close> and \<^verbatim>\<open>recv\<close>.
\<close>

section \<open>State\<close>

definition MAX_PORTS :: usize where "MAX_PORTS = 8"
definition QUEUE_LEN :: usize where "QUEUE_LEN = 16"

record event =
  ev_kind :: u16
  ev_source_pid :: u32
  ev_value :: u64

definition EMPTY_EVENT :: event where
  "EMPTY_EVENT = \<lparr>ev_kind = 0, ev_source_pid = 0, ev_value = 0\<rparr>"

record port =
  p_owner :: u32
  p_events :: "event list"
  p_head :: usize
  p_len :: usize

definition empty_port :: port where
  "empty_port = \<lparr>p_owner = 0, p_events = replicate QUEUE_LEN EMPTY_EVENT, p_head = 0, p_len = 0\<rparr>"

type_synonym ports = "port list"

definition ports_statics :: ports where
  "ports_statics = replicate MAX_PORTS empty_port"

section \<open>Operations\<close>

fun create_from :: "usize \<Rightarrow> u32 \<Rightarrow> ports \<Rightarrow> u16 option \<times> ports" where
  "create_from i cur [] = (None, [])"
| "create_from i cur (p # ps) =
     (if p_owner p = 0 then (Some (of_nat (i + 1)), empty_port\<lparr>p_owner := cur\<rparr> # ps)
      else (case create_from (i + 1) cur ps of (r, ps') \<Rightarrow> (r, p # ps')))"

definition ipc_create :: "u32 \<Rightarrow> ports \<Rightarrow> u16 option \<times> ports" where
  "ipc_create cur ps = create_from 0 cur ps"

definition port_push :: "event \<Rightarrow> port \<Rightarrow> bool \<times> port" where
  "port_push e p =
     (if p_owner p \<noteq> 0 \<and> p_len p < QUEUE_LEN
      then (True, p\<lparr>p_events := (p_events p)[(p_head p + p_len p) mod QUEUE_LEN := e], p_len := p_len p + 1\<rparr>)
      else (False, p))"

definition port_pop :: "port \<Rightarrow> event option \<times> port" where
  "port_pop p =
     (if p_len p \<noteq> 0
      then (Some (p_events p ! p_head p), p\<lparr>p_head := (p_head p + 1) mod QUEUE_LEN, p_len := p_len p - 1\<rparr>)
      else (None, p))"

definition send_as :: "u16 \<Rightarrow> u16 \<Rightarrow> u64 \<Rightarrow> u32 \<Rightarrow> ports \<Rightarrow> bool \<times> ports" where
  "send_as i k v source_pid ps =
     (if i = 0 \<or> unat i > MAX_PORTS then (False, ps)
      else case port_push \<lparr>ev_kind = k, ev_source_pid = source_pid, ev_value = v\<rparr> (ps ! (unat i - 1)) of
        (ok, p) \<Rightarrow> (ok, ps[unat i - 1 := p]))"

definition ipc_send :: "sched \<Rightarrow> u16 \<Rightarrow> u16 \<Rightarrow> u64 \<Rightarrow> ports \<Rightarrow> bool \<times> ports" where
  "ipc_send s i k v ps = send_as i k v (current_pid s) ps"

definition ipc_recv :: "u32 \<Rightarrow> u16 \<Rightarrow> ports \<Rightarrow> event option \<times> ports" where
  "ipc_recv cur i ps =
     (if i = 0 \<or> unat i > MAX_PORTS then (None, ps)
      else let p = ps ! (unat i - 1) in
        if p_owner p = cur then (case port_pop p of (e, p') \<Rightarrow> (e, ps[unat i - 1 := p'])) else (None, ps))"

definition send_system :: "u16 \<Rightarrow> u16 \<Rightarrow> u64 \<Rightarrow> ports \<Rightarrow> bool \<times> ports" where
  "send_system i k v ps = send_as i k v 0 ps"

section \<open>Event Manager\<close>

definition TIMER :: u16 where "TIMER = 1"
definition APPLICATION :: u16 where "APPLICATION = 2"

definition event_post :: "sched \<Rightarrow> u16 \<Rightarrow> u16 \<Rightarrow> u64 \<Rightarrow> ports \<Rightarrow> bool \<times> ports" where
  "event_post s i k v ps = ipc_send s i k v ps"

definition event_poll :: "sched \<Rightarrow> ports \<Rightarrow> event option \<times> ports" where
  "event_poll s ps = ipc_recv (current_pid s) (event_port (current_slot s)) ps"

definition event_on_tick :: "u16 \<Rightarrow> u64 \<Rightarrow> ports \<Rightarrow> ports" where
  "event_on_tick boot_port tick ps =
     (if tick mod 100 \<noteq> 0 then ps
      else if boot_port \<noteq> 0 then snd (send_system boot_port TIMER tick ps) else ps)"

section \<open>Ports as FIFO queues\<close>

definition port_items :: "port \<Rightarrow> event list" where
  "port_items p = ring_items (p_events p) (p_head p) (p_len p)"

definition wf_port :: "port \<Rightarrow> bool" where
  "wf_port p \<longleftrightarrow> length (p_events p) = QUEUE_LEN \<and> p_head p < QUEUE_LEN \<and> p_len p \<le> QUEUE_LEN"

definition wf_ports :: "ports \<Rightarrow> bool" where
  "wf_ports ps \<longleftrightarrow> length ps = MAX_PORTS \<and> (\<forall>p \<in> set ps. wf_port p)"

definition open_port :: "port \<Rightarrow> bool" where
  "open_port p \<longleftrightarrow> wf_port p \<and> p_owner p \<noteq> 0"

lemma length_port_items [simp]: "length (port_items p) = p_len p"
  by (simp add: port_items_def)

lemma port_push_room:
  "open_port p \<Longrightarrow> p_len p < QUEUE_LEN \<Longrightarrow>
   fst (port_push e p) \<and> port_items (snd (port_push e p)) = port_items p @ [e]"
  using ring_items_push [of "p_len p" "p_events p" "p_head p" e]
  by (simp add: port_push_def port_items_def open_port_def wf_port_def)

lemma port_pop_items:
  "wf_port p \<Longrightarrow> port_items p = y # ys \<Longrightarrow> fst (port_pop p) = Some y \<and> port_items (snd (port_pop p)) = ys"
  using ring_items_pop [of "p_len p" "p_head p" "p_events p"] length_port_items [of p]
  by (auto simp: port_pop_def port_items_def wf_port_def)

lemma port_pop_empty: "port_items p = [] \<Longrightarrow> port_pop p = (None, p)"
  using length_port_items [of p] by (simp add: port_pop_def)

lemma wf_port_push: "wf_port p \<Longrightarrow> wf_port (snd (port_push e p))"
  by (auto simp: wf_port_def port_push_def)

lemma wf_port_pop: "wf_port p \<Longrightarrow> wf_port (snd (port_pop p))"
  by (auto simp: wf_port_def port_pop_def QUEUE_LEN_def)

lemma port_owner_keeps [simp]:
  "p_owner (snd (port_push e p)) = p_owner p" "p_owner (snd (port_pop p)) = p_owner p"
  by (auto simp: port_push_def port_pop_def)

interpretation pq: bounded_fifo port_push port_pop port_items open_port QUEUE_LEN
proof unfold_locales
  fix q x assume "open_port q" "\<not> length (port_items q) < QUEUE_LEN"
  then show "port_push x q = (False, q)" by (simp add: port_push_def)
qed (auto simp: port_push_room port_pop_items port_pop_empty wf_port_push wf_port_pop open_port_def)


section \<open>Port table\<close>

lemma wf_ports_nth: "wf_ports ps \<Longrightarrow> j < MAX_PORTS \<Longrightarrow> wf_port (ps ! j)"
  by (simp add: wf_ports_def)

lemma wf_ports_update: "wf_ports ps \<Longrightarrow> wf_port p \<Longrightarrow> wf_ports (ps[j := p])"
  by (auto simp: wf_ports_def dest: set_update_subset_insert [THEN subsetD])

lemma wf_ports_statics: "wf_ports ports_statics"
  by (simp add: wf_ports_def ports_statics_def wf_port_def empty_port_def QUEUE_LEN_def)

lemma port_push_step:
  assumes "wf_port p"
  shows "port_items (snd (port_push e p)) = port_items p @ (if fst (port_push e p) then [e] else [])"
proof (cases "p_owner p = 0")
  case True
  then show ?thesis by (simp add: port_push_def)
next
  case False
  then show ?thesis using pq.enq_step [of p e] assms by (simp add: open_port_def)
qed

lemma port_pop_step:
  assumes "wf_port p"
  shows "port_items p = (case fst (port_pop p) of None \<Rightarrow> [] | Some e \<Rightarrow> [e]) @ port_items (snd (port_pop p))"
  using assms port_pop_empty [of p] port_pop_items [OF assms] by (cases "port_items p") auto

lemma send_as_valid:
  "i \<noteq> 0 \<Longrightarrow> unat i \<le> MAX_PORTS \<Longrightarrow> send_as i k v src ps =
    (fst (port_push \<lparr>ev_kind = k, ev_source_pid = src, ev_value = v\<rparr> (ps ! (unat i - 1))),
     ps[unat i - 1 := snd (port_push \<lparr>ev_kind = k, ev_source_pid = src, ev_value = v\<rparr> (ps ! (unat i - 1)))])"
  by (simp add: send_as_def split: prod.splits)

lemma recv_owner:
  "i \<noteq> 0 \<Longrightarrow> unat i \<le> MAX_PORTS \<Longrightarrow> p_owner (ps ! (unat i - 1)) = cur \<Longrightarrow> ipc_recv cur i ps =
    (fst (port_pop (ps ! (unat i - 1))), ps[unat i - 1 := snd (port_pop (ps ! (unat i - 1)))])"
  by (simp add: ipc_recv_def Let_def split: prod.splits)

lemma port_slot: "i \<noteq> 0 \<Longrightarrow> unat i \<le> MAX_PORTS \<Longrightarrow> unat (i :: u16) - 1 < MAX_PORTS"
  using unat_gt_0 [of i] by simp

lemma port_slot_inj:
  assumes "i \<noteq> 0" "j \<noteq> 0" "unat (i :: u16) - 1 = unat j - 1"
  shows "i = j"
  using assms unat_gt_0 [of i] unat_gt_0 [of j] by (metis Suc_pred' diff_Suc_1 word_unat_eq_iff One_nat_def)

lemma wf_send_as:
  assumes "wf_ports ps"
  shows "wf_ports (snd (send_as i k v src ps))"
proof (cases "i = 0 \<or> unat i > MAX_PORTS")
  case True
  then show ?thesis using assms by (auto simp: send_as_def)
next
  case False
  then have "wf_port (ps ! (unat i - 1))" using wf_ports_nth [OF assms port_slot] by simp
  then show ?thesis using False assms by (simp add: send_as_valid wf_ports_update wf_port_push)
qed

lemma wf_recv:
  assumes "wf_ports ps"
  shows "wf_ports (snd (ipc_recv cur i ps))"
proof (cases "i = 0 \<or> unat i > MAX_PORTS \<or> p_owner (ps ! (unat i - 1)) \<noteq> cur")
  case True
  then show ?thesis using assms by (auto simp: ipc_recv_def Let_def)
next
  case False
  then have "wf_port (ps ! (unat i - 1))" using wf_ports_nth [OF assms port_slot] by simp
  then show ?thesis using False assms by (simp add: recv_owner wf_ports_update wf_port_pop)
qed

text \<open>Traffic on the whole table: sends (with the sender the kernel stamps) and receives (with
  the calling process) in any order. The run records which events were accepted and which were
  delivered, each with its port.\<close>

datatype ipc_op = OpSend u16 u16 u64 u32 | OpRecv u32 u16

fun ipc_run :: "ipc_op list \<Rightarrow> ports \<Rightarrow> (u16 \<times> event) list \<times> (u16 \<times> event) list \<times> ports" where
  "ipc_run [] ps = ([], [], ps)"
| "ipc_run (OpSend i k v src # ops) ps =
     (case send_as i k v src ps of (ok, ps1) \<Rightarrow>
        (case ipc_run ops ps1 of (ins, outs, ps2) \<Rightarrow>
           (if ok then (i, \<lparr>ev_kind = k, ev_source_pid = src, ev_value = v\<rparr>) # ins else ins, outs, ps2)))"
| "ipc_run (OpRecv cur i # ops) ps =
     (case ipc_recv cur i ps of (e, ps1) \<Rightarrow>
        (case ipc_run ops ps1 of (ins, outs, ps2) \<Rightarrow>
           (ins, (case e of None \<Rightarrow> outs | Some ev \<Rightarrow> (i, ev) # outs), ps2)))"

definition on_port :: "u16 \<Rightarrow> (u16 \<times> event) list \<Rightarrow> event list" where
  "on_port i xs = map snd (filter (\<lambda>(j, e). j = i) xs)"

definition queued :: "u16 \<Rightarrow> ports \<Rightarrow> event list" where
  "queued i ps = port_items (ps ! (unat i - 1))"

lemma on_port_simps [simp]:
  "on_port i [] = []" "on_port i ((j, e) # xs) = (if j = i then e # on_port i xs else on_port i xs)"
  by (simp_all add: on_port_def)

lemma queued_send:
  assumes "wf_ports ps" "i \<noteq> 0" "unat i \<le> MAX_PORTS"
  shows "queued i (snd (send_as j k v src ps)) = queued i ps @
    (if j = i \<and> fst (send_as j k v src ps) then [\<lparr>ev_kind = k, ev_source_pid = src, ev_value = v\<rparr>] else [])"
proof (cases "j = 0 \<or> unat j > MAX_PORTS")
  case True
  then show ?thesis using assms by (auto simp: send_as_def)
next
  case False
  have slot: "unat j - 1 < length ps" using False port_slot [of j] assms(1) by (simp add: wf_ports_def)
  show ?thesis
  proof (cases "j = i")
    case True
    then show ?thesis using assms False slot port_push_step [OF wf_ports_nth [OF assms(1) port_slot]]
      by (simp add: send_as_valid queued_def)
  next
    case ne: False
    then have "unat j - 1 \<noteq> unat i - 1" using port_slot_inj [of j i] False assms(2) by auto
    then show ?thesis using ne False by (simp add: send_as_valid queued_def)
  qed
qed

lemma queued_recv:
  assumes "wf_ports ps" "i \<noteq> 0" "unat i \<le> MAX_PORTS"
  shows "queued i ps = (if j = i then (case fst (ipc_recv cur j ps) of None \<Rightarrow> [] | Some e \<Rightarrow> [e]) else []) @
    queued i (snd (ipc_recv cur j ps))"
proof (cases "j = 0 \<or> unat j > MAX_PORTS \<or> p_owner (ps ! (unat j - 1)) \<noteq> cur")
  case True
  then show ?thesis by (auto simp: ipc_recv_def Let_def)
next
  case False
  have slot: "unat j - 1 < length ps" using False port_slot [of j] assms(1) by (simp add: wf_ports_def)
  show ?thesis
  proof (cases "j = i")
    case True
    then show ?thesis using assms False slot port_pop_step [OF wf_ports_nth [OF assms(1) port_slot], of i]
      by (simp add: recv_owner queued_def)
  next
    case ne: False
    then have "unat j - 1 \<noteq> unat i - 1" using port_slot_inj [of j i] False assms(2) by auto
    then show ?thesis using ne False by (simp add: recv_owner queued_def)
  qed
qed

text \<open>C7. Ports deliver in order, lose nothing and do not interfere: for every port, whatever
  traffic hits the table, the events queued at the start followed by those accepted for that
  port are the events delivered from it followed by those still queued.\<close>

theorem ipc_ports_fifo:
  assumes "wf_ports ps" "i \<noteq> 0" "unat i \<le> MAX_PORTS" "ipc_run ops ps = (ins, outs, ps')"
  shows "wf_ports ps' \<and> queued i ps @ on_port i ins = on_port i outs @ queued i ps'"
  using assms
proof (induction ops arbitrary: ps ins outs)
  case Nil
  then show ?case by simp
next
  case (Cons op ops)
  show ?case
  proof (cases op)
    case (OpSend j k v src)
    obtain ins1 outs1 where r: "ipc_run ops (snd (send_as j k v src ps)) = (ins1, outs1, ps')"
      using Cons.prems(4) OpSend by (auto split: prod.splits)
    have "queued i (snd (send_as j k v src ps)) @ on_port i ins1 = on_port i outs1 @ queued i ps' \<and> wf_ports ps'"
      using Cons.IH [OF wf_send_as [OF Cons.prems(1)] Cons.prems(2,3) r] by simp
    then show ?thesis using Cons.prems(4) OpSend r queued_send [OF Cons.prems(1-3), of j k v src]
      by (auto split: prod.splits if_splits)
  next
    case (OpRecv cur j)
    obtain ins1 outs1 where r: "ipc_run ops (snd (ipc_recv cur j ps)) = (ins1, outs1, ps')"
      using Cons.prems(4) OpRecv by (auto split: prod.splits)
    have "queued i (snd (ipc_recv cur j ps)) @ on_port i ins1 = on_port i outs1 @ queued i ps' \<and> wf_ports ps'"
      using Cons.IH [OF wf_recv [OF Cons.prems(1)] Cons.prems(2,3) r] by simp
    then show ?thesis using Cons.prems(4) OpRecv r queued_recv [OF Cons.prems(1-3), of j cur]
      by (auto split: prod.splits if_splits option.splits)
  qed
qed


lemma send_as_accepts:
  assumes "wf_ports ps"
  shows "fst (send_as i k v src ps) \<longleftrightarrow>
    i \<noteq> 0 \<and> unat i \<le> MAX_PORTS \<and> p_owner (ps ! (unat i - 1)) \<noteq> 0 \<and> length (queued i ps) < QUEUE_LEN"
  by (auto simp: send_as_def port_push_def queued_def split: prod.splits)

lemma send_as_refused:
  assumes "\<not> fst (send_as i k v src ps)"
  shows "snd (send_as i k v src ps) = ps"
  using assms by (auto simp: send_as_def port_push_def split: prod.splits if_splits)

text \<open>C8. Access control on ports: an event is accepted exactly when the port number names an
  owned port with room, it is stamped with the sending process (never with the kernel's
  pid 0) and appended, and a refused send changes nothing; a process that does not own the
  port receives nothing and changes nothing.\<close>

theorem ipc_access_control:
  assumes "wf_ports ps" "sched_inv s" "ipc_send s i k v ps = (ok, ps')"
  shows "(ok \<longleftrightarrow> i \<noteq> 0 \<and> unat i \<le> MAX_PORTS \<and> p_owner (ps ! (unat i - 1)) \<noteq> 0 \<and>
            length (queued i ps) < QUEUE_LEN) \<and>
    (ok \<longrightarrow> queued i ps' = queued i ps @ [\<lparr>ev_kind = k, ev_source_pid = current_pid s, ev_value = v\<rparr>] \<and>
            current_pid s \<noteq> 0) \<and>
    (\<not> ok \<longrightarrow> ps' = ps) \<and>
    (p_owner (ps ! (unat j - 1)) \<noteq> cur \<longrightarrow> ipc_recv cur j ps = (None, ps))"
proof -
  have e: "fst (send_as i k v (current_pid s) ps) = ok" "snd (send_as i k v (current_pid s) ps) = ps'"
    using assms(3) by (auto simp: ipc_send_def)
  show ?thesis
    using e send_as_accepts [OF assms(1), of i k v "current_pid s"] send_as_refused [of i k v "current_pid s" ps]
      queued_send [OF assms(1), of i i k v "current_pid s"] current_pid_nonzero [OF assms(2)]
    by (auto simp: ipc_recv_def Let_def)
qed

section \<open>Port creation\<close>

lemma create_from_spec:
  "create_from i cur ps =
     (case find (\<lambda>j. p_owner (ps ! j) = 0) [0..<length ps] of
        None \<Rightarrow> (None, ps)
      | Some j \<Rightarrow> (Some (of_nat (i + j + 1)), ps[j := empty_port\<lparr>p_owner := cur\<rparr>]))"
proof (induction ps arbitrary: i)
  case Nil
  then show ?case by simp
next
  case (Cons p ps)
  have shift: "find (\<lambda>j. p_owner ((p # ps) ! j) = 0) (map Suc xs) =
    map_option Suc (find (\<lambda>j. p_owner (ps ! j) = 0) xs)" for xs
    by (induction xs) auto
  have upt: "[0..<length (p # ps)] = 0 # map Suc [0..<length ps]"
    by (simp add: upt_conv_Cons map_Suc_upt del: upt_Suc)
  show ?case
    unfolding upt by (simp add: shift Cons.IH split: option.split)
qed

text \<open>Creating a port hands out the first unowned slot, emptied and owned by the caller, and
  touches no other port; it fails exactly when all eight ports are owned.\<close>

theorem ipc_create_correct:
  assumes "wf_ports ps" "ipc_create cur ps = (r, ps')"
  shows "wf_ports ps' \<and>
    (case r of
       None \<Rightarrow> ps' = ps \<and> (\<forall>p \<in> set ps. p_owner p \<noteq> 0)
     | Some i \<Rightarrow> 1 \<le> unat i \<and> unat i \<le> MAX_PORTS \<and> p_owner (ps ! (unat i - 1)) = 0 \<and>
         p_owner (ps' ! (unat i - 1)) = cur \<and> queued i ps' = [] \<and>
         (\<forall>j < MAX_PORTS. j \<noteq> unat i - 1 \<longrightarrow> ps' ! j = ps ! j))"
proof -
  have len: "length ps = MAX_PORTS" using assms(1) by (simp add: wf_ports_def)
  have wfe: "wf_port (empty_port\<lparr>p_owner := cur\<rparr>)" "port_items (empty_port\<lparr>p_owner := cur\<rparr>) = []"
    by (simp_all add: wf_port_def empty_port_def QUEUE_LEN_def port_items_def)
  show ?thesis
  proof (cases "find (\<lambda>j. p_owner (ps ! j) = 0) [0..<length ps]")
    case None
    then have "r = None" "ps' = ps" using assms(2) by (auto simp: ipc_create_def create_from_spec)
    moreover have "\<forall>p \<in> set ps. p_owner p \<noteq> 0"
      using None by (auto simp: find_None_iff in_set_conv_nth)
    ultimately show ?thesis using assms(1) by simp
  next
    case (Some j)
    then have j: "j < MAX_PORTS" "p_owner (ps ! j) = 0" using len by (auto simp: find_Some_iff)
    have r: "r = Some (of_nat (j + 1))" "ps' = ps[j := empty_port\<lparr>p_owner := cur\<rparr>]"
      using Some assms(2) by (auto simp: ipc_create_def create_from_spec)
    have u: "unat (of_nat (j + 1) :: u16) = j + 1"
      using j(1) by (simp only: unat_of_nat) (simp add: MAX_PORTS_def)
    show ?thesis unfolding r(1) option.case queued_def u
      using r(2) j len wfe wf_ports_update [OF assms(1) wfe(1)] by simp
  qed
qed

text \<open>The Event Manager publishes one timer event, from the kernel's pid 0, at every
  hundredth tick while the boot port is open and has room, and is silent otherwise.\<close>

theorem event_on_tick_correct:
  assumes "wf_ports ps" "bp \<noteq> 0" "unat bp \<le> MAX_PORTS" "p_owner (ps ! (unat bp - 1)) \<noteq> 0"
  shows "queued bp (event_on_tick bp tick ps) = queued bp ps @
      (if tick mod 100 = 0 \<and> length (queued bp ps) < QUEUE_LEN
       then [\<lparr>ev_kind = TIMER, ev_source_pid = 0, ev_value = tick\<rparr>] else []) \<and>
    (\<forall>i. i \<noteq> 0 \<longrightarrow> unat i \<le> MAX_PORTS \<longrightarrow> i \<noteq> bp \<longrightarrow> queued i (event_on_tick bp tick ps) = queued i ps)"
  using assms queued_send [OF assms(1), of _ bp TIMER tick 0] send_as_accepts [OF assms(1), of bp TIMER tick 0]
  by (auto simp: event_on_tick_def send_system_def)

section \<open>Concrete runs\<close>

definition demo_ports :: ports where
  "demo_ports = snd (ipc_create 1 ports_statics)"

lemma demo_ports_wf: "wf_ports demo_ports"
  unfolding demo_ports_def using wf_ports_statics
  by (simp add: ipc_create_def ports_statics_def MAX_PORTS_def numeral_eq_Suc wf_ports_def wf_port_def
      empty_port_def QUEUE_LEN_def)

lemma demo_ports_owner: "p_owner (demo_ports ! 0) = 1" "queued 1 demo_ports = []"
  by (simp_all add: demo_ports_def ipc_create_def ports_statics_def MAX_PORTS_def numeral_eq_Suc
      empty_port_def queued_def port_items_def)

theorem ipc_ports_fifo_witness:
  "\<exists>ins outs ps'. ipc_run [OpSend 1 2 7 3, OpSend 2 2 8 3, OpRecv 1 1] demo_ports = (ins, outs, ps') \<and>
     on_port 1 ins = on_port 1 outs @ queued 1 ps'"
proof -
  obtain ins outs ps' where r: "ipc_run [OpSend 1 2 7 3, OpSend 2 2 8 3, OpRecv 1 1] demo_ports = (ins, outs, ps')"
    by (metis prod_cases3)
  show ?thesis using ipc_ports_fifo [OF demo_ports_wf _ _ r, of 1] r demo_ports_owner by (simp add: MAX_PORTS_def)
qed

theorem ipc_access_control_witness:
  "fst (ipc_send demo_sched 1 2 7 demo_ports) \<and> ipc_recv 2 1 demo_ports = (None, demo_ports)"
proof -
  obtain ok ps' where r: "ipc_send demo_sched 1 2 7 demo_ports = (ok, ps')" by fastforce
  show ?thesis using ipc_access_control [OF demo_ports_wf demo_sched_inv r, of 1 2] r demo_ports_owner
    by (simp add: MAX_PORTS_def QUEUE_LEN_def)
qed

theorem ipc_create_correct_witness:
  "\<exists>i. fst (ipc_create 1 ports_statics) = Some i \<and> queued i (snd (ipc_create 1 ports_statics)) = []"
proof -
  have "fst (ipc_create 1 ports_statics) = Some 1"
    by (simp add: ipc_create_def ports_statics_def MAX_PORTS_def numeral_eq_Suc empty_port_def)
  then obtain ps' where r: "ipc_create 1 ports_statics = (Some 1, ps')" by (metis prod.collapse)
  show ?thesis using ipc_create_correct [OF wf_ports_statics r] by (simp add: r)
qed

theorem event_on_tick_witness:
  "queued 1 (event_on_tick 1 200 demo_ports) = [\<lparr>ev_kind = TIMER, ev_source_pid = 0, ev_value = 200\<rparr>]"
  using event_on_tick_correct [OF demo_ports_wf, of 1 200] demo_ports_owner
  by (simp add: MAX_PORTS_def QUEUE_LEN_def)

end
