(* ===== verification/Zones.thy ===== *)
theory Zones
  imports Sched
begin

text \<open>
  Process-owned zones and generation-checked handles (\<^verbatim>\<open>zones.rs\<close>). A handle packs a zone number,
  an object number and the generation the object had when it was allocated. The theory shows that
  handles and (zone, object, generation) triples are in bijection, that a handle works exactly for
  the owner of its zone while the object is live, that processes cannot influence each other's
  objects, and that a freed handle stays dead until the 32-bit generation has gone all the way round.
\<close>

definition MAX_ZONES :: usize where "MAX_ZONES = 4"
definition OBJECTS_PER_ZONE :: usize where "OBJECTS_PER_ZONE = 16"
definition OBJECT_BYTES :: usize where "OBJECT_BYTES = 64"

record zobject =
  o_used :: bool
  o_generation :: u32
  o_kind :: u16
  o_data :: "u8 list"

definition empty_object :: zobject where
  "empty_object = \<lparr>o_used = False, o_generation = 1, o_kind = 0, o_data = replicate OBJECT_BYTES 0\<rparr>"

record zcell =
  z_owner :: u32
  z_objects :: "zobject list"

definition empty_zone :: zcell where
  "empty_zone = \<lparr>z_owner = 0, z_objects = replicate OBJECTS_PER_ZONE empty_object\<rparr>"

type_synonym zones = "zcell list"

definition zones_statics :: zones where
  "zones_statics = replicate MAX_ZONES empty_zone"

definition encode :: "usize \<Rightarrow> usize \<Rightarrow> u32 \<Rightarrow> u64" where
  "encode z ob g = push_bit 48 (of_nat z + 1) OR push_bit 32 (of_nat ob + 1) OR ucast g"

definition decode :: "u64 \<Rightarrow> (usize \<times> usize \<times> u32) option" where
  "decode h =
     (let z = unat (drop_bit 48 h AND 0xFFFF); ob = unat (drop_bit 32 h AND 0xFFFF) in
      if z = 0 \<or> z > MAX_ZONES \<or> ob = 0 \<or> ob > OBJECTS_PER_ZONE then None
      else Some (z - 1, ob - 1, ucast h))"

fun zone_create_from :: "usize \<Rightarrow> u32 \<Rightarrow> zones \<Rightarrow> u8 option \<times> zones" where
  "zone_create_from i cur [] = (None, [])"
| "zone_create_from i cur (z # zs) =
     (if z_owner z = 0 then (Some (of_nat (i + 1)), empty_zone\<lparr>z_owner := cur\<rparr> # zs)
      else let (r, zs') = zone_create_from (i + 1) cur zs in (r, z # zs'))"

definition zone_create :: "u32 \<Rightarrow> zones \<Rightarrow> u8 option \<times> zones" where
  "zone_create cur zs = zone_create_from 0 cur zs"

fun first_unused :: "usize \<Rightarrow> zobject list \<Rightarrow> usize option" where
  "first_unused i [] = None"
| "first_unused i (ob # obs) = (if \<not> o_used ob then Some i else first_unused (i + 1) obs)"

definition zget :: "zones \<Rightarrow> usize \<Rightarrow> usize \<Rightarrow> zobject" where
  "zget zs z i = z_objects (zs ! z) ! i"

definition zput :: "usize \<Rightarrow> usize \<Rightarrow> zobject \<Rightarrow> zones \<Rightarrow> zones" where
  "zput z i ob zs = zs[z := (zs ! z)\<lparr>z_objects := (z_objects (zs ! z))[i := ob]\<rparr>]"

definition zone_alloc :: "u32 \<Rightarrow> u8 \<Rightarrow> u16 \<Rightarrow> zones \<Rightarrow> u64 option \<times> zones" where
  "zone_alloc cur zone_id kind zs =
     (if zone_id = 0 \<or> unat zone_id > MAX_ZONES then (None, zs)
      else let z = unat zone_id - 1 in
        if z_owner (zs ! z) = cur then
          (case first_unused 0 (z_objects (zs ! z)) of
             None \<Rightarrow> (None, zs)
           | Some i \<Rightarrow>
               (Some (encode z i (o_generation (zget zs z i))),
                zput z i ((zget zs z i)\<lparr>o_used := True, o_kind := kind, o_data := replicate OBJECT_BYTES 0\<rparr>) zs))
        else (None, zs))"

definition zone_write :: "u32 \<Rightarrow> u64 \<Rightarrow> u8 list \<Rightarrow> zones \<Rightarrow> bool \<times> zones" where
  "zone_write cur h data zs =
     (if length data > OBJECT_BYTES then (False, zs)
      else case decode h of
        None \<Rightarrow> (False, zs)
      | Some (z, i, g) \<Rightarrow>
          if z_owner (zs ! z) = cur \<and> o_used (zget zs z i) \<and> o_generation (zget zs z i) = g
          then (True, zput z i ((zget zs z i)\<lparr>o_data := data @ replicate (OBJECT_BYTES - length data) 0\<rparr>) zs)
          else (False, zs))"

definition zone_read :: "u32 \<Rightarrow> u64 \<Rightarrow> zones \<Rightarrow> (u16 \<times> u8 list) option" where
  "zone_read cur h zs =
     (case decode h of
        None \<Rightarrow> None
      | Some (z, i, g) \<Rightarrow>
          if z_owner (zs ! z) = cur \<and> o_used (zget zs z i) \<and> o_generation (zget zs z i) = g
          then Some (o_kind (zget zs z i), o_data (zget zs z i)) else None)"

definition next_generation :: "u32 \<Rightarrow> u32" where
  "next_generation g = max (g + 1) 1"

definition zone_free :: "u32 \<Rightarrow> u64 \<Rightarrow> zones \<Rightarrow> bool \<times> zones" where
  "zone_free cur h zs =
     (case decode h of
        None \<Rightarrow> (False, zs)
      | Some (z, i, g) \<Rightarrow>
          if z_owner (zs ! z) = cur \<and> o_used (zget zs z i) \<and> o_generation (zget zs z i) = g
          then (True, zput z i ((zget zs z i)\<lparr>o_used := False,
                  o_generation := next_generation (o_generation (zget zs z i))\<rparr>) zs)
          else (False, zs))"

section \<open>Handles\<close>

lemma mask16_bits: "(0xFFFF :: u64) = mask 16"
  by (simp add: mask_eq_exp_minus_1)

lemma encode_fields:
  fixes a b :: u64 and g :: u32
  assumes "unat a < 2 ^ 16" "unat b < 2 ^ 16"
  shows "drop_bit 48 (push_bit 48 a OR push_bit 32 b OR ucast g) AND 0xFFFF = a"
    and "drop_bit 32 (push_bit 48 a OR push_bit 32 b OR ucast g) AND 0xFFFF = b"
    and "ucast (push_bit 48 a OR push_bit 32 b OR (ucast g :: u64)) = g"
proof -
  note n = small_no_bit [OF assms(1)] small_no_bit [OF assms(2)]
  have m: "bit a k \<Longrightarrow> k < 16" "bit b k \<Longrightarrow> k < 16" for k using n not_le by blast+
  have g: "\<not> bit g k" if "32 \<le> k" for k using that bit_imp_le_length [of g k] by auto
  show "drop_bit 48 (push_bit 48 a OR push_bit 32 b OR ucast g) AND 0xFFFF = a"
    unfolding mask16_bits using n g by (intro bit_word_eqI) (auto simp: bit_simps dest: m)
  show "drop_bit 32 (push_bit 48 a OR push_bit 32 b OR ucast g) AND 0xFFFF = b"
    unfolding mask16_bits using n g by (intro bit_word_eqI) (auto simp: bit_simps dest: m)
  show "ucast (push_bit 48 a OR push_bit 32 b OR (ucast g :: u64)) = g"
    by (intro bit_word_eqI) (auto simp: bit_simps)
qed

lemma split_handle:
  "push_bit 48 (drop_bit 48 h AND 0xFFFF) OR push_bit 32 (drop_bit 32 h AND 0xFFFF) OR ucast (ucast h :: u32) = h"
  for h :: u64
  unfolding mask16_bits
proof (intro bit_word_eqI)
  fix n assume n: "n < LENGTH(64)"
  consider "n < 32" | "32 \<le> n" "n < 48" | "48 \<le> n" by linarith
  then show "bit (push_bit 48 (drop_bit 48 h AND mask 16) OR push_bit 32 (drop_bit 32 h AND mask 16) OR
      ucast (ucast h :: u32)) n = bit h n"
    using n by cases (auto simp: bit_simps)
qed

lemma decode_encode:
  assumes "z < MAX_ZONES" "i < OBJECTS_PER_ZONE"
  shows "decode (encode z i g) = Some (z, i, g)"
proof -
  have u: "unat (of_nat z + 1 :: u64) = z + 1" "unat (of_nat i + 1 :: u64) = i + 1"
    using assms by (simp_all add: MAX_ZONES_def OBJECTS_PER_ZONE_def unat_word_ariths unat_of_nat)
  have b: "unat (of_nat z + 1 :: u64) < 2 ^ 16" "unat (of_nat i + 1 :: u64) < 2 ^ 16"
    unfolding u using assms by (simp_all add: MAX_ZONES_def OBJECTS_PER_ZONE_def)
  show ?thesis unfolding decode_def encode_def Let_def encode_fields [OF b] u using assms by simp
qed

lemma decode_Some:
  assumes "decode h = Some (z, i, g)"
  shows "z < MAX_ZONES" "i < OBJECTS_PER_ZONE" "encode z i g = h"
proof -
  define a where "a = drop_bit 48 h AND (0xFFFF :: u64)"
  define b where "b = drop_bit 32 h AND (0xFFFF :: u64)"
  have d: "unat a \<noteq> 0" "unat a \<le> MAX_ZONES" "unat b \<noteq> 0" "unat b \<le> OBJECTS_PER_ZONE"
    and e: "z = unat a - 1" "i = unat b - 1" "g = ucast h"
    using assms unfolding decode_def Let_def a_def [symmetric] b_def [symmetric]
    by (auto split: if_splits)
  show "z < MAX_ZONES" "i < OBJECTS_PER_ZONE" using d e by auto
  have z: "Suc z = unat a" "Suc i = unat b" using d(1,3) e by simp_all
  have "of_nat (Suc z) = a" "of_nat (Suc i) = b" unfolding z by simp_all
  then have "of_nat z + 1 = a" "of_nat i + 1 = b" by (simp_all add: add.commute)
  then show "encode z i g = h" unfolding encode_def e(3) a_def b_def using split_handle [of h] by simp
qed

text \<open>Handles and (zone, object, generation) triples are in bijection: decoding undoes
  encoding for every zone and object number in range, and every handle that decodes at all is the
  encoding of what it decodes to, with both numbers in range.\<close>

theorem zone_handle_roundtrip:
  "(z < MAX_ZONES \<longrightarrow> i < OBJECTS_PER_ZONE \<longrightarrow> decode (encode z i g) = Some (z, i, g)) \<and>
   (\<forall>z' i' g'. decode h = Some (z', i', g') \<longrightarrow>
      z' < MAX_ZONES \<and> i' < OBJECTS_PER_ZONE \<and> encode z' i' g' = h)"
  using decode_encode decode_Some by simp

section \<open>The invariant and its preservation\<close>

definition wf_object :: "zobject \<Rightarrow> bool" where
  "wf_object ob \<longleftrightarrow> o_generation ob \<noteq> 0 \<and> length (o_data ob) = OBJECT_BYTES"

definition wf_zones :: "zones \<Rightarrow> bool" where
  "wf_zones zs \<longleftrightarrow> length zs = MAX_ZONES \<and>
     (\<forall>z \<in> set zs. length (z_objects z) = OBJECTS_PER_ZONE \<and> (\<forall>ob \<in> set (z_objects z). wf_object ob))"

definition live :: "u32 \<Rightarrow> u64 \<Rightarrow> zones \<Rightarrow> bool" where
  "live cur h zs \<longleftrightarrow> zone_read cur h zs \<noteq> None"

lemma live_iff:
  "live cur h zs \<longleftrightarrow> (\<exists>z i g. decode h = Some (z, i, g) \<and> z_owner (zs ! z) = cur \<and>
     o_used (zget zs z i) \<and> o_generation (zget zs z i) = g)"
  by (auto simp: live_def zone_read_def split: option.splits if_splits)

lemma zone_ops_dead:
  assumes "\<not> live cur h zs"
  shows "zone_read cur h zs = None" "zone_write cur h d zs = (False, zs)" "zone_free cur h zs = (False, zs)"
proof -
  show r: "zone_read cur h zs = None" using assms unfolding live_def by blast
  show "zone_write cur h d zs = (False, zs)" "zone_free cur h zs = (False, zs)"
    using r by (auto simp: zone_read_def zone_write_def zone_free_def split: option.splits if_splits)
qed

lemma wf_zones_obj:
  assumes "wf_zones zs" "z < MAX_ZONES" "i < OBJECTS_PER_ZONE"
  shows "wf_object (zget zs z i)" "length (z_objects (zs ! z)) = OBJECTS_PER_ZONE" "length zs = MAX_ZONES"
proof -
  show l: "length zs = MAX_ZONES" using assms(1) by (simp add: wf_zones_def)
  then have "zs ! z \<in> set zs" using assms(2) by simp
  then show "length (z_objects (zs ! z)) = OBJECTS_PER_ZONE" "wf_object (zget zs z i)"
    using assms(1,3) by (simp_all add: wf_zones_def zget_def)
qed

lemma wf_zput:
  assumes "wf_zones zs" "z < MAX_ZONES" "wf_object ob"
  shows "wf_zones (zput z i ob zs)"
proof -
  have l: "length zs = MAX_ZONES" using assms(1) by (simp add: wf_zones_def)
  have m: "zs ! z \<in> set zs" using assms(2) l by simp
  have "length (z_objects c) = OBJECTS_PER_ZONE \<and> (\<forall>ob' \<in> set (z_objects c). wf_object ob')"
    if "c \<in> set (zput z i ob zs)" for c
  proof -
    from that have "c \<in> insert ((zs ! z)\<lparr>z_objects := (z_objects (zs ! z))[i := ob]\<rparr>) (set zs)"
      unfolding zput_def by (rule subsetD [OF set_update_subset_insert])
    then show ?thesis
      using assms(1,3) m set_update_subset_insert [of "z_objects (zs ! z)" i ob] by (auto simp: wf_zones_def)
  qed
  then show ?thesis using l by (simp add: wf_zones_def zput_def)
qed

lemma zput_owner: "z_owner (zput z i ob zs ! w) = z_owner (zs ! w)"
  by (cases "z < length zs"; cases "w = z") (simp_all add: zput_def list_update_beyond)

lemma zget_zput:
  assumes "wf_zones zs" "z < MAX_ZONES" "i < OBJECTS_PER_ZONE"
  shows "zget (zput z i ob zs) w j = (if w = z \<and> j = i then ob else zget zs w j)"
proof -
  have "z < length zs" "i < length (z_objects (zs ! z))"
    using wf_zones_obj [OF assms] assms by simp_all
  then show ?thesis by (simp add: zput_def zget_def nth_list_update)
qed

lemma zput_other_zone: "w \<noteq> z \<Longrightarrow> zput z i ob zs ! w = zs ! w"
  by (simp add: zput_def)

lemma first_unused_Some:
  "first_unused k obs = Some j \<Longrightarrow>
     k \<le> j \<and> j - k < length obs \<and> \<not> o_used (obs ! (j - k)) \<and> (\<forall>l < j - k. o_used (obs ! l))"
proof (induction obs arbitrary: k)
  case Nil
  then show ?case by simp
next
  case (Cons ob obs)
  show ?case
  proof (cases "o_used ob")
    case True
    then have n: "k + 1 \<le> j" "j - (k + 1) < length obs" "\<not> o_used (obs ! (j - (k + 1)))"
        "\<forall>l < j - (k + 1). o_used (obs ! l)"
      using Cons.IH [of "k + 1"] Cons.prems by simp_all
    have e: "j - k = Suc (j - (k + 1))" using n(1) by simp
    show ?thesis unfolding e using n True by (auto simp: less_Suc_eq_0_disj)
  next
    case False
    then show ?thesis using Cons.prems by simp
  qed
qed

lemma first_unused_None: "first_unused k obs = None \<longleftrightarrow> (\<forall>ob \<in> set obs. o_used ob)"
  by (induction obs arbitrary: k) auto

lemma zone_create_from_spec:
  "zone_create_from i cur zs = (r, zs') \<Longrightarrow>
     (r = None \<and> zs' = zs \<and> (\<forall>z \<in> set zs. z_owner z \<noteq> 0)) \<or>
     (\<exists>j < length zs. r = Some (of_nat (i + j + 1)) \<and> z_owner (zs ! j) = 0 \<and>
        (\<forall>k < j. z_owner (zs ! k) \<noteq> 0) \<and> zs' = zs[j := empty_zone\<lparr>z_owner := cur\<rparr>])"
proof (induction zs arbitrary: i r zs')
  case Nil
  then show ?case by simp
next
  case (Cons z zs)
  show ?case
  proof (cases "z_owner z = 0")
    case True
    then show ?thesis using Cons.prems by (auto intro: exI [of _ 0])
  next
    case False
    obtain r1 zs1 where r1: "zone_create_from (i + 1) cur zs = (r1, zs1)" by fastforce
    then have e: "r = r1" "zs' = z # zs1" using Cons.prems False by simp_all
    from Cons.IH [OF r1] show ?thesis
    proof (elim disjE exE conjE)
      assume "r1 = None" "zs1 = zs" "\<forall>z \<in> set zs. z_owner z \<noteq> 0"
      then show ?thesis using e False by simp
    next
      fix j assume j: "j < length zs" "r1 = Some (of_nat (i + 1 + j + 1))" "z_owner (zs ! j) = 0"
        "\<forall>k < j. z_owner (zs ! k) \<noteq> 0" "zs1 = zs[j := empty_zone\<lparr>z_owner := cur\<rparr>]"
      then show ?thesis using e False by (intro disjI2 exI [of _ "Suc j"]) (auto simp: less_Suc_eq_0_disj)
    qed
  qed
qed

lemmas zone_create_cases = zone_create_from_spec [of 0, folded zone_create_def, simplified]

section \<open>Operations as steps\<close>

datatype zop = ZCreate u32 | ZAlloc u32 u8 u16 | ZWrite u32 u64 "u8 list" | ZFree u32 u64

fun zactor :: "zop \<Rightarrow> u32" where
  "zactor (ZCreate c) = c"
| "zactor (ZAlloc c _ _) = c"
| "zactor (ZWrite c _ _) = c"
| "zactor (ZFree c _) = c"

fun is_free :: "zop \<Rightarrow> bool" where
  "is_free (ZFree _ _) = True"
| "is_free _ = False"

fun zstep :: "zop \<Rightarrow> zones \<Rightarrow> zones" where
  "zstep (ZCreate c) zs = snd (zone_create c zs)"
| "zstep (ZAlloc c zid k) zs = snd (zone_alloc c zid k zs)"
| "zstep (ZWrite c h d) zs = snd (zone_write c h d zs)"
| "zstep (ZFree c h) zs = snd (zone_free c h zs)"

definition zrun :: "zop list \<Rightarrow> zones \<Rightarrow> zones" where
  "zrun ops zs = fold zstep ops zs"

lemma unat_next_generation:
  assumes "g \<noteq> 0"
  shows "unat (next_generation g) = 1 + unat g mod (2 ^ 32 - 1)"
proof (cases "unat g = 2 ^ 32 - 1")
  case True
  then have "unat (g + 1) = 0" by (simp add: unat_word_ariths)
  then have "g + 1 = 0" by (simp only: unat_eq_zero)
  then show ?thesis using True by (simp add: next_generation_def)
next
  case False
  have b: "unat g < 2 ^ 32" using unsigned_less [of g, where 'a = nat] by simp
  then have "unat (g + 1) = unat g + 1" using False by (simp add: unat_word_ariths)
  moreover have "(1 :: u32) \<le> g + 1" unfolding word_le_nat_alt calculation by simp
  ultimately show ?thesis using b False by (simp add: next_generation_def max_def)
qed

lemma next_generation_nonzero: "next_generation g \<noteq> 0"
  by (auto simp: next_generation_def max_def word_le_nat_alt)

text \<open>What one operation can do: nothing, claim an unowned zone, or replace one object of a zone its
  caller owns, whose generation moves only when the operation is a free.\<close>

lemma zstep_cases:
  assumes "wf_zones zs"
  obtains "zstep op zs = zs"
  | j where "j < MAX_ZONES" "z_owner (zs ! j) = 0" "zstep op zs = zs[j := empty_zone\<lparr>z_owner := zactor op\<rparr>]"
  | z i ob where "z < MAX_ZONES" "i < OBJECTS_PER_ZONE" "z_owner (zs ! z) = zactor op" "wf_object ob"
      "zstep op zs = zput z i ob zs"
      "o_generation ob = (if is_free op then next_generation (o_generation (zget zs z i))
                          else o_generation (zget zs z i))"
proof (cases op)
  case (ZCreate c)
  obtain r zs' where r: "zone_create c zs = (r, zs')" by fastforce
  show ?thesis using zone_create_cases [OF r] that(1,2) ZCreate r assms by (auto simp: wf_zones_def)
next
  case (ZAlloc c zid k)
  show ?thesis
  proof (cases "zid = 0 \<or> unat zid > MAX_ZONES \<or> z_owner (zs ! (unat zid - 1)) \<noteq> c \<or>
      first_unused 0 (z_objects (zs ! (unat zid - 1))) = None")
    case True
    then show ?thesis using that(1) ZAlloc by (auto simp: zone_alloc_def Let_def)
  next
    case False
    then obtain i where i: "first_unused 0 (z_objects (zs ! (unat zid - 1))) = Some i" by auto
    have z: "unat zid - 1 < MAX_ZONES"
      using False by (metis Suc_diff_1 gr0I linorder_not_less Suc_le_eq unat_eq_zero)
    have il: "i < OBJECTS_PER_ZONE"
      using first_unused_Some [OF i] wf_zones_obj(2) [OF assms z, of 0] by (simp add: OBJECTS_PER_ZONE_def)
    show ?thesis
      using that(3) [OF z il, of "(zget zs (unat zid - 1) i)\<lparr>o_used := True, o_kind := k,
          o_data := replicate OBJECT_BYTES 0\<rparr>"] False i wf_zones_obj(1) [OF assms z il] ZAlloc
      by (simp add: zone_alloc_def Let_def wf_object_def)
  qed
next
  case (ZWrite c h d)
  show ?thesis
  proof (cases "length d > OBJECT_BYTES \<or> \<not> live c h zs")
    case True
    then have "zone_write c h d zs = (False, zs)"
      using zone_ops_dead(2) [of c h zs d] by (cases "length d > OBJECT_BYTES") (simp_all add: zone_write_def)
    then show ?thesis using that(1) ZWrite by simp
  next
    case False
    then obtain z i g where d: "decode h = Some (z, i, g)" and l: "z_owner (zs ! z) = c"
        "o_used (zget zs z i)" "o_generation (zget zs z i) = g" "\<not> length d > OBJECT_BYTES"
      by (auto simp: live_iff)
    show ?thesis
      using that(3) [OF decode_Some(1,2) [OF d], of "(zget zs z i)\<lparr>o_data := d @ replicate (OBJECT_BYTES - length d) 0\<rparr>"]
        wf_zones_obj(1) [OF assms decode_Some(1,2) [OF d]] ZWrite l
      by (simp add: zone_write_def d wf_object_def)
  qed
next
  case (ZFree c h)
  show ?thesis
  proof (cases "live c h zs")
    case False
    then show ?thesis using that(1) ZFree by (simp add: zone_ops_dead)
  next
    case True
    then obtain z i g where d: "decode h = Some (z, i, g)" and l: "z_owner (zs ! z) = c"
        "o_used (zget zs z i)" "o_generation (zget zs z i) = g"
      by (auto simp: live_iff)
    show ?thesis
      using that(3) [OF decode_Some(1,2) [OF d], of "(zget zs z i)\<lparr>o_used := False,
          o_generation := next_generation g\<rparr>"]
        wf_zones_obj(1) [OF assms decode_Some(1,2) [OF d]] ZFree l
      by (simp add: zone_free_def d wf_object_def next_generation_nonzero)
  qed
qed

lemma wf_empty_zone: "length (z_objects empty_zone) = OBJECTS_PER_ZONE" "ob \<in> set (z_objects empty_zone) \<Longrightarrow> wf_object ob"
  by (auto simp: empty_zone_def empty_object_def wf_object_def)

lemma wf_zones_statics: "wf_zones zones_statics"
  using wf_empty_zone by (auto simp: wf_zones_def zones_statics_def)

lemma wf_zstep:
  assumes w: "wf_zones zs"
  shows "wf_zones (zstep op zs)"
  using w
proof (cases rule: zstep_cases [of zs op])
  case (2 j)
  have "set (zs[j := empty_zone\<lparr>z_owner := zactor op\<rparr>]) \<subseteq> insert (empty_zone\<lparr>z_owner := zactor op\<rparr>) (set zs)"
    by (rule set_update_subset_insert)
  then show ?thesis unfolding 2(3) using w wf_empty_zone by (auto simp: wf_zones_def)
qed (simp_all add: w wf_zput)

lemma wf_zrun: "wf_zones zs \<Longrightarrow> wf_zones (zrun ops zs)"
  by (induction ops arbitrary: zs) (simp_all add: zrun_def wf_zstep)

section \<open>Isolation between processes\<close>

lemma zone_read_cong:
  assumes "\<And>z. z < MAX_ZONES \<Longrightarrow> z_owner (zs' ! z) = cur \<or> z_owner (zs ! z) = cur \<Longrightarrow> zs' ! z = zs ! z"
  shows "zone_read cur h zs' = zone_read cur h zs"
proof (cases "decode h")
  case None
  then show ?thesis by (simp add: zone_read_def)
next
  case (Some t)
  obtain z i g where t: "t = (z, i, g)" by (cases t)
  have "z < MAX_ZONES" using decode_Some(1) Some t by blast
  then consider "zs' ! z = zs ! z" | "z_owner (zs' ! z) \<noteq> cur" "z_owner (zs ! z) \<noteq> cur" using assms by blast
  then show ?thesis by cases (simp_all add: zone_read_def Some t zget_def)
qed

lemma zstep_other_zone:
  assumes "wf_zones zs" "zactor op \<noteq> cur" "cur \<noteq> 0" "z_owner (zs ! z) = cur \<or> z_owner (zstep op zs ! z) = cur"
  shows "zstep op zs ! z = zs ! z"
  using assms(1)
proof (cases rule: zstep_cases [of zs op])
  case (2 j)
  then show ?thesis using assms by (cases "z = j") (auto simp: wf_zones_def)
next
  case (3 z' i ob)
  then show ?thesis using assms zput_owner [of z' i ob zs z] by (cases "z = z'") (auto simp: zput_other_zone)
qed simp

text \<open>C9. Isolation: whatever sequence of zone operations other processes perform, every handle reads
  for a process exactly as it did before; and a handle into a zone the process does not own
  reads nothing, cannot be written and cannot be freed.\<close>

theorem zone_isolation:
  assumes "wf_zones zs" "cur \<noteq> 0" "\<forall>op \<in> set ops. zactor op \<noteq> cur"
  shows "zone_read cur h (zrun ops zs) = zone_read cur h zs \<and>
    (decode h = Some (z, i, g) \<and> z_owner (zs ! z) \<noteq> cur \<longrightarrow>
       zone_read cur h zs = None \<and> zone_write cur h d zs = (False, zs) \<and> zone_free cur h zs = (False, zs))"
proof
  show "zone_read cur h (zrun ops zs) = zone_read cur h zs"
    using assms
  proof (induction ops arbitrary: zs)
    case Nil
    then show ?case by (simp add: zrun_def)
  next
    case (Cons op ops)
    have "zone_read cur h (zrun ops (zstep op zs)) = zone_read cur h (zstep op zs)"
      using Cons by (simp add: wf_zstep)
    also have "\<dots> = zone_read cur h zs"
      using zstep_other_zone [OF Cons.prems(1)] Cons.prems by (intro zone_read_cong) auto
    finally show ?case by (simp add: zrun_def)
  qed
qed (simp add: zone_read_def zone_write_def zone_free_def)

section \<open>The life of an object\<close>

text \<open>A live handle is the only live handle of its object, so replacing the object changes what
  that handle reads and nothing else.\<close>

lemma zone_read_zput:
  assumes "wf_zones zs" "decode h = Some (z, i, g)" "o_generation ob = g \<or> \<not> o_used ob"
    "o_generation (zget zs z i) = g \<or> \<not> o_used (zget zs z i)"
  shows "zone_read c h (zput z i ob zs) =
      (if z_owner (zs ! z) = c \<and> o_used ob \<and> o_generation ob = g then Some (o_kind ob, o_data ob) else None)"
    and "h' \<noteq> h \<Longrightarrow> zone_read c h' (zput z i ob zs) = zone_read c h' zs"
proof -
  note b = decode_Some [OF assms(2)]
  show "zone_read c h (zput z i ob zs) =
      (if z_owner (zs ! z) = c \<and> o_used ob \<and> o_generation ob = g then Some (o_kind ob, o_data ob) else None)"
    by (simp add: zone_read_def assms(2) zget_zput [OF assms(1) b(1,2)] zput_owner)
  assume ne: "h' \<noteq> h"
  show "zone_read c h' (zput z i ob zs) = zone_read c h' zs"
  proof (cases "decode h'")
    case None
    then show ?thesis by (simp add: zone_read_def)
  next
    case (Some t)
    obtain z' i' g' where t: "t = (z', i', g')" by (cases t)
    show ?thesis
    proof (cases "z' = z \<and> i' = i")
      case True
      then have "g' \<noteq> g" using ne b(3) decode_Some(3) [of h' z' i' g'] Some t by auto
      then show ?thesis using assms(3,4) True
        by (auto simp: zone_read_def Some t zget_zput [OF assms(1) b(1,2)] zput_owner)
    next
      case False
      then show ?thesis by (auto simp: zone_read_def Some t zget_zput [OF assms(1) b(1,2)] zput_owner)
    qed
  qed
qed

lemma zone_ops_live:
  assumes "live cur h zs"
  obtains z i g where "decode h = Some (z, i, g)" "z_owner (zs ! z) = cur" "o_used (zget zs z i)"
    "o_generation (zget zs z i) = g"
    "zone_read cur h zs = Some (o_kind (zget zs z i), o_data (zget zs z i))"
    "\<And>d. length d \<le> OBJECT_BYTES \<Longrightarrow> zone_write cur h d zs =
       (True, zput z i ((zget zs z i)\<lparr>o_data := d @ replicate (OBJECT_BYTES - length d) 0\<rparr>) zs)"
    "zone_free cur h zs = (True, zput z i ((zget zs z i)\<lparr>o_used := False, o_generation := next_generation g\<rparr>) zs)"
proof -
  from assms obtain z i g where l: "decode h = Some (z, i, g)" "z_owner (zs ! z) = cur" "o_used (zget zs z i)"
    "o_generation (zget zs z i) = g" by (auto simp: live_iff)
  show ?thesis by (rule that [OF l]) (simp_all add: l zone_read_def zone_write_def zone_free_def)
qed

text \<open>C10. What writing and freeing do. Both succeed exactly on a live handle (writing also needs
  data that fits); after a write the handle reads the data padded with zeros to 64 bytes, under
  the kind it was allocated with; after a free no process reads anything through it; every other
  handle, of any process, reads as before; and a refused operation changes nothing.\<close>

theorem zone_write_free_correct:
  assumes w: "wf_zones zs"
  shows "(live cur h zs \<and> length d \<le> OBJECT_BYTES \<longrightarrow>
        (\<exists>zs' kind old. zone_write cur h d zs = (True, zs') \<and> zone_read cur h zs = Some (kind, old) \<and>
           zone_read cur h zs' = Some (kind, d @ replicate (OBJECT_BYTES - length d) 0) \<and>
           (\<forall>c h'. h' \<noteq> h \<longrightarrow> zone_read c h' zs' = zone_read c h' zs))) \<and>
    (\<not> (live cur h zs \<and> length d \<le> OBJECT_BYTES) \<longrightarrow> zone_write cur h d zs = (False, zs)) \<and>
    (live cur h zs \<longrightarrow>
        (\<exists>zs'. zone_free cur h zs = (True, zs') \<and>
           (\<forall>c. zone_read c h zs' = None) \<and> (\<forall>c h'. h' \<noteq> h \<longrightarrow> zone_read c h' zs' = zone_read c h' zs))) \<and>
    (\<not> live cur h zs \<longrightarrow> zone_free cur h zs = (False, zs))"
proof (cases "live cur h zs")
  case False
  then show ?thesis using zone_ops_dead by simp
next
  case True
  from zone_ops_live [OF True] obtain z i g where l: "decode h = Some (z, i, g)" "z_owner (zs ! z) = cur"
    "o_used (zget zs z i)" "o_generation (zget zs z i) = g"
    and r: "zone_read cur h zs = Some (o_kind (zget zs z i), o_data (zget zs z i))"
    and wr: "\<And>d. length d \<le> OBJECT_BYTES \<Longrightarrow> zone_write cur h d zs =
       (True, zput z i ((zget zs z i)\<lparr>o_data := d @ replicate (OBJECT_BYTES - length d) 0\<rparr>) zs)"
    and fr: "zone_free cur h zs = (True, zput z i ((zget zs z i)\<lparr>o_used := False, o_generation := next_generation g\<rparr>) zs)"
    by blast
  note rd = zone_read_zput [OF w l(1)]
  show ?thesis
  proof (intro conjI impI)
    assume "live cur h zs \<and> length d \<le> OBJECT_BYTES"
    then show "\<exists>zs' kind old. zone_write cur h d zs = (True, zs') \<and> zone_read cur h zs = Some (kind, old) \<and>
           zone_read cur h zs' = Some (kind, d @ replicate (OBJECT_BYTES - length d) 0) \<and>
           (\<forall>c h'. h' \<noteq> h \<longrightarrow> zone_read c h' zs' = zone_read c h' zs)"
      using r wr l by (simp add: rd)
  next
    show "\<exists>zs'. zone_free cur h zs = (True, zs') \<and>
           (\<forall>c. zone_read c h zs' = None) \<and> (\<forall>c h'. h' \<noteq> h \<longrightarrow> zone_read c h' zs' = zone_read c h' zs)"
      using fr l by (simp add: rd)
  next
    assume "\<not> (live cur h zs \<and> length d \<le> OBJECT_BYTES)"
    then show "zone_write cur h d zs = (False, zs)" using True by (simp add: zone_write_def)
  qed (use True in simp)
qed

lemma zone_alloc_cases:
  assumes w: "wf_zones zs"
  obtains "zone_alloc cur zid kind zs = (None, zs)"
    "zid = 0 \<or> unat zid > MAX_ZONES \<or> z_owner (zs ! (unat zid - 1)) \<noteq> cur \<or>
      (\<forall>ob \<in> set (z_objects (zs ! (unat zid - 1))). o_used ob)"
  | h i where "zid \<noteq> 0" "unat zid \<le> MAX_ZONES" "z_owner (zs ! (unat zid - 1)) = cur"
      "decode h = Some (unat zid - 1, i, o_generation (zget zs (unat zid - 1) i))"
      "\<not> o_used (zget zs (unat zid - 1) i)"
      "zone_alloc cur zid kind zs = (Some h, zput (unat zid - 1) i ((zget zs (unat zid - 1) i)
         \<lparr>o_used := True, o_kind := kind, o_data := replicate OBJECT_BYTES 0\<rparr>) zs)"
proof (cases "zid = 0 \<or> unat zid > MAX_ZONES \<or> z_owner (zs ! (unat zid - 1)) \<noteq> cur \<or>
      first_unused 0 (z_objects (zs ! (unat zid - 1))) = None")
  case True
  then have "zone_alloc cur zid kind zs = (None, zs)" by (auto simp: zone_alloc_def Let_def)
  then show ?thesis using True that(1) by (auto simp: first_unused_None)
next
  case False
  then obtain i where i: "first_unused 0 (z_objects (zs ! (unat zid - 1))) = Some i" by auto
  have z: "unat zid - 1 < MAX_ZONES"
    using False by (metis Suc_diff_1 gr0I linorder_not_less Suc_le_eq unat_eq_zero)
  have il: "i < OBJECTS_PER_ZONE" and iu: "\<not> o_used (zget zs (unat zid - 1) i)"
    using first_unused_Some [OF i] wf_zones_obj(2) [OF w z, of 0] by (simp_all add: OBJECTS_PER_ZONE_def zget_def)
  show ?thesis
    by (rule that(2) [OF _ _ _ decode_encode [OF z il] iu]) (use False i in \<open>simp_all add: zone_alloc_def Let_def\<close>)
qed


section \<open>Stale handles\<close>

text \<open>The generations that are not zero form one cycle of length \<open>2 ^ 32 - 1\<close>; \<open>gen_ahead n g g'\<close> says
  that \<open>g'\<close> is \<open>n\<close> frees ahead of \<open>g\<close> on it.\<close>

definition gen_ahead :: "nat \<Rightarrow> u32 \<Rightarrow> u32 \<Rightarrow> bool" where
  "gen_ahead n g g' \<longleftrightarrow> unat g' = 1 + (unat g - 1 + n) mod (2 ^ 32 - 1)"

lemma gen_ahead_next:
  assumes "gen_ahead n g g'"
  shows "gen_ahead (Suc n) g (next_generation g')"
proof -
  have n0: "g' \<noteq> 0" using assms by (auto simp: gen_ahead_def)
  have "unat (next_generation g') = 1 + (1 + (unat g - 1 + n) mod (2 ^ 32 - 1)) mod (2 ^ 32 - 1)"
    using unat_next_generation [OF n0] assms by (simp only: gen_ahead_def)
  also have "\<dots> = 1 + (1 + (unat g - 1 + n)) mod (2 ^ 32 - 1)" by (simp only: mod_add_right_eq)
  finally show ?thesis by (simp only: gen_ahead_def) (simp add: add.commute)
qed

lemma gen_ahead_neq:
  assumes "gen_ahead n g g'" "0 < n" "n < 2 ^ 32 - 1" "g \<noteq> 0"
  shows "g' \<noteq> g"
proof
  assume eq: "g' = g"
  have g: "0 < unat g" "unat g < 2 ^ 32"
    using assms(4) unsigned_less [of g, where 'a = nat] by (simp_all add: unat_gt_0)
  have e: "(unat g - 1 + n) mod (2 ^ 32 - 1) = unat g - 1" using assms(1) eq g by (simp add: gen_ahead_def)
  show False
  proof (cases "unat g - 1 + n < 2 ^ 32 - 1")
    case True
    then show False using e assms(2) by simp
  next
    case False
    then have "(unat g - 1 + n) mod (2 ^ 32 - 1) = unat g - 1 + n - (2 ^ 32 - 1)"
      using assms(3) g by (subst le_mod_geq) simp_all
    then show False using e assms(3) False g by simp
  qed
qed

lemma stale_step:
  assumes "wf_zones zs" "z_owner (zs ! z) \<noteq> 0" "gen_ahead n g (o_generation (zget zs z i))"
  shows "\<exists>m. (m = n \<or> m = Suc n \<and> is_free op) \<and> gen_ahead m g (o_generation (zget (zstep op zs) z i)) \<and>
    z_owner (zstep op zs ! z) = z_owner (zs ! z)"
  using assms(1)
proof (cases rule: zstep_cases [of zs op])
  case 1
  then show ?thesis using assms by auto
next
  case (2 j)
  then have "zstep op zs ! z = zs ! z" using assms(2) by (cases "z = j") simp_all
  then show ?thesis using assms by (auto simp: zget_def)
next
  case (3 z' i' ob)
  have g: "zget (zstep op zs) z i = (if z = z' \<and> i = i' then ob else zget zs z i)"
    unfolding 3(5) by (rule zget_zput [OF assms(1) 3(1,2)])
  have o: "z_owner (zstep op zs ! z) = z_owner (zs ! z)" unfolding 3(5) by (rule zput_owner)
  show ?thesis unfolding g o
    using 3(6) assms(3) gen_ahead_next [OF assms(3)] by (cases "z = z' \<and> i = i'") auto
qed

lemma stale_run:
  assumes "wf_zones zs" "z_owner (zs ! z) \<noteq> 0" "gen_ahead n g (o_generation (zget zs z i))"
  shows "\<exists>m. n \<le> m \<and> m \<le> n + length (filter is_free ops) \<and> gen_ahead m g (o_generation (zget (zrun ops zs) z i))"
  using assms
proof (induction ops arbitrary: zs n)
  case Nil
  then show ?case by (auto simp: zrun_def)
next
  case (Cons op ops)
  obtain m where m: "m = n \<or> m = Suc n \<and> is_free op" "gen_ahead m g (o_generation (zget (zstep op zs) z i))"
      "z_owner (zstep op zs ! z) = z_owner (zs ! z)"
    using stale_step [OF Cons.prems] by blast
  have "z_owner (zstep op zs ! z) \<noteq> 0" using m(3) Cons.prems by simp
  from Cons.IH [OF wf_zstep [OF Cons.prems(1)] this m(2)] obtain k where
    k: "m \<le> k" "k \<le> m + length (filter is_free ops)" "gen_ahead k g (o_generation (zget (zrun ops (zstep op zs)) z i))"
    by blast
  show ?case by (rule exI [of _ k]) (use k m(1) in \<open>auto simp: zrun_def\<close>)
qed

text \<open>C12. A freed handle is dead for good: after the free, through any sequence of zone operations by
  any processes with fewer than \<open>2 ^ 32 - 2\<close> frees in it, no process can read, write or free through
  the old handle, and no allocation hands the same handle out again.\<close>

theorem stale_handle_dead:
  assumes w: "wf_zones zs" and l: "live cur h zs" and c: "cur \<noteq> 0"
    and k: "length (filter is_free ops) + 1 < 2 ^ 32 - 1"
  defines "zs' \<equiv> zrun ops (snd (zone_free cur h zs))"
  shows "zone_read p h zs' = None \<and> zone_write p h d zs' = (False, zs') \<and> zone_free p h zs' = (False, zs') \<and>
    fst (zone_alloc p zid kind zs') \<noteq> Some h"
proof -
  from zone_ops_live [OF l] obtain z i g where d: "decode h = Some (z, i, g)" "z_owner (zs ! z) = cur"
      "o_generation (zget zs z i) = g"
    and fr: "zone_free cur h zs = (True, zput z i ((zget zs z i)\<lparr>o_used := False, o_generation := next_generation g\<rparr>) zs)"
    by metis
  define zs1 where "zs1 = snd (zone_free cur h zs)"
  have w1: "wf_zones zs1" using wf_zstep [OF w, of "ZFree cur h"] by (simp add: zs1_def)
  have g0: "g \<noteq> 0" using wf_zones_obj(1) [OF w decode_Some(1,2) [OF d(1)]] d(3) by (simp add: wf_object_def)
  have "zget zs1 z i = (zget zs z i)\<lparr>o_used := False, o_generation := next_generation g\<rparr>"
    using fr by (simp add: zs1_def zget_zput [OF w decode_Some(1,2) [OF d(1)]])
  moreover have "gen_ahead 1 g (next_generation g)"
    using g0 unat_next_generation [OF g0] by (simp add: gen_ahead_def unat_gt_0)
  ultimately have "gen_ahead 1 g (o_generation (zget zs1 z i))" by simp
  moreover have "z_owner (zs1 ! z) \<noteq> 0" using fr d(2) c by (simp add: zs1_def zput_owner)
  ultimately obtain m where m: "1 \<le> m" "m \<le> 1 + length (filter is_free ops)"
      "gen_ahead m g (o_generation (zget zs' z i))"
    using stale_run [OF w1, of z 1 g i ops] by (auto simp: zs'_def zs1_def)
  then have ne: "o_generation (zget zs' z i) \<noteq> g" using gen_ahead_neq [OF m(3)] k g0 by simp
  then have nl: "\<not> live p h zs'" by (simp add: live_iff d(1))
  have "fst (zone_alloc p zid kind zs') \<noteq> Some h"
  proof
    assume a: "fst (zone_alloc p zid kind zs') = Some h"
    have "wf_zones zs'" using w1 wf_zrun by (simp add: zs'_def zs1_def)
    then show False
    proof (rule zone_alloc_cases [of zs' p zid kind])
      fix h' i'
      assume "decode h' = Some (unat zid - 1, i', o_generation (zget zs' (unat zid - 1) i'))"
        "zone_alloc p zid kind zs' = (Some h', zput (unat zid - 1) i' ((zget zs' (unat zid - 1) i')
           \<lparr>o_used := True, o_kind := kind, o_data := replicate OBJECT_BYTES 0\<rparr>) zs')"
      then show False using a d(1) ne by auto
    qed (use a in simp)
  qed
  then show ?thesis using zone_ops_dead [OF nl] by simp
qed

section \<open>Concrete runs\<close>

definition demo_zones :: zones where
  "demo_zones = zrun [ZCreate 1, ZAlloc 1 1 5] zones_statics"

definition demo_handle :: u64 where
  "demo_handle = encode 0 0 1"

lemma demo_zones_wf: "wf_zones demo_zones"
  unfolding demo_zones_def by (rule wf_zrun [OF wf_zones_statics])

lemma demo_handle_decode: "decode demo_handle = Some (0, 0, 1)"
  unfolding demo_handle_def by (rule decode_encode) (simp_all add: MAX_ZONES_def OBJECTS_PER_ZONE_def)

lemma demo_zones_eval:
  "z_owner (demo_zones ! 0) = 1" "z_owner (demo_zones ! 1) = 0"
  "zget demo_zones 0 0 = \<lparr>o_used = True, o_generation = 1, o_kind = 5, o_data = replicate OBJECT_BYTES 0\<rparr>"
  by (simp_all add: demo_zones_def zrun_def zone_create_def zone_alloc_def zones_statics_def empty_zone_def
      empty_object_def MAX_ZONES_def OBJECTS_PER_ZONE_def Let_def zput_def zget_def numeral_eq_Suc)

lemma demo_live: "live 1 demo_handle demo_zones"
  by (simp add: live_iff demo_handle_decode demo_zones_eval)

theorem zone_handle_roundtrip_witness: "decode (encode 3 15 7) = Some (3, 15, 7)"
  using zone_handle_roundtrip [of 3 15 7] by (simp add: MAX_ZONES_def OBJECTS_PER_ZONE_def)

theorem zone_isolation_witness:
  "zone_read 1 demo_handle (zrun [ZCreate 2, ZFree 2 demo_handle] demo_zones) = zone_read 1 demo_handle demo_zones \<and>
   zone_free 2 demo_handle demo_zones = (False, demo_zones)"
  using zone_isolation [OF demo_zones_wf, of 1 "[ZCreate 2, ZFree 2 demo_handle]" demo_handle 0 0 1 "[]"]
    zone_isolation [OF demo_zones_wf, of 2 "[]" demo_handle 0 0 1 "[]"] demo_handle_decode demo_zones_eval
  by simp

theorem zone_write_free_witness:
  "\<exists>zs'. zone_write 1 demo_handle [1, 2] demo_zones = (True, zs') \<and>
     zone_read 1 demo_handle zs' = Some (5, [1, 2] @ replicate 62 0)"
proof -
  have "zone_read 1 demo_handle demo_zones = Some (5, replicate OBJECT_BYTES 0)"
    by (simp add: zone_read_def demo_handle_decode demo_zones_eval)
  then show ?thesis using zone_write_free_correct [OF demo_zones_wf, of 1 demo_handle "[1, 2]"] demo_live
    by (auto simp: OBJECT_BYTES_def)
qed


theorem stale_handle_witness:
  "zone_read 1 demo_handle (zrun [ZAlloc 1 1 5] (snd (zone_free 1 demo_handle demo_zones))) = None"
  using stale_handle_dead [OF demo_zones_wf demo_live, of "[ZAlloc 1 1 5]" 1] by simp

end
