(* ===== verification/Paging.thy ===== *)
theory Paging
  imports Frame_Alloc
begin

text \<open>
  Page tables (\<^verbatim>\<open>mm.rs\<close>) over byte-addressed physical memory. A table is named by its physical
  address, an entry by its table and index, and every operation reads and writes the entries in
  RAM, so that the kernel's tables, freshly allocated tables and the split of huge pages share
  one memory. \<open>page_of\<close> is the translation the processor performs; the theorems relate the
  operations to it. Cache and TLB maintenance (\<^verbatim>\<open>invlpg\<close>) has no effect on this state.
\<close>

definition PAGE_SIZE :: u64 where "PAGE_SIZE = 4096"
definition LARGE_PAGE_SIZE :: u64 where "LARGE_PAGE_SIZE = 2 * 1024 * 1024"
definition PRESENT :: u64 where "PRESENT = push_bit 0 1"
definition WRITABLE :: u64 where "WRITABLE = push_bit 1 1"
definition UNCACHED :: u64 where "UNCACHED = push_bit 3 1 OR push_bit 4 1"
definition USER :: u64 where "USER = push_bit 2 1"
definition HUGE :: u64 where "HUGE = push_bit 7 1"
definition LEVEL_SHIFT :: "nat list" where "LEVEL_SHIFT = [39, 30, 21, 12]"
definition PD_ENTRIES :: usize where "PD_ENTRIES = 512"
definition INITIAL_MAP_SIZE :: u64 where "INITIAL_MAP_SIZE = 0x40000000"
definition USER_TOP :: u64 where "USER_TOP = 0x800000000000"

record pmap_report =
  pml4_phys :: u64
  page_table_frames :: usize

definition phys_to_virt :: "u64 \<Rightarrow> u64" where
  "phys_to_virt phys = phys"

definition level_index :: "u64 \<Rightarrow> nat \<Rightarrow> usize" where
  "level_index v level = unat (drop_bit (LEVEL_SHIFT ! level) v AND 0x1FF)"

text \<open>\<^verbatim>\<open>*table.add(i)\<close>: the i-th 64-bit entry of the table at a physical address.\<close>

definition pte :: "machine \<Rightarrow> u64 \<Rightarrow> usize \<Rightarrow> u64" where
  "pte mc t i = read64 (m_ram mc) (unat t + 8 * i)"

definition set_pte :: "u64 \<Rightarrow> usize \<Rightarrow> u64 \<Rightarrow> machine \<Rightarrow> machine" where
  "set_pte t i v mc = mc\<lparr>m_ram := write64 (m_ram mc) (unat t + 8 * i) v\<rparr>"

definition install_paging :: "u64 \<Rightarrow> machine \<Rightarrow> machine" where
  "install_paging pml4 mc = mc\<lparr>m_cr3 := pml4\<rparr>"

section \<open>The initial map\<close>

definition fill_leaf :: "u64 \<Rightarrow> u64 \<Rightarrow> machine \<Rightarrow> machine" where
  "fill_leaf leaf base mc =
     fold (\<lambda>j. set_pte leaf j ((base + of_nat j * PAGE_SIZE) OR PRESENT OR WRITABLE)) [0..<512] mc"

fun build_leaves :: "u64 \<Rightarrow> usize list \<Rightarrow> machine \<Rightarrow> bool \<times> machine" where
  "build_leaves pd [] mc = (True, mc)"
| "build_leaves pd (slot # slots) mc =
     (case alloc_zeroed_frame mc of
        (None, mc) \<Rightarrow> (False, mc)
      | (Some leaf, mc) \<Rightarrow>
          build_leaves pd slots
            (set_pte pd slot (leaf OR PRESENT OR WRITABLE)
              (fill_leaf leaf (of_nat slot * LARGE_PAGE_SIZE) mc)))"

definition install_initial :: "machine \<Rightarrow> pmap_report option \<times> machine" where
  "install_initial mc =
     (case alloc_zeroed_frame mc of (None, mc) \<Rightarrow> (None, mc) | (Some pml4, mc) \<Rightarrow>
      case alloc_zeroed_frame mc of (None, mc) \<Rightarrow> (None, mc) | (Some pdpt, mc) \<Rightarrow>
      case alloc_zeroed_frame mc of (None, mc) \<Rightarrow> (None, mc) | (Some pd, mc) \<Rightarrow>
      case build_leaves pd [0..<PD_ENTRIES] mc of
        (False, mc) \<Rightarrow> (None, mc)
      | (True, mc) \<Rightarrow>
          (Some \<lparr>pml4_phys = pml4, page_table_frames = PD_ENTRIES + 3\<rparr>,
           install_paging pml4
             (set_pte pml4 (level_index HIGHER_HALF_BASE 0) (pdpt OR PRESENT OR WRITABLE)
               (set_pte pml4 0 (pdpt OR PRESENT OR WRITABLE)
                 (set_pte pdpt 0 (pd OR PRESENT OR WRITABLE) mc)))))"

definition map_mmio_page :: "u64 \<Rightarrow> machine \<Rightarrow> u64 option \<times> machine" where
  "map_mmio_page phys mc =
     (if phys AND (PAGE_SIZE - 1) \<noteq> 0 \<or> phys < INITIAL_MAP_SIZE then (None, mc)
      else
        let root = m_cr3 mc; pdpt = pte mc root (level_index phys 0) AND NOT 0xFFF in
        if pdpt = 0 then (None, mc)
        else
          let pd_phys = pte mc pdpt (level_index phys 1) AND NOT 0xFFF in
          case (if pd_phys = 0 then
                  case alloc_zeroed_frame mc of
                    (None, mc) \<Rightarrow> (None, mc)
                  | (Some f, mc) \<Rightarrow> (Some f, set_pte pdpt (level_index phys 1) (f OR PRESENT OR WRITABLE) mc)
                else (Some pd_phys, mc)) of
            (None, mc) \<Rightarrow> (None, mc)
          | (Some pd, mc) \<Rightarrow>
              let pt_phys = pte mc pd (level_index phys 2) AND NOT 0xFFF in
              case (if pt_phys = 0 then
                      case alloc_zeroed_frame mc of
                        (None, mc) \<Rightarrow> (None, mc)
                      | (Some f, mc) \<Rightarrow> (Some f, set_pte pd (level_index phys 2) (f OR PRESENT OR WRITABLE) mc)
                    else (Some pt_phys, mc)) of
                (None, mc) \<Rightarrow> (None, mc)
              | (Some pt, mc) \<Rightarrow>
                  (Some phys, set_pte pt (level_index phys 3) (phys OR PRESENT OR WRITABLE OR UNCACHED) mc))"

section \<open>User mappings\<close>

text \<open>Replace a huge entry by a fresh table of 512 smaller entries that map the same memory
  (1 GiB entries split into 2 MiB ones, 2 MiB entries into pages).\<close>

definition split_huge :: "nat \<Rightarrow> u64 \<Rightarrow> u64 \<Rightarrow> u64 \<Rightarrow> usize \<Rightarrow> machine \<Rightarrow> bool \<times> machine" where
  "split_huge shift step flags t i mc =
     (if pte mc t i AND HUGE \<noteq> 0 then
        let old = pte mc t i; base = old AND NOT (push_bit shift 1 - 1) in
        case alloc_zeroed_frame mc of
          (None, mc) \<Rightarrow> (False, mc)
        | (Some f, mc) \<Rightarrow>
            (True, set_pte t i (f OR PRESENT OR WRITABLE OR USER)
               (fold (\<lambda>j. set_pte f j ((base + of_nat j * step) OR flags)) [0..<512] mc))
      else (True, mc))"

text \<open>Link a fresh table into an empty entry, or open an existing one to user mode.\<close>

definition ensure_table :: "u64 \<Rightarrow> usize \<Rightarrow> machine \<Rightarrow> bool \<times> machine" where
  "ensure_table t i mc =
     (if pte mc t i AND PRESENT = 0 then
        case alloc_zeroed_frame mc of
          (None, mc) \<Rightarrow> (False, mc)
        | (Some f, mc) \<Rightarrow> (True, set_pte t i (f OR PRESENT OR WRITABLE OR USER) mc)
      else (True, set_pte t i (pte mc t i OR USER) mc))"

definition map_user_page :: "u64 \<Rightarrow> u64 \<Rightarrow> machine \<Rightarrow> bool \<times> machine" where
  "map_user_page virt phys mc =
     (if virt \<ge> USER_TOP \<or> virt AND 0xFFF \<noteq> 0 \<or> phys AND 0xFFF \<noteq> 0 \<or> phys \<ge> INITIAL_MAP_SIZE
      then (False, mc)
      else
        let root = m_cr3 mc AND NOT 0xFFF in
        case ensure_table root (level_index virt 0) mc of (False, mc) \<Rightarrow> (False, mc) | (True, mc) \<Rightarrow>
        let pdpt = pte mc root (level_index virt 0) AND NOT 0xFFF in
        case split_huge 30 (push_bit 21 1) (PRESENT OR WRITABLE OR HUGE) pdpt (level_index virt 1) mc of
          (False, mc) \<Rightarrow> (False, mc) | (True, mc) \<Rightarrow>
        case ensure_table pdpt (level_index virt 1) mc of (False, mc) \<Rightarrow> (False, mc) | (True, mc) \<Rightarrow>
        let pd = pte mc pdpt (level_index virt 1) AND NOT 0xFFF in
        case split_huge 21 PAGE_SIZE (PRESENT OR WRITABLE) pd (level_index virt 2) mc of
          (False, mc) \<Rightarrow> (False, mc) | (True, mc) \<Rightarrow>
        case ensure_table pd (level_index virt 2) mc of (False, mc) \<Rightarrow> (False, mc) | (True, mc) \<Rightarrow>
        let pt = pte mc pd (level_index virt 2) AND NOT 0xFFF in
        (True, set_pte pt (level_index virt 3) (phys OR PRESENT OR WRITABLE OR USER) mc))"

definition user_page_mapped :: "u64 \<Rightarrow> machine \<Rightarrow> bool" where
  "user_page_mapped virt mc =
     (if virt \<ge> USER_TOP then False
      else
        let root = m_cr3 mc AND NOT 0xFFF; pml4e = pte mc root (level_index virt 0) in
        if pml4e AND (PRESENT OR USER) \<noteq> PRESENT OR USER then False
        else
          let pdpt = pml4e AND NOT 0xFFF; pdpte = pte mc pdpt (level_index virt 1) in
          if pdpte AND (PRESENT OR USER) \<noteq> PRESENT OR USER then False
          else if pdpte AND HUGE \<noteq> 0 then True
          else
            let pd = pdpte AND NOT 0xFFF; pde = pte mc pd (level_index virt 2) in
            if pde AND (PRESENT OR USER) \<noteq> PRESENT OR USER then False
            else if pde AND HUGE \<noteq> 0 then True
            else
              let pt = pde AND NOT 0xFFF; e = pte mc pt (level_index virt 3) in
              e AND (PRESENT OR USER) = PRESENT OR USER)"

function range_loop :: "u64 \<Rightarrow> u64 \<Rightarrow> machine \<Rightarrow> bool" where
  "range_loop page last_page mc =
     (if \<not> user_page_mapped page mc then False
      else if page = last_page then True
      else case checked_add page PAGE_SIZE of
        None \<Rightarrow> False
      | Some nxt \<Rightarrow> range_loop nxt last_page mc)"
  by pat_completeness auto
termination
proof (relation "measure (\<lambda>(page, last_page, mc). 2 ^ 64 - unat page)")
  fix page nxt last_page :: u64 and mc :: machine
  assume "checked_add page PAGE_SIZE = Some nxt"
  then have "unat nxt = unat page + 4096" by (simp add: unat_checked_add PAGE_SIZE_def)
  moreover have "unat page < 2 ^ 64" using unsigned_less [of page, where 'a = nat] by simp
  ultimately show "((nxt, last_page, mc), page, last_page, mc) \<in> measure (\<lambda>(page, last_page, mc). 2 ^ 64 - unat page)"
    by simp
qed simp

declare range_loop.simps [simp del]

definition user_range_mapped :: "u64 \<Rightarrow> u64 \<Rightarrow> machine \<Rightarrow> bool" where
  "user_range_mapped ptr len mc =
     (if len = 0 then True
      else case checked_add ptr (len - 1) of
        None \<Rightarrow> False
      | Some lst \<Rightarrow> range_loop (ptr AND NOT (PAGE_SIZE - 1)) (lst AND NOT (PAGE_SIZE - 1)) mc)"

definition unmap_user_page :: "u64 \<Rightarrow> machine \<Rightarrow> u64 option \<times> machine" where
  "unmap_user_page virt mc =
     (if virt AND 0xFFF \<noteq> 0 then (None, mc)
      else
        let root = m_cr3 mc AND NOT 0xFFF; pml4e = pte mc root (level_index virt 0) in
        if pml4e AND PRESENT = 0 then (None, mc)
        else
          let pdpt = pml4e AND NOT 0xFFF; pdpte = pte mc pdpt (level_index virt 1) in
          if pdpte AND PRESENT = 0 \<or> pdpte AND HUGE \<noteq> 0 then (None, mc)
          else
            let pd = pdpte AND NOT 0xFFF; pde = pte mc pd (level_index virt 2) in
            if pde AND PRESENT = 0 \<or> pde AND HUGE \<noteq> 0 then (None, mc)
            else
              let pt = pde AND NOT 0xFFF; e = pte mc pt (level_index virt 3) in
              if e AND (PRESENT OR USER) \<noteq> PRESENT OR USER then (None, mc)
              else (Some (e AND NOT 0xFFF), set_pte pt (level_index virt 3) 0 mc))"

section \<open>Bits of an entry\<close>

lemma mask12: "(0xFFF :: u64) = mask 12"
  by (simp add: mask_eq_exp_minus_1)

lemma mask9: "(0x1FF :: u64) = mask 9"
  by (simp add: mask_eq_exp_minus_1)

lemma u64_eq_iff: "a = b \<longleftrightarrow> (\<forall>n < 64. bit a n = bit b n)" for a b :: u64
  by (auto intro: bit_word_eqI)

lemma u64_eq_all: "a = b \<longleftrightarrow> (\<forall>n. bit a n = bit b n)" for a b :: u64
  by (auto intro: bit_word_eqI)

lemma bit_flag: "k < 64 \<Longrightarrow> bit (push_bit k 1 :: u64) n \<longleftrightarrow> n = k"
  by (auto simp only: bit_push_bit_iff bit_1_iff possible_bit_word) simp_all

lemma bit_flags [simp]:
  "bit PRESENT n \<longleftrightarrow> n = 0" "bit WRITABLE n \<longleftrightarrow> n = 1" "bit USER n \<longleftrightarrow> n = 2" "bit HUGE n \<longleftrightarrow> n = 7"
  unfolding PRESENT_def WRITABLE_def USER_def HUGE_def by (rule bit_flag, simp)+

lemma and_present [simp]: "e AND PRESENT = 0 \<longleftrightarrow> \<not> bit e 0"
  unfolding u64_eq_all by (auto simp: bit_and_iff intro: gr0I)

lemma and_huge [simp]: "e AND HUGE = 0 \<longleftrightarrow> \<not> bit e 7"
  unfolding u64_eq_all by (auto simp: bit_and_iff)

lemma and_present_user [simp]: "e AND (PRESENT OR USER) = PRESENT OR USER \<longleftrightarrow> bit e 0 \<and> bit e 2"
  unfolding u64_eq_all by (auto simp: bit_and_iff bit_or_iff)

text \<open>Page-aligned addresses and the address bits of an entry.\<close>

definition addr_of :: "u64 \<Rightarrow> u64" where
  "addr_of e = e AND NOT 0xFFF"

lemma addr_of_fold [simp]: "e AND - 4096 = addr_of e"
  by (simp add: addr_of_def)

definition aligned :: "u64 \<Rightarrow> bool" where
  "aligned t \<longleftrightarrow> t AND 0xFFF = 0"

lemma aligned_bits: "aligned t \<longleftrightarrow> (\<forall>n < 12. \<not> bit t n)"
proof -
  have "bit (t AND mask 12) n \<longleftrightarrow> bit t n \<and> n < 12" for n
    using bit_imp_le_length [of t n] by (auto simp: bit_and_iff bit_mask_iff)
  then show ?thesis unfolding aligned_def mask12 u64_eq_all by auto
qed

lemma aligned_unat: "aligned t \<longleftrightarrow> 4096 dvd unat t"
proof -
  have "aligned t \<longleftrightarrow> unat (take_bit 12 t) = 0"
    unfolding aligned_def mask12 take_bit_eq_mask [symmetric] unat_eq_zero ..
  then show ?thesis by (simp only: unsigned_take_bit_eq) (simp add: take_bit_eq_mod dvd_eq_mod_eq_0)
qed

lemma addr_of_aligned [simp]: "aligned (addr_of e)"
  unfolding aligned_bits addr_of_def mask12 by (simp add: bit_simps)

lemma addr_of_id [simp]: "aligned t \<Longrightarrow> addr_of t = t"
  unfolding aligned_bits addr_of_def mask12 u64_eq_iff by (auto simp: bit_simps)

lemma addr_of_or_flags:
  "aligned t \<Longrightarrow> addr_of (t OR PRESENT OR WRITABLE OR USER) = t"
  "aligned t \<Longrightarrow> addr_of (t OR PRESENT OR WRITABLE) = t"
  unfolding aligned_bits addr_of_def mask12 u64_eq_iff by (auto simp: bit_simps)

lemma level_index_less [simp]: "level_index v l < 512"
proof -
  have "unat (take_bit 9 (drop_bit (LEVEL_SHIFT ! l) v)) < 2 ^ 9"
    by (simp only: unsigned_take_bit_eq take_bit_nat_less_exp)
  then show ?thesis by (simp only: level_index_def mask9 take_bit_eq_mask [symmetric]) simp
qed

section \<open>Entries in memory\<close>

lemma entry_addr_inj:
  assumes "aligned t" "aligned t'" "i < 512" "j < 512" "unat t + 8 * i = unat t' + 8 * j"
  shows "t = t' \<and> i = j"
proof -
  obtain a b where ab: "unat t = 4096 * a" "unat t' = 4096 * b"
    using assms(1,2) by (auto simp: aligned_unat dvd_def)
  then have e: "4096 * a + 8 * i = 4096 * b + 8 * j" using assms(5) by simp
  have "(4096 * a + 8 * i) div 4096 = a" "(4096 * b + 8 * j) div 4096 = b" using assms(3,4) by simp_all
  then have "a = b" using e by simp
  then show ?thesis using e ab by (simp add: word_unat_eq_iff)
qed

lemma pte_set_pte:
  assumes "aligned t" "aligned t'" "i < 512" "j < 512"
  shows "pte (set_pte t i v mc) t' j = (if t' = t \<and> j = i then v else pte mc t' j)"
proof (cases "t' = t \<and> j = i")
  case True
  then show ?thesis by (simp add: pte_def set_pte_def)
next
  case False
  let ?a = "unat t' + 8 * j" and ?b = "unat t + 8 * i"
  have "?a \<noteq> ?b" using entry_addr_inj [OF assms(2,1,4,3)] False by auto
  moreover obtain k l where "?a = 8 * k" "?b = 8 * l"
  proof -
    have "(8 :: nat) dvd 4096" by simp
    then have "8 dvd unat t" "8 dvd unat t'" using assms(1,2) dvd_trans unfolding aligned_unat by blast+
    then have "8 dvd ?a" "8 dvd ?b" by (simp_all add: dvd_add)
    then show ?thesis using that by (elim dvdE)
  qed
  ultimately have "?a + 8 \<le> ?b \<or> ?b + 8 \<le> ?a" by (cases "k < l") auto
  then show ?thesis using False by (auto simp: pte_def set_pte_def)
qed

lemma set_pte_fields [simp]:
  "m_cr3 (set_pte t i v mc) = m_cr3 mc" "m_frames (set_pte t i v mc) = m_frames mc"
  by (simp_all add: set_pte_def)

section \<open>What paging relies on: fresh, zeroed frames\<close>

text \<open>The contract of the frame allocator as the page-table code uses it: a frame that was free,
  is page aligned and inside the direct map, is handed out zeroed and no longer free; nothing
  else in memory changes; a request fails only when no frame is
  free, and then changes nothing.\<close>

definition same_but :: "u64 \<Rightarrow> machine \<Rightarrow> machine \<Rightarrow> bool" where
  "same_but f mc mc' \<longleftrightarrow> m_cr3 mc' = m_cr3 mc \<and>
     (\<forall>t i. aligned t \<longrightarrow> t \<noteq> f \<longrightarrow> i < 512 \<longrightarrow> pte mc' t i = pte mc t i) \<and>
     (\<forall>a. a div 4096 \<noteq> frame_index f \<longrightarrow> m_ram mc' a = m_ram mc a)"

locale frame_provider =
  fixes alloc :: "machine \<Rightarrow> u64 option \<times> machine"
    and inv :: "machine \<Rightarrow> bool"
    and avail :: "machine \<Rightarrow> nat set"
  assumes alloc_None: "inv mc \<Longrightarrow> alloc mc = (None, mc') \<Longrightarrow> mc' = mc \<and> avail mc = {}"
    and alloc_inv: "inv mc \<Longrightarrow> alloc mc = (r, mc') \<Longrightarrow> inv mc'"
    and alloc_fresh: "inv mc \<Longrightarrow> alloc mc = (Some f, mc') \<Longrightarrow>
      aligned f \<and> unat f < 2 ^ 30 \<and> frame_index f \<in> avail mc \<and> avail mc' = avail mc - {frame_index f}"
    and alloc_zero: "inv mc \<Longrightarrow> alloc mc = (Some f, mc') \<Longrightarrow> i < 512 \<Longrightarrow> pte mc' f i = 0"
    and alloc_same: "inv mc \<Longrightarrow> alloc mc = (Some f, mc') \<Longrightarrow> same_but f mc mc'"

lemma pte_fill_zero: "i < 512 \<Longrightarrow> pte (mc\<lparr>m_ram := fill_bytes (m_ram mc) (unat f) FRAME_SIZE 0\<rparr>) f i = 0"
  unfolding pte_def by (simp add: FRAME_SIZE_def read64_fill_zero)

lemma pte_fill_other:
  assumes "aligned f" "aligned t" "t \<noteq> f" "i < 512"
  shows "pte (mc\<lparr>m_ram := fill_bytes (m_ram mc) (unat f) FRAME_SIZE 0\<rparr>) t i = pte mc t i"
proof -
  obtain a b where ab: "unat t = 4096 * a" "unat f = 4096 * b"
    using assms(1,2) by (auto simp: aligned_unat dvd_def)
  then have "a \<noteq> b" using assms(3) by (auto simp: word_unat_eq_iff)
  then have "unat t + 8 * i + 8 \<le> unat f \<or> unat f + FRAME_SIZE \<le> unat t + 8 * i"
    using ab assms(4) by (cases "a < b") (auto simp: FRAME_SIZE_def)
  then show ?thesis by (simp add: pte_def)
qed

lemma frame_bounds:
  assumes "aligned f"
  shows "a div 4096 = frame_index f \<longleftrightarrow> unat f \<le> a \<and> a < unat f + 4096"
proof -
  obtain b where "unat f = 4096 * b" using assms by (auto simp: aligned_unat dvd_def)
  then show ?thesis by (auto simp: frame_index_def FRAME_SIZE_def)
qed

lemma fill_outside_frame:
  "aligned f \<Longrightarrow> a div 4096 \<noteq> frame_index f \<Longrightarrow> fill_bytes m (unat f) FRAME_SIZE v a = m a"
  using frame_bounds [of f a] by (auto simp: fill_bytes_def FRAME_SIZE_def)

lemma set_pte_outside:
  "aligned t \<Longrightarrow> i < 512 \<Longrightarrow> a div 4096 \<noteq> frame_index t \<Longrightarrow> m_ram (set_pte t i v mc) a = m_ram mc a"
  using frame_bounds [of t a] by (auto simp: set_pte_def write64_def write_list_def)

lemma pte_m_frames [simp]: "pte (mc\<lparr>m_frames := fs\<rparr>) t i = pte mc t i"
  by (simp add: pte_def)

lemma alloc_zeroed_cases:
  assumes "frames_inv (m_frames mc)" "alloc_zeroed_frame mc = (r, mc')"
  shows "(r = None \<and> mc' = mc \<and> free_set (m_frames mc) = {}) \<or>
    (\<exists>st. r = Some (of_nat st * of_nat FRAME_SIZE) \<and> free_run 1 st (m_frames mc) \<and>
       mc' = mc\<lparr>m_frames := alloc_result 1 (m_frames mc) st,
               m_ram := fill_bytes (m_ram mc) (unat (of_nat st * of_nat FRAME_SIZE :: u64)) FRAME_SIZE 0\<rparr>)"
proof -
  have hint: "SEARCH_HINT (m_frames mc) \<le> MAX_FRAMES" using assms(1) by (simp add: frames_inv_def)
  obtain r' fs where a: "alloc_frames 1 (m_frames mc) = (r', fs)" by fastforce
  have "free_set (m_frames mc) = {}" if "r' = None"
  proof (rule ccontr)
    assume "free_set (m_frames mc) \<noteq> {}"
    then obtain st where "st \<in> free_set (m_frames mc)" by blast
    then have "free_run 1 st (m_frames mc)" using free_set_bounds [of st "m_frames mc"] by (simp add: free_run_def)
    then show False using alloc_frames_finds [OF _ hint] a that by (fastforce simp: found_def)
  qed
  then show ?thesis using alloc_frames_cases [OF _ hint a] assms(2) a
    by (auto simp: alloc_zeroed_frame_def)
qed

lemma free_run_frame:
  assumes "free_run 1 st s"
  defines "f \<equiv> of_nat st * of_nat FRAME_SIZE :: u64"
  shows "aligned f" "unat f < 2 ^ 30" "frame_index f = st" "st \<in> free_set s" "st < MAX_FRAMES"
proof -
  show st: "st < MAX_FRAMES" "st \<in> free_set s" using assms(1) by (auto simp: free_run_def)
  show "frame_index f = st" unfolding f_def by (rule frame_index_addr [OF st(1)])
  show "aligned f" "unat f < 2 ^ 30"
    using unat_frame_addr [OF st(1)] st(1) by (simp_all add: aligned_unat f_def) (simp_all add: frame_consts)
qed

interpretation fp: frame_provider alloc_zeroed_frame "\<lambda>mc. frames_inv (m_frames mc)" "\<lambda>mc. free_set (m_frames mc)"
proof
  fix mc mc' :: machine and r f i
  assume inv: "frames_inv (m_frames mc)"
  show "mc' = mc \<and> free_set (m_frames mc) = {}" if "alloc_zeroed_frame mc = (None, mc')"
    using alloc_zeroed_cases [OF inv that] by simp
  show "frames_inv (m_frames mc')" if "alloc_zeroed_frame mc = (r, mc')"
    using alloc_zeroed_cases [OF inv that] inv frames_inv_alloc_result [OF inv] by auto
  assume a: "alloc_zeroed_frame mc = (Some f, mc')"
  obtain st where st: "f = of_nat st * of_nat FRAME_SIZE" "free_run 1 st (m_frames mc)"
      "mc' = mc\<lparr>m_frames := alloc_result 1 (m_frames mc) st, m_ram := fill_bytes (m_ram mc) (unat f) FRAME_SIZE 0\<rparr>"
    using alloc_zeroed_cases [OF inv a] by auto
  note fr = free_run_frame [OF st(2), folded st(1)]
  have wf: "wf_frames (m_frames mc)" using inv by (simp add: frames_inv_def)
  show "aligned f \<and> unat f < 2 ^ 30 \<and> frame_index f \<in> free_set (m_frames mc) \<and>
      free_set (m_frames mc') = free_set (m_frames mc) - {frame_index f}"
    using fr st(3) alloc_result_free_set [OF wf st(2)] by (simp add: atLeastLessThanSuc)
  show "same_but f mc mc'"
    unfolding same_but_def st(3) using pte_fill_other [OF fr(1), of _ _ mc] fill_outside_frame [OF fr(1)]
    by (simp add: pte_def)
  show "pte mc' f i = 0" if "i < 512"
    using pte_fill_zero [OF that, of mc f] st(3) by (simp add: pte_def)
qed

section \<open>The tree of tables\<close>

text \<open>A path is the list of indices that leads from the root to a table, the most recent index
  first. Only the lower half of the root is the user's; the kernel's higher-half alias shares
  tables with it on purpose.\<close>

fun tab :: "machine \<Rightarrow> usize list \<Rightarrow> u64 option" where
  "tab mc [] = Some (addr_of (m_cr3 mc))"
| "tab mc (i # p) =
     (case tab mc p of
        None \<Rightarrow> None
      | Some t \<Rightarrow> if bit (pte mc t i) 0 \<and> (p = [] \<or> \<not> bit (pte mc t i) 7) then Some (addr_of (pte mc t i)) else None)"

definition upath :: "usize list \<Rightarrow> bool" where
  "upath p \<longleftrightarrow> length p \<le> 3 \<and> (\<forall>i \<in> set p. i < 512) \<and> (p \<noteq> [] \<longrightarrow> last p < 256)"

lemma upath_Nil [simp]: "upath []"
  by (simp add: upath_def)

lemma upath_ConsD: "upath (i # p) \<Longrightarrow> upath p \<and> i < 512 \<and> length p \<le> 2"
  by (auto simp: upath_def split: if_splits)

lemma tab_aligned: "tab mc p = Some t \<Longrightarrow> aligned t"
  by (cases p) (auto split: option.splits if_splits)

definition pt_ok :: "nat set \<Rightarrow> machine \<Rightarrow> bool" where
  "pt_ok avail mc \<longleftrightarrow>
     (\<forall>p t. upath p \<longrightarrow> tab mc p = Some t \<longrightarrow> unat t < 2 ^ 30 \<and> frame_index t \<notin> avail) \<and>
     (\<forall>p q t. upath p \<longrightarrow> upath q \<longrightarrow> tab mc p = Some t \<longrightarrow> tab mc q = Some t \<longrightarrow> p = q) \<and>
     (\<forall>p t i. upath p \<longrightarrow> length p \<in> {1, 2} \<longrightarrow> tab mc p = Some t \<longrightarrow> i < 512 \<longrightarrow>
        bit (pte mc t i) 7 \<longrightarrow> bit (pte mc t i) 0)"

definition pt_inv :: "machine \<Rightarrow> bool" where
  "pt_inv mc \<longleftrightarrow> frames_inv (m_frames mc) \<and> pt_ok (free_set (m_frames mc)) mc"

lemma pt_okD:
  assumes "pt_ok A mc" "upath p" "tab mc p = Some t"
  shows "unat t < 2 ^ 30" "frame_index t \<notin> A"
    and "\<And>q. upath q \<Longrightarrow> tab mc q = Some t \<Longrightarrow> q = p"
    and "\<And>i. length p \<in> {1, 2} \<Longrightarrow> i < 512 \<Longrightarrow> bit (pte mc t i) 7 \<Longrightarrow> bit (pte mc t i) 0"
  using assms unfolding pt_ok_def by blast+

text \<open>The translation of a virtual page: descend from a table through the remaining indices; a
  huge entry ends the walk early and the remaining indices are the offset in its region.\<close>

fun offset :: "usize list \<Rightarrow> u64" where
  "offset [] = 0"
| "offset (i # is) = of_nat i * 2 ^ (12 + 9 * length is) + offset is"

definition region_of :: "nat \<Rightarrow> u64 \<Rightarrow> u64" where
  "region_of k e = e AND NOT (mask k)"

fun look :: "machine \<Rightarrow> nat \<Rightarrow> u64 \<Rightarrow> usize list \<Rightarrow> u64 option" where
  "look mc lvl t [] = Some t"
| "look mc lvl t (i # is) =
     (let e = pte mc t i in
      if \<not> bit e 0 then None
      else if lvl \<in> {1, 2} \<and> bit e 7 then Some (region_of (12 + 9 * length is) e + offset is)
      else look mc (Suc lvl) (addr_of e) is)"

definition indices :: "u64 \<Rightarrow> usize list" where
  "indices v = map (level_index v) [0..<4]"

definition page_of :: "machine \<Rightarrow> u64 \<Rightarrow> u64 option" where
  "page_of mc v = look mc 0 (addr_of (m_cr3 mc)) (indices v)"

lemma indices_simp: "indices v = [level_index v 0, level_index v 1, level_index v 2, level_index v 3]"
  by (simp add: indices_def upt_rec numeral_2_eq_2 numeral_3_eq_3)

text \<open>Writing an entry with only its user bit changed changes no table and no translation.\<close>

lemma or_user [simp]:
  "bit (e OR USER) 0 = bit e 0" "bit (e OR USER) 7 = bit e 7" "addr_of (e OR USER) = addr_of e"
  by (simp_all add: bit_or_iff) (simp only: addr_of_def mask12 u64_eq_iff, auto simp: bit_simps)

lemma or_user_region: "12 \<le> k \<Longrightarrow> region_of k (e OR USER) = region_of k e"
  unfolding region_of_def u64_eq_iff by (auto simp: bit_simps)

lemma pte_open:
  assumes "aligned t" "i < 512" "aligned t'" "j < 512"
  shows "pte (set_pte t i (pte mc t i OR USER) mc) t' j = pte mc t' j \<or>
    pte (set_pte t i (pte mc t i OR USER) mc) t' j = pte mc t' j OR USER"
  using pte_set_pte [OF assms(1,3,2,4)] by auto

lemma tab_open:
  assumes "aligned t" "i < 512" "\<forall>j \<in> set p. j < 512"
  shows "tab (set_pte t i (pte mc t i OR USER) mc) p = tab mc p"
  using assms(3)
proof (induction p)
  case Nil
  then show ?case by simp
next
  case (Cons j p)
  then have IH: "tab (set_pte t i (pte mc t i OR USER) mc) p = tab mc p" and j: "j < 512" by simp_all
  show ?case
  proof (cases "tab mc p")
    case (Some x)
    then show ?thesis using IH pte_open [OF assms(1,2) tab_aligned [OF Some] j, of mc] by auto
  qed (simp add: IH)
qed

lemma look_open:
  assumes "aligned t" "i < 512" "\<forall>j \<in> set is. j < 512" "aligned t'"
  shows "look (set_pte t i (pte mc t i OR USER) mc) lvl t' is = look mc lvl t' is"
  using assms(3,4)
proof (induction "is" arbitrary: lvl t')
  case Nil
  then show ?case by simp
next
  case (Cons j js)
  then show ?case
    using pte_open [OF assms(1,2), of t' j mc] by (auto simp: Let_def or_user_region)
qed

text \<open>Linking a new table at an entry that led nowhere. \<open>relinked\<close> collects what the machine looks
  like afterwards: entry \<open>i\<close> of table \<open>t\<close> (at path \<open>p\<close>) points to the fresh frame \<open>f\<close>, no other
  entry outside \<open>f\<close> has changed, and \<open>f\<close> holds leaves only.\<close>

definition relinked :: "usize list \<Rightarrow> u64 \<Rightarrow> usize \<Rightarrow> u64 \<Rightarrow> machine \<Rightarrow> machine \<Rightarrow> bool" where
  "relinked p t i f mc mc' \<longleftrightarrow>
     upath (i # p) \<and> tab mc p = Some t \<and> tab mc (i # p) = None \<and> aligned f \<and> unat f < 2 ^ 30 \<and>
     m_cr3 mc' = m_cr3 mc \<and>
     (\<forall>t' j. aligned t' \<longrightarrow> j < 512 \<longrightarrow> t' \<noteq> f \<longrightarrow> (t', j) \<noteq> (t, i) \<longrightarrow> pte mc' t' j = pte mc t' j) \<and>
     (\<forall>a. a div 4096 \<noteq> frame_index f \<longrightarrow> a div 4096 \<noteq> frame_index t \<longrightarrow> m_ram mc' a = m_ram mc a) \<and>
     pte mc' t i = f OR PRESENT OR WRITABLE OR USER \<and>
     (length p < 2 \<longrightarrow> (\<forall>j < 512. bit (pte mc' f j) 0 = bit (pte mc' f j) 7)) \<and>
     (length p = 0 \<longrightarrow> (\<forall>j < 512. \<not> bit (pte mc' f j) 0))"

lemma relinkedD:
  assumes "relinked p t i f mc mc'"
  shows "upath (i # p)" "upath p" "i < 512" "length p \<le> 2" "tab mc p = Some t" "tab mc (i # p) = None"
    "aligned f" "aligned t" "unat f < 2 ^ 30" "m_cr3 mc' = m_cr3 mc"
    and "pte mc' t i = f OR PRESENT OR WRITABLE OR USER"
    and "\<And>t' j. aligned t' \<Longrightarrow> j < 512 \<Longrightarrow> t' \<noteq> f \<Longrightarrow> t' \<noteq> t \<or> j \<noteq> i \<Longrightarrow> pte mc' t' j = pte mc t' j"
    and "\<And>j. length p < 2 \<Longrightarrow> j < 512 \<Longrightarrow> bit (pte mc' f j) 0 = bit (pte mc' f j) 7"
    and "\<And>j. length p = 0 \<Longrightarrow> j < 512 \<Longrightarrow> \<not> bit (pte mc' f j) 0"
    and "\<And>a. a div 4096 \<noteq> frame_index f \<Longrightarrow> a div 4096 \<noteq> frame_index t \<Longrightarrow> m_ram mc' a = m_ram mc a"
  using assms upath_ConsD [of i p] tab_aligned [of mc p t] unfolding relinked_def
  by (auto simp del: tab.simps)

lemma linked_bits [simp]:
  "bit (f OR PRESENT OR WRITABLE OR USER) 0" "bit (f OR PRESENT OR WRITABLE OR USER) 2"
  by (simp_all add: bit_or_iff)

lemma linked_not_huge: "aligned f \<Longrightarrow> \<not> bit (f OR PRESENT OR WRITABLE OR USER) 7"
  by (simp add: bit_or_iff aligned_bits)

lemma tab_relinked:
  assumes ok: "pt_ok A mc" and fresh: "frame_index f \<in> A" and l: "relinked p t i f mc mc'"
  shows "upath q \<Longrightarrow> tab mc' q = (if q = i # p then Some f else tab mc q)"
proof (induction q)
  case Nil
  then show ?case using relinkedD(10) [OF l] by simp
next
  case (Cons j q)
  note l = relinkedD [OF l]
  have q: "upath q" "j < 512" using upath_ConsD [OF Cons.prems] by simp_all
  note IH = Cons.IH [OF q(1)]
  consider (child) "q = i # p" | (link) "j # q = i # p" "q \<noteq> i # p" | (other) "j # q \<noteq> i # p" "q \<noteq> i # p" by blast
  then show ?case
  proof cases
    case child
    then have "length p < 2" using upath_ConsD [OF Cons.prems] by simp
    then have "\<not> (bit (pte mc' f j) 0 \<and> \<not> bit (pte mc' f j) 7)" using l(13) q(2) by blast
    then show ?thesis using IH child l(6) by auto
  next
    case link
    then show ?thesis using IH l(5,7,11) linked_not_huge [OF l(7)] addr_of_or_flags(1) [OF l(7)] by simp
  next
    case other
    show ?thesis
    proof (cases "tab mc q")
      case None
      then show ?thesis using IH other by simp
    next
      case (Some t')
      have "t' \<noteq> f" using pt_okD(2) [OF ok q(1) Some] fresh by auto
      moreover have "t' \<noteq> t \<or> j \<noteq> i" using pt_okD(3) [OF ok l(2,5) q(1)] Some other by auto
      ultimately have "pte mc' t' j = pte mc t' j" using l(12) tab_aligned [OF Some] q(2) by blast
      then have "tab mc' (j # q) = tab mc (j # q)" using IH Some other(2) by simp
      then show ?thesis by (simp only: if_not_P [OF other(1)])
    qed
  qed
qed

lemma pt_ok_relinked:
  assumes ok: "pt_ok A mc" and fresh: "frame_index f \<in> A" and l: "relinked p t i f mc mc'"
  shows "pt_ok (A - {frame_index f}) mc'"
proof -
  note tr = tab_relinked [OF ok fresh l]
  note d = relinkedD [OF l]
  have old: "x \<noteq> f" if "upath q" "tab mc q = Some x" for q x
    using pt_okD(2) [OF ok that] fresh by auto
  have huge: "bit (pte mc' x j) 0"
    if x: "upath q" "length q \<in> {1, 2}" "tab mc' q = Some x" "j < 512" "bit (pte mc' x j) 7" for q x j
  proof (cases "q = i # p")
    case True
    then have "x = f" "length p < 2" using x(2,3) tr [OF x(1)] by auto
    then show ?thesis using d(13) x(4,5) by simp
  next
    case False
    then have t: "tab mc q = Some x" using tr [OF x(1)] x(3) by simp
    show ?thesis
    proof (cases "x = t \<and> j = i")
      case True
      then show ?thesis using d(11) by simp
    next
      case False
      then have "pte mc' x j = pte mc x j" using d(12) [of x j] old [OF x(1) t] tab_aligned [OF t] x(4) by blast
      then show ?thesis using pt_okD(4) [OF ok x(1) t x(2,4)] x(5) by simp
    qed
  qed
  have "q = q'" if "upath q" "upath q'" "tab mc' q = Some x" "tab mc' q' = Some x" for q q' x
    using that tr [OF that(1)] tr [OF that(2)] old pt_okD(3) [OF ok that(1), of x q'] by (auto split: if_splits)
  moreover have "unat x < 2 ^ 30 \<and> frame_index x \<notin> A - {frame_index f}" if "upath q" "tab mc' q = Some x" for q x
    using that tr [OF that(1)] pt_okD(1,2) [OF ok that(1), of x] d(9) by (auto split: if_splits)
  ultimately show ?thesis unfolding pt_ok_def using huge by blast
qed

text \<open>Translations after a relink: unchanged, provided the new table translates what the old
  entry translated.\<close>

lemma look_gen:
  assumes step: "\<And>q x j js. upath q \<Longrightarrow> tab mc q = Some x \<Longrightarrow> length js + length q = 3 \<Longrightarrow> j < 512 \<Longrightarrow>
      \<forall>k \<in> set js. k < 512 \<Longrightarrow> P (rev js @ j # q) \<Longrightarrow>
      pte mc' x j = pte mc x j \<or> look mc' (length q) x (j # js) = look mc (length q) x (j # js)"
  shows "upath q \<Longrightarrow> tab mc q = Some x \<Longrightarrow> length js + length q = 4 \<Longrightarrow> \<forall>j \<in> set js. j < 512 \<Longrightarrow>
    (q = [] \<longrightarrow> js \<noteq> [] \<longrightarrow> hd js < 256) \<Longrightarrow> P (rev js @ q) \<Longrightarrow> look mc' (length q) x js = look mc (length q) x js"
proof (induction js arbitrary: q x)
  case Nil
  then show ?case by simp
next
  case (Cons j js)
  have "pte mc' x j = pte mc x j \<or> look mc' (length q) x (j # js) = look mc (length q) x (j # js)"
    by (rule step) (use Cons.prems in simp_all)
  then show ?case
  proof
    assume e: "pte mc' x j = pte mc x j"
    show ?thesis
    proof (cases "bit (pte mc x j) 0 \<and> \<not> (length q \<in> {1, 2} \<and> bit (pte mc x j) 7)")
      case False
      then show ?thesis using e by (auto simp: Let_def)
    next
      case down: True
      have eq: "look m (length q) x (j # js) = look m (Suc (length q)) (addr_of (pte mc x j)) js"
        if "pte m x j = pte mc x j" for m using down that by (auto simp: Let_def)
      show ?thesis
      proof (cases "js = []")
        case True
        then show ?thesis using e eq by simp
      next
        case False
        then have lq: "length q \<le> 2" using Cons.prems(3) by (cases js) auto
        have "upath (j # q)" using Cons.prems(1,4,5) lq by (auto simp: upath_def)
        moreover have "length q \<in> {1, 2} \<or> q = []" using lq by (cases q) (auto simp: le_Suc_eq)
        then have "tab mc (j # q) = Some (addr_of (pte mc x j))" using Cons.prems(2) down by auto
        ultimately have "look mc' (length (j # q)) (addr_of (pte mc x j)) js =
            look mc (length (j # q)) (addr_of (pte mc x j)) js"
          using Cons.IH [of "j # q"] Cons.prems(3,4,6) by simp
        then show ?thesis using eq e by simp
      qed
    qed
  qed simp
qed

lemma look_relinked:
  assumes ok: "pt_ok A mc" and fresh: "frame_index f \<in> A" and l: "relinked p t i f mc mc'"
    and same: "\<And>js. length js = 3 - length p \<Longrightarrow> \<forall>j \<in> set js. j < 512 \<Longrightarrow>
      look mc' (Suc (length p)) f js = look mc (length p) t (i # js)"
    and q: "upath q" "tab mc q = Some x" "length js + length q = 3" "j < 512" "\<forall>k \<in> set js. k < 512"
  shows "pte mc' x j = pte mc x j \<or> look mc' (length q) x (j # js) = look mc (length q) x (j # js)"
proof (cases "x = t \<and> j = i")
  case True
  note d = relinkedD [OF l]
  have qp: "q = p" using pt_okD(3) [OF ok d(2,5) q(1)] q(2) True by simp
  have "look mc' (length p) t (i # js) = look mc' (Suc (length p)) f js"
    using d(11) linked_not_huge [OF d(7)] addr_of_or_flags(1) [OF d(7)] by simp
  then show ?thesis using same [of js] q(3,5) qp True by auto
next
  case False
  have "x \<noteq> f" using pt_okD(2) [OF ok q(1,2)] fresh by auto
  then show ?thesis using False relinkedD(12) [OF l, of x j] tab_aligned [OF q(2)] q(4) by auto
qed

lemma USER_TOP_index:
  assumes "v < USER_TOP"
  shows "level_index v 0 < 256"
proof -
  have u: "unat v < 2 ^ 47" using assms by (simp add: word_less_nat_alt USER_TOP_def)
  have "unat (drop_bit 39 v AND 0x1FF) \<le> unat (drop_bit 39 v)"
    unfolding mask9 take_bit_eq_mask [symmetric] by (simp only: unsigned_take_bit_eq) (rule take_bit_nat_less_eq_self)
  also have "\<dots> = unat v div 2 ^ 39" by (simp add: drop_bit_eq_div unat_div)
  also have "\<dots> < 256" using u by (simp add: div_less_iff_less_mult)
  finally show ?thesis by (simp add: level_index_def LEVEL_SHIFT_def)
qed

lemma page_of_relinked:
  assumes "pt_ok A mc" "frame_index f \<in> A" "relinked p t i f mc mc'"
    and "\<And>js. length js = 3 - length p \<Longrightarrow> \<forall>j \<in> set js. j < 512 \<Longrightarrow>
      look mc' (Suc (length p)) f js = look mc (length p) t (i # js)"
    and "v < USER_TOP"
  shows "page_of mc' v = page_of mc v"
proof -
  have "look mc' (length ([] :: usize list)) (addr_of (m_cr3 mc)) (indices v) =
      look mc (length ([] :: usize list)) (addr_of (m_cr3 mc)) (indices v)"
  proof (rule look_gen [where P = "\<lambda>_. True"])
    fix q js :: "usize list" and x :: u64 and j :: usize
    assume "upath q" "tab mc q = Some x" "length js + length q = 3" "j < 512" "\<forall>k \<in> set js. k < 512"
    then show "pte mc' x j = pte mc x j \<or> look mc' (length q) x (j # js) = look mc (length q) x (j # js)"
      by (intro look_relinked [OF assms(1-3)] assms(4))
  qed (use USER_TOP_index [OF assms(5)] in \<open>simp_all add: indices_simp\<close>)
  then show ?thesis using relinkedD(10) [OF assms(3)] by (simp add: page_of_def)
qed

section \<open>Extending the tree\<close>

text \<open>A byte of memory that belongs neither to a free frame nor to a table.\<close>

definition data_byte :: "machine \<Rightarrow> nat \<Rightarrow> bool" where
  "data_byte mc a \<longleftrightarrow> a div 4096 \<notin> free_set (m_frames mc) \<and>
     (\<forall>q x. upath q \<longrightarrow> tab mc q = Some x \<longrightarrow> frame_index x \<noteq> a div 4096)"

text \<open>The frames that are free or serve as tables; mapping only moves frames from one to the other.\<close>

definition pool :: "machine \<Rightarrow> nat set" where
  "pool mc = free_set (m_frames mc) \<union> {frame_index x | q x. upath q \<and> tab mc q = Some x}"

definition ext :: "machine \<Rightarrow> machine \<Rightarrow> bool" where
  "ext mc mc' \<longleftrightarrow> pt_inv mc' \<and> m_cr3 mc' = m_cr3 mc \<and>
     (\<forall>q x. upath q \<longrightarrow> tab mc q = Some x \<longrightarrow> tab mc' q = Some x \<and>
        (\<forall>j < 512. length q \<le> 2 \<longrightarrow> bit (pte mc x j) 2 \<longrightarrow> bit (pte mc' x j) 2) \<and>
        (\<forall>j < 512. length q = 3 \<longrightarrow> pte mc' x j = pte mc x j)) \<and>
     (\<forall>v < USER_TOP. page_of mc' v = page_of mc v) \<and>
     (\<forall>a. data_byte mc a \<longrightarrow> m_ram mc' a = m_ram mc a \<and> data_byte mc' a) \<and> pool mc' = pool mc"

lemma ext_refl: "pt_inv mc \<Longrightarrow> ext mc mc"
  by (simp add: ext_def)

lemma extD:
  assumes "ext mc mc'"
  shows "pt_inv mc'" "m_cr3 mc' = m_cr3 mc"
    and "\<And>q x. upath q \<Longrightarrow> tab mc q = Some x \<Longrightarrow> tab mc' q = Some x"
    and "\<And>q x j. upath q \<Longrightarrow> tab mc q = Some x \<Longrightarrow> j < 512 \<Longrightarrow> length q \<le> 2 \<Longrightarrow> bit (pte mc x j) 2 \<Longrightarrow>
      bit (pte mc' x j) 2"
    and "\<And>v. v < USER_TOP \<Longrightarrow> page_of mc' v = page_of mc v"
    and "\<And>q x j. upath q \<Longrightarrow> tab mc q = Some x \<Longrightarrow> j < 512 \<Longrightarrow> length q = 3 \<Longrightarrow> pte mc' x j = pte mc x j"
    and "\<And>a. data_byte mc a \<Longrightarrow> m_ram mc' a = m_ram mc a \<and> data_byte mc' a"
    and "pool mc' = pool mc"
  using assms unfolding ext_def by blast+

lemma ext_trans: "ext a b \<Longrightarrow> ext b c \<Longrightarrow> ext a c"
  unfolding ext_def by simp

lemma ext_relinked:
  assumes inv: "pt_inv mc" and al: "alloc_zeroed_frame mc = (Some f, mc1)" and fr: "m_frames mc' = m_frames mc1"
    and l: "relinked p t i f mc mc'"
    and same: "\<And>js. length js = 3 - length p \<Longrightarrow> \<forall>j \<in> set js. j < 512 \<Longrightarrow>
      look mc' (Suc (length p)) f js = look mc (length p) t (i # js)"
  shows "ext mc mc'" "tab mc' (i # p) = Some f"
proof -
  have fi: "frames_inv (m_frames mc)" and ok: "pt_ok (free_set (m_frames mc)) mc" using inv by (simp_all add: pt_inv_def)
  have fresh: "frame_index f \<in> free_set (m_frames mc)"
    "free_set (m_frames mc1) = free_set (m_frames mc) - {frame_index f}"
    using fp.alloc_fresh [OF fi al] by simp_all
  note tr = tab_relinked [OF ok fresh(1) l]
  note d = relinkedD [OF l]
  show "tab mc' (i # p) = Some f" using tr [OF d(1)] by (simp del: tab.simps)
  have "pt_inv mc'"
    using fp.alloc_inv [OF fi al] pt_ok_relinked [OF ok fresh(1) l] fr fresh(2) by (simp add: pt_inv_def)
  moreover have "tab mc' q = Some x" if "upath q" "tab mc q = Some x" for q x
    using tr [OF that(1)] that(2) d(6) by (auto simp del: tab.simps)
  moreover have "bit (pte mc' x j) 2" if x: "upath q" "tab mc q = Some x" "j < 512" "bit (pte mc x j) 2" for q x j
  proof (cases "x = t \<and> j = i")
    case True
    then show ?thesis using d(11) by simp
  next
    case False
    then have "pte mc' x j = pte mc x j"
      using d(12) [of x j] pt_okD(2) [OF ok x(1,2)] fresh(1) tab_aligned [OF x(2)] x(3) by auto
    then show ?thesis using x(4) by simp
  qed
  moreover have "pte mc' x j = pte mc x j" if x: "upath q" "tab mc q = Some x" "j < 512" "length q = 3" for q x j
  proof -
    have "x \<noteq> t" using pt_okD(3) [OF ok x(1,2) d(2)] d(4,5) x(4) by auto
    moreover have "x \<noteq> f" using pt_okD(2) [OF ok x(1,2)] fresh(1) by auto
    ultimately show ?thesis using d(12) [of x j] tab_aligned [OF x(2)] x(3) by blast
  qed
  moreover have "m_ram mc' a = m_ram mc a \<and> data_byte mc' a" if a: "data_byte mc a" for a
  proof -
    have "a div 4096 \<noteq> frame_index f" "a div 4096 \<noteq> frame_index t"
      using a fresh(1) d(2,5) by (auto simp: data_byte_def)
    moreover have "frame_index x \<noteq> a div 4096" if "upath q" "tab mc' q = Some x" for q x
      using tr [OF that(1)] that a calculation(1) by (cases "q = i # p") (auto simp: data_byte_def simp del: tab.simps)
    ultimately show ?thesis using d(15) a fr fresh(2) by (simp add: data_byte_def)
  qed
  moreover have "pool mc' = pool mc"
  proof -
    have "{frame_index x | q x. upath q \<and> tab mc' q = Some x} =
        insert (frame_index f) {frame_index x | q x. upath q \<and> tab mc q = Some x}"
      using tr d(1,6) by (auto simp del: tab.simps split: if_splits) (metis option.distinct(1))+
    then show ?thesis using fr fresh by (auto simp: pool_def)
  qed
  ultimately show "ext mc mc'"
    unfolding ext_def using d(10) page_of_relinked [OF ok fresh(1) l same] by blast
qed

lemma ext_open:
  assumes inv: "pt_inv mc" and t: "upath p" "tab mc p = Some t" "i < 512" "length p \<le> 2"
  shows "ext mc (set_pte t i (pte mc t i OR USER) mc)"
proof -
  let ?m = "set_pte t i (pte mc t i OR USER) mc"
  have al: "aligned t" by (rule tab_aligned [OF t(2)])
  have ok: "pt_ok (free_set (m_frames mc)) mc" using inv by (simp add: pt_inv_def)
  have tb: "tab ?m q = tab mc q" if "upath q" for q
    using tab_open [OF al t(3), of q mc] that by (simp add: upath_def)
  have pe: "pte ?m x j = pte mc x j \<or> pte ?m x j = pte mc x j OR USER" if "aligned x" "j < 512" for x j
    by (rule pte_open [OF al t(3) that])
  have "pt_ok (free_set (m_frames mc)) ?m"
    unfolding pt_ok_def
  proof (intro conjI allI impI)
    fix q x j
    assume q: "upath q" "length q \<in> {1, 2}" "tab ?m q = Some x" "j < 512" "bit (pte ?m x j) 7"
    then have x: "tab mc q = Some x" using tb by simp
    show "bit (pte ?m x j) 0"
      using pe [OF tab_aligned [OF x] q(4)] q(5) pt_okD(4) [OF ok q(1) x q(2,4)] by auto
  next
    fix q x assume q: "upath q" "tab ?m q = Some x"
    then show "unat x < 2 ^ 30" "frame_index x \<notin> free_set (m_frames mc)"
      using pt_okD(1,2) [OF ok q(1)] tb by simp_all
  next
    fix q q' x assume q: "upath q" "upath q'" "tab ?m q = Some x" "tab ?m q' = Some x"
    then show "q = q'" using pt_okD(3) [OF ok q(2) _ q(1)] tb by simp
  qed
  then have "pt_inv ?m" using inv by (simp add: pt_inv_def)
  moreover have "bit (pte ?m x j) 2" if "tab mc q = Some x" "j < 512" "bit (pte mc x j) 2" for q x j
    using pe [OF tab_aligned [OF that(1)] that(2)] that(3) by (auto simp: bit_or_iff)
  moreover have "page_of ?m v = page_of mc v" for v
    using look_open [OF al t(3), of "indices v" "addr_of (m_cr3 mc)" mc 0]
    by (simp add: page_of_def indices_simp del: look.simps)
  moreover have "pte ?m x j = pte mc x j" if x: "upath q" "tab mc q = Some x" "j < 512" "length q = 3" for q x j
    using pt_okD(3) [OF ok x(1,2) t(1)] t(2,4) x(4) pte_set_pte [OF al tab_aligned [OF x(2)] t(3) x(3)] by auto
  moreover have "m_ram ?m a = m_ram mc a \<and> data_byte ?m a" if a: "data_byte mc a" for a
  proof -
    have "frame_index t \<noteq> a div 4096" using a t(1,2) by (auto simp: data_byte_def)
    then show ?thesis using set_pte_outside [OF al t(3), of a] a tb by (auto simp: data_byte_def)
  qed
  moreover have "pool ?m = pool mc" by (simp add: pool_def tb cong: conj_cong)
  ultimately show ?thesis unfolding ext_def using tb by simp
qed

lemma pte_fold:
  assumes "aligned f" "n \<le> 512" "aligned x" "k < 512"
  shows "pte (fold (\<lambda>j. set_pte f j (g j)) [0..<n] mc) x k = (if x = f \<and> k < n then g k else pte mc x k)"
  using assms(2)
proof (induction n)
  case 0
  then show ?case by simp
next
  case (Suc n)
  then show ?case using pte_set_pte [OF assms(1,3) _ assms(4), of n] by auto
qed

lemma fold_set_pte_fields [simp]:
  "m_cr3 (fold (\<lambda>j. set_pte f j (g j)) js mc) = m_cr3 mc"
  "m_frames (fold (\<lambda>j. set_pte f j (g j)) js mc) = m_frames mc"
  by (induction js arbitrary: mc) simp_all

lemma fold_set_outside:
  "aligned f \<Longrightarrow> n \<le> 512 \<Longrightarrow> a div 4096 \<noteq> frame_index f \<Longrightarrow>
   m_ram (fold (\<lambda>j. set_pte f j (g j)) [0..<n] mc) a = m_ram mc a"
  by (induction n) (simp_all add: set_pte_outside)

lemma relinkedI:
  assumes inv: "pt_inv mc" and al: "alloc_zeroed_frame mc = (Some f, mc1)" and p: "upath (i # p)" "tab mc p = Some t"
    and none: "tab mc (i # p) = None" and m2: "m_cr3 mc2 = m_cr3 mc1" "same_but f mc1 mc2"
    and leaf: "length p < 2 \<Longrightarrow> \<forall>j < 512. bit (pte mc2 f j) 0 = bit (pte mc2 f j) 7"
      "length p = 0 \<Longrightarrow> \<forall>j < 512. \<not> bit (pte mc2 f j) 0"
  shows "relinked p t i f mc (set_pte t i (f OR PRESENT OR WRITABLE OR USER) mc2)"
proof -
  have fi: "frames_inv (m_frames mc)" and ok: "pt_ok (free_set (m_frames mc)) mc" using inv by (simp_all add: pt_inv_def)
  note fr = fp.alloc_fresh [OF fi al] and sm = fp.alloc_same [OF fi al]
  have i: "i < 512" "upath p" using upath_ConsD [OF p(1)] by simp_all
  have ta: "aligned t" by (rule tab_aligned [OF p(2)])
  have tf: "t \<noteq> f" using pt_okD(2) [OF ok i(2) p(2)] fr by auto
  let ?m = "set_pte t i (f OR PRESENT OR WRITABLE OR USER) mc2"
  have pt: "pte ?m x j = (if x = t \<and> j = i then f OR PRESENT OR WRITABLE OR USER else pte mc2 x j)"
    if "aligned x" "j < 512" for x j by (rule pte_set_pte [OF ta that(1) i(1) that(2)])
  have "pte ?m x j = pte mc x j" if "aligned x" "j < 512" "x \<noteq> f" "(x, j) \<noteq> (t, i)" for x j
    using pt [OF that(1,2)] that sm m2(2) by (auto simp: same_but_def)
  moreover have "pte ?m f j = pte mc2 f j" if "j < 512" for j using pt [OF _ that, of f] fr tf by auto
  moreover have "m_ram ?m a = m_ram mc a" if "a div 4096 \<noteq> frame_index f" "a div 4096 \<noteq> frame_index t" for a
    using set_pte_outside [OF ta i(1) that(2)] sm m2(2) that(1) by (simp add: same_but_def)
  ultimately show ?thesis
    unfolding relinked_def using p none fr m2(1) sm leaf pt [OF ta i(1)] by (simp del: tab.simps add: same_but_def)
qed

lemma same_but_refl: "same_but f mc mc"
  by (simp add: same_but_def)

lemma look_nonpresent: "\<not> bit (pte mc t i) 0 \<Longrightarrow> js \<noteq> [] \<Longrightarrow> hd js = i \<Longrightarrow> look mc lvl t js = None"
  by (cases js) auto

lemma ensure_table_step:
  assumes inv: "pt_inv mc" and p: "upath (i # p)" "tab mc p = Some t"
    and huge: "p \<noteq> [] \<Longrightarrow> \<not> bit (pte mc t i) 7" and e: "ensure_table t i mc = (ok, mc')"
  shows "ext mc mc' \<and> (\<not> ok \<longrightarrow> free_set (m_frames mc') = {}) \<and>
    (ok \<longrightarrow> tab mc' (i # p) = Some (addr_of (pte mc' t i)) \<and> bit (pte mc' t i) 2)"
proof (cases "bit (pte mc t i) 0")
  case True
  have i: "i < 512" "upath p" "length p \<le> 2" using upath_ConsD [OF p(1)] by simp_all
  have m: "mc' = set_pte t i (pte mc t i OR USER) mc" "ok" using e True by (simp_all add: ensure_table_def)
  have x: "ext mc mc'" unfolding m(1) by (rule ext_open [OF inv i(2) p(2) i(1,3)])
  have "pte mc' t i = pte mc t i OR USER"
    unfolding m(1) using pte_set_pte [OF tab_aligned [OF p(2)] tab_aligned [OF p(2)] i(1) i(1)] by simp
  then show ?thesis using m(2) x extD(3) [OF x i(2) p(2)] True huge by (auto simp: bit_or_iff)
next
  case False
  have fi: "frames_inv (m_frames mc)" using inv by (simp add: pt_inv_def)
  have none: "tab mc (i # p) = None" using p(2) False by simp
  obtain r mc1 where al: "alloc_zeroed_frame mc = (r, mc1)" by fastforce
  show ?thesis
  proof (cases r)
    case None
    then have "ok = False" "mc' = mc" "free_set (m_frames mc) = {}"
      using e False al fp.alloc_None [OF fi] by (auto simp: ensure_table_def)
    then show ?thesis using ext_refl [OF inv] by simp
  next
    case (Some f)
    then have al: "alloc_zeroed_frame mc = (Some f, mc1)" using al by simp
    have m: "mc' = set_pte t i (f OR PRESENT OR WRITABLE OR USER) mc1" and okv: ok
      using e False al by (simp_all add: ensure_table_def)
    have z: "pte mc1 f j = 0" if "j < 512" for j by (rule fp.alloc_zero [OF fi al that])
    have l: "relinked p t i f mc mc'"
      unfolding m by (rule relinkedI [OF inv al p none _ same_but_refl]) (simp_all add: z)
    note d = relinkedD [OF l]
    have "f \<noteq> t" using pt_okD(2) [of "free_set (m_frames mc)" mc p t] d(2,5) inv fp.alloc_fresh [OF fi al]
      by (auto simp: pt_inv_def)
    then have zf: "pte mc' f j = 0" if "j < 512" for j
      unfolding m using pte_set_pte [OF d(8,7,3) that] z that by simp
    have "look mc' (Suc (length p)) f js = look mc (length p) t (i # js)"
      if "length js = 3 - length p" "\<forall>j \<in> set js. j < 512" for js
      using that d(4) zf False by (cases js) auto
    from ext_relinked [OF inv al _ l this] have "ext mc mc'" "tab mc' (i # p) = Some f" by (simp_all add: m del: tab.simps)
    then show ?thesis using d(11) addr_of_or_flags(1) [OF d(7)] okv by (simp del: tab.simps)
  qed
qed

text \<open>The 512 entries of a split region map it piece by piece.\<close>

lemma region_bits: "bit (region_of k e) n \<longleftrightarrow> bit e n \<and> k \<le> n"
  using bit_imp_le_length [of e n] by (auto simp: region_of_def bit_and_iff bit_not_iff bit_mask_iff not_less)

lemma low_zero_sum: "take_bit k (b :: u64) = 0 \<Longrightarrow> take_bit k (b + of_nat j * 2 ^ k) = 0"
  unfolding take_bit_eq_0_iff by (rule dvd_add) simp_all

lemma region_piece:
  assumes "take_bit k (x :: u64) = 0" "12 \<le> k"
  shows "region_of k (x OR PRESENT OR WRITABLE OR HUGE) = x" "region_of k (x OR PRESENT OR WRITABLE) = x"
proof -
  have "\<not> bit x n" if "n < k" for n
    using assms(1) that by (metis bit_0_eq bit_take_bit_iff bot_apply bot_bool_def)
  then have "k \<le> n" if "bit x n" for n using that not_less by blast
  then show "region_of k (x OR PRESENT OR WRITABLE OR HUGE) = x" "region_of k (x OR PRESENT OR WRITABLE) = x"
    using assms(2) unfolding u64_eq_all region_bits by (auto simp: bit_or_iff not_le)
qed

lemma region_low: "j \<le> k \<Longrightarrow> take_bit j (region_of k e) = 0"
  unfolding u64_eq_all by (auto simp: bit_take_bit_iff region_bits)

lemma push_bit_mask: "(push_bit k 1 - 1 :: u64) = mask k"
  by (simp add: mask_eq_exp_minus_1 push_bit_eq_mult)

lemma addr_of_region: "addr_of e = region_of 12 e"
  by (simp only: addr_of_def region_of_def mask12)

definition split_args :: "nat \<Rightarrow> nat \<Rightarrow> u64 \<Rightarrow> u64 \<Rightarrow> bool" where
  "split_args lvl shift step flags \<longleftrightarrow>
     lvl = 1 \<and> shift = 30 \<and> step = push_bit 21 1 \<and> flags = PRESENT OR WRITABLE OR HUGE \<or>
     lvl = 2 \<and> shift = 21 \<and> step = PAGE_SIZE \<and> flags = PRESENT OR WRITABLE"

lemma split_look:
  assumes args: "split_args lvl shift step flags" and e: "bit (pte mc t i) 0" "bit (pte mc t i) 7"
    and g: "\<And>j. j < 512 \<Longrightarrow> pte mc' f j = (region_of shift (pte mc t i) + of_nat j * step) OR flags"
    and js: "length js = 3 - lvl" "\<forall>j \<in> set js. j < 512"
  shows "look mc' (Suc lvl) f js = look mc lvl t (i # js)"
proof -
  let ?base = "region_of shift (pte mc t i)"
  obtain j js' where c: "js = j # js'" using js(1) args by (cases js) (auto simp: split_args_def)
  then have jl: "j < 512" using js(2) by simp
  have rhs: "look mc lvl t (i # js) = Some (region_of (12 + 9 * length js) (pte mc t i) + offset js)"
    using e args by (auto simp: split_args_def)
  consider "lvl = 1" "shift = 30" "step = 2 ^ 21" "flags = PRESENT OR WRITABLE OR HUGE"
    | "lvl = 2" "shift = 21" "step = 2 ^ 12" "flags = PRESENT OR WRITABLE"
    using args by (auto simp: split_args_def PAGE_SIZE_def)
  then show ?thesis
  proof cases
    case 1
    have l1: "length js' = 1" using js(1) c 1 by simp
    have "take_bit 21 (?base + of_nat j * 2 ^ 21) = 0" by (rule low_zero_sum) (simp add: region_low 1)
    then have "region_of 21 (pte mc' f j) = ?base + of_nat j * 2 ^ 21"
      unfolding g [OF jl] 1 using region_piece(1) [of 21 "?base + of_nat j * 2 ^ 21"] by (simp add: or.assoc 1)
    moreover have "look mc' (Suc lvl) f js = Some (region_of 21 (pte mc' f j) + offset js')"
      using g [OF jl] l1 by (simp add: c Let_def 1 bit_or_iff)
    ultimately show ?thesis unfolding rhs by (simp add: c l1 1 add.assoc)
  next
    case 2
    have l1: "js' = []" using js(1) c 2 by simp
    have "take_bit 12 (?base + of_nat j * 2 ^ 12) = 0" by (rule low_zero_sum) (simp add: region_low 2)
    then have "addr_of (pte mc' f j) = ?base + of_nat j * 2 ^ 12"
      unfolding g [OF jl] 2 addr_of_region using region_piece(2) [of 12 "?base + of_nat j * 2 ^ 12"]
      by (simp add: or.assoc 2)
    moreover have "look mc' (Suc lvl) f js = Some (addr_of (pte mc' f j))"
      using g [OF jl] l1 by (simp add: c Let_def 2 bit_or_iff)
    ultimately show ?thesis unfolding rhs by (simp add: c l1 2)
  qed
qed

lemma split_huge_step:
  assumes inv: "pt_inv mc" and p: "upath (i # p)" "tab mc p = Some t"
    and args: "split_args (length p) shift step flags"
    and e: "split_huge shift step flags t i mc = (ok, mc')"
  shows "ext mc mc' \<and> (\<not> ok \<longrightarrow> free_set (m_frames mc') = {}) \<and> (ok \<longrightarrow> \<not> bit (pte mc' t i) 7)"
proof (cases "bit (pte mc t i) 7")
  case False
  then show ?thesis using e ext_refl [OF inv] by (auto simp: split_huge_def)
next
  case True
  have fi: "frames_inv (m_frames mc)" and okt: "pt_ok (free_set (m_frames mc)) mc" using inv by (simp_all add: pt_inv_def)
  have i: "i < 512" "upath p" using upath_ConsD [OF p(1)] by simp_all
  have pne: "p \<noteq> []" "length p \<in> {1, 2}" using args by (auto simp: split_args_def)
  have pres: "bit (pte mc t i) 0" using pt_okD(4) [OF okt i(2) p(2) pne(2) i(1) True] .
  have none: "tab mc (i # p) = None" using p(2) True pne by simp
  let ?g = "\<lambda>j. (region_of shift (pte mc t i) + of_nat j * step) OR flags"
  obtain r mc1 where al: "alloc_zeroed_frame mc = (r, mc1)" by fastforce
  show ?thesis
  proof (cases r)
    case None
    then have "ok = False" "mc' = mc" "free_set (m_frames mc) = {}"
      using e True al fp.alloc_None [OF fi] by (auto simp: split_huge_def Let_def)
    then show ?thesis using ext_refl [OF inv] by simp
  next
    case (Some f)
    then have al: "alloc_zeroed_frame mc = (Some f, mc1)" using al by simp
    have fa: "aligned f" using fp.alloc_fresh [OF fi al] by simp
    define mc2 where "mc2 = fold (\<lambda>j. set_pte f j (?g j)) [0..<512] mc1"
    have m: "mc' = set_pte t i (f OR PRESENT OR WRITABLE OR USER) mc2" and okv: ok
      using e True al unfolding mc2_def region_of_def push_bit_mask [symmetric] by (simp_all add: split_huge_def Let_def)
    have g2: "pte mc2 x j = (if x = f then ?g j else pte mc1 x j)" if "aligned x" "j < 512" for x j
      unfolding mc2_def using pte_fold [OF fa _ that, of 512 ?g mc1] that(2) by simp
    have sb: "same_but f mc1 mc2" using fold_set_outside [OF fa, of 512] by (simp add: same_but_def g2) (simp add: mc2_def)
    have bits: "bit (?g j) 0" "length p < 2 \<Longrightarrow> bit (?g j) 7" for j
      using args by (auto simp: split_args_def bit_or_iff)
    have l: "relinked p t i f mc mc'"
      unfolding m
    proof (rule relinkedI [OF inv al p none _ sb])
      show "m_cr3 mc2 = m_cr3 mc1" by (simp add: mc2_def)
      show "\<forall>j < 512. bit (pte mc2 f j) 0 = bit (pte mc2 f j) 7" if "length p < 2"
        using g2 [OF fa] bits that by simp
      show "\<forall>j < 512. \<not> bit (pte mc2 f j) 0" if "length p = 0" using that pne(1) by simp
    qed
    note d = relinkedD [OF l]
    have "f \<noteq> t" using pt_okD(2) [OF okt i(2) p(2)] fp.alloc_fresh [OF fi al] by auto
    then have gf: "pte mc' f j = ?g j" if "j < 512" for j
      unfolding m using pte_set_pte [OF d(8,7,3) that] g2 [OF fa that] by simp
    have fm: "m_frames mc' = m_frames mc1" by (simp add: m mc2_def)
    have "ext mc mc'" by (rule ext_relinked(1) [OF inv al fm l split_look [OF args pres True gf]])
    then show ?thesis using d(11) linked_not_huge [OF d(7)] okv by simp
  qed
qed

section \<open>Writing one page entry\<close>

lemma leaf_write:
  fixes v :: u64
  assumes inv: "pt_inv mc" and p: "upath p" "length p = 3" "tab mc p = Some t" "i < 512"
  defines "mc' \<equiv> set_pte t i v mc"
  shows "upath q \<Longrightarrow> tab mc' q = tab mc q" "pt_inv mc'"
    and "upath q \<Longrightarrow> tab mc q = Some x \<Longrightarrow> j # q \<noteq> i # p \<Longrightarrow> j < 512 \<Longrightarrow> pte mc' x j = pte mc x j"
    and "w < USER_TOP \<Longrightarrow> rev (indices w) \<noteq> i # p \<Longrightarrow> page_of mc' w = page_of mc w"
proof -
  have ok: "pt_ok (free_set (m_frames mc)) mc" using inv by (simp add: pt_inv_def)
  have ta: "aligned t" by (rule tab_aligned [OF p(3)])
  have same: "pte mc' x j = pte mc x j" if "upath q" "tab mc q = Some x" "j < 512" "j # q \<noteq> i # p" for q x j
  proof -
    have "x \<noteq> t \<or> j \<noteq> i" using pt_okD(3) [OF ok p(1,3) that(1)] that(2,4) by auto
    then show ?thesis unfolding mc'_def using pte_set_pte [OF ta tab_aligned [OF that(2)] p(4) that(3)] by auto
  qed
  show "pte mc' x j = pte mc x j" if "upath q" "tab mc q = Some x" "j # q \<noteq> i # p" "j < 512" for q x j
    by (rule same [OF that(1,2,4,3)])
  show tb: "tab mc' q = tab mc q" if "upath q" for q
    using that
  proof (induction q)
    case Nil
    then show ?case by (simp add: mc'_def)
  next
    case (Cons j q)
    have q: "upath q" "j < 512" "length q \<le> 2" using upath_ConsD [OF Cons.prems] by simp_all
    have "q \<noteq> p" using q(3) p(2) by auto
    then have "pte mc' x j = pte mc x j" if "tab mc q = Some x" for x
      using same [OF q(1) that q(2)] by simp
    then show ?case using Cons.IH [OF q(1)] by (cases "tab mc q") simp_all
  qed
  have "pt_ok (free_set (m_frames mc)) mc'"
    unfolding pt_ok_def
  proof (intro conjI allI impI)
    fix q x j
    assume q: "upath q" "length q \<in> {1, 2}" "tab mc' q = Some x" "j < 512" "bit (pte mc' x j) 7"
    then have x: "tab mc q = Some x" using tb by simp
    have "q \<noteq> p" using q(2) p(2) by auto
    then have "pte mc' x j = pte mc x j" using same [OF q(1) x q(4)] by simp
    then show "bit (pte mc' x j) 0" using q(5) pt_okD(4) [OF ok q(1) x q(2,4)] by simp
  next
    fix q x assume q: "upath q" "tab mc' q = Some x"
    then show "unat x < 2 ^ 30" "frame_index x \<notin> free_set (m_frames mc)"
      using pt_okD(1,2) [OF ok q(1)] tb by simp_all
  next
    fix q q' x assume q: "upath q" "upath q'" "tab mc' q = Some x" "tab mc' q' = Some x"
    then show "q = q'" using pt_okD(3) [OF ok q(2) _ q(1)] tb by simp
  qed
  then show "pt_inv mc'" using inv by (simp add: pt_inv_def mc'_def)
  assume w: "w < USER_TOP" "rev (indices w) \<noteq> i # p"
  have "look mc' (length ([] :: usize list)) (addr_of (m_cr3 mc)) (indices w) =
      look mc (length ([] :: usize list)) (addr_of (m_cr3 mc)) (indices w)"
  proof (rule look_gen [where P = "\<lambda>z. z \<noteq> i # p"])
    fix q js :: "usize list" and x :: u64 and j :: usize
    assume q: "upath q" "tab mc q = Some x" "length js + length q = 3" "j < 512" "rev js @ j # q \<noteq> i # p"
    have "j # q \<noteq> i # p" using q(3,5) p(2) by auto
    then show "pte mc' x j = pte mc x j \<or> look mc' (length q) x (j # js) = look mc (length q) x (j # js)"
      using same [OF q(1,2,4)] by simp
  qed (use w USER_TOP_index [OF w(1)] in \<open>simp_all add: indices_simp\<close>)
  then show "page_of mc' w = page_of mc w" by (simp add: page_of_def mc'_def)
qed

text \<open>Virtual pages and index lists determine each other.\<close>

lemma level_index_bits:
  assumes "level_index v l = level_index w l" "l < 4" "LEVEL_SHIFT ! l \<le> n" "n < LEVEL_SHIFT ! l + 9"
  shows "bit v n = bit w n"
proof -
  have "take_bit 9 (drop_bit (LEVEL_SHIFT ! l) v) = take_bit 9 (drop_bit (LEVEL_SHIFT ! l) w)"
    using assms(1) unfolding level_index_def mask9 take_bit_eq_mask [symmetric] by (simp add: word_unat_eq_iff)
  then have "bit (take_bit 9 (drop_bit (LEVEL_SHIFT ! l) v)) (n - LEVEL_SHIFT ! l) =
      bit (take_bit 9 (drop_bit (LEVEL_SHIFT ! l) w)) (n - LEVEL_SHIFT ! l)" by simp
  then show ?thesis using assms(3,4) by (simp add: bit_take_bit_iff bit_drop_bit_eq less_diff_conv2)
qed

lemma level_index_addr_of: "l < 4 \<Longrightarrow> level_index (addr_of v) l = level_index v l"
proof -
  assume "l < 4"
  then have "12 \<le> LEVEL_SHIFT ! l" by (auto simp: LEVEL_SHIFT_def less_Suc_eq numeral_eq_Suc)
  then have "drop_bit (LEVEL_SHIFT ! l) (addr_of v) = drop_bit (LEVEL_SHIFT ! l) v"
    unfolding u64_eq_all by (auto simp: bit_drop_bit_eq addr_of_region region_bits)
  then show ?thesis by (simp add: level_index_def)
qed

lemma indices_eq_iff:
  assumes "v < USER_TOP" "w < USER_TOP"
  shows "indices v = indices w \<longleftrightarrow> addr_of v = addr_of w"
proof
  assume "addr_of v = addr_of w"
  then have "level_index v l = level_index w l" if "l < 4" for l using level_index_addr_of [OF that] by metis
  then show "indices v = indices w" by (simp add: indices_def)
next
  assume i: "indices v = indices w"
  have e: "level_index v l = level_index w l" if "l < 4" for l
    using i that by (auto simp: indices_def)
  have "bit v n = bit w n" if "12 \<le> n" for n
  proof (cases "n < 48")
    case True
    then consider "n < 21" | "21 \<le> n" "n < 30" | "30 \<le> n" "n < 39" | "39 \<le> n" by linarith
    then show ?thesis
      using level_index_bits [OF e, of 3 n] level_index_bits [OF e, of 2 n] level_index_bits [OF e, of 1 n]
        level_index_bits [OF e, of 0 n] that True
      by cases (simp_all add: LEVEL_SHIFT_def numeral_eq_Suc)
  next
    case False
    have "unat v < 2 ^ 48" "unat w < 2 ^ 48" using assms by (simp_all add: word_less_nat_alt USER_TOP_def)
    then show ?thesis using small_no_bit [of v 48 n] small_no_bit [of w 48 n] False by simp
  qed
  then show "addr_of v = addr_of w" unfolding u64_eq_all addr_of_region region_bits by auto
qed

section \<open>Mapping and unmapping user pages\<close>

text \<open>The three tables above the page entry of a virtual address, opened to user mode.\<close>

definition walk_open :: "machine \<Rightarrow> u64 \<Rightarrow> u64 \<Rightarrow> bool" where
  "walk_open mc v pt \<longleftrightarrow>
     (\<exists>pdpt pd. tab mc [level_index v 0] = Some pdpt \<and> tab mc [level_index v 1, level_index v 0] = Some pd \<and>
        tab mc [level_index v 2, level_index v 1, level_index v 0] = Some pt \<and>
        bit (pte mc (addr_of (m_cr3 mc)) (level_index v 0)) 2 \<and> bit (pte mc pdpt (level_index v 1)) 2 \<and>
        bit (pte mc pd (level_index v 2)) 2)"

lemma upath_indices:
  assumes "v < USER_TOP"
  shows "upath [level_index v 0]" "upath [level_index v 1, level_index v 0]"
    "upath [level_index v 2, level_index v 1, level_index v 0]"
  using USER_TOP_index [OF assms] by (simp_all add: upath_def)

lemma walk_open_page_of:
  assumes "tab mc [level_index v 2, level_index v 1, level_index v 0] = Some pt"
  shows "page_of mc v = (if bit (pte mc pt (level_index v 3)) 0 then Some (addr_of (pte mc pt (level_index v 3))) else None)"
  using assms by (auto simp: page_of_def indices_simp Let_def split: option.splits if_splits)

lemma walk_open_mapped:
  assumes "walk_open mc v pt" "v < USER_TOP"
  shows "user_page_mapped v mc \<longleftrightarrow> bit (pte mc pt (level_index v 3)) 0 \<and> bit (pte mc pt (level_index v 3)) 2"
  using assms by (auto simp: walk_open_def user_page_mapped_def Let_def not_le [symmetric] split: option.splits if_splits)

lemma walk_open_leaf_write:
  assumes inv: "pt_inv mc" and w: "walk_open mc v pt" "v < USER_TOP"
  shows "walk_open (set_pte pt (level_index v 3) e mc) v pt"
    and "pte (set_pte pt (level_index v 3) e mc) pt (level_index v 3) = e"
proof -
  obtain pdpt pd where o: "tab mc [level_index v 0] = Some pdpt" "tab mc [level_index v 1, level_index v 0] = Some pd"
      "tab mc [level_index v 2, level_index v 1, level_index v 0] = Some pt"
      "bit (pte mc (addr_of (m_cr3 mc)) (level_index v 0)) 2" "bit (pte mc pdpt (level_index v 1)) 2"
      "bit (pte mc pd (level_index v 2)) 2"
    using w(1) unfolding walk_open_def by blast
  note u = upath_indices [OF w(2)]
  note lw = leaf_write [OF inv u(3) _ o(3) level_index_less [of v 3], where v = e]
  show "pte (set_pte pt (level_index v 3) e mc) pt (level_index v 3) = e"
    using pte_set_pte [OF tab_aligned [OF o(3)] tab_aligned [OF o(3)]] by simp
  have "pte (set_pte pt (level_index v 3) e mc) (addr_of (m_cr3 mc)) (level_index v 0) =
      pte mc (addr_of (m_cr3 mc)) (level_index v 0)"
    using lw(3) [of "[]"] by simp
  moreover have "pte (set_pte pt (level_index v 3) e mc) pdpt (level_index v 1) = pte mc pdpt (level_index v 1)"
    "pte (set_pte pt (level_index v 3) e mc) pd (level_index v 2) = pte mc pd (level_index v 2)"
    using lw(3) [OF _ u(1) o(1)] lw(3) [OF _ u(2) o(2)] by simp_all
  ultimately show "walk_open (set_pte pt (level_index v 3) e mc) v pt"
    unfolding walk_open_def using o lw(1) [OF _ u(1)] lw(1) [OF _ u(2)] lw(1) [OF _ u(3)]
    by (simp del: tab.simps)
qed

text \<open>A table that has just been linked or opened, seen from a later state.\<close>

lemma ext_keeps:
  assumes "ext mc mc'" "upath (i # p)" "tab mc p = Some t" "tab mc (i # p) = Some t'" "bit (pte mc t i) 2"
  shows "tab mc' p = Some t" "tab mc' (i # p) = Some t'" "bit (pte mc' t i) 2"
  using extD(3,4) [OF assms(1)] upath_ConsD [OF assms(2)] assms(2-5) by blast+

text \<open>The two steps on a level below the root taken together.\<close>

definition open_level :: "nat \<Rightarrow> u64 \<Rightarrow> u64 \<Rightarrow> u64 \<Rightarrow> usize \<Rightarrow> machine \<Rightarrow> bool \<times> machine" where
  "open_level shift step flags t i mc =
     (case split_huge shift step flags t i mc of (False, mc) \<Rightarrow> (False, mc) | (True, mc) \<Rightarrow> ensure_table t i mc)"

lemma open_level_step:
  assumes inv: "pt_inv mc" and p: "upath (i # p)" "tab mc p = Some t" and args: "split_args (length p) shift step flags"
    and e: "open_level shift step flags t i mc = (ok, mc')"
  shows "ext mc mc' \<and> (\<not> ok \<longrightarrow> free_set (m_frames mc') = {}) \<and>
    (ok \<longrightarrow> tab mc' (i # p) = Some (addr_of (pte mc' t i)) \<and> bit (pte mc' t i) 2)"
proof -
  obtain ok1 mc1 where e1: "split_huge shift step flags t i mc = (ok1, mc1)" by fastforce
  note s1 = split_huge_step [OF inv p args e1]
  show ?thesis
  proof (cases ok1)
    case False
    then show ?thesis using e e1 s1 by (simp add: open_level_def)
  next
    case True
    then have x1: "ext mc mc1" "\<not> bit (pte mc1 t i) 7" using s1 by simp_all
    have e2: "ensure_table t i mc1 = (ok, mc')" using e e1 True by (simp add: open_level_def)
    have "upath p" using upath_ConsD [OF p(1)] by simp
    then have t1: "tab mc1 p = Some t" using extD(3) [OF x1(1)] p(2) by simp
    show ?thesis using ensure_table_step [OF extD(1) [OF x1(1)] p(1) t1 x1(2) e2] ext_trans [OF x1(1)] by blast
  qed
qed

lemma map_user_page_levels:
  assumes "virt < USER_TOP" "virt AND 0xFFF = 0" "phys AND 0xFFF = 0" "phys < INITIAL_MAP_SIZE"
    and e: "ensure_table (addr_of (m_cr3 mc)) (level_index virt 0) mc = (ok1, mc1)"
      "open_level 30 (push_bit 21 1) (PRESENT OR WRITABLE OR HUGE) pdpt (level_index virt 1) mc1 = (ok2, mc2)"
      "open_level 21 PAGE_SIZE (PRESENT OR WRITABLE) pd (level_index virt 2) mc2 = (ok3, mc3)"
    and d: "pdpt = addr_of (pte mc1 (addr_of (m_cr3 mc)) (level_index virt 0))"
      "pd = addr_of (pte mc2 pdpt (level_index virt 1))"
  shows "map_user_page virt phys mc =
     (if \<not> ok1 then (False, mc1) else if \<not> ok2 then (False, mc2) else if \<not> ok3 then (False, mc3)
      else (True, set_pte (addr_of (pte mc3 pd (level_index virt 2))) (level_index virt 3)
              (phys OR PRESENT OR WRITABLE OR USER) mc3))"
  using assms(1-4) e
  unfolding map_user_page_def Let_def addr_of_def [symmetric] e(1) prod.case d(1) [symmetric] open_level_def
  by (auto simp: d(2) split: bool.splits prod.splits)

lemma map_user_page_steps:
  assumes inv: "pt_inv mc" and v: "virt < USER_TOP" and a: "virt AND 0xFFF = 0" "phys AND 0xFFF = 0" "phys < INITIAL_MAP_SIZE"
    and m: "map_user_page virt phys mc = (ok, mc')"
  shows "(\<not> ok \<and> ext mc mc' \<and> free_set (m_frames mc') = {}) \<or>
    (ok \<and> (\<exists>mc3 pt. ext mc mc3 \<and> walk_open mc3 virt pt \<and>
       mc' = set_pte pt (level_index virt 3) (phys OR PRESENT OR WRITABLE OR USER) mc3))"
proof -
  let ?i = "level_index virt" and ?root = "addr_of (m_cr3 mc)"
  note u = upath_indices [OF v]
  obtain ok1 mc1 where e1: "ensure_table ?root (?i 0) mc = (ok1, mc1)" by fastforce
  define pdpt where "pdpt = addr_of (pte mc1 ?root (?i 0))"
  obtain ok2 mc2 where e2: "open_level 30 (push_bit 21 1) (PRESENT OR WRITABLE OR HUGE) pdpt (?i 1) mc1 = (ok2, mc2)"
    by fastforce
  define pd where "pd = addr_of (pte mc2 pdpt (?i 1))"
  obtain ok3 mc3 where e3: "open_level 21 PAGE_SIZE (PRESENT OR WRITABLE) pd (?i 2) mc2 = (ok3, mc3)" by fastforce
  note res = map_user_page_levels [OF v a e1 e2 e3 pdpt_def pd_def, unfolded m]
  have r0: "tab mc [] = Some ?root" by simp
  note s1 = ensure_table_step [OF inv u(1) r0 _ e1]
  have x1: "ext mc mc1" using s1 by simp
  have r1: "tab mc1 [] = Some ?root" using extD(2) [OF x1] by simp
  show ?thesis
  proof (cases "ok1 \<and> ok2")
    case True
    then have t1: "tab mc1 [?i 0] = Some pdpt" "bit (pte mc1 ?root (?i 0)) 2" using s1 by (simp_all add: pdpt_def)
    note s2 = open_level_step [OF extD(1) [OF x1] u(2) t1(1) _ e2]
    have x2: "ext mc1 mc2" using s2 by (simp add: split_args_def)
    have t2: "tab mc2 [?i 1, ?i 0] = Some pd" "bit (pte mc2 pdpt (?i 1)) 2"
      using s2 True by (simp_all add: pd_def split_args_def)
    note k2 = ext_keeps [OF x2 u(1) r1 t1]
    note s3 = open_level_step [OF extD(1) [OF x2] u(3) t2(1) _ e3]
    have x3: "ext mc2 mc3" using s3 by (simp add: split_args_def)
    have x: "ext mc mc3" using ext_trans [OF ext_trans [OF x1 x2] x3] .
    note k3 = ext_keeps [OF x3 u(1) k2] ext_keeps [OF x3 u(2) k2(2) t2]
    have "addr_of (m_cr3 mc3) = ?root" using extD(2) [OF x] by simp
    then have "walk_open mc3 virt (addr_of (pte mc3 pd (?i 2)))" if ok3
      unfolding walk_open_def using that s3 k3 by (auto simp: split_args_def simp del: tab.simps)
    then show ?thesis using res True x s3 by (cases ok3) (auto simp: split_args_def)
  next
    case False
    have "ext mc1 mc2 \<and> free_set (m_frames mc2) = {}" if "ok1" "\<not> ok2"
      using open_level_step [OF extD(1) [OF x1] u(2) _ _ e2] s1 that by (simp add: pdpt_def split_args_def)
    then show ?thesis using res False x1 s1 ext_trans [OF x1] by (auto split: if_splits)
  qed
qed

lemma rev_indices: "rev (indices v) = level_index w 3 # [level_index w 2, level_index w 1, level_index w 0] \<longleftrightarrow> indices v = indices w"
  by (auto simp: indices_simp)

lemma linked_page: "phys AND 0xFFF = 0 \<Longrightarrow> addr_of (phys OR PRESENT OR WRITABLE OR USER) = phys"
  using addr_of_or_flags(1) [of phys] by (simp add: aligned_def)

definition user_args :: "u64 \<Rightarrow> u64 \<Rightarrow> bool" where
  "user_args virt phys \<longleftrightarrow> virt < USER_TOP \<and> virt AND 0xFFF = 0 \<and> phys AND 0xFFF = 0 \<and> phys < INITIAL_MAP_SIZE"

text \<open>What a successful mapping leaves behind, in terms of translations.\<close>

lemma map_user_page_ok:
  assumes inv: "pt_inv mc" and m: "map_user_page virt phys mc = (True, mc')"
  obtains pt where "user_args virt phys" "pt_inv mc'" "walk_open mc' virt pt"
    "pte mc' pt (level_index virt 3) = phys OR PRESENT OR WRITABLE OR USER"
    "\<And>v. v < USER_TOP \<Longrightarrow> page_of mc' v = (if addr_of v = virt then Some phys else page_of mc v)"
proof -
  have a: "user_args virt phys"
    using m by (auto simp: map_user_page_def user_args_def not_le split: if_splits)
  then have v: "virt < USER_TOP" and al: "aligned virt" by (simp_all add: user_args_def aligned_def)
  obtain mc3 pt where s: "ext mc mc3" "walk_open mc3 virt pt"
      "mc' = set_pte pt (level_index virt 3) (phys OR PRESENT OR WRITABLE OR USER) mc3"
    using map_user_page_steps [OF inv _ _ _ _ m] a by (auto simp: user_args_def)
  note inv3 = extD(1) [OF s(1)]
  obtain t: "tab mc3 [level_index virt 2, level_index virt 1, level_index virt 0] = Some pt"
    using s(2) unfolding walk_open_def by blast
  note lw = leaf_write [OF inv3 upath_indices(3) [OF v] _ t level_index_less [of virt 3],
      where v = "phys OR PRESENT OR WRITABLE OR USER", folded s(3)]
  note wo = walk_open_leaf_write [OF inv3 s(2) v, where e = "phys OR PRESENT OR WRITABLE OR USER", folded s(3)]
  have t': "tab mc' [level_index virt 2, level_index virt 1, level_index virt 0] = Some pt"
    using wo(1) unfolding walk_open_def by blast
  have here: "page_of mc' virt = Some phys"
    using walk_open_page_of [OF t'] wo(2) linked_page [of phys] a by (simp add: user_args_def)
  have "page_of mc' w = (if addr_of w = virt then Some phys else page_of mc w)" if w: "w < USER_TOP" for w
  proof (cases "addr_of w = virt")
    case True
    then have "indices w = indices virt" using indices_eq_iff [OF w v] al by simp
    moreover have "page_of mc' w = page_of mc' virt" using calculation by (simp add: page_of_def)
    ultimately show ?thesis using here True by simp
  next
    case False
    then have "indices w \<noteq> indices virt" using indices_eq_iff [OF w v] al by simp
    then show ?thesis using lw(4) [OF _ w] rev_indices [of w virt] extD(5) [OF s(1) w] False by simp
  qed
  then show ?thesis using that [OF a _ wo] lw(2) by simp
qed

text \<open>Each step takes at most one frame, so a request takes at most five.\<close>

definition takes_one :: "machine \<Rightarrow> machine \<Rightarrow> bool" where
  "takes_one mc mc' \<longleftrightarrow> card (free_set (m_frames mc)) \<le> Suc (card (free_set (m_frames mc')))"

lemma alloc_takes_one:
  assumes "frames_inv (m_frames mc)" "alloc_zeroed_frame mc = (r, mc1)" "m_frames mc' = m_frames mc1"
  shows "takes_one mc mc'"
proof (cases r)
  case None
  then show ?thesis using assms fp.alloc_None [OF assms(1)] by (simp add: takes_one_def)
next
  case (Some f)
  then show ?thesis using assms fp.alloc_fresh [OF assms(1)] card_Suc_Diff1 [of "free_set (m_frames mc)" "frame_index f"]
    by (simp add: takes_one_def)
qed

lemma ensure_table_takes:
  assumes "frames_inv (m_frames mc)" "ensure_table t i mc = (ok, mc')"
  shows "takes_one mc mc'"
proof (cases "bit (pte mc t i) 0")
  case True
  then show ?thesis using assms(2) by (auto simp: ensure_table_def takes_one_def)
next
  case False
  obtain r mc1 where al: "alloc_zeroed_frame mc = (r, mc1)" by fastforce
  have "m_frames mc' = m_frames mc1" using assms(2) False al by (cases r) (auto simp: ensure_table_def)
  then show ?thesis by (rule alloc_takes_one [OF assms(1) al])
qed

lemma split_huge_takes:
  assumes "frames_inv (m_frames mc)" "split_huge shift step flags t i mc = (ok, mc')"
  shows "takes_one mc mc'"
proof (cases "bit (pte mc t i) 7")
  case False
  then show ?thesis using assms(2) by (auto simp: split_huge_def takes_one_def)
next
  case True
  obtain r mc1 where al: "alloc_zeroed_frame mc = (r, mc1)" by fastforce
  have "m_frames mc' = m_frames mc1" using assms(2) True al by (cases r) (auto simp: split_huge_def Let_def)
  then show ?thesis by (rule alloc_takes_one [OF assms(1) al])
qed

lemma open_level_takes:
  assumes inv: "pt_inv mc" and p: "upath (i # p)" "tab mc p = Some t" and args: "split_args (length p) shift step flags"
    and e: "open_level shift step flags t i mc = (ok, mc')"
  shows "card (free_set (m_frames mc)) \<le> Suc (Suc (card (free_set (m_frames mc'))))"
proof -
  obtain ok1 mc1 where e1: "split_huge shift step flags t i mc = (ok1, mc1)" by fastforce
  have i1: "frames_inv (m_frames mc)" "frames_inv (m_frames mc1)"
    using inv split_huge_step [OF inv p args e1] extD(1) by (auto simp: pt_inv_def)
  show ?thesis using split_huge_takes [OF i1(1) e1] ensure_table_takes [OF i1(2), of t i ok mc'] e e1
    by (cases ok1) (auto simp: open_level_def takes_one_def)
qed

lemma map_user_page_takes:
  assumes inv: "pt_inv mc" and a: "user_args virt phys" and m: "map_user_page virt phys mc = (ok, mc')"
  shows "card (free_set (m_frames mc)) \<le> card (free_set (m_frames mc')) + 5"
proof -
  have v: "virt < USER_TOP" "virt AND 0xFFF = 0" "phys AND 0xFFF = 0" "phys < INITIAL_MAP_SIZE"
    using a by (simp_all add: user_args_def)
  let ?i = "level_index virt" and ?root = "addr_of (m_cr3 mc)"
  note u = upath_indices [OF v(1)]
  obtain ok1 mc1 where e1: "ensure_table ?root (?i 0) mc = (ok1, mc1)" by fastforce
  define pdpt where "pdpt = addr_of (pte mc1 ?root (?i 0))"
  obtain ok2 mc2 where e2: "open_level 30 (push_bit 21 1) (PRESENT OR WRITABLE OR HUGE) pdpt (?i 1) mc1 = (ok2, mc2)"
    by fastforce
  define pd where "pd = addr_of (pte mc2 pdpt (?i 1))"
  obtain ok3 mc3 where e3: "open_level 21 PAGE_SIZE (PRESENT OR WRITABLE) pd (?i 2) mc2 = (ok3, mc3)" by fastforce
  note res = map_user_page_levels [OF v e1 e2 e3 pdpt_def pd_def, unfolded m]
  have r0: "tab mc [] = Some ?root" by simp
  note s1 = ensure_table_step [OF inv u(1) r0 _ e1]
  have i1: "pt_inv mc1" using s1 extD(1) by blast
  have c1: "takes_one mc mc1" using ensure_table_takes [OF _ e1] inv by (simp add: pt_inv_def)
  have sp: "split_args (length [?i 0]) 30 (push_bit 21 1) (PRESENT OR WRITABLE OR HUGE)"
    "split_args (length [?i 1, ?i 0]) 21 PAGE_SIZE (PRESENT OR WRITABLE)" by (simp_all add: split_args_def)
  show ?thesis
  proof (cases ok1)
    case o1: True
    then have t1: "tab mc1 [?i 0] = Some pdpt" using s1 by (simp add: pdpt_def)
    note c2 = open_level_takes [OF i1 u(2) t1 sp(1) e2] and s2 = open_level_step [OF i1 u(2) t1 sp(1) e2]
    show ?thesis
    proof (cases ok2)
      case o2: True
      then have t2: "tab mc2 [?i 1, ?i 0] = Some pd" using s2 by (simp add: pd_def)
      have i2: "pt_inv mc2" using s2 extD(1) by blast
      have "m_frames mc' = m_frames mc3" using res o1 o2 by (cases ok3) auto
      then show ?thesis using open_level_takes [OF i2 u(3) t2 sp(2) e3] c1 c2 by (simp add: takes_one_def)
    qed (use res c1 c2 o1 in \<open>auto simp: takes_one_def\<close>)
  qed (use res c1 in \<open>auto simp: takes_one_def\<close>)
qed

lemma map_user_page_enough:
  assumes inv: "pt_inv mc" and a: "user_args virt phys" and m: "map_user_page virt phys mc = (ok, mc')"
    and many: "5 < card (free_set (m_frames mc))"
  shows ok
proof (rule ccontr)
  assume "\<not> ok"
  then have "free_set (m_frames mc') = {}" using map_user_page_steps [OF inv _ _ _ _ m] a by (simp add: user_args_def)
  then show False using map_user_page_takes [OF inv a m] many by simp
qed

text \<open>C13. Mapping a user page. The page-table invariant is kept and translations change exactly as
  asked: on success the page translates to the given frame and is user accessible; every other user
  address, whatever tables or huge pages it goes through, translates as before; a refused or failed
  request changes no translation at all. A well-formed request fails only when the frame allocator
  has run dry, and always succeeds when more than five frames are free.\<close>

theorem map_user_page_correct:
  assumes inv: "pt_inv mc"
  shows "case map_user_page virt phys mc of (ok, mc') \<Rightarrow>
    pt_inv mc' \<and>
    (\<forall>v. v < USER_TOP \<longrightarrow> page_of mc' v = (if ok \<and> addr_of v = virt then Some phys else page_of mc v)) \<and>
    (ok \<longrightarrow> user_args virt phys \<and> user_page_mapped virt mc') \<and>
    (\<not> ok \<longrightarrow> \<not> user_args virt phys \<or> free_set (m_frames mc') = {}) \<and>
    (user_args virt phys \<and> 5 < card (free_set (m_frames mc)) \<longrightarrow> ok)"
proof -
  obtain ok mc' where m: "map_user_page virt phys mc = (ok, mc')" by fastforce
  note enough = map_user_page_enough [OF inv _ m]
  show ?thesis
  proof (cases ok)
    case True
    then have m: "map_user_page virt phys mc = (True, mc')" using m by simp
    from map_user_page_ok [OF inv m] obtain pt where r: "user_args virt phys" "pt_inv mc'" "walk_open mc' virt pt"
        "pte mc' pt (level_index virt 3) = phys OR PRESENT OR WRITABLE OR USER"
        "\<And>v. v < USER_TOP \<Longrightarrow> page_of mc' v = (if addr_of v = virt then Some phys else page_of mc v)"
      by blast
    have "user_page_mapped virt mc'" using walk_open_mapped [OF r(3)] r(1,4) by (simp add: user_args_def)
    then show ?thesis using m r by simp
  next
    case False
    show ?thesis
    proof (cases "user_args virt phys")
      case True
      then have "ext mc mc'" "free_set (m_frames mc') = {}"
        using map_user_page_steps [OF inv _ _ _ _ m] False by (auto simp: user_args_def)
      then show ?thesis using m False extD(1,5) enough by auto
    next
      case bad: False
      then have "map_user_page virt phys mc = (False, mc)"
        by (auto simp: map_user_page_def user_args_def not_le)
      then show ?thesis using bad inv by simp
    qed
  qed
qed

lemma unmap_cases:
  assumes "unmap_user_page virt mc = (r, mc')"
  shows "(r = None \<and> mc' = mc) \<or>
    (\<exists>pt. virt AND 0xFFF = 0 \<and> tab mc [level_index virt 2, level_index virt 1, level_index virt 0] = Some pt \<and>
       bit (pte mc pt (level_index virt 3)) 0 \<and> bit (pte mc pt (level_index virt 3)) 2 \<and>
       r = Some (addr_of (pte mc pt (level_index virt 3))) \<and> mc' = set_pte pt (level_index virt 3) 0 mc)"
  using assms unfolding unmap_user_page_def Let_def by (auto split: if_splits)

lemma unmap_user_page_ok:
  assumes inv: "pt_inv mc" and v: "virt < USER_TOP" and u: "unmap_user_page virt mc = (Some phys, mc')"
  shows "pt_inv mc'" "page_of mc virt = Some phys"
    "\<And>w. w < USER_TOP \<Longrightarrow> page_of mc' w = (if addr_of w = virt then None else page_of mc w)"
proof -
  obtain pt where t: "virt AND 0xFFF = 0" "tab mc [level_index virt 2, level_index virt 1, level_index virt 0] = Some pt"
      "bit (pte mc pt (level_index virt 3)) 0" "phys = addr_of (pte mc pt (level_index virt 3))"
      "mc' = set_pte pt (level_index virt 3) 0 mc"
    using unmap_cases [OF u] by auto
  have al: "aligned virt" using t(1) by (simp add: aligned_def)
  note lw = leaf_write [OF inv upath_indices(3) [OF v] _ t(2) level_index_less [of virt 3], where v = 0, folded t(5)]
  show "pt_inv mc'" using lw(2) by simp
  show "page_of mc virt = Some phys" using walk_open_page_of [OF t(2)] t(3,4) by simp
  have t': "tab mc' [level_index virt 2, level_index virt 1, level_index virt 0] = Some pt"
    using lw(1) [OF _ upath_indices(3) [OF v]] t(2) by (simp del: tab.simps)
  have "pte mc' pt (level_index virt 3) = 0"
    unfolding t(5) using pte_set_pte [OF tab_aligned [OF t(2)] tab_aligned [OF t(2)]] by simp
  then have here: "page_of mc' virt = None" using walk_open_page_of [OF t'] by simp
  fix w assume w: "w < USER_TOP"
  show "page_of mc' w = (if addr_of w = virt then None else page_of mc w)"
  proof (cases "addr_of w = virt")
    case True
    then have "indices w = indices virt" using indices_eq_iff [OF w v] al by simp
    then show ?thesis using here True by (simp add: page_of_def)
  next
    case False
    then have "indices w \<noteq> indices virt" using indices_eq_iff [OF w v] al by simp
    then show ?thesis using lw(4) [OF _ w] rev_indices [of w virt] False by simp
  qed
qed


text \<open>Unmapping gives back the frame that was mapped: after a successful mapping, unmapping the page
  returns exactly the frame given to it, and leaves every other user translation as it was before
  the mapping.\<close>

theorem map_unmap_roundtrip:
  assumes inv: "pt_inv mc" and m: "map_user_page virt phys mc = (True, mc1)"
  shows "\<exists>mc2. unmap_user_page virt mc1 = (Some phys, mc2) \<and> pt_inv mc2 \<and>
    (\<forall>v. v < USER_TOP \<longrightarrow> page_of mc2 v = (if addr_of v = virt then None else page_of mc v))"
proof -
  from map_user_page_ok [OF inv m] obtain pt where r: "user_args virt phys" "pt_inv mc1" "walk_open mc1 virt pt"
      "pte mc1 pt (level_index virt 3) = phys OR PRESENT OR WRITABLE OR USER"
      "\<And>v. v < USER_TOP \<Longrightarrow> page_of mc1 v = (if addr_of v = virt then Some phys else page_of mc v)"
    by blast
  have a: "virt < USER_TOP" "virt AND 0xFFF = 0" "phys AND 0xFFF = 0" using r(1) by (simp_all add: user_args_def)
  have "fst (unmap_user_page virt mc1) = Some phys"
    using r(3) r(4) a linked_page [OF a(3)]
    by (auto simp: unmap_user_page_def walk_open_def Let_def split: option.splits if_splits)
  then obtain mc2 where u: "unmap_user_page virt mc1 = (Some phys, mc2)" by (metis prod.collapse)
  show ?thesis using u unmap_user_page_ok [OF r(2) a(1) u] r(5) by auto
qed

section \<open>Checking user pointers\<close>

lemma unat_addr_of: "unat (addr_of v) = unat v div 4096 * 4096"
proof -
  have "addr_of v = push_bit 12 (drop_bit 12 v)"
    unfolding u64_eq_all addr_of_region region_bits
    by (auto simp: bit_push_bit_iff bit_drop_bit_eq dest: bit_imp_le_length)
  then have "addr_of v = v div 4096 * 4096" by (simp add: push_bit_eq_mult drop_bit_eq_div)
  moreover have "unat v div 4096 * 4096 < 2 ^ 64"
    using unsigned_less [of v, where 'a = nat] by simp
  ultimately show ?thesis by (simp add: unat_word_ariths unat_div)
qed

lemma user_page_mapped_page: "user_page_mapped v mc = user_page_mapped (of_nat (4096 * (unat v div 4096))) mc"
proof -
  have "of_nat (4096 * (unat v div 4096)) = addr_of v"
    unfolding mult.commute [of 4096] unat_addr_of [symmetric] by simp
  moreover have "addr_of v \<ge> USER_TOP \<longleftrightarrow> v \<ge> USER_TOP"
    unfolding word_le_nat_alt USER_TOP_def unat_addr_of by simp linarith
  ultimately show ?thesis by (simp add: user_page_mapped_def level_index_addr_of Let_def)
qed

lemma unat_page: "n < 2 ^ 52 \<Longrightarrow> unat (of_nat (4096 * n) :: u64) = 4096 * n"
  by (simp only: unat_of_nat) simp

lemma range_loop_pages:
  assumes "a \<le> b" "b < 2 ^ 52"
  shows "range_loop (of_nat (4096 * a)) (of_nat (4096 * b)) mc \<longleftrightarrow>
    (\<forall>n \<in> {a..b}. user_page_mapped (of_nat (4096 * n)) mc)"
  using assms(1)
proof (induction "b - a" arbitrary: a)
  case 0
  then have "a = b" by simp
  then show ?case by (subst range_loop.simps) simp
next
  case (Suc d)
  then have ab: "a < b" "d = b - Suc a" "Suc a \<le> b" by simp_all
  have ne: "(of_nat (4096 * a) :: u64) \<noteq> of_nat (4096 * b)"
    using unat_page [of a] unat_page [of b] ab(1) assms(2) by (metis less_irrefl less_trans mult_cancel1 zero_neq_numeral)
  have "checked_add (of_nat (4096 * a)) PAGE_SIZE = Some (of_nat (4096 * Suc a) :: u64)"
    using unat_page [of a] ab(1) assms(2) by (simp add: checked_add_def PAGE_SIZE_def del: of_nat_mult)
  then have "range_loop (of_nat (4096 * a)) (of_nat (4096 * b)) mc \<longleftrightarrow>
      user_page_mapped (of_nat (4096 * a)) mc \<and> range_loop (of_nat (4096 * Suc a)) (of_nat (4096 * b)) mc"
    using ne by (subst range_loop.simps) (simp del: of_nat_mult mult_Suc_right)
  also have "\<dots> \<longleftrightarrow> (\<forall>n \<in> insert a {Suc a..b}. user_page_mapped (of_nat (4096 * n)) mc)"
    using Suc.hyps(1) [OF ab(2,3)] by simp
  also have "insert a {Suc a..b} = {a..b}" using ab(1) by auto
  finally show ?case .
qed

lemma pages_of_range:
  assumes "0 < l"
  shows "(\<forall>n \<in> {p div 4096..(p + (l - 1)) div 4096}. M n) \<longleftrightarrow> (\<forall>k < l. M ((p + k) div (4096 :: nat)))"
proof
  assume "\<forall>n \<in> {p div 4096..(p + (l - 1)) div 4096}. M n"
  then show "\<forall>k < l. M ((p + k) div 4096)" by (auto simp: div_le_mono)
next
  assume h: "\<forall>k < l. M ((p + k) div 4096)"
  have "M n" if n: "n \<in> {p div 4096..(p + (l - 1)) div 4096}" for n
  proof (cases "n = p div 4096")
    case True
    then show ?thesis using h assms by (metis add.right_neutral)
  next
    case False
    then have "p div 4096 < n" "n \<le> (p + (l - 1)) div 4096" using n by auto
    then have b: "p < n * 4096" "n * 4096 \<le> p + (l - 1)"
      by (simp_all only: div_less_iff_less_mult less_eq_div_iff_mult_less_eq zero_less_numeral)
    then have "n * 4096 - p < l" "(p + (n * 4096 - p)) div 4096 = n" using assms by simp_all
    then show ?thesis using h by metis
  qed
  then show "\<forall>n \<in> {p div 4096..(p + (l - 1)) div 4096}. M n" by blast
qed

lemma user_range_bytes:
  "user_range_mapped ptr len mc \<longleftrightarrow> (\<forall>k < unat len. user_page_mapped (ptr + of_nat k) mc)"
proof (cases "len = 0")
  case True
  then show ?thesis by (simp add: user_range_mapped_def)
next
  case False
  let ?p = "unat ptr" and ?l = "unat len"
  let ?M = "\<lambda>n. user_page_mapped (of_nat (4096 * n)) mc"
  have l: "0 < ?l" "unat (len - 1) = ?l - 1" using False by (simp_all add: unat_gt_0 unat_minus_one)
  have pl: "?p < 2 ^ 64" using unsigned_less [of ptr, where 'a = nat] by simp
  show ?thesis
  proof (cases "?p + (?l - 1) < 2 ^ 64")
    case True
    have u: "unat (ptr + of_nat k) = ?p + k" if "k < ?l" for k
      using that True by (simp add: unat_word_ariths unat_of_nat)
    let ?a = "?p div 4096" and ?b = "(?p + (?l - 1)) div 4096"
    have ab: "?a \<le> ?b" "?b < 2 ^ 52" using True by (simp_all add: div_le_mono less_mult_imp_div_less)
    have c: "checked_add ptr (len - 1) = Some (ptr + (len - 1))" "unat (ptr + (len - 1)) = ?p + (?l - 1)"
      using True l(2) by (simp_all add: checked_add_def unat_word_ariths)
    have pg: "addr_of x = of_nat (4096 * (unat x div 4096))" for x
      unfolding mult.commute [of 4096] unat_addr_of [symmetric] by simp
    have "user_range_mapped ptr len mc \<longleftrightarrow> range_loop (addr_of ptr) (addr_of (ptr + (len - 1))) mc"
      using False c(1) by (simp add: user_range_mapped_def PAGE_SIZE_def)
    also have "\<dots> \<longleftrightarrow> (\<forall>n \<in> {?a..?b}. ?M n)"
      unfolding pg c(2) by (rule range_loop_pages [OF ab])
    also have "\<dots> \<longleftrightarrow> (\<forall>k < ?l. ?M ((?p + k) div 4096))" by (rule pages_of_range [OF l(1)])
    also have "\<dots> \<longleftrightarrow> (\<forall>k < ?l. user_page_mapped (ptr + of_nat k) mc)"
      using user_page_mapped_page [of "ptr + of_nat _" mc] u by simp
    finally show ?thesis .
  next
    case wrap: False
    let ?k = "2 ^ 64 - 1 - ?p"
    have "?k < ?l" "unat (ptr + of_nat ?k) = 2 ^ 64 - 1"
      using wrap pl l(1) by (simp_all add: unat_word_ariths unat_of_nat)
    moreover have "\<not> user_page_mapped (ptr + of_nat ?k) mc"
      using calculation(2) by (simp add: user_page_mapped_def word_le_nat_alt USER_TOP_def)
    moreover have "\<not> user_range_mapped ptr len mc" using False wrap l(2) by (simp add: user_range_mapped_def checked_add_def)
    ultimately show ?thesis by blast
  qed
qed

text \<open>C15. The pointer check of the system calls is exact: it accepts a range, of any length and at any
  address, precisely when every byte of it lies in a page that is mapped for user mode (in
  particular it rejects every range that wraps around the address space).\<close>

theorem user_range_mapped_iff:
  "user_range_mapped ptr len mc \<longleftrightarrow> (\<forall>k < unat len. user_page_mapped (ptr + of_nat k) mc)"
  by (rule user_range_bytes)

section \<open>The initial map\<close>

lemma level_index_div: "level_index v l = unat v div 2 ^ (LEVEL_SHIFT ! l) mod 512"
proof -
  have t: "take_bit LENGTH(64) (unat v) = unat v" by (metis take_bit_nat_eq_self unsigned_less)
  have "level_index v l = take_bit 9 (drop_bit (LEVEL_SHIFT ! l) (unat v))"
    unfolding level_index_def mask9 take_bit_eq_mask [symmetric]
    by (simp only: unsigned_take_bit_eq unsigned_drop_bit_eq t)
  then show ?thesis by (simp add: drop_bit_eq_div take_bit_eq_mod)
qed

text \<open>The state while the leaf tables are being built: \<open>L s\<close> is the finished table of slot \<open>s\<close>, and the
  tables above the page directory are still empty.\<close>

definition leaf_entry :: "usize \<Rightarrow> usize \<Rightarrow> u64" where
  "leaf_entry s j = (of_nat s * LARGE_PAGE_SIZE + of_nat j * PAGE_SIZE) OR PRESENT OR WRITABLE"

definition building :: "u64 \<Rightarrow> u64 set \<Rightarrow> usize \<Rightarrow> (usize \<Rightarrow> u64) \<Rightarrow> machine \<Rightarrow> bool" where
  "building pd T n L mc \<longleftrightarrow>
     frames_inv (m_frames mc) \<and> pd \<notin> T \<and>
     (\<forall>x \<in> insert pd T \<union> L ` {..<n}. aligned x \<and> unat x < 2 ^ 30 \<and> frame_index x \<notin> free_set (m_frames mc)) \<and>
     (\<forall>s < n. L s \<notin> insert pd T \<and> pte mc pd s = L s OR PRESENT OR WRITABLE \<and>
        (\<forall>j < 512. pte mc (L s) j = leaf_entry s j)) \<and>
     inj_on L {..<n} \<and> (\<forall>x \<in> T. \<forall>j < 512. pte mc x j = 0)"

lemma building_step:
  assumes b: "building pd T n L mc" and n: "n < 512" and al: "alloc_zeroed_frame mc = (Some f, mc1)"
  defines "mc' \<equiv> set_pte pd n (f OR PRESENT OR WRITABLE) (fill_leaf f (of_nat n * LARGE_PAGE_SIZE) mc1)"
  shows "building pd T (Suc n) (L(n := f)) mc'"
proof -
  have fi: "frames_inv (m_frames mc)" using b by (simp add: building_def)
  note fr = fp.alloc_fresh [OF fi al] and sm = fp.alloc_same [OF fi al]
  have old: "x \<noteq> f \<and> aligned x" if "x \<in> insert pd T \<union> L ` {..<n}" for x
    using b fr that unfolding building_def by (metis)
  have pda: "aligned pd" "pd \<noteq> f" using old by auto
  have fa: "aligned f" using fr by simp
  have leaf: "pte (fill_leaf f (of_nat n * LARGE_PAGE_SIZE) mc1) x j = (if x = f then leaf_entry n j else pte mc1 x j)"
    if "aligned x" "j < 512" for x j
    unfolding fill_leaf_def leaf_entry_def using pte_fold [OF fa _ that, of 512] that(2) by simp
  have pt: "pte mc' x j = (if x = pd \<and> j = n then f OR PRESENT OR WRITABLE
      else if x = f then leaf_entry n j else pte mc1 x j)" if "aligned x" "j < 512" for x j
    unfolding mc'_def pte_set_pte [OF pda(1) that(1) n that(2)] leaf [OF that] ..
  have keep: "pte mc' x j = pte mc x j" if "x \<in> insert pd T \<union> L ` {..<n}" "j < 512" "x \<noteq> pd \<or> j \<noteq> n" for x j
    using pt [of x j] old [OF that(1)] sm that(2,3) by (auto simp: same_but_def)
  have fm: "m_frames mc' = m_frames mc1" by (simp add: mc'_def fill_leaf_def)
  have new: "pte mc' pd n = f OR PRESENT OR WRITABLE" "pte mc' f j = leaf_entry n j" if "j < 512" for j
    using pt [OF pda(1) n] pt [OF fa that] pda(2) by auto
  have fL: "f \<notin> insert pd T \<union> L ` {..<n}" using old by blast
  show ?thesis
    unfolding building_def
  proof (intro conjI)
    show "frames_inv (m_frames mc')" using fp.alloc_inv [OF fi al] fm by simp
    show "pd \<notin> T" using b by (simp add: building_def)
    show "\<forall>x \<in> insert pd T \<union> (L(n := f)) ` {..<Suc n}. aligned x \<and> unat x < 2 ^ 30 \<and>
        frame_index x \<notin> free_set (m_frames mc')"
      using b fr fm by (auto simp: building_def less_Suc_eq)
    show "\<forall>s < Suc n. (L(n := f)) s \<notin> insert pd T \<and> pte mc' pd s = (L(n := f)) s OR PRESENT OR WRITABLE \<and>
        (\<forall>j < 512. pte mc' ((L(n := f)) s) j = leaf_entry s j)"
    proof (intro allI impI)
      fix s assume s: "s < Suc n"
      show "(L(n := f)) s \<notin> insert pd T \<and> pte mc' pd s = (L(n := f)) s OR PRESENT OR WRITABLE \<and>
        (\<forall>j < 512. pte mc' ((L(n := f)) s) j = leaf_entry s j)"
      proof (cases "s = n")
        case True
        then show ?thesis using fL new n by auto
      next
        case False
        then have sn: "s < n" using s by simp
        then have ls: "L s \<in> insert pd T \<union> L ` {..<n}" "L s \<notin> insert pd T"
          "pte mc pd s = L s OR PRESENT OR WRITABLE" "\<forall>j < 512. pte mc (L s) j = leaf_entry s j"
          using b by (auto simp: building_def)
        then show ?thesis using keep [of pd s] keep [OF ls(1)] False sn n by auto
      qed
    qed
    show "inj_on (L(n := f)) {..<Suc n}" using b fL by (auto simp: building_def inj_on_def less_Suc_eq)
    show "\<forall>x \<in> T. \<forall>j < 512. pte mc' x j = 0"
    proof (intro ballI allI impI)
      fix x j assume "x \<in> T" "j < (512 :: nat)"
      then show "pte mc' x j = 0" using keep [of x j] b by (auto simp: building_def)
    qed
  qed
qed

lemma alloc_count:
  assumes "frames_inv (m_frames mc)" "alloc_zeroed_frame mc = (r, mc')"
  shows "card (free_set (m_frames mc)) = (case r of None \<Rightarrow> 0 | Some _ \<Rightarrow> Suc (card (free_set (m_frames mc'))))"
proof (cases r)
  case None
  then show ?thesis using assms fp.alloc_None [OF assms(1)] by simp
next
  case (Some f)
  then show ?thesis using assms fp.alloc_fresh [OF assms(1)] card_Suc_Diff1 [of "free_set (m_frames mc)" "frame_index f"]
    by simp
qed

lemma build_leaves_builds:
  assumes "building pd T n L mc" "n \<le> 512" "build_leaves pd [n..<512] mc = (ok, mc')"
  shows "if ok then (\<exists>L'. building pd T 512 L' mc') \<and> m_cr3 mc' = m_cr3 mc
    else free_set (m_frames mc') = {} \<and> card (free_set (m_frames mc)) < 512 - n"
  using assms
proof (induction "512 - n" arbitrary: n L mc)
  case 0
  then show ?case by auto
next
  case (Suc d)
  then have n: "n < 512" "d = 512 - Suc n" "[n..<512] = n # [Suc n..<512]" by (simp_all add: upt_conv_Cons)
  have fi: "frames_inv (m_frames mc)" using Suc.prems(1) by (simp add: building_def)
  obtain r mc1 where al: "alloc_zeroed_frame mc = (r, mc1)" by fastforce
  show ?case
  proof (cases r)
    case None
    then show ?thesis using Suc.prems(3) al fp.alloc_None [OF fi] n by auto
  next
    case (Some f)
    then have al: "alloc_zeroed_frame mc = (Some f, mc1)" using al by simp
    let ?mc = "set_pte pd n (f OR PRESENT OR WRITABLE) (fill_leaf f (of_nat n * LARGE_PAGE_SIZE) mc1)"
    have "build_leaves pd [Suc n..<512] ?mc = (ok, mc')" using Suc.prems(3) al n(3) by simp
    moreover have "m_cr3 ?mc = m_cr3 mc" using fp.alloc_same [OF fi al] by (simp add: fill_leaf_def same_but_def)
    ultimately show ?thesis
      using Suc.hyps(1) [OF n(2) building_step [OF Suc.prems(1) n(1) al]] n(1) alloc_count [OF fi al]
      by (auto simp: fill_leaf_def split: if_splits)
  qed
qed

text \<open>The finished hierarchy: one root, one page-directory-pointer table, one page directory and 512
  leaf tables, shared between the identity map and the higher-half alias.\<close>

definition booted :: "u64 \<Rightarrow> u64 \<Rightarrow> u64 \<Rightarrow> (usize \<Rightarrow> u64) \<Rightarrow> machine \<Rightarrow> bool" where
  "booted pml4 pdpt pd L mc \<longleftrightarrow>
     frames_inv (m_frames mc) \<and> m_cr3 mc = pml4 \<and> distinct [pml4, pdpt, pd] \<and>
     (\<forall>x \<in> {pml4, pdpt, pd} \<union> L ` {..<512}. aligned x \<and> unat x < 2 ^ 30 \<and> frame_index x \<notin> free_set (m_frames mc)) \<and>
     (\<forall>s < 512. L s \<notin> {pml4, pdpt, pd}) \<and> inj_on L {..<512} \<and>
     (\<forall>j < 512. pte mc pml4 j = (if j = 0 \<or> j = 256 then pdpt OR PRESENT OR WRITABLE else 0)) \<and>
     (\<forall>j < 512. pte mc pdpt j = (if j = 0 then pd OR PRESENT OR WRITABLE else 0)) \<and>
     (\<forall>s < 512. pte mc pd s = L s OR PRESENT OR WRITABLE) \<and>
     (\<forall>s < 512. \<forall>j < 512. pte mc (L s) j = leaf_entry s j)"

lemma alloc_three:
  assumes inv: "frames_inv (m_frames mc)" and a: "alloc_zeroed_frame mc = (Some x, mc1)"
    and b: "alloc_zeroed_frame mc1 = (Some y, mc2)" and c: "alloc_zeroed_frame mc2 = (Some z, mc3)"
  shows "building z {x, y} 0 L mc3 \<and> x \<noteq> y"
proof -
  note i1 = fp.alloc_inv [OF inv a]
  note i2 = fp.alloc_inv [OF i1 b]
  note i3 = fp.alloc_inv [OF i2 c]
  note f = fp.alloc_fresh [OF inv a] fp.alloc_fresh [OF i1 b] fp.alloc_fresh [OF i2 c]
  have ne: "x \<noteq> y" "x \<noteq> z" "y \<noteq> z" using f by auto
  have "pte mc3 x j = 0" "pte mc3 y j = 0" if "j < 512" for j
    using fp.alloc_zero [OF inv a that] fp.alloc_zero [OF i1 b that] fp.alloc_same [OF i1 b] fp.alloc_same [OF i2 c]
      f ne that by (simp_all add: same_but_def)
  then show ?thesis using i3 f ne by (auto simp: building_def)
qed

lemma wire_booted:
  assumes b: "building pd {pml4, pdpt} 512 L mc" and ne: "pml4 \<noteq> pdpt"
  shows "booted pml4 pdpt pd L
    (install_paging pml4
      (set_pte pml4 (level_index HIGHER_HALF_BASE 0) (pdpt OR PRESENT OR WRITABLE)
        (set_pte pml4 0 (pdpt OR PRESENT OR WRITABLE) (set_pte pdpt 0 (pd OR PRESENT OR WRITABLE) mc))))"
    (is "booted _ _ _ _ ?mc")
proof -
  have hh: "level_index HIGHER_HALF_BASE 0 = 256" by (simp add: level_index_div HIGHER_HALF_BASE_def LEVEL_SHIFT_def)
  have al: "aligned pml4" "aligned pdpt" "aligned pd" using b by (simp_all add: building_def)
  have cr: "pte (install_paging r m) x j = pte m x j" for r m x j by (simp add: install_paging_def pte_def)
  have pt: "pte ?mc x j = (if x = pml4 \<and> (j = 0 \<or> j = 256) then pdpt OR PRESENT OR WRITABLE
      else if x = pdpt \<and> j = 0 then pd OR PRESENT OR WRITABLE else pte mc x j)" if "aligned x" "j < 512" for x j
    using that al unfolding cr hh by (auto simp: pte_set_pte)
  have fm: "m_frames ?mc = m_frames mc" "m_cr3 ?mc = pml4" by (simp_all add: install_paging_def)
  have L: "aligned (L s)" "L s \<notin> {pml4, pdpt, pd}" "pte mc pd s = L s OR PRESENT OR WRITABLE"
    "j < 512 \<Longrightarrow> pte mc (L s) j = leaf_entry s j" if "s < 512" for s j
    using b that by (auto simp: building_def)
  have z: "pd \<noteq> pml4" "pd \<noteq> pdpt" "j < 512 \<Longrightarrow> pte mc pml4 j = 0 \<and> pte mc pdpt j = 0" for j
    using b by (auto simp: building_def)
  show ?thesis
    unfolding booted_def fm
  proof (intro conjI)
    show "\<forall>s < 512. \<forall>j < 512. pte ?mc (L s) j = leaf_entry s j" using pt L by auto
    show "\<forall>s < 512. pte ?mc pd s = L s OR PRESENT OR WRITABLE" using pt [OF al(3)] z L(3) by simp
    show "\<forall>j < 512. pte ?mc pml4 j = (if j = 0 \<or> j = 256 then pdpt OR PRESENT OR WRITABLE else 0)"
      using pt [OF al(1)] z(3) ne by simp
    show "\<forall>j < 512. pte ?mc pdpt j = (if j = 0 then pd OR PRESENT OR WRITABLE else 0)"
      using pt [OF al(2)] z(3) ne by simp
  qed (use b ne z(1,2) L(2) in \<open>auto simp: building_def\<close>)
qed

lemma present_link: "aligned x \<Longrightarrow> bit (x OR PRESENT OR WRITABLE) 0 \<and> \<not> bit (x OR PRESENT OR WRITABLE) 7 \<and>
    \<not> bit (x OR PRESENT OR WRITABLE) 2 \<and> addr_of (x OR PRESENT OR WRITABLE) = x"
  using addr_of_or_flags(2) by (simp add: bit_or_iff aligned_bits)

lemma booted_tab:
  assumes "booted pml4 pdpt pd L mc" "upath p"
  shows "tab mc p = Some t \<longleftrightarrow> (p = [] \<and> t = pml4) \<or> (p = [0] \<and> t = pdpt) \<or> (p = [0, 0] \<and> t = pd) \<or>
    (\<exists>s < 512. p = [s, 0, 0] \<and> t = L s)"
proof -
  have al: "aligned pml4" "aligned pdpt" "aligned pd" "s < 512 \<Longrightarrow> aligned (L s)" for s
    using assms(1) by (auto simp: booted_def)
  note pl = present_link [OF al(2)] present_link [OF al(3)] present_link [OF al(4)]
  have e: "m_cr3 mc = pml4" "j < 512 \<Longrightarrow> pte mc pml4 j = (if j = 0 \<or> j = 256 then pdpt OR PRESENT OR WRITABLE else 0)"
    "j < 512 \<Longrightarrow> pte mc pdpt j = (if j = 0 then pd OR PRESENT OR WRITABLE else 0)"
    "j < 512 \<Longrightarrow> pte mc pd j = L j OR PRESENT OR WRITABLE" for j
    using assms(1) by (auto simp: booted_def)
  consider "p = []" | i where "p = [i]" | i j where "p = [j, i]" | i j k where "p = [k, j, i]"
    using assms(2) by (auto simp: upath_def le_Suc_eq length_Suc_conv numeral_eq_Suc)
  then show ?thesis
  proof cases
    case 1
    then show ?thesis using e(1) al by auto
  next
    case 2
    then have "i < 256" using assms(2) by (simp add: upath_def)
    then show ?thesis using 2 e(1) e(2) [of i] al pl by auto
  next
    case 3
    then have "i < 256" "j < 512" using assms(2) by (simp_all add: upath_def)
    then show ?thesis using 3 e(1) e(2) [of i] e(3) [of j] al pl by auto
  next
    case 4
    then have "i < 256" "j < 512" "k < 512" using assms(2) by (simp_all add: upath_def)
    then show ?thesis using 4 e(1) e(2) [of i] e(3) [of j] e(4) [of k] al pl by auto
  qed
qed

lemma booted_pt_inv:
  assumes b: "booted pml4 pdpt pd L mc"
  shows "pt_inv mc"
proof -
  note tb = booted_tab [OF b]
  have d: "distinct [pml4, pdpt, pd]" "\<And>s. s < 512 \<Longrightarrow> L s \<notin> {pml4, pdpt, pd}" "inj_on L {..<512}"
    using b by (auto simp: booted_def)
  have "pt_ok (free_set (m_frames mc)) mc"
    unfolding pt_ok_def
  proof (intro conjI allI impI)
    fix p x assume p: "upath p" "tab mc p = Some x"
    then have "x \<in> {pml4, pdpt, pd} \<union> L ` {..<512}" using tb [OF p(1)] by auto
    then show "unat x < 2 ^ 30" "frame_index x \<notin> free_set (m_frames mc)" using b by (auto simp: booted_def)
  next
    fix p q x assume p: "upath p" "upath q" "tab mc p = Some x" "tab mc q = Some x"
    then show "p = q" using tb [OF p(1), of x] tb [OF p(2), of x] d by (auto simp: inj_on_def)
  next
    fix p x i
    assume p: "upath p" "length p \<in> {1, 2}" "tab mc p = Some x" "i < 512" "bit (pte mc x i) 7"
    then have "x = pdpt \<or> x = pd" using tb [OF p(1), of x] by auto
    moreover have "pte mc pdpt i = (if i = 0 then pd OR PRESENT OR WRITABLE else 0)" "pte mc pd i = L i OR PRESENT OR WRITABLE"
      using b p(4) by (simp_all add: booted_def)
    ultimately show "bit (pte mc x i) 0" using p(5) by (auto simp: bit_or_iff split: if_splits)
  qed
  then show ?thesis using b by (simp add: pt_inv_def booted_def)
qed

lemma leaf_entry_page:
  assumes "unat v < 2 ^ 30"
  shows "addr_of (leaf_entry (level_index v 2) (level_index v 3)) = addr_of v" "bit (leaf_entry s j) 0"
proof -
  let ?x = "of_nat (level_index v 2) * LARGE_PAGE_SIZE + of_nat (level_index v 3) * PAGE_SIZE :: u64"
  have q: "unat v div 4096 = 512 * (unat v div 2097152) + unat v div 4096 mod 512"
    using div_mult2_eq [of "unat v" 4096 512] by simp
  have i2: "level_index v 2 = unat v div 2097152" "level_index v 3 = unat v div 4096 mod 512"
    using assms by (simp_all add: level_index_div LEVEL_SHIFT_def)
  have b: "unat v div 2097152 < 512" using assms by simp
  have "?x = of_nat (level_index v 2 * 2097152 + level_index v 3 * 4096)"
    by (simp add: LARGE_PAGE_SIZE_def PAGE_SIZE_def)
  also have "level_index v 2 * 2097152 + level_index v 3 * 4096 = unat (addr_of v)"
    unfolding unat_addr_of i2 using q by simp
  finally have x: "?x = addr_of v" by simp
  show "addr_of (leaf_entry (level_index v 2) (level_index v 3)) = addr_of v"
    unfolding leaf_entry_def x by (rule addr_of_or_flags(2)) simp
  show "bit (leaf_entry s j) 0" by (simp add: leaf_entry_def bit_or_iff)
qed

lemma higher_half_index:
  assumes v: "unat v < 2 ^ 30"
  shows "level_index (HIGHER_HALF_BASE + v) 0 = 256" "level_index (HIGHER_HALF_BASE + v) 1 = 0"
    "level_index (HIGHER_HALF_BASE + v) 2 = level_index v 2" "level_index (HIGHER_HALF_BASE + v) 3 = level_index v 3"
proof -
  have u: "unat (HIGHER_HALF_BASE + v) = 0xFFFF800000000000 + unat v"
    using v by (simp add: HIGHER_HALF_BASE_def unat_word_ariths)
  have d: "(0xFFFF800000000000 + unat v) div k = 0xFFFF800000000000 div k + unat v div k"
    if "k dvd 0xFFFF800000000000" for k using that by (rule div_plus_div_distrib_dvd_left)
  have m: "(512 * c + x) mod 512 = x mod (512 :: nat)" for c x by (rule mod_mult_self4)
  show "level_index (HIGHER_HALF_BASE + v) 0 = 256" "level_index (HIGHER_HALF_BASE + v) 1 = 0"
    unfolding level_index_div u using v by (simp_all add: LEVEL_SHIFT_def d)
  show "level_index (HIGHER_HALF_BASE + v) 2 = level_index v 2"
    unfolding level_index_div u using m [of "0xFFFF800000000000 div 2 ^ 30" "unat v div 2 ^ 21"]
    by (simp add: LEVEL_SHIFT_def d)
  show "level_index (HIGHER_HALF_BASE + v) 3 = level_index v 3"
    unfolding level_index_div u using m [of "0xFFFF800000000000 div 2 ^ 21" "unat v div 2 ^ 12"]
    by (simp add: LEVEL_SHIFT_def d)
qed

lemma booted_page_of:
  assumes b: "booted pml4 pdpt pd L mc"
  shows "v < USER_TOP \<Longrightarrow> page_of mc v = (if unat v < 2 ^ 30 then Some (addr_of v) else None)"
    and "unat v < 2 ^ 30 \<Longrightarrow> page_of mc (HIGHER_HALF_BASE + v) = Some (addr_of v)"
    and "\<not> user_page_mapped v mc"
proof -
  have al: "aligned pml4" "aligned pdpt" "aligned pd" "s < 512 \<Longrightarrow> aligned (L s)" for s
    using b by (auto simp: booted_def)
  note pl = present_link [OF al(2)] present_link [OF al(3)] present_link [OF al(4)]
  have cr: "addr_of (m_cr3 mc) = pml4" using b al by (simp add: booted_def)
  have e: "j < 512 \<Longrightarrow> pte mc pml4 j = (if j = 0 \<or> j = 256 then pdpt OR PRESENT OR WRITABLE else 0)"
    "j < 512 \<Longrightarrow> pte mc pdpt j = (if j = 0 then pd OR PRESENT OR WRITABLE else 0)"
    "j < 512 \<Longrightarrow> pte mc pd j = L j OR PRESENT OR WRITABLE"
    "s < 512 \<Longrightarrow> j < 512 \<Longrightarrow> pte mc (L s) j = leaf_entry s j" for j s
    using b by (auto simp: booted_def)
  have walk: "look mc 0 pml4 [i, 0, j, k] = Some (addr_of (leaf_entry j k))"
    if "i = 0 \<or> i = 256" "j < 512" "k < 512" for i j k
    using that e(1) [of i] e(2) [of 0] e(3) [of j] e(4) [of j k] pl leaf_entry_page(2) [of 0] 
    by (auto simp: Let_def leaf_entry_def bit_or_iff)
  have lo: "level_index v 0 = 0" "level_index v 1 = 0" if "unat v < 2 ^ 30"
    using that by (simp_all add: level_index_div LEVEL_SHIFT_def)
  show "page_of mc v = (if unat v < 2 ^ 30 then Some (addr_of v) else None)" if v: "v < USER_TOP"
  proof (cases "unat v < 2 ^ 30")
    case True
    then show ?thesis
      using walk [of 0 "level_index v 2" "level_index v 3"] leaf_entry_page(1) [OF True] lo
      by (simp add: page_of_def cr indices_simp del: look.simps)
  next
    case False
    have "unat v div 2 ^ 30 \<noteq> 0" using False by simp
    moreover have "unat v div 2 ^ 30 = 512 * (unat v div 2 ^ 39) + level_index v 1"
      using div_mult2_eq [of "unat v" "2 ^ 30" 512] by (simp add: level_index_div LEVEL_SHIFT_def)
    moreover have "level_index v 0 = unat v div 2 ^ 39"
      using v by (simp add: level_index_div LEVEL_SHIFT_def word_less_nat_alt USER_TOP_def)
    ultimately have "level_index v 0 \<noteq> 0 \<or> level_index v 1 \<noteq> 0" by auto
    then show ?thesis using False USER_TOP_index [OF v] e(1) [of "level_index v 0"] e(2) [of "level_index v 1"] pl
      by (auto simp: page_of_def cr indices_simp Let_def)
  qed
  show "page_of mc (HIGHER_HALF_BASE + v) = Some (addr_of v)" if v: "unat v < 2 ^ 30"
    using walk [of 256 "level_index v 2" "level_index v 3"] leaf_entry_page(1) [OF v] higher_half_index [OF v]
    by (simp add: page_of_def cr indices_simp del: look.simps)
  show "\<not> user_page_mapped v mc"
    using e(1) [of "level_index v 0"] pl cr by (auto simp: user_page_mapped_def Let_def split: if_splits)
qed


section \<open>Concrete runs\<close>

definition demo_machine :: machine where
  "demo_machine = \<lparr>m_frames = demo_frames, m_ram = (\<lambda>_. 0), m_cr3 = 0x10000\<rparr>"

lemma demo_pte: "pte demo_machine t i = 0"
  by (simp add: pte_def demo_machine_def read64_def read_bytes_def from_le_def upt_rec)

lemma demo_tab: "tab demo_machine (i # p) = None"
  by (auto simp: demo_pte split: option.splits)

lemma demo_pt_inv: "pt_inv demo_machine"
proof -
  have r: "addr_of (m_cr3 demo_machine) = 0x10000" "m_frames demo_machine = demo_frames"
    by (simp_all add: demo_machine_def addr_of_def del: addr_of_fold)
  have "tab demo_machine p = Some t \<longleftrightarrow> p = [] \<and> t = 0x10000" for p t
    by (cases p) (auto simp: demo_tab r simp del: tab.simps(2))
  then have "pt_ok (free_set demo_frames) demo_machine"
    by (auto simp: pt_ok_def demo_frames_free_set frame_index_def FRAME_SIZE_def)
  then show ?thesis by (simp add: pt_inv_def r demo_frames_inv)
qed

lemma demo_page_of: "page_of demo_machine v = None"
  by (simp add: page_of_def indices_simp demo_pte Let_def)

lemma demo_args: "user_args 0x40000000 0x20000"
  by (simp add: user_args_def USER_TOP_def INITIAL_MAP_SIZE_def)

lemma demo_many: "5 < card (free_set (m_frames demo_machine))"
  by (simp add: demo_machine_def demo_frames_free_set)

lemma demo_mapped:
  obtains mc' where "map_user_page 0x40000000 0x20000 demo_machine = (True, mc')"
  using map_user_page_enough [OF demo_pt_inv demo_args _ demo_many] by (metis (full_types) prod.collapse)

theorem map_user_page_witness:
  "\<exists>mc'. map_user_page 0x40000000 0x20000 demo_machine = (True, mc') \<and>
     page_of mc' 0x40000000 = Some 0x20000 \<and> page_of mc' 0x40001000 = None"
proof -
  obtain mc' where m: "map_user_page 0x40000000 0x20000 demo_machine = (True, mc')" by (rule demo_mapped)
  have l: "(0x40000000 :: u64) < USER_TOP" "(0x40001000 :: u64) < USER_TOP"
    "addr_of 0x40000000 = 0x40000000" "addr_of 0x40001000 = 0x40001000"
    by (simp_all add: USER_TOP_def addr_of_def del: addr_of_fold)
  have "\<forall>v. v < USER_TOP \<longrightarrow> page_of mc' v =
      (if True \<and> addr_of v = 0x40000000 then Some 0x20000 else page_of demo_machine v)"
    using map_user_page_correct [OF demo_pt_inv, of "0x40000000" "0x20000", unfolded m prod.case] by blast
  from spec [OF this, of "0x40000000"] spec [OF this, of "0x40001000"] l m show ?thesis by (simp add: demo_page_of)
qed


theorem map_unmap_roundtrip_witness:
  "\<exists>mc1 mc2. map_user_page 0x40000000 0x20000 demo_machine = (True, mc1) \<and>
     unmap_user_page 0x40000000 mc1 = (Some 0x20000, mc2)"
proof -
  obtain mc1 where m: "map_user_page 0x40000000 0x20000 demo_machine = (True, mc1)" by (rule demo_mapped)
  show ?thesis using map_unmap_roundtrip [OF demo_pt_inv m] m by blast
qed

theorem user_range_mapped_witness: "\<not> user_range_mapped 0x1000 1 demo_machine"
  unfolding user_range_mapped_iff by (simp add: user_page_mapped_def demo_pte Let_def)

definition full_frames :: frame_state where
  "full_frames = (set_range 1 MAX_FRAMES False init_statics)\<lparr>FRAME_FREE := MAX_FRAMES - 1\<rparr>"

lemma full_frames_free: "free_set full_frames = {1..<MAX_FRAMES}"
  using free_set_release [OF init_statics_inv(1), of 1 MAX_FRAMES] init_statics_inv
  by (auto simp: full_frames_def free_set_def frame_consts)

lemma full_frames_inv: "frames_inv full_frames"
  using full_frames_free init_statics_inv
  by (simp add: frames_inv_def) (simp add: full_frames_def bit_is_used_set_range frame_consts)


end
