(* ===== verification/Elf_Loader.thy ===== *)
theory Elf_Loader
  imports Paging Sched
begin

text \<open>
  The ELF64 application loader (\<^verbatim>\<open>elf.rs\<close>): parsing and validation of untrusted images, mapping of
  segments and stack with rollback, copying, and reaping of a finished application. The state is the
  machine of the page tables, the scheduler, and the list of pages of the active application.
  Results are \<open>load_error + 'a\<close>; an outer \<open>None\<close> is a panic of the frame allocator's bitmap.
\<close>

definition ELF_HEADER_SIZE :: usize where "ELF_HEADER_SIZE = 64"
definition PROGRAM_HEADER_SIZE :: usize where "PROGRAM_HEADER_SIZE = 56"
definition PT_LOAD :: u32 where "PT_LOAD = 1"
definition ET_EXEC :: u16 where "ET_EXEC = 2"
definition EM_X86_64 :: u16 where "EM_X86_64 = 62"
definition APP_MIN :: u64 where "APP_MIN = 0x100000000"
definition APP_MAX :: u64 where "APP_MAX = 0x102000000"
definition STACK_TOP :: u64 where "STACK_TOP = 0x104000000"
definition STACK_PAGES :: usize where "STACK_PAGES = 4"
definition MAX_PROGRAM_HEADERS :: usize where "MAX_PROGRAM_HEADERS = 16"
definition MAX_MAPPED_PAGES :: usize where "MAX_MAPPED_PAGES = 256"

datatype load_error =
  Truncated | BadMagic | UnsupportedClass | UnsupportedEndian | UnsupportedType | UnsupportedMachine |
  BadHeader | TooManyHeaders | BadSegment | AddressOutOfRange | OutOfMemory | MapFailed |
  NoLoadSegments | BadEntry | SchedulerBusy

record load_report =
  lr_entry :: u64
  lr_mapped_pages :: usize
  lr_image_bytes :: usize

record segment =
  s_flags :: u32
  s_offset :: u64
  s_vaddr :: u64
  s_filesz :: u64
  s_memsz :: u64

text \<open>\<^verbatim>\<open>struct Mapping { virt, phys }\<close> is a pair.\<close>

type_synonym mapping = "u64 \<times> u64"

record kernel =
  k_machine :: machine
  k_sched :: sched
  ACTIVE_MAPPINGS :: "mapping list option"

definition le_at :: "usize \<Rightarrow> u8 list \<Rightarrow> usize \<Rightarrow> 'a::len word option" where
  "le_at n bytes at =
     (case checked_add_usize at n of
        None \<Rightarrow> None
      | Some e \<Rightarrow> if e \<le> length bytes then Some (from_le (take n (drop at bytes))) else None)"

definition le16 :: "u8 list \<Rightarrow> usize \<Rightarrow> u16 option" where "le16 bytes at = le_at 2 bytes at"
definition le32 :: "u8 list \<Rightarrow> usize \<Rightarrow> u32 option" where "le32 bytes at = le_at 4 bytes at"
definition le64 :: "u8 list \<Rightarrow> usize \<Rightarrow> u64 option" where "le64 bytes at = le_at 8 bytes at"

definition align_down :: "u64 \<Rightarrow> u64" where
  "align_down v = v AND NOT (PAGE_SIZE - 1)"

definition align_up_page :: "u64 \<Rightarrow> u64 option" where
  "align_up_page v = map_option (\<lambda>v. v AND NOT (PAGE_SIZE - 1)) (checked_add v (PAGE_SIZE - 1))"

section \<open>Parsing\<close>

text \<open>One program header: an error, a header to skip, or a segment.\<close>

definition parse_header :: "u8 list \<Rightarrow> usize \<Rightarrow> load_error + segment option" where
  "parse_header img at =
     (case le32 img at of None \<Rightarrow> Inl Truncated | Some kind \<Rightarrow>
      if kind \<noteq> PT_LOAD then Inr None else
      case le32 img (at + 4) of None \<Rightarrow> Inl Truncated | Some flags \<Rightarrow>
      case le64 img (at + 8) of None \<Rightarrow> Inl Truncated | Some off \<Rightarrow>
      case le64 img (at + 16) of None \<Rightarrow> Inl Truncated | Some vaddr \<Rightarrow>
      case le64 img (at + 32) of None \<Rightarrow> Inl Truncated | Some filesz \<Rightarrow>
      case le64 img (at + 40) of None \<Rightarrow> Inl Truncated | Some memsz \<Rightarrow>
      case le64 img (at + 48) of None \<Rightarrow> Inl Truncated | Some align \<Rightarrow>
      if memsz = 0 then Inr None
      else if filesz > memsz then Inl BadSegment
      else case checked_add vaddr memsz of None \<Rightarrow> Inl BadSegment | Some end_addr \<Rightarrow>
      if vaddr < APP_MIN \<or> end_addr > APP_MAX \<or> end_addr \<le> vaddr then Inl AddressOutOfRange
      else case checked_add off filesz of None \<Rightarrow> Inl BadSegment | Some file_end \<Rightarrow>
      if file_end > of_nat (length img) then Inl Truncated
      else if align > 1 \<and> (\<not> is_power_of_two align \<or> (vaddr - off) AND (align - 1) \<noteq> 0) then Inl BadSegment
      else Inr (Some \<lparr>s_flags = flags, s_offset = off, s_vaddr = vaddr, s_filesz = filesz, s_memsz = memsz\<rparr>))"

fun parse_headers :: "u8 list \<Rightarrow> usize \<Rightarrow> usize \<Rightarrow> usize list \<Rightarrow> load_error + segment list" where
  "parse_headers img phoff phentsize [] = Inr []"
| "parse_headers img phoff phentsize (index # is) =
     (case parse_header img (phoff + index * phentsize) of
        Inl e \<Rightarrow> Inl e
      | Inr s \<Rightarrow>
          (case parse_headers img phoff phentsize is of
             Inl e \<Rightarrow> Inl e
           | Inr ss \<Rightarrow> Inr (case s of None \<Rightarrow> ss | Some sg \<Rightarrow> sg # ss)))"

definition saturating_add64 :: "u64 \<Rightarrow> u64 \<Rightarrow> u64" where
  "saturating_add64 a b = (if unat a + unat b < 2 ^ 64 then a + b else - 1)"

definition entry_ok :: "u64 \<Rightarrow> segment \<Rightarrow> bool" where
  "entry_ok entry s \<longleftrightarrow> s_flags s AND 1 \<noteq> 0 \<and> entry \<ge> s_vaddr s \<and> entry < saturating_add64 (s_vaddr s) (s_memsz s)"

definition parse_segments :: "u8 list \<Rightarrow> load_error + (u64 \<times> segment list)" where
  "parse_segments img =
     (if length img < ELF_HEADER_SIZE then Inl Truncated
      else if take 4 img \<noteq> [0x7f, 0x45, 0x4c, 0x46] then Inl BadMagic
      else if img ! 4 \<noteq> 2 then Inl UnsupportedClass
      else if img ! 5 \<noteq> 1 then Inl UnsupportedEndian
      else if img ! 6 \<noteq> 1 then Inl BadHeader
      else case le16 img 16 of None \<Rightarrow> Inl Truncated | Some etype \<Rightarrow>
      if etype \<noteq> ET_EXEC then Inl UnsupportedType
      else case le16 img 18 of None \<Rightarrow> Inl Truncated | Some machine_id \<Rightarrow>
      if machine_id \<noteq> EM_X86_64 then Inl UnsupportedMachine
      else case le32 img 20 of None \<Rightarrow> Inl Truncated | Some version \<Rightarrow>
      if version \<noteq> 1 then Inl BadHeader
      else case le64 img 24 of None \<Rightarrow> Inl Truncated | Some entry \<Rightarrow>
      case le64 img 32 of None \<Rightarrow> Inl Truncated | Some phoff64 \<Rightarrow>
      case le16 img 52 of None \<Rightarrow> Inl Truncated | Some ehsize16 \<Rightarrow>
      case le16 img 54 of None \<Rightarrow> Inl Truncated | Some phentsize16 \<Rightarrow>
      case le16 img 56 of None \<Rightarrow> Inl Truncated | Some phnum16 \<Rightarrow>
      let phoff = unat phoff64; ehsize = unat ehsize16; phentsize = unat phentsize16; phnum = unat phnum16 in
      if ehsize \<noteq> ELF_HEADER_SIZE \<or> phentsize \<noteq> PROGRAM_HEADER_SIZE \<or> phnum = 0 then Inl BadHeader
      else if phnum > MAX_PROGRAM_HEADERS then Inl TooManyHeaders
      else
        (case checked_add_usize phoff (phnum * phentsize) of
           None \<Rightarrow> Inl Truncated
         | Some table_end \<Rightarrow>
             if table_end > length img then Inl Truncated
             else
               (case parse_headers img phoff phentsize [0..<phnum] of
                  Inl e \<Rightarrow> Inl e
                | Inr segments \<Rightarrow>
                    if segments = [] then Inl NoLoadSegments
                    else if entry < APP_MIN \<or> entry \<ge> APP_MAX then Inl BadEntry
                    else if \<not> list_ex (entry_ok entry) segments then Inl BadEntry
                    else Inr (entry, segments))))"

section \<open>Mapping pages\<close>

definition mapped_phys :: "mapping list \<Rightarrow> u64 \<Rightarrow> u64 option" where
  "mapped_phys ms virt_page = map_option snd (find (\<lambda>m. fst m = virt_page) ms)"

definition free_frame :: "u64 \<Rightarrow> machine \<Rightarrow> machine option" where
  "free_frame phys mc = map_option (\<lambda>fs. mc\<lparr>m_frames := fs\<rparr>) (free_frames phys 1 (m_frames mc))"

definition map_page :: "mapping list \<Rightarrow> u64 \<Rightarrow> machine \<Rightarrow> ((load_error + u64) \<times> mapping list \<times> machine) option" where
  "map_page ms virt_page mc =
     (case mapped_phys ms virt_page of
        Some phys \<Rightarrow> Some (Inr phys, ms, mc)
      | None \<Rightarrow>
          if length ms \<ge> MAX_MAPPED_PAGES then Some (Inl BadSegment, ms, mc)
          else
            (case alloc_zeroed_frame mc of
               (None, mc) \<Rightarrow> Some (Inl OutOfMemory, ms, mc)
             | (Some phys, mc) \<Rightarrow>
                 (case map_user_page virt_page phys mc of
                    (False, mc) \<Rightarrow> map_option (\<lambda>mc. (Inl MapFailed, ms, mc)) (free_frame phys mc)
                  | (True, mc) \<Rightarrow> Some (Inr phys, ms @ [(virt_page, phys)], mc))))"

fun rollback_list :: "mapping list \<Rightarrow> machine \<Rightarrow> machine option" where
  "rollback_list [] mc = Some mc"
| "rollback_list ((virt, _) # ms) mc =
     (case unmap_user_page virt mc of
        (None, mc) \<Rightarrow> rollback_list ms mc
      | (Some phys, mc) \<Rightarrow>
          (case free_frame phys mc of None \<Rightarrow> None | Some mc \<Rightarrow> rollback_list ms mc))"

definition rollback :: "mapping list \<Rightarrow> machine \<Rightarrow> machine option" where
  "rollback ms mc = rollback_list (rev ms) mc"

text \<open>Undo the mappings made so far and report the error.\<close>

definition fail_with :: "load_error \<Rightarrow> mapping list \<Rightarrow> machine \<Rightarrow> ((load_error + 'a) \<times> machine) option" where
  "fail_with e ms mc = map_option (\<lambda>mc. (Inl e, mc)) (rollback ms mc)"

function map_pages :: "u64 \<Rightarrow> u64 \<Rightarrow> mapping list \<Rightarrow> machine \<Rightarrow> ((load_error + mapping list) \<times> machine) option" where
  "map_pages page end_addr ms mc =
     (if page < end_addr then
        (case map_page ms page mc of
           None \<Rightarrow> None
         | Some (Inl e, ms, mc) \<Rightarrow> fail_with e ms mc
         | Some (Inr _, ms, mc) \<Rightarrow>
             (case checked_add page PAGE_SIZE of
                None \<Rightarrow> Some (Inl BadSegment, mc)
              | Some nxt \<Rightarrow> map_pages nxt end_addr ms mc))
      else Some (Inr ms, mc))"
  by pat_completeness auto
termination
proof (relation "measure (\<lambda>(page, end_addr, ms, mc). 2 ^ 64 - unat page)")
  fix page nxt end_addr :: u64 and ms ms1 :: "mapping list" and mc mc1 :: machine
  assume "checked_add page PAGE_SIZE = Some nxt"
  then have "unat nxt = unat page + 4096" by (simp add: unat_checked_add PAGE_SIZE_def)
  moreover have "unat page < 2 ^ 64" using unsigned_less [of page, where 'a = nat] by simp
  ultimately show "((nxt, end_addr, ms1, mc1), page, end_addr, ms, mc) \<in>
      measure (\<lambda>(page, end_addr, ms, mc). 2 ^ 64 - unat page)" by simp
qed simp

declare map_pages.simps [simp del]

fun map_segments :: "segment list \<Rightarrow> mapping list \<Rightarrow> machine \<Rightarrow> ((load_error + mapping list) \<times> machine) option" where
  "map_segments [] ms mc = Some (Inr ms, mc)"
| "map_segments (s # ss) ms mc =
     (case checked_add (s_vaddr s) (s_memsz s) of None \<Rightarrow> Some (Inl BadSegment, mc) | Some e \<Rightarrow>
      case align_up_page e of None \<Rightarrow> Some (Inl BadSegment, mc) | Some end_addr \<Rightarrow>
      case map_pages (align_down (s_vaddr s)) end_addr ms mc of
        None \<Rightarrow> None
      | Some (Inl err, mc) \<Rightarrow> Some (Inl err, mc)
      | Some (Inr ms, mc) \<Rightarrow> map_segments ss ms mc)"

lemma page_offset_less: "unat (v - align_down v) = unat v mod 4096"
proof -
  have e: "align_down v = addr_of v" by (simp add: align_down_def PAGE_SIZE_def)
  have "addr_of v \<le> v" by (simp add: word_le_nat_alt unat_addr_of)
  then show ?thesis by (simp add: e unat_sub unat_addr_of minus_div_mult_eq_mod)
qed

function copy_loop :: "u8 list \<Rightarrow> segment \<Rightarrow> u64 \<Rightarrow> mapping list \<Rightarrow> ram \<Rightarrow> load_error + ram" where
  "copy_loop img s copied ms m =
     (if copied < s_filesz s then
        let virt = s_vaddr s + copied;
            page = align_down virt;
            page_offset = unat (virt - page) in
        case mapped_phys ms page of
          None \<Rightarrow> Inl MapFailed
        | Some phys \<Rightarrow>
            let remaining_page = unat PAGE_SIZE - page_offset;
                remaining_file = unat (s_filesz s - copied);
                amount = min remaining_page remaining_file;
                source_at = unat (s_offset s + copied) in
            copy_loop img s (copied + of_nat amount) ms
              (write_list m (unat (phys_to_virt phys) + page_offset) (take amount (drop source_at img)))
      else Inr m)"
  by pat_completeness auto
termination
proof (relation "measure (\<lambda>(img, s, copied, ms, m). unat (s_filesz s) - unat copied)")
  fix img :: "u8 list" and s :: segment and copied virt page phys :: u64 and ms :: "mapping list" and m :: ram
    and page_offset remaining_page remaining_file amount source_at :: nat
  assume a: "copied < s_filesz s" "virt = s_vaddr s + copied" "page = align_down virt" "page_offset = unat (virt - page)"
    "remaining_page = unat PAGE_SIZE - page_offset" "remaining_file = unat (s_filesz s - copied)"
    "amount = min remaining_page remaining_file"
  have lt: "unat copied < unat (s_filesz s)" using a(1) by (simp add: word_less_nat_alt)
  have rf: "remaining_file = unat (s_filesz s) - unat copied"
    unfolding a(6) by (rule unat_sub) (use a(1) in simp)
  have "page_offset < 4096" unfolding a(3,4) page_offset_less by simp
  then have amt: "0 < amount" "amount \<le> unat (s_filesz s) - unat copied"
    using a(5,7) lt rf by (simp_all add: PAGE_SIZE_def)
  have "unat (s_filesz s) < 2 ^ 64" using unsigned_less [of "s_filesz s", where 'a = nat] by simp
  then have "unat (copied + of_nat amount) = unat copied + amount"
    using amt lt by (simp add: unat_word_ariths unat_of_nat)
  then show "((img, s, copied + of_nat amount, ms,
        write_list m (unat (phys_to_virt phys) + page_offset) (take amount (drop source_at img))), img, s, copied, ms, m)
      \<in> measure (\<lambda>(img, s, copied, ms, m). unat (s_filesz s) - unat copied)"
    using amt lt by simp
qed simp

declare copy_loop.simps [simp del]

fun copy_segments :: "u8 list \<Rightarrow> segment list \<Rightarrow> mapping list \<Rightarrow> ram \<Rightarrow> load_error + ram" where
  "copy_segments img [] ms m = Inr m"
| "copy_segments img (s # ss) ms m =
     (case copy_loop img s 0 ms m of Inl e \<Rightarrow> Inl e | Inr m \<Rightarrow> copy_segments img ss ms m)"

fun map_stack :: "usize list \<Rightarrow> mapping list \<Rightarrow> machine \<Rightarrow> ((load_error + mapping list) \<times> machine) option" where
  "map_stack [] ms mc = Some (Inr ms, mc)"
| "map_stack (index # is) ms mc =
     (let base = STACK_TOP - of_nat STACK_PAGES * PAGE_SIZE; virt = base + of_nat index * PAGE_SIZE in
      case map_page ms virt mc of
        None \<Rightarrow> None
      | Some (Inl e, ms, mc) \<Rightarrow> fail_with e ms mc
      | Some (Inr _, ms, mc) \<Rightarrow> map_stack is ms mc)"

section \<open>Loading and reaping\<close>

definition release_finished_app :: "kernel \<Rightarrow> ((load_error + unit) \<times> kernel) option" where
  "release_finished_app k =
     (case ACTIVE_MAPPINGS k of
        None \<Rightarrow> Some (Inr (), k)
      | Some old \<Rightarrow>
          if \<not> task_dead (k_sched k) 3 then Some (Inl SchedulerBusy, k)
          else map_option (\<lambda>mc. (Inr (), k\<lparr>k_machine := mc, ACTIVE_MAPPINGS := None\<rparr>)) (rollback old (k_machine k)))"

definition reap_if_exited :: "kernel \<Rightarrow> kernel option" where
  "reap_if_exited k =
     (case ACTIVE_MAPPINGS k of
        None \<Rightarrow> Some k
      | Some old \<Rightarrow>
          if task_dead (k_sched k) 3
          then map_option (\<lambda>mc. k\<lparr>k_machine := mc, ACTIVE_MAPPINGS := None\<rparr>) (rollback old (k_machine k))
          else Some k)"

definition load_and_spawn :: "layout \<Rightarrow> u8 list \<Rightarrow> u16 \<Rightarrow> kernel \<Rightarrow> ((load_error + load_report) \<times> kernel) option" where
  "load_and_spawn L img ev_port k =
     (case release_finished_app k of
        None \<Rightarrow> None
      | Some (Inl e, k) \<Rightarrow> Some (Inl e, k)
      | Some (Inr _, k) \<Rightarrow>
          (case parse_segments img of
             Inl e \<Rightarrow> Some (Inl e, k)
           | Inr (entry, segments) \<Rightarrow>
               (case map_segments segments [] (k_machine k) of
                  None \<Rightarrow> None
                | Some (Inl e, mc) \<Rightarrow> Some (Inl e, k\<lparr>k_machine := mc\<rparr>)
                | Some (Inr ms, mc) \<Rightarrow>
                    (case copy_segments img segments ms (m_ram mc) of
                       Inl e \<Rightarrow> Some (Inl e, k\<lparr>k_machine := mc\<rparr>)
                     | Inr m \<Rightarrow>
                         (case map_stack [0..<STACK_PAGES] ms (mc\<lparr>m_ram := m\<rparr>) of
                            None \<Rightarrow> None
                          | Some (Inl e, mc) \<Rightarrow> Some (Inl e, k\<lparr>k_machine := mc\<rparr>)
                          | Some (Inr ms, mc) \<Rightarrow>
                              (case spawn_user L entry (STACK_TOP - 8) ev_port (k_sched k) of
                                 (False, s) \<Rightarrow>
                                   map_option (\<lambda>mc. (Inl SchedulerBusy, k\<lparr>k_machine := mc, k_sched := s\<rparr>)) (rollback ms mc)
                               | (True, s) \<Rightarrow>
                                   Some (Inr \<lparr>lr_entry = entry, lr_mapped_pages = length ms, lr_image_bytes = length img\<rparr>,
                                         k\<lparr>k_machine := mc, k_sched := s, ACTIVE_MAPPINGS := Some ms\<rparr>)))))))"

section \<open>What the parser guarantees\<close>

text \<open>A segment the loader may act on: inside the application window, with file bytes that exist.\<close>

definition good_segment :: "u8 list \<Rightarrow> segment \<Rightarrow> bool" where
  "good_segment img s \<longleftrightarrow>
     unat APP_MIN \<le> unat (s_vaddr s) \<and> 0 < unat (s_memsz s) \<and>
     unat (s_vaddr s) + unat (s_memsz s) \<le> unat APP_MAX \<and>
     unat (s_filesz s) \<le> unat (s_memsz s) \<and> unat (s_offset s) + unat (s_filesz s) \<le> length img"

lemma parse_header_good:
  assumes "parse_header img at = Inr (Some s)" "length img < 2 ^ 64"
  shows "good_segment img s"
proof -
  have l: "unat (of_nat (length img) :: u64) = length img" using assms(2) by (simp add: unat_of_nat)
  from assms(1) obtain end_addr file_end where
    "checked_add (s_vaddr s) (s_memsz s) = Some end_addr" "checked_add (s_offset s) (s_filesz s) = Some file_end"
    "s_memsz s \<noteq> 0" "s_filesz s \<le> s_memsz s" "APP_MIN \<le> s_vaddr s" "end_addr \<le> APP_MAX"
    "file_end \<le> of_nat (length img)"
    unfolding parse_header_def by (auto simp: not_less not_le split: option.splits if_splits)
  then show ?thesis
    using unat_checked_add [of "s_vaddr s" "s_memsz s"] unat_checked_add [of "s_offset s" "s_filesz s"] l
    by (auto simp: good_segment_def word_le_nat_alt unat_gt_0)
qed

lemma parse_headers_good:
  assumes "parse_headers img phoff phentsize is = Inr ss" "length img < 2 ^ 64"
  shows "length ss \<le> length is \<and> (\<forall>s \<in> set ss. good_segment img s)"
  using assms(1)
proof (induction "is" arbitrary: ss)
  case Nil
  then show ?case by simp
next
  case (Cons i "is")
  from Cons.prems obtain s ss1 where "parse_header img (phoff + i * phentsize) = Inr s"
      "parse_headers img phoff phentsize is = Inr ss1" "ss = (case s of None \<Rightarrow> ss1 | Some sg \<Rightarrow> sg # ss1)"
    by (auto split: sum.splits)
  then show ?case using Cons.IH [of ss1] parse_header_good assms(2) by (cases s) auto
qed

lemma parse_segments_Inr:
  assumes "parse_segments img = Inr (entry, ss)"
  obtains phoff phnum where "parse_headers img phoff PROGRAM_HEADER_SIZE [0..<phnum] = Inr ss"
    "phnum \<le> MAX_PROGRAM_HEADERS" "ss \<noteq> []" "list_ex (entry_ok entry) ss" "take 4 img = [0x7f, 0x45, 0x4c, 0x46]"
  using assms unfolding parse_segments_def Let_def
  by (auto simp: not_less not_le split: option.splits if_splits sum.splits)

text \<open>C17. What an accepted image guarantees, for arbitrary bytes: between one and sixteen segments, every one
  of them non-empty, entirely inside the application window, with no more file bytes than memory
  and all of its file bytes present in the image; and the entry point lies in an executable one.\<close>

theorem parse_segments_sound:
  assumes "parse_segments img = Inr (entry, ss)" "length img < 2 ^ 64"
  shows "ss \<noteq> [] \<and> length ss \<le> 16 \<and> (\<forall>s \<in> set ss. good_segment img s) \<and>
    (\<exists>s \<in> set ss. odd (s_flags s) \<and> unat (s_vaddr s) \<le> unat entry \<and> unat entry < unat (s_vaddr s) + unat (s_memsz s))"
proof -
  obtain phoff phnum where p: "parse_headers img phoff PROGRAM_HEADER_SIZE [0..<phnum] = Inr ss"
    "phnum \<le> MAX_PROGRAM_HEADERS" "ss \<noteq> []" "list_ex (entry_ok entry) ss"
    using parse_segments_Inr [OF assms(1)] by metis
  have g: "length ss \<le> phnum" "\<forall>s \<in> set ss. good_segment img s" using parse_headers_good [OF p(1) assms(2)] by simp_all
  from p(4) obtain s where s: "s \<in> set ss" "entry_ok entry s" by (auto simp: list_ex_iff)
  have "unat (s_vaddr s) + unat (s_memsz s) < 2 ^ 64" using g(2) s(1) by (auto simp: good_segment_def APP_MAX_def)
  then have "unat (saturating_add64 (s_vaddr s) (s_memsz s)) = unat (s_vaddr s) + unat (s_memsz s)"
    by (simp add: saturating_add64_def unat_word_ariths)
  moreover have "odd (s_flags s)" using s(2) by (auto simp: entry_ok_def and_one_eq odd_iff_mod_2_eq_one)
  ultimately show ?thesis using p g s by (auto simp: entry_ok_def word_le_nat_alt word_less_nat_alt MAX_PROGRAM_HEADERS_def)
qed

section \<open>Page entries and data frames\<close>

definition leaf_at :: "machine \<Rightarrow> u64 \<Rightarrow> u64 \<Rightarrow> bool" where
  "leaf_at mc v e \<longleftrightarrow>
     (\<exists>pt. tab mc [level_index v 2, level_index v 1, level_index v 0] = Some pt \<and> pte mc pt (level_index v 3) = e)"

lemma ext_leaf: "ext mc mc' \<Longrightarrow> v < USER_TOP \<Longrightarrow> leaf_at mc v e \<Longrightarrow> leaf_at mc' v e"
  using extD(3,6) [of mc mc' "[level_index v 2, level_index v 1, level_index v 0]"] upath_indices(3) [of v]
  by (auto simp: leaf_at_def simp del: tab.simps)

lemma leaf_at_page: "leaf_at mc v e \<Longrightarrow> bit e 0 \<Longrightarrow> page_of mc v = Some (addr_of e)"
  using walk_open_page_of by (auto simp: leaf_at_def simp del: tab.simps)

lemma pool_cong: "(\<And>q. upath q \<Longrightarrow> tab mc' q = tab mc q) \<Longrightarrow> m_frames mc' = m_frames mc \<Longrightarrow> pool mc' = pool mc"
  by (simp add: pool_def cong: conj_cong)

text \<open>Replacing one page entry.\<close>

lemma leaf_set:
  fixes e' :: u64
  assumes inv: "pt_inv mc" and v: "v < USER_TOP" "aligned v"
    and t: "tab mc [level_index v 2, level_index v 1, level_index v 0] = Some pt"
  defines "mc' \<equiv> set_pte pt (level_index v 3) e' mc"
  shows "pt_inv mc'" "leaf_at mc' v e'" "pool mc' = pool mc"
    and "w < USER_TOP \<Longrightarrow> addr_of w \<noteq> v \<Longrightarrow> leaf_at mc w e \<Longrightarrow> leaf_at mc' w e"
    and "w < USER_TOP \<Longrightarrow> addr_of w \<noteq> v \<Longrightarrow> page_of mc' w = page_of mc w"
    and "data_byte mc a \<Longrightarrow> m_ram mc' a = m_ram mc a \<and> data_byte mc' a"
proof -
  note u = upath_indices(3) [OF v(1)]
  note lw = leaf_write [OF inv u _ t level_index_less [of v 3], where v = e', folded mc'_def]
  have tb: "tab mc' q = tab mc q" if "upath q" for q using lw(1) that by simp
  show "pt_inv mc'" using lw(2) by simp
  show "leaf_at mc' v e'"
    unfolding leaf_at_def using tb [OF u] t pte_set_pte [OF tab_aligned [OF t] tab_aligned [OF t]]
    by (simp add: mc'_def del: tab.simps)
  show "pool mc' = pool mc" by (rule pool_cong [OF tb]) (simp_all add: mc'_def)
  have ne: "indices w \<noteq> indices v" if "w < USER_TOP" "addr_of w \<noteq> v" for w
    using indices_eq_iff [OF that(1) v(1)] v(2) that(2) by simp
  show "leaf_at mc' w e" if w: "w < USER_TOP" "addr_of w \<noteq> v" "leaf_at mc w e"
  proof -
    obtain x where x: "tab mc [level_index w 2, level_index w 1, level_index w 0] = Some x" "pte mc x (level_index w 3) = e"
      using w(3) unfolding leaf_at_def by blast
    have "level_index w 3 # [level_index w 2, level_index w 1, level_index w 0] \<noteq>
        level_index v 3 # [level_index v 2, level_index v 1, level_index v 0]"
      using ne [OF w(1,2)] by (auto simp: indices_simp)
    then show ?thesis
      unfolding leaf_at_def using x tb [OF upath_indices(3) [OF w(1)]] lw(3) [OF _ upath_indices(3) [OF w(1)] x(1)]
      by (simp del: tab.simps)
  qed
  show "page_of mc' w = page_of mc w" if w: "w < USER_TOP" "addr_of w \<noteq> v"
    using lw(4) [OF _ w(1)] rev_indices [of w v] ne [OF w] by simp
  show "m_ram mc' a = m_ram mc a \<and> data_byte mc' a" if a: "data_byte mc a"
  proof -
    have "frame_index pt \<noteq> a div 4096" using a u t by (auto simp: data_byte_def)
    then have "m_ram mc' a = m_ram mc a"
      unfolding mc'_def by (intro set_pte_outside [OF tab_aligned [OF t]]) simp_all
    then show ?thesis using a tb by (auto simp: data_byte_def mc'_def)
  qed
qed

text \<open>A change of memory that leaves every table alone leaves all translations alone.\<close>

lemma same_tables:
  assumes cr: "m_cr3 mc' = m_cr3 mc"
    and all: "\<forall>q x j. upath q \<longrightarrow> tab mc q = Some x \<longrightarrow> j < 512 \<longrightarrow> pte mc' x j = pte mc x j"
  shows "upath q \<Longrightarrow> tab mc' q = tab mc q" "v < USER_TOP \<Longrightarrow> page_of mc' v = page_of mc v"
    "v < USER_TOP \<Longrightarrow> leaf_at mc v e \<Longrightarrow> leaf_at mc' v e" "pt_ok F mc \<Longrightarrow> F' \<subseteq> F \<Longrightarrow> pt_ok F' mc'"
proof -
  have pt: "pte mc' x j = pte mc x j" if "upath q" "tab mc q = Some x" "j < 512" for q x j using all that by blast
  show tb: "tab mc' q = tab mc q" if "upath q" for q
    using that
  proof (induction q)
    case Nil
    then show ?case using cr by simp
  next
    case (Cons j q)
    have q: "upath q" "j < 512" using upath_ConsD [OF Cons.prems] by simp_all
    show ?case
    proof (cases "tab mc q")
      case (Some x)
      then show ?thesis using Cons.IH [OF q(1)] pt [OF q(1) Some q(2)] by simp
    qed (use Cons.IH [OF q(1)] in simp)
  qed
  show "page_of mc' v = page_of mc v" if v: "v < USER_TOP"
  proof -
    have "look mc' (length ([] :: usize list)) (addr_of (m_cr3 mc)) (indices v) =
        look mc (length ([] :: usize list)) (addr_of (m_cr3 mc)) (indices v)"
    proof (rule look_gen [where P = "\<lambda>_. True"])
      fix q js :: "usize list" and x :: u64 and j :: usize
      assume "upath q" "tab mc q = Some x" "j < 512"
      then show "pte mc' x j = pte mc x j \<or> look mc' (length q) x (j # js) = look mc (length q) x (j # js)"
        using pt by blast
    qed (use USER_TOP_index [OF v] in \<open>simp_all add: indices_simp\<close>)
    then show ?thesis using cr by (simp add: page_of_def)
  qed
  show "leaf_at mc' v e" if "v < USER_TOP" "leaf_at mc v e"
    using that tb [OF upath_indices(3) [OF that(1)]] pt [OF upath_indices(3) [OF that(1)]]
    by (auto simp: leaf_at_def simp del: tab.simps)
  show "pt_ok F' mc'" if ok: "pt_ok F mc" and sub: "F' \<subseteq> F"
    unfolding pt_ok_def
  proof (intro conjI allI impI)
    fix q x assume q: "upath q" "tab mc' q = Some x"
    then show "unat x < 2 ^ 30" "frame_index x \<notin> F'" using pt_okD(1,2) [OF ok q(1)] tb sub by auto
  next
    fix q q' x assume q: "upath q" "upath q'" "tab mc' q = Some x" "tab mc' q' = Some x"
    then show "q = q'" using pt_okD(3) [OF ok q(2) _ q(1)] tb by simp
  next
    fix q x i assume q: "upath q" "length q \<in> {1, 2}" "tab mc' q = Some x" "i < 512" "bit (pte mc' x i) 7"
    then show "bit (pte mc' x i) 0" using pt_okD(4) [OF ok q(1) _ q(2,4)] tb pt [OF q(1) _ q(4)] by simp
  qed
qed

text \<open>Taking a frame for data: it leaves the pool, and nothing else is affected.\<close>

lemma alloc_data_frame:
  assumes inv: "pt_inv mc" and al: "alloc_zeroed_frame mc = (Some f, mc1)"
  shows "pt_inv mc1" "upath q \<Longrightarrow> tab mc1 q = tab mc q" "v < USER_TOP \<Longrightarrow> page_of mc1 v = page_of mc v"
    "v < USER_TOP \<Longrightarrow> leaf_at mc v e \<Longrightarrow> leaf_at mc1 v e"
    "data_byte mc a \<Longrightarrow> m_ram mc1 a = m_ram mc a \<and> data_byte mc1 a \<and> a div 4096 \<noteq> frame_index f"
    "a div 4096 = frame_index f \<Longrightarrow> data_byte mc1 a \<and> m_ram mc1 a = 0"
    "pool mc1 = pool mc - {frame_index f}" "frame_index f \<in> pool mc"
    "aligned f" "unat f < 2 ^ 30" "1 \<le> frame_index f" "frame_index f < MAX_FRAMES"
proof -
  have fi: "frames_inv (m_frames mc)" and ok: "pt_ok (free_set (m_frames mc)) mc" using inv by (simp_all add: pt_inv_def)
  note fr = fp.alloc_fresh [OF fi al] and sm = fp.alloc_same [OF fi al]
  show al': "aligned f" "unat f < 2 ^ 30" using fr by simp_all
  show "1 \<le> frame_index f" "frame_index f < MAX_FRAMES" using fr by (auto simp: free_set_def)
  have "pte mc1 x j = pte mc x j" if "upath q" "tab mc q = Some x" "j < 512" for q x j
    using sm tab_aligned [OF that(2)] pt_okD(2) [OF ok that(1,2)] fr that(3) by (auto simp: same_but_def)
  then have pt: "\<forall>q x j. upath q \<longrightarrow> tab mc q = Some x \<longrightarrow> j < 512 \<longrightarrow> pte mc1 x j = pte mc x j" by blast
  have cr: "m_cr3 mc1 = m_cr3 mc" using sm by (simp add: same_but_def)
  note st = same_tables [OF cr pt]
  show tb: "tab mc1 q = tab mc q" if "upath q" for q by (rule st(1) [OF that])
  have "free_set (m_frames mc1) \<subseteq> free_set (m_frames mc)" using fr by auto
  then have "pt_ok (free_set (m_frames mc1)) mc1" using st(4) [OF ok] by simp
  then show "pt_inv mc1" using fp.alloc_inv [OF fi al] by (simp add: pt_inv_def)
  show "page_of mc1 v = page_of mc v" if "v < USER_TOP" by (rule st(2) [OF that])
  show "leaf_at mc1 v e" if "v < USER_TOP" "leaf_at mc v e" by (rule st(3) [OF that])
  show "m_ram mc1 a = m_ram mc a \<and> data_byte mc1 a \<and> a div 4096 \<noteq> frame_index f" if "data_byte mc a"
  proof -
    have ne: "a div 4096 \<noteq> frame_index f" using that fr by (auto simp: data_byte_def)
    then show ?thesis using that fr sm tb by (simp add: data_byte_def same_but_def)
  qed
  show "data_byte mc1 a \<and> m_ram mc1 a = 0" if "a div 4096 = frame_index f"
  proof -
    have "m_ram mc1 a = 0"
      using alloc_zeroed_cases [OF fi al] that frame_bounds [OF al'(1), of a] by (auto simp: fill_bytes_def FRAME_SIZE_def)
    moreover have "frame_index x \<noteq> a div 4096" if "upath q" "tab mc1 q = Some x" for q x
      using pt_okD(2) [OF ok that(1)] tb [OF that(1)] that(2) fr \<open>a div 4096 = frame_index f\<close> by metis
    ultimately show ?thesis using that fr by (simp add: data_byte_def)
  qed
  show "pool mc1 = pool mc - {frame_index f}" "frame_index f \<in> pool mc"
    using fr pt_okD(2) [OF ok] by (auto simp: pool_def tb cong: conj_cong)
qed

text \<open>Giving a data frame back.\<close>

lemma free_data_frame:
  assumes inv: "pt_inv mc" and f: "1 \<le> frame_index f" "frame_index f < MAX_FRAMES"
    and d: "\<And>a. a div 4096 = frame_index f \<Longrightarrow> data_byte mc a"
  obtains fs where "free_frame f mc = Some (mc\<lparr>m_frames := fs\<rparr>)" "pt_inv (mc\<lparr>m_frames := fs\<rparr>)"
    "free_set fs = insert (frame_index f) (free_set (m_frames mc))"
proof -
  have fi: "frames_inv (m_frames mc)" and ok: "pt_ok (free_set (m_frames mc)) mc" using inv by (simp_all add: pt_inv_def)
  have df: "data_byte mc (4096 * frame_index f)" using d by simp
  then have nf: "frame_index f \<notin> free_set (m_frames mc)" by (simp add: data_byte_def)
  have nt: "frame_index x \<noteq> frame_index f" if "upath q" "tab mc q = Some x" for q x
    using df that by (auto simp: data_byte_def)
  obtain fs where fs: "free_frames f 1 (m_frames mc) = Some fs" "frames_inv fs"
      "free_set fs = insert (frame_index f) (free_set (m_frames mc))"
    using free_frames_release [OF fi f(1), of 1] f(2) nf by (auto simp: atLeastLessThanSuc)
  have tb: "tab (mc\<lparr>m_frames := fs\<rparr>) q = tab mc q" for q by (induction q) (auto split: option.splits)
  have "pt_ok (free_set fs) (mc\<lparr>m_frames := fs\<rparr>)"
    using ok nt unfolding pt_ok_def tb fs(3) pte_m_frames by blast
  then have "pt_inv (mc\<lparr>m_frames := fs\<rparr>)" using fs(2) by (simp add: pt_inv_def)
  then show ?thesis using that fs by (simp add: free_frame_def)
qed

lemma m_frames_irrelevant [simp]:
  "tab (mc\<lparr>m_frames := fs\<rparr>) q = tab mc q" "leaf_at (mc\<lparr>m_frames := fs\<rparr>) v e = leaf_at mc v e"
  "page_of (mc\<lparr>m_frames := fs\<rparr>) v = page_of mc v"
proof -
  show t: "tab (mc\<lparr>m_frames := fs\<rparr>) q = tab mc q" for q by (induction q) (auto split: option.splits)
  show "leaf_at (mc\<lparr>m_frames := fs\<rparr>) v e = leaf_at mc v e" by (simp only: leaf_at_def t pte_m_frames)
  have "look (mc\<lparr>m_frames := fs\<rparr>) l t js = look mc l t js" for l t js
    by (induction js arbitrary: l t) (simp_all add: Let_def)
  then show "page_of (mc\<lparr>m_frames := fs\<rparr>) v = page_of mc v" by (simp add: page_of_def)
qed

section \<open>The pages of an application\<close>

text \<open>A page the loader has mapped: its entry is a user mapping of a frame that holds data only.\<close>

definition owned :: "machine \<Rightarrow> mapping \<Rightarrow> bool" where
  "owned mc m \<longleftrightarrow> (case m of (v, f) \<Rightarrow>
     aligned v \<and> v < USER_TOP \<and> aligned f \<and> unat f < 2 ^ 30 \<and> 1 \<le> frame_index f \<and> frame_index f < MAX_FRAMES \<and>
     leaf_at mc v (f OR PRESENT OR WRITABLE OR USER) \<and> (\<forall>a. a div 4096 = frame_index f \<longrightarrow> data_byte mc a))"

definition frames_of :: "mapping list \<Rightarrow> nat set" where
  "frames_of ms = (\<lambda>m. frame_index (snd m)) ` set ms"

definition virts_of :: "mapping list \<Rightarrow> u64 set" where
  "virts_of ms = fst ` set ms"

definition app_ok :: "machine \<Rightarrow> mapping list \<Rightarrow> bool" where
  "app_ok mc ms \<longleftrightarrow> pt_inv mc \<and> distinct (map fst ms) \<and> distinct (map (\<lambda>m. frame_index (snd m)) ms) \<and>
     (\<forall>m \<in> set ms. owned mc m)"

lemma app_okD:
  assumes "app_ok mc ms" "(v, f) \<in> set ms"
  shows "pt_inv mc" "aligned v" "v < USER_TOP" "aligned f" "unat f < 2 ^ 30" "1 \<le> frame_index f"
    "frame_index f < MAX_FRAMES" "leaf_at mc v (f OR PRESENT OR WRITABLE OR USER)"
    "\<And>a. a div 4096 = frame_index f \<Longrightarrow> data_byte mc a"
  using assms by (auto simp: app_ok_def owned_def)

lemma mapped_phys_Some: "mapped_phys ms v = Some f \<Longrightarrow> (v, f) \<in> set ms"
  by (induction ms) (auto simp: mapped_phys_def split: if_splits)

lemma mapped_phys_None: "mapped_phys ms v = None \<longleftrightarrow> v \<notin> virts_of ms"
  by (induction ms) (auto simp: mapped_phys_def virts_of_def)

lemma mapped_phys_unique: "distinct (map fst ms) \<Longrightarrow> (v, f) \<in> set ms \<Longrightarrow> mapped_phys ms v = Some f"
  using mapped_phys_None [of ms v] mapped_phys_Some [of ms v]
  by (cases "mapped_phys ms v") (force simp: virts_of_def, metis eq_key_imp_eq_value)

text \<open>Unmapping one page and releasing its frame.\<close>

lemma unmap_owned:
  assumes ok: "app_ok mc ms" and m: "(v, f) \<in> set ms"
  obtains pt where "tab mc [level_index v 2, level_index v 1, level_index v 0] = Some pt"
    "unmap_user_page v mc = (Some f, set_pte pt (level_index v 3) 0 mc)"
proof -
  note a = app_okD [OF ok m]
  obtain pt where t: "tab mc [level_index v 2, level_index v 1, level_index v 0] = Some pt"
      "pte mc pt (level_index v 3) = f OR PRESENT OR WRITABLE OR USER"
    using a(8) unfolding leaf_at_def by blast
  have "v AND 0xFFF = 0" using a(2) by (simp add: aligned_def)
  then have "unmap_user_page v mc = (Some f, set_pte pt (level_index v 3) 0 mc)"
    using t addr_of_or_flags(1) [OF a(4)] by (auto simp: unmap_user_page_def Let_def split: option.splits if_splits)
  then show ?thesis using that t(1) by blast
qed

lemma leaf_zero_page: "leaf_at mc v 0 \<Longrightarrow> page_of mc v = None"
  using walk_open_page_of [of mc v] by (auto simp: leaf_at_def simp del: tab.simps)

lemma page_of_same_page: "v < USER_TOP \<Longrightarrow> w < USER_TOP \<Longrightarrow> addr_of w = addr_of v \<Longrightarrow> page_of mc w = page_of mc v"
  using indices_eq_iff [of w v] by (simp add: page_of_def)

lemma remove_page:
  assumes ok: "app_ok mc ms'" and set: "set ms' = insert (v, f) (set ms)" "distinct (map fst ((v, f) # ms))"
    "distinct (map (\<lambda>m. frame_index (snd m)) ((v, f) # ms))"
  obtains mc1 mc2 where "unmap_user_page v mc = (Some f, mc1)" "free_frame f mc1 = Some mc2" "app_ok mc2 ms"
    "pool mc2 = insert (frame_index f) (pool mc)"
    "\<And>w. w < USER_TOP \<Longrightarrow> page_of mc2 w = (if addr_of w = v then None else page_of mc w)"
proof -
  have m: "(v, f) \<in> set ms'" using set(1) by simp
  note a = app_okD [OF ok m]
  obtain pt where t: "tab mc [level_index v 2, level_index v 1, level_index v 0] = Some pt"
      "unmap_user_page v mc = (Some f, set_pte pt (level_index v 3) 0 mc)"
    by (rule unmap_owned [OF ok m])
  define mc1 where "mc1 = set_pte pt (level_index v 3) 0 mc"
  note ls = leaf_set [OF a(1,3,2) t(1), where e' = 0, folded mc1_def]
  obtain fs where fs: "free_frame f mc1 = Some (mc1\<lparr>m_frames := fs\<rparr>)" "pt_inv (mc1\<lparr>m_frames := fs\<rparr>)"
      "free_set fs = insert (frame_index f) (free_set (m_frames mc1))"
    using free_data_frame [OF ls(1) a(6,7)] ls(6) a(9) by metis
  have keep: "owned (mc1\<lparr>m_frames := fs\<rparr>) x" if x: "x \<in> set ms" for x
  proof -
    obtain w g where w: "x = (w, g)" by (cases x)
    have wm: "(w, g) \<in> set ms'" using x w set(1) by simp
    note b = app_okD [OF ok wm]
    have "w \<noteq> v" "frame_index g \<noteq> frame_index f" using x w set(2,3) by force+
    moreover have "leaf_at mc1 w (g OR PRESENT OR WRITABLE OR USER)"
      using ls(4) [OF b(3) _ b(8)] b(2) calculation(1) by simp
    moreover have "data_byte (mc1\<lparr>m_frames := fs\<rparr>) a" if "a div 4096 = frame_index g" for a
      using ls(6) [OF b(9) [OF that]] that calculation(2) fs(3) by (simp add: data_byte_def)
    ultimately show ?thesis using b by (simp add: owned_def w)
  qed
  have "app_ok (mc1\<lparr>m_frames := fs\<rparr>) ms" using fs(2) keep set(2,3) by (simp add: app_ok_def)
  moreover have "pool (mc1\<lparr>m_frames := fs\<rparr>) = insert (frame_index f) (pool mc)"
    using ls(3) fs(3) by (simp add: pool_def)
  moreover have "page_of (mc1\<lparr>m_frames := fs\<rparr>) w = (if addr_of w = v then None else page_of mc w)" if w: "w < USER_TOP" for w
    using ls(5) [OF w] leaf_zero_page [OF ls(2)] page_of_same_page [OF a(3) w, of mc1] a(2) by simp
  ultimately show ?thesis using that t(2) fs(1) by (simp add: mc1_def)
qed

text \<open>Rolling back removes exactly the application's pages and returns all its frames.\<close>

lemma rollback_list_ok:
  assumes "app_ok mc ms"
  shows "\<exists>mc'. rollback_list ms mc = Some mc' \<and> pt_inv mc' \<and> pool mc' = pool mc \<union> frames_of ms \<and>
    (\<forall>w < USER_TOP. page_of mc' w = (if addr_of w \<in> virts_of ms then None else page_of mc w))"
  using assms
proof (induction ms arbitrary: mc)
  case Nil
  then show ?case by (simp add: app_ok_def frames_of_def virts_of_def)
next
  case (Cons m ms)
  obtain v f where m: "m = (v, f)" by (cases m)
  have d: "distinct (map fst ((v, f) # ms))" "distinct (map (\<lambda>m. frame_index (snd m)) ((v, f) # ms))"
    using Cons.prems m by (simp_all add: app_ok_def)
  obtain mc1 mc2 where r: "unmap_user_page v mc = (Some f, mc1)" "free_frame f mc1 = Some mc2" "app_ok mc2 ms"
      "pool mc2 = insert (frame_index f) (pool mc)"
      "\<And>w. w < USER_TOP \<Longrightarrow> page_of mc2 w = (if addr_of w = v then None else page_of mc w)"
    by (rule remove_page [OF Cons.prems [unfolded m] _ d]) simp_all
  obtain mc' where c: "rollback_list ms mc2 = Some mc'" "pt_inv mc'" "pool mc' = pool mc2 \<union> frames_of ms"
      "\<forall>w < USER_TOP. page_of mc' w = (if addr_of w \<in> virts_of ms then None else page_of mc2 w)"
    using Cons.IH [OF r(3)] by blast
  show ?case
    using r(1,2,4,5) c by (intro exI [of _ mc']) (auto simp: m frames_of_def virts_of_def)
qed

lemma app_ok_rev: "app_ok mc (rev ms) = app_ok mc ms"
  by (simp add: app_ok_def rev_map [symmetric])

lemma rollback_ok:
  assumes "app_ok mc ms"
  obtains mc' where "rollback ms mc = Some mc'" "pt_inv mc'" "pool mc' = pool mc \<union> frames_of ms"
    "\<And>w. w < USER_TOP \<Longrightarrow> page_of mc' w = (if addr_of w \<in> virts_of ms then None else page_of mc w)"
  using rollback_list_ok [of mc "rev ms"] assms that
  by (auto simp: app_ok_rev rollback_def frames_of_def virts_of_def)

section \<open>Mapping a page of the application\<close>

lemma owned_ext:
  assumes "ext mc mc'" "owned mc m"
  shows "owned mc' m"
  using assms extD(7) [OF assms(1)] ext_leaf [OF assms(1)] by (auto simp: owned_def)

lemma app_ok_ext: "ext mc mc' \<Longrightarrow> app_ok mc ms \<Longrightarrow> app_ok mc' ms"
  using owned_ext extD(1) by (auto simp: app_ok_def)

lemma app_ok_alloc:
  assumes "app_ok mc ms" "alloc_zeroed_frame mc = (Some f, mc1)"
  shows "app_ok mc1 ms" "frame_index f \<notin> frames_of ms"
proof -
  have inv: "pt_inv mc" using assms(1) by (simp add: app_ok_def)
  note al = alloc_data_frame [OF inv assms(2)]
  show "app_ok mc1 ms"
    using assms(1) al(1,4,5) by (auto simp: app_ok_def owned_def)
  show "frame_index f \<notin> frames_of ms"
  proof
    assume "frame_index f \<in> frames_of ms"
    then obtain v g where g: "(v, g) \<in> set ms" "frame_index g = frame_index f" by (auto simp: frames_of_def)
    then have "data_byte mc (4096 * frame_index f)" using app_okD(9) [OF assms(1) g(1)] by simp
    then show False using al(5) [of "4096 * frame_index f"] by simp
  qed
qed

lemma map_ok_keeps:
  assumes inv: "pt_inv mc" and m: "map_user_page v f mc = (True, mc')" and v: "v < USER_TOP" "aligned v"
    and f: "aligned f" "unat f < 2 ^ 30"
  shows "pt_inv mc'" "leaf_at mc' v (f OR PRESENT OR WRITABLE OR USER)" "pool mc' = pool mc"
    and "w < USER_TOP \<Longrightarrow> addr_of w \<noteq> v \<Longrightarrow> leaf_at mc w e \<Longrightarrow> leaf_at mc' w e"
    and "w < USER_TOP \<Longrightarrow> page_of mc' w = (if addr_of w = v then Some f else page_of mc w)"
    and "data_byte mc a \<Longrightarrow> m_ram mc' a = m_ram mc a \<and> data_byte mc' a"
proof -
  have args: "v AND 0xFFF = 0" "f AND 0xFFF = 0" "f < INITIAL_MAP_SIZE"
    using v(2) f by (simp_all add: aligned_def word_less_nat_alt INITIAL_MAP_SIZE_def)
  obtain mc3 pt where s: "ext mc mc3" "walk_open mc3 v pt"
      "mc' = set_pte pt (level_index v 3) (f OR PRESENT OR WRITABLE OR USER) mc3"
    using map_user_page_steps [OF inv v(1) args m] by auto
  have t: "tab mc3 [level_index v 2, level_index v 1, level_index v 0] = Some pt"
    using s(2) unfolding walk_open_def by blast
  note ls = leaf_set [OF extD(1) [OF s(1)] v t, where e' = "f OR PRESENT OR WRITABLE OR USER", folded s(3)]
  show "pt_inv mc'" "leaf_at mc' v (f OR PRESENT OR WRITABLE OR USER)" by (rule ls(1), rule ls(2))
  show "pool mc' = pool mc" using ls(3) extD(8) [OF s(1)] by simp
  show "leaf_at mc' w e" if "w < USER_TOP" "addr_of w \<noteq> v" "leaf_at mc w e"
    using ls(4) [OF that(1,2)] ext_leaf [OF s(1) that(1,3)] by simp
  show "page_of mc' w = (if addr_of w = v then Some f else page_of mc w)" if w: "w < USER_TOP"
    using ls(5) [OF w] extD(5) [OF s(1) w] leaf_at_page [OF ls(2)] addr_of_or_flags(1) [OF f(1)]
      page_of_same_page [OF v(1) w, of mc'] v(2) by simp
  show "m_ram mc' a = m_ram mc a \<and> data_byte mc' a" if "data_byte mc a"
    using extD(7) [OF s(1) that] ls(6) by simp
qed

lemma app_frame_byte: "app_ok mc ms \<Longrightarrow> a div 4096 \<in> frames_of ms \<Longrightarrow> data_byte mc a"
  using app_okD(9) [of mc ms] by (fastforce simp: frames_of_def)

text \<open>Giving an unused address a zeroed frame, which the loader and the system call for memory share.\<close>

lemma fresh_page_cases:
  assumes ok: "app_ok mc ms" and v: "v < USER_TOP" "aligned v" and nv: "v \<notin> virts_of ms"
  obtains (no_frame) "alloc_zeroed_frame mc = (None, mc)"
  | (unmapped) f mc1 mc2 mc' where "alloc_zeroed_frame mc = (Some f, mc1)" "map_user_page v f mc1 = (False, mc2)"
      "free_frame f mc2 = Some mc'" "app_ok mc' ms" "pool mc' = pool mc" "\<And>w. w < USER_TOP \<Longrightarrow> page_of mc' w = page_of mc w"
  | (given) f mc1 mc' where "alloc_zeroed_frame mc = (Some f, mc1)" "map_user_page v f mc1 = (True, mc')"
      "app_ok mc' (ms @ [(v, f)])" "pool mc' = pool mc - {frame_index f}" "frame_index f \<in> pool mc"
      "\<And>w. w < USER_TOP \<Longrightarrow> page_of mc' w = (if addr_of w = v then Some f else page_of mc w)"
      "\<And>a. a div 4096 \<in> frames_of ms \<Longrightarrow> m_ram mc' a = m_ram mc a"
      "\<And>a. a div 4096 = frame_index f \<Longrightarrow> m_ram mc' a = 0"
proof -
  have inv: "pt_inv mc" using ok by (simp add: app_ok_def)
  obtain r mc1 where al: "alloc_zeroed_frame mc = (r, mc1)" by fastforce
  show ?thesis
  proof (cases r)
    case None
    have "mc1 = mc" using fp.alloc_None [of mc mc1] inv al None by (simp add: pt_inv_def)
    then show ?thesis using no_frame al None by simp
  next
    case (Some f)
    note al = al [unfolded Some]
    note ad = alloc_data_frame [OF inv al] and ok1 = app_ok_alloc [OF ok al]
    obtain b mc2 where m: "map_user_page v f mc1 = (b, mc2)" by fastforce
    show ?thesis
    proof (cases b)
      case True
      then have mt: "map_user_page v f mc1 = (True, mc2)" using m by simp
      note mk = map_ok_keeps [OF ad(1) mt v ad(9,10)]
      have "owned mc2 x" if x: "x \<in> set ms" for x
        using app_okD [OF ok1(1), of "fst x" "snd x"] x nv mk(4) [of "fst x"] mk(6) ad(9)
        by (cases x) (force simp: owned_def virts_of_def)
      moreover have "owned mc2 (v, f)" using v ad(6,9-12) mk(2,6) by (simp add: owned_def)
      ultimately have okn: "app_ok mc2 (ms @ [(v, f)])"
        using ok1 mk(1) nv by (auto simp: app_ok_def virts_of_def frames_of_def)
      show ?thesis
      proof (rule given [OF al mt okn])
        show "pool mc2 = pool mc - {frame_index f}" using mk(3) ad(7) by simp
        show "m_ram mc2 a = m_ram mc a" if "a div 4096 \<in> frames_of ms" for a
          using ad(5) [OF app_frame_byte [OF ok that]] mk(6) by simp
        show "m_ram mc2 a = 0" if "a div 4096 = frame_index f" for a using ad(6) [OF that] mk(6) by simp
        show "page_of mc2 w = (if addr_of w = v then Some f else page_of mc w)" if "w < USER_TOP" for w
          using mk(5) [OF that] ad(3) [OF that] by simp
      qed (rule ad(8))
    next
      case False
      then have mf: "map_user_page v f mc1 = (False, mc2)" using m by simp
      have args: "v AND 0xFFF = 0" "f AND 0xFFF = 0" "f < INITIAL_MAP_SIZE"
        using v(2) ad(9,10) by (simp_all add: aligned_def word_less_nat_alt INITIAL_MAP_SIZE_def)
      have x: "ext mc1 mc2" using map_user_page_steps [OF ad(1) v(1) args m] False by simp
      have db: "data_byte mc2 a" if "a div 4096 = frame_index f" for a using extD(7) [OF x] ad(6) [OF that] by simp
      obtain fs where fs: "free_frame f mc2 = Some (mc2\<lparr>m_frames := fs\<rparr>)" "pt_inv (mc2\<lparr>m_frames := fs\<rparr>)"
          "free_set fs = insert (frame_index f) (free_set (m_frames mc2))"
        using free_data_frame [OF extD(1) [OF x] ad(11,12)] db by metis
      show ?thesis
      proof (rule unmapped [OF al mf fs(1)])
        have "owned (mc2\<lparr>m_frames := fs\<rparr>) y" if y: "y \<in> set ms" for y
        proof -
          have "owned mc2 y" using app_ok_ext [OF x ok1(1)] y by (simp add: app_ok_def)
          moreover have "frame_index (snd y) \<noteq> frame_index f" using ok1(2) y by (force simp: frames_of_def)
          ultimately show ?thesis using fs(3) by (auto simp: owned_def data_byte_def)
        qed
        then show "app_ok (mc2\<lparr>m_frames := fs\<rparr>) ms" using fs(2) ok by (simp add: app_ok_def)
        have "pool (mc2\<lparr>m_frames := fs\<rparr>) = insert (frame_index f) (pool mc2)" using fs(3) by (simp add: pool_def)
        then show "pool (mc2\<lparr>m_frames := fs\<rparr>) = pool mc" using extD(8) [OF x] ad(7,8) by auto
        show "page_of (mc2\<lparr>m_frames := fs\<rparr>) w = page_of mc w" if "w < USER_TOP" for w
          using extD(5) [OF x that] ad(3) [OF that] by simp
      qed
    qed
  qed
qed

lemma map_page_cases:
  assumes ok: "app_ok mc ms" and v: "v < USER_TOP" "aligned v"
  obtains (hit) f where "map_page ms v mc = Some (Inr f, ms, mc)" "(v, f) \<in> set ms"
  | (failed) e mc' where "map_page ms v mc = Some (Inl e, ms, mc')" "app_ok mc' ms" "pool mc' = pool mc"
      "\<And>w. w < USER_TOP \<Longrightarrow> page_of mc' w = page_of mc w"
  | (fresh) f mc' where "map_page ms v mc = Some (Inr f, ms @ [(v, f)], mc')" "app_ok mc' (ms @ [(v, f)])"
      "v \<notin> virts_of ms" "pool mc' = pool mc - {frame_index f}" "frame_index f \<in> pool mc" "length ms < MAX_MAPPED_PAGES"
      "\<And>w. w < USER_TOP \<Longrightarrow> page_of mc' w = (if addr_of w = v then Some f else page_of mc w)"
      "\<And>a. a div 4096 \<in> frames_of ms \<Longrightarrow> m_ram mc' a = m_ram mc a"
      "\<And>a. a div 4096 = frame_index f \<Longrightarrow> m_ram mc' a = 0"
proof -
  consider (h) f where "mapped_phys ms v = Some f" | (full) "mapped_phys ms v = None" "length ms \<ge> MAX_MAPPED_PAGES"
    | (go) "mapped_phys ms v = None" "length ms < MAX_MAPPED_PAGES" by fastforce
  then show ?thesis
  proof cases
    case h
    then show ?thesis using hit [of f] mapped_phys_Some [OF h] by (simp add: map_page_def)
  next
    case full
    then show ?thesis using failed [of BadSegment mc] ok by (simp add: map_page_def)
  next
    case go
    then have nv: "v \<notin> virts_of ms" using mapped_phys_None by blast
    show ?thesis
      using ok v nv
    proof (cases rule: fresh_page_cases)
      case no_frame
      then show ?thesis using failed [of OutOfMemory mc] ok go by (simp add: map_page_def)
    next
      case (unmapped f mc1 mc2 mc')
      then show ?thesis using failed [of MapFailed mc'] go by (simp add: map_page_def)
    next
      case (given f mc1 mc')
      have "map_page ms v mc = Some (Inr f, ms @ [(v, f)], mc')" using go given(1,2) by (simp add: map_page_def)
      then show ?thesis using fresh [OF _ given(3) nv given(4,5) go(2) given(6-8)] by simp
    qed
  qed
qed

section \<open>The phases of a load\<close>

definition in_window :: "u64 \<Rightarrow> bool" where
  "in_window w \<longleftrightarrow> APP_MIN \<le> w \<and> w < STACK_TOP"

lemma in_window_user: "in_window w \<Longrightarrow> w < USER_TOP"
  by (auto simp: in_window_def word_less_nat_alt USER_TOP_def STACK_TOP_def)

text \<open>A load that started in state \<open>mc0\<close> and has mapped the pages \<open>ms\<close> so far; and a state in which
  everything it did has been undone.\<close>

definition loading :: "machine \<Rightarrow> machine \<Rightarrow> mapping list \<Rightarrow> bool" where
  "loading mc0 mc ms \<longleftrightarrow> app_ok mc ms \<and> pool mc \<union> frames_of ms = pool mc0 \<and> pool mc \<inter> frames_of ms = {} \<and>
     (\<forall>v \<in> virts_of ms. in_window v) \<and> length ms \<le> MAX_MAPPED_PAGES \<and>
     (\<forall>w < USER_TOP. addr_of w \<notin> virts_of ms \<longrightarrow> page_of mc w = page_of mc0 w)"

definition restored :: "machine \<Rightarrow> machine \<Rightarrow> bool" where
  "restored mc0 mc \<longleftrightarrow> pt_inv mc \<and> pool mc = pool mc0 \<and> (\<forall>w < USER_TOP. page_of mc w = page_of mc0 w)"

definition window_clean :: "machine \<Rightarrow> bool" where
  "window_clean mc \<longleftrightarrow> (\<forall>w. in_window w \<longrightarrow> page_of mc w = None)"

text \<open>New pages come zeroed and old ones keep their contents.\<close>

definition grown :: "machine \<Rightarrow> mapping list \<Rightarrow> machine \<Rightarrow> mapping list \<Rightarrow> bool" where
  "grown mc ms mc' ms' \<longleftrightarrow> set ms \<subseteq> set ms' \<and>
     (\<forall>a. a div 4096 \<in> frames_of ms \<longrightarrow> m_ram mc' a = m_ram mc a) \<and>
     (\<forall>a. a div 4096 \<in> frames_of ms' \<longrightarrow> a div 4096 \<notin> frames_of ms \<longrightarrow> m_ram mc' a = 0)"

lemma grown_refl: "grown mc ms mc ms"
  by (simp add: grown_def)

lemma frames_of_mono: "set ms \<subseteq> set ms' \<Longrightarrow> frames_of ms \<subseteq> frames_of ms'"
  by (auto simp: frames_of_def)

lemma grown_trans:
  assumes "grown a x b y" "grown b y c z"
  shows "grown a x c z"
proof -
  have f: "frames_of x \<subseteq> frames_of y" using assms(1) frames_of_mono by (simp add: grown_def)
  have "m_ram c i = 0" if "i div 4096 \<in> frames_of z" "i div 4096 \<notin> frames_of x" for i
    using assms that by (cases "i div 4096 \<in> frames_of y") (auto simp: grown_def)
  moreover have "m_ram c i = m_ram a i" if "i div 4096 \<in> frames_of x" for i
    using assms that f by (auto simp: grown_def)
  ultimately show ?thesis using assms by (auto simp: grown_def)
qed

lemma loading_start: "pt_inv mc \<Longrightarrow> loading mc mc []"
  by (simp add: loading_def app_ok_def frames_of_def virts_of_def)

lemma loading_rollback:
  assumes l: "loading mc0 mc ms" and c: "window_clean mc0"
  obtains mc' where "rollback ms mc = Some mc'" "restored mc0 mc'"
proof -
  have ok: "app_ok mc ms" using l by (simp add: loading_def)
  obtain mc' where r: "rollback ms mc = Some mc'" "pt_inv mc'" "pool mc' = pool mc \<union> frames_of ms"
      "\<And>w. w < USER_TOP \<Longrightarrow> page_of mc' w = (if addr_of w \<in> virts_of ms then None else page_of mc w)"
    using rollback_ok [OF ok] by blast
  have "page_of mc' w = page_of mc0 w" if w: "w < USER_TOP" for w
  proof (cases "addr_of w \<in> virts_of ms")
    case True
    then have wd: "in_window (addr_of w)" using l by (simp add: loading_def)
    have "page_of mc0 (addr_of w) = None" using c wd by (simp add: window_clean_def)
    then have "page_of mc0 w = None" using page_of_same_page [OF in_window_user [OF wd] w, of mc0] by simp
    then show ?thesis using r(4) [OF w] True by simp
  next
    case False
    then show ?thesis using r(4) [OF w] l w by (simp add: loading_def)
  qed
  then show ?thesis using that r l by (simp add: restored_def loading_def)
qed

lemma fail_with_ok:
  assumes "loading mc0 mc ms" "window_clean mc0"
  obtains mc' where "fail_with e ms mc = Some (Inl e, mc')" "restored mc0 mc'"
  using loading_rollback [OF assms] by (metis fail_with_def option.simps(9))

lemma loading_map_page:
  assumes l: "loading mc0 mc ms" and v: "in_window v" "aligned v"
  obtains (failed) e mc' where "map_page ms v mc = Some (Inl e, ms, mc')" "loading mc0 mc' ms"
  | (mapped) f ms' mc' where "map_page ms v mc = Some (Inr f, ms', mc')" "loading mc0 mc' ms'" "v \<in> virts_of ms'"
      "grown mc ms mc' ms'"
proof -
  have ok: "app_ok mc ms" using l by (simp add: loading_def)
  show ?thesis
    using ok in_window_user [OF v(1)] v(2)
  proof (cases rule: map_page_cases)
    case (hit f)
    then show ?thesis using mapped [of f ms mc] l grown_refl by (force simp: virts_of_def)
  next
    case (failed e mc')
    then show ?thesis using that(1) [of e mc'] l by (simp add: loading_def)
  next
    case (fresh f mc')
    have fo: "frames_of (ms @ [(v, f)]) = insert (frame_index f) (frames_of ms)"
      "virts_of (ms @ [(v, f)]) = insert v (virts_of ms)" by (auto simp: frames_of_def virts_of_def)
    have "frame_index f \<notin> frames_of ms" using fresh(2) by (auto simp: app_ok_def frames_of_def)
    then have "loading mc0 mc' (ms @ [(v, f)])"
      using l fresh(2,4-7) v(1) by (auto simp: loading_def fo)
    moreover have "grown mc ms mc' (ms @ [(v, f)])" using fresh(8,9) by (auto simp: grown_def fo)
    ultimately show ?thesis using mapped fresh(1) fo(2) by blast
  qed
qed

text \<open>The outcome of a mapping phase that must cover the pages \<open>P\<close>: everything undone, or everything mapped.\<close>

definition phase_ok :: "machine \<Rightarrow> machine \<Rightarrow> mapping list \<Rightarrow> (u64 \<Rightarrow> bool) \<Rightarrow>
    ((load_error + mapping list) \<times> machine) option \<Rightarrow> bool" where
  "phase_ok mc0 mc ms P R \<longleftrightarrow>
     (case R of
        None \<Rightarrow> False
      | Some (Inl e, mc') \<Rightarrow> restored mc0 mc'
      | Some (Inr ms', mc') \<Rightarrow> loading mc0 mc' ms' \<and> grown mc ms mc' ms' \<and> (\<forall>p. P p \<longrightarrow> p \<in> virts_of ms'))"

lemma phase_ok_mono: "phase_ok mc0 mc ms P R \<Longrightarrow> (\<And>p. Q p \<Longrightarrow> P p) \<Longrightarrow> phase_ok mc0 mc ms Q R"
  by (auto simp: phase_ok_def split: option.splits sum.splits)

lemma virts_mono: "grown mc ms mc' ms' \<Longrightarrow> v \<in> virts_of ms \<Longrightarrow> v \<in> virts_of ms'"
  by (auto simp: grown_def virts_of_def)

lemma phase_ok_cons:
  assumes "loading mc0 mc ms" "window_clean mc0" "in_window v" "aligned v"
    and step: "\<And>ms1 mc1. loading mc0 mc1 ms1 \<Longrightarrow> phase_ok mc0 mc1 ms1 P (cont ms1 mc1)"
  shows "phase_ok mc0 mc ms (\<lambda>p. p = v \<or> P p)
    (case map_page ms v mc of None \<Rightarrow> None | Some (Inl e, ms, mc) \<Rightarrow> fail_with e ms mc
     | Some (Inr _, ms, mc) \<Rightarrow> cont ms mc)"
  using assms(1,3,4)
proof (cases rule: loading_map_page)
  case (failed e mc')
  obtain mc2 where "fail_with e ms mc' = Some (Inl e :: load_error + mapping list, mc2)" "restored mc0 mc2"
    by (rule fail_with_ok [OF failed(2) assms(2)])
  then show ?thesis using failed(1) by (simp add: phase_ok_def)
next
  case (mapped f ms' mc')
  have n: "phase_ok mc0 mc' ms' P (cont ms' mc')" by (rule step [OF mapped(2)])
  show ?thesis using n mapped(1,3) grown_trans [OF mapped(4)] virts_mono
    by (auto simp: phase_ok_def split: option.splits sum.splits prod.splits)
qed

lemma map_pages_ok:
  assumes "loading mc0 mc ms" "window_clean mc0" "aligned page" "APP_MIN \<le> page" "end_addr \<le> STACK_TOP"
  shows "phase_ok mc0 mc ms (\<lambda>p. aligned p \<and> page \<le> p \<and> p < end_addr) (map_pages page end_addr ms mc)"
  using assms
proof (induction "unat STACK_TOP - unat page" arbitrary: page ms mc rule: less_induct)
  case less
  show ?case
  proof (cases "page < end_addr")
    case False
    then show ?thesis using less.prems by (subst map_pages.simps) (auto simp: phase_ok_def grown_refl)
  next
    case True
    have lt: "page < STACK_TOP" using True less.prems(5) by simp
    then have w: "in_window page" using less.prems(4) by (simp add: in_window_def)
    have u: "unat page < 0x104000000" using lt by (simp add: word_less_nat_alt STACK_TOP_def)
    have nx: "checked_add page PAGE_SIZE = Some (page + 4096)" "unat (page + 4096) = unat page + 4096"
      using u by (simp_all add: checked_add_def PAGE_SIZE_def unat_word_ariths)
    have al: "aligned (page + 4096)" using less.prems(3) unfolding aligned_unat nx(2) by simp
    have step: "phase_ok mc0 mc1 ms1 (\<lambda>p. aligned p \<and> page + 4096 \<le> p \<and> p < end_addr) (map_pages (page + 4096) end_addr ms1 mc1)"
      if "loading mc0 mc1 ms1" for ms1 mc1
      using less.hyps [OF _ that less.prems(2) al _ less.prems(5)] less.prems(4) u nx(2)
      by (simp add: STACK_TOP_def word_le_nat_alt)
    have "phase_ok mc0 mc ms (\<lambda>p. p = page \<or> aligned p \<and> page + 4096 \<le> p \<and> p < end_addr) (map_pages page end_addr ms mc)"
      using phase_ok_cons [OF less.prems(1,2) w less.prems(3) step] True nx(1)
      by (subst map_pages.simps) (simp cong: option.case_cong sum.case_cong)
    moreover have "p = page \<or> page + 4096 \<le> p" if ap: "aligned p" and le: "page \<le> p" for p
    proof -
      obtain a b where "unat page = 4096 * a" "unat p = 4096 * b"
        using less.prems(3) ap by (auto simp: aligned_unat dvd_def)
      then show ?thesis using le nx(2) by (cases "a = b") (auto simp: word_le_nat_alt word_unat_eq_iff)
    qed
    ultimately show ?thesis unfolding phase_ok_def by (auto split: option.splits sum.splits prod.splits)
  qed
qed

lemma phase_ok_bind:
  assumes r: "phase_ok mc0 mc ms P R"
    and step: "\<And>ms1 mc1. loading mc0 mc1 ms1 \<Longrightarrow> phase_ok mc0 mc1 ms1 Q (cont ms1 mc1)"
  shows "phase_ok mc0 mc ms (\<lambda>p. P p \<or> Q p)
    (case R of None \<Rightarrow> None | Some (Inl e, mc) \<Rightarrow> Some (Inl e, mc) | Some (Inr ms, mc) \<Rightarrow> cont ms mc)"
proof -
  from r obtain x mc1 where R: "R = Some (x, mc1)" unfolding phase_ok_def by (cases R) auto
  show ?thesis
  proof (cases x)
    case (Inl e)
    then show ?thesis using r R by (simp add: phase_ok_def)
  next
    case (Inr ms1)
    then have l: "loading mc0 mc1 ms1" "grown mc ms mc1 ms1" "\<And>p. P p \<Longrightarrow> p \<in> virts_of ms1"
      using r R by (simp_all add: phase_ok_def)
    show ?thesis using step [OF l(1)] l(3) grown_trans [OF l(2)] virts_mono R Inr
      by (auto simp: phase_ok_def split: option.splits sum.splits prod.splits)
  qed
qed

lemma align_down_addr: "align_down v = addr_of v"
  by (simp add: align_down_def PAGE_SIZE_def)

definition segment_page :: "segment list \<Rightarrow> u64 \<Rightarrow> bool" where
  "segment_page ss p \<longleftrightarrow> aligned p \<and>
     (\<exists>s \<in> set ss. addr_of (s_vaddr s) \<le> p \<and> unat p < unat (s_vaddr s) + unat (s_memsz s))"

lemma good_segment_pages:
  assumes "good_segment img s"
  obtains e end_addr where "checked_add (s_vaddr s) (s_memsz s) = Some e" "align_up_page e = Some end_addr"
    "APP_MIN \<le> addr_of (s_vaddr s)" "end_addr \<le> STACK_TOP"
    "\<And>p. unat p < unat (s_vaddr s) + unat (s_memsz s) \<Longrightarrow> p < end_addr"
proof -
  have b: "0x100000000 \<le> unat (s_vaddr s)" "unat (s_vaddr s) + unat (s_memsz s) \<le> 0x102000000"
    using assms by (simp_all add: good_segment_def APP_MIN_def APP_MAX_def)
  define e where "e = s_vaddr s + s_memsz s"
  have e: "checked_add (s_vaddr s) (s_memsz s) = Some e" "unat e = unat (s_vaddr s) + unat (s_memsz s)"
    using b(2) by (simp_all add: e_def checked_add_def unat_word_ariths)
  have up: "checked_add e (PAGE_SIZE - 1) = Some (e + 4095)" "unat (e + 4095) = unat e + 4095"
    using b(2) e(2) by (simp_all add: checked_add_def PAGE_SIZE_def unat_word_ariths)
  have a: "align_up_page e = Some (addr_of (e + 4095))"
    using up(1) by (simp add: align_up_page_def PAGE_SIZE_def)
  have ua: "unat (addr_of (e + 4095)) = (unat e + 4095) div 4096 * 4096" by (simp add: unat_addr_of up(2))
  show ?thesis
  proof (rule that [OF e(1) a])
    show "APP_MIN \<le> addr_of (s_vaddr s)" using b(1) by (simp add: word_le_nat_alt unat_addr_of APP_MIN_def)
    show "addr_of (e + 4095) \<le> STACK_TOP"
      unfolding word_le_nat_alt ua STACK_TOP_def using b(2) e(2) by simp
    show "p < addr_of (e + 4095)" if "unat p < unat (s_vaddr s) + unat (s_memsz s)" for p
      unfolding word_less_nat_alt ua using that e(2) by linarith
  qed
qed

lemma map_segments_ok:
  assumes "loading mc0 mc ms" "window_clean mc0" "\<forall>s \<in> set ss. good_segment img s"
  shows "phase_ok mc0 mc ms (segment_page ss) (map_segments ss ms mc)"
  using assms(1,3)
proof (induction ss arbitrary: ms mc)
  case Nil
  then show ?case by (simp add: phase_ok_def grown_refl segment_page_def)
next
  case (Cons s ss)
  obtain e end_addr where g: "checked_add (s_vaddr s) (s_memsz s) = Some e" "align_up_page e = Some end_addr"
      "APP_MIN \<le> addr_of (s_vaddr s)" "end_addr \<le> STACK_TOP"
      "\<And>p. unat p < unat (s_vaddr s) + unat (s_memsz s) \<Longrightarrow> p < end_addr"
    using good_segment_pages [of img s] Cons.prems(2) by auto
  note mp = map_pages_ok [OF Cons.prems(1) assms(2) _ g(3,4)]
  have "phase_ok mc0 mc ms (\<lambda>p. (aligned p \<and> addr_of (s_vaddr s) \<le> p \<and> p < end_addr) \<or> segment_page ss p)
      (map_segments (s # ss) ms mc)"
    using phase_ok_bind [OF mp, where cont = "map_segments ss"] Cons.IH Cons.prems(2) g(1,2) by (simp add: align_down_addr)
  then show ?case by (rule phase_ok_mono) (use g(5) in \<open>auto simp: segment_page_def\<close>)
qed

lemma stack_slot:
  assumes "i < STACK_PAGES"
  shows "in_window (STACK_TOP - of_nat STACK_PAGES * PAGE_SIZE + of_nat i * PAGE_SIZE)"
    "aligned (STACK_TOP - of_nat STACK_PAGES * PAGE_SIZE + of_nat i * PAGE_SIZE)"
proof -
  have "i = 0 \<or> i = 1 \<or> i = 2 \<or> i = 3" using assms by (auto simp: STACK_PAGES_def)
  then show "in_window (STACK_TOP - of_nat STACK_PAGES * PAGE_SIZE + of_nat i * PAGE_SIZE)"
    "aligned (STACK_TOP - of_nat STACK_PAGES * PAGE_SIZE + of_nat i * PAGE_SIZE)"
    by (auto simp: in_window_def APP_MIN_def STACK_TOP_def STACK_PAGES_def PAGE_SIZE_def aligned_def)
qed

lemma map_stack_ok:
  assumes "loading mc0 mc ms" "window_clean mc0" "\<forall>i \<in> set is. i < STACK_PAGES"
  shows "phase_ok mc0 mc ms (\<lambda>p. \<exists>i \<in> set is. p = STACK_TOP - of_nat STACK_PAGES * PAGE_SIZE + of_nat i * PAGE_SIZE)
    (map_stack is ms mc)"
  using assms(1,3)
proof (induction "is" arbitrary: ms mc)
  case Nil
  then show ?case by (simp add: phase_ok_def grown_refl)
next
  case (Cons i "is")
  let ?v = "STACK_TOP - of_nat STACK_PAGES * PAGE_SIZE + of_nat i * PAGE_SIZE"
  have v: "in_window ?v" "aligned ?v" using stack_slot [of i] Cons.prems(2) by simp_all
  have "phase_ok mc0 mc ms (\<lambda>p. p = ?v \<or> (\<exists>i \<in> set is. p = STACK_TOP - of_nat STACK_PAGES * PAGE_SIZE + of_nat i * PAGE_SIZE))
      (map_stack (i # is) ms mc)"
    using phase_ok_cons [OF Cons.prems(1) assms(2) v, where cont = "map_stack is"] Cons.IH Cons.prems(2) by simp
  then show ?case by simp
qed

end
