(* ===== verification/Elf_Correct.thy ===== *)
theory Elf_Correct
  imports Elf_Loader
begin

text \<open>
  Correctness of loading an application (\<^verbatim>\<open>load_and_spawn\<close> of \<^verbatim>\<open>elf.rs\<close>): what the copy loop leaves in the
  mapped frames, and the outcome of a whole load, which either undoes all of its effects on the frame
  pool and on the translations or leaves exactly the image in the application window.
\<close>

section \<open>Copying file bytes\<close>

text \<open>The frames of a list of mappings, as the copy loop needs them.\<close>

definition frames_apart :: "mapping list \<Rightarrow> bool" where
  "frames_apart ms \<longleftrightarrow> distinct (map fst ms) \<and> distinct (map (\<lambda>m. frame_index (snd m)) ms) \<and>
     (\<forall>m \<in> set ms. aligned (fst m) \<and> aligned (snd m))"

lemma app_ok_apart: "app_ok mc ms \<Longrightarrow> frames_apart ms"
  by (auto simp: app_ok_def frames_apart_def owned_def)

lemma key_unique: "distinct (map h xs) \<Longrightarrow> x \<in> set xs \<Longrightarrow> y \<in> set xs \<Longrightarrow> h x = h y \<Longrightarrow> x = y"
  by (auto simp: distinct_map dest: inj_onD)

lemma frame_offset_div: "aligned f \<Longrightarrow> x < 4096 \<Longrightarrow> (unat f + x) div 4096 = frame_index f"
  using frame_bounds [of f "unat f + x"] by simp

lemma write_list_outside: "\<not> (a \<le> x \<and> x < a + length bs) \<Longrightarrow> write_list m a bs x = m x"
  by (simp only: write_list_def if_False)

lemma chunk_write:
  assumes ap: "frames_apart ms" and p: "(p, f) \<in> set ms" and v: "(v, g) \<in> set ms"
    and b: "off + length bs \<le> 4096" "x < 4096"
  shows "write_list m (unat f + off) bs (unat g + x) =
    (if v = p \<and> off \<le> x \<and> x < off + length bs then bs ! (x - off) else m (unat g + x))"
proof (cases "v = p")
  case True
  then have "g = f" using ap p v by (metis frames_apart_def eq_key_imp_eq_value)
  then show ?thesis using True by (auto simp: write_list_def)
next
  case False
  have "frame_index g \<noteq> frame_index f"
    using key_unique [of "\<lambda>m. frame_index (snd m)" ms, OF _ v p] ap False by (auto simp: frames_apart_def)
  moreover have "aligned f" "aligned g" using ap p v by (auto simp: frames_apart_def)
  ultimately have "\<not> (unat f + off \<le> unat g + x \<and> unat g + x < unat f + off + length bs)"
    using frame_bounds [of f "unat g + x"] frame_offset_div [of g x] b by auto
  then show ?thesis using False by (simp add: write_list_outside)
qed

text \<open>The byte of the image at an address of a segment's file part.\<close>

definition file_part :: "segment \<Rightarrow> nat \<Rightarrow> bool" where
  "file_part s a \<longleftrightarrow> unat (s_vaddr s) \<le> a \<and> a < unat (s_vaddr s) + unat (s_filesz s)"

definition file_byte :: "u8 list \<Rightarrow> segment \<Rightarrow> nat \<Rightarrow> u8" where
  "file_byte img s a = img ! (unat (s_offset s) + (a - unat (s_vaddr s)))"

definition copied_from :: "u8 list \<Rightarrow> segment \<Rightarrow> nat \<Rightarrow> mapping list \<Rightarrow> ram \<Rightarrow> ram \<Rightarrow> bool" where
  "copied_from img s from ms m m' \<longleftrightarrow>
     (\<forall>a. a div 4096 \<notin> frames_of ms \<longrightarrow> m' a = m a) \<and>
     (\<forall>v f x. (v, f) \<in> set ms \<longrightarrow> x < 4096 \<longrightarrow> m' (unat f + x) =
        (if file_part s (unat v + x) \<and> unat (s_vaddr s) + from \<le> unat v + x
         then file_byte img s (unat v + x) else m (unat f + x)))"

lemma copied_fromD:
  assumes "copied_from img s from ms m m'"
  shows "a div 4096 \<notin> frames_of ms \<Longrightarrow> m' a = m a"
    "(v, f) \<in> set ms \<Longrightarrow> x < 4096 \<Longrightarrow> m' (unat f + x) =
        (if file_part s (unat v + x) \<and> unat (s_vaddr s) + from \<le> unat v + x
         then file_byte img s (unat v + x) else m (unat f + x))"
  using assms by (simp_all add: copied_from_def)

text \<open>One round of the loop: it copies up to the end of the page or of the file part.\<close>

lemma copy_round:
  assumes g: "good_segment img s" "length img < 2 ^ 64" and c: "copied < s_filesz s"
    and mp: "\<And>a. file_part s (unat a) \<Longrightarrow> addr_of a \<in> virts_of ms"
  obtains p f n off where
    "copy_loop img s copied ms m =
       copy_loop img s (copied + of_nat n) ms
         (write_list m (unat f + off) (take n (drop (unat (s_offset s) + unat copied) img)))"
    "(p, f) \<in> set ms" "unat p + off = unat (s_vaddr s) + unat copied" "0 < n" "off + n \<le> 4096"
    "unat copied + n \<le> unat (s_filesz s)" "off + n = 4096 \<or> unat copied + n = unat (s_filesz s)"
    "unat (copied + of_nat n) = unat copied + n"
proof -
  let ?v = "s_vaddr s + copied" and ?p = "addr_of (s_vaddr s + copied)"
  have lt: "unat copied < unat (s_filesz s)" using c by (simp add: word_less_nat_alt)
  have b: "unat (s_vaddr s) + unat (s_memsz s) \<le> 0x102000000" "unat (s_filesz s) \<le> unat (s_memsz s)"
      "unat (s_offset s) + unat (s_filesz s) < 2 ^ 64"
    using g by (simp_all add: good_segment_def APP_MAX_def)
  have vu: "unat ?v = unat (s_vaddr s) + unat copied" using lt b by (simp add: unat_word_ariths)
  have so: "unat (s_offset s + copied) = unat (s_offset s) + unat copied" using lt b(3) by (simp add: unat_word_ariths)
  have rf: "unat (s_filesz s - copied) = unat (s_filesz s) - unat copied" by (rule unat_sub) (use c in simp)
  obtain f where f: "mapped_phys ms ?p = Some f"
    using mp [of ?v] mapped_phys_None [of ms ?p] lt vu by (auto simp: file_part_def)
  define off n where "off = unat ?v mod 4096" and "n = min (4096 - off) (unat (s_filesz s) - unat copied)"
  have off: "unat (?v - align_down ?v) = off" by (simp add: off_def page_offset_less)
  have lp: "copy_loop img s copied ms m = copy_loop img s (copied + of_nat n) ms
      (write_list m (unat f + off) (take n (drop (unat (s_offset s) + unat copied) img)))"
    by (subst copy_loop.simps)
      (simp add: c Let_def off so rf f [folded align_down_addr] phys_to_virt_def PAGE_SIZE_def n_def)
  have n: "0 < n" "off + n \<le> 4096" "unat copied + n \<le> unat (s_filesz s)"
      "off + n = 4096 \<or> unat copied + n = unat (s_filesz s)"
    using lt by (auto simp: n_def off_def min_def)
  have "unat (copied + of_nat n) = unat copied + n" using n(3) b(1,2) by (simp add: unat_word_ariths unat_of_nat)
  then show ?thesis
    using that [OF lp mapped_phys_Some [OF f]] n vu by (simp add: off_def unat_addr_of)
qed

lemma copied_from_step:
  assumes ap: "frames_apart ms" and c: "copied_from img s (k + n) ms (write_list m (unat f + off) bs) m'"
    and p: "(p, f) \<in> set ms" "unat p + off = unat (s_vaddr s) + k" and n: "off + n \<le> 4096" "k + n \<le> unat (s_filesz s)"
      "off + n = 4096 \<or> k + n = unat (s_filesz s)"
    and bs: "length bs = n" "\<And>i. i < n \<Longrightarrow> bs ! i = img ! (unat (s_offset s) + k + i)"
  shows "copied_from img s k ms m m'"
proof -
  have al: "aligned f" "aligned p" using ap p(1) by (auto simp: frames_apart_def)
  have fi: "frame_index f \<in> frames_of ms" using p(1) by (force simp: frames_of_def)
  have "m' a = m a" if a: "a div 4096 \<notin> frames_of ms" for a
  proof -
    have "a div 4096 \<noteq> frame_index f" using a fi by auto
    then have "\<not> (unat f + off \<le> a \<and> a < unat f + off + length bs)" using frame_bounds [OF al(1), of a] n(1) bs(1) by auto
    then show ?thesis using copied_fromD(1) [OF c a] by (simp add: write_list_outside)
  qed
  moreover have "m' (unat g + x) = (if file_part s (unat v + x) \<and> unat (s_vaddr s) + k \<le> unat v + x
      then file_byte img s (unat v + x) else m (unat g + x))" if v: "(v, g) \<in> set ms" "x < 4096" for v g x
  proof (cases "v = p \<and> off \<le> x \<and> x < off + n")
    case True
    then obtain i where i: "v = p" "x = off + i" "i < n" by (auto simp: le_iff_add)
    then have "write_list m (unat f + off) bs (unat g + x) = img ! (unat (s_offset s) + k + i)"
      using chunk_write [OF ap p(1) v(1) _ v(2), of off bs] n(1) bs by simp
    moreover have "unat v + x = unat (s_vaddr s) + (k + i)" using i p(2) by simp
    ultimately show ?thesis using copied_fromD(2) [OF c v] i(3) n(2) by (simp add: file_part_def file_byte_def add.assoc)
  next
    case False
    have w: "write_list m (unat f + off) bs (unat g + x) = m (unat g + x)"
      using chunk_write [OF ap p(1) v(1) _ v(2), of off bs] n(1) bs(1) False by auto
    have av: "4096 dvd unat v" "4096 dvd unat p" using ap v(1) p(1) by (auto simp: frames_apart_def aligned_unat)
    have "unat (s_vaddr s) + (k + n) \<le> unat v + x" if ge: "unat (s_vaddr s) + k \<le> unat v + x" "file_part s (unat v + x)"
    proof (cases "v = p")
      case True
      then show ?thesis using False ge p(2) by auto
    next
      case ne: False
      obtain i j where ij: "unat v = 4096 * i" "unat p = 4096 * j" using av by (auto simp: dvd_def)
      have "i \<noteq> j" using ne ij by (auto simp: word_unat_eq_iff)
      then have "j < i" using ge(1) ij p(2) v(2) by auto
      then show ?thesis using ij p(2) n(1) by auto
    qed
    then show ?thesis using copied_fromD(2) [OF c v] w by auto
  qed
  ultimately show ?thesis by (simp add: copied_from_def)
qed

lemma copy_loop_ok:
  assumes ap: "frames_apart ms" and g: "good_segment img s" "length img < 2 ^ 64"
    and mp: "\<And>a. file_part s (unat a) \<Longrightarrow> addr_of a \<in> virts_of ms"
  shows "copied \<le> s_filesz s \<Longrightarrow> \<exists>m'. copy_loop img s copied ms m = Inr m' \<and> copied_from img s (unat copied) ms m m'"
proof (induction "unat (s_filesz s) - unat copied" arbitrary: copied m rule: less_induct)
  case less
  show ?case
  proof (cases "copied < s_filesz s")
    case False
    then have "copied = s_filesz s" using less.prems by simp
    then show ?thesis by (subst copy_loop.simps) (auto simp: copied_from_def file_part_def)
  next
    case True
    obtain p f n off where r: "copy_loop img s copied ms m =
          copy_loop img s (copied + of_nat n) ms
            (write_list m (unat f + off) (take n (drop (unat (s_offset s) + unat copied) img)))"
        "(p, f) \<in> set ms" "unat p + off = unat (s_vaddr s) + unat copied" "0 < n" "off + n \<le> 4096"
        "unat copied + n \<le> unat (s_filesz s)" "off + n = 4096 \<or> unat copied + n = unat (s_filesz s)"
        "unat (copied + of_nat n) = unat copied + n"
      by (rule copy_round [OF g True mp, of m])
    define bs where "bs = take n (drop (unat (s_offset s) + unat copied) img)"
    have ib: "unat (s_offset s) + unat copied + n \<le> length img" using r(6) g(1) by (simp add: good_segment_def)
    then have bs: "length bs = n" "\<And>i. i < n \<Longrightarrow> bs ! i = img ! (unat (s_offset s) + unat copied + i)"
      by (simp_all add: bs_def)
    have dec: "unat (s_filesz s) - unat (copied + of_nat n) < unat (s_filesz s) - unat copied" "copied + of_nat n \<le> s_filesz s"
      using r(4,6,8) by (simp_all add: word_le_nat_alt)
    obtain m' where m': "copy_loop img s (copied + of_nat n) ms (write_list m (unat f + off) bs) = Inr m'"
        "copied_from img s (unat copied + n) ms (write_list m (unat f + off) bs) m'"
      using less.hyps [OF dec, of "write_list m (unat f + off) bs"] unfolding r(8) by blast
    have "copied_from img s (unat copied) ms m m'"
      by (rule copied_from_step [OF ap m'(2) r(2,3) _ _ _ bs]) (use r(5-7) in simp_all)
    then show ?thesis using r(1) m'(1) by (simp add: bs_def)
  qed
qed

text \<open>All segments in order: where file parts overlap the later segment wins.\<close>

definition overlay :: "u8 list \<Rightarrow> segment list \<Rightarrow> nat \<Rightarrow> u8 \<Rightarrow> u8" where
  "overlay img ss a b = fold (\<lambda>s b. if file_part s a then file_byte img s a else b) ss b"

lemma overlay_simps [simp]:
  "overlay img [] a b = b"
  "overlay img (s # ss) a b = overlay img ss a (if file_part s a then file_byte img s a else b)"
  by (simp_all add: overlay_def)

lemma overlay_none: "(\<And>s. s \<in> set ss \<Longrightarrow> \<not> file_part s a) \<Longrightarrow> overlay img ss a b = b"
  by (induction ss) auto

lemma copy_segments_ok:
  assumes ap: "frames_apart ms" and l: "length img < 2 ^ 64"
  shows "\<forall>s \<in> set ss. good_segment img s \<and> (\<forall>a. file_part s (unat a) \<longrightarrow> addr_of a \<in> virts_of ms) \<Longrightarrow>
    \<exists>m'. copy_segments img ss ms m = Inr m' \<and> (\<forall>a. a div 4096 \<notin> frames_of ms \<longrightarrow> m' a = m a) \<and>
      (\<forall>v f x. (v, f) \<in> set ms \<longrightarrow> x < 4096 \<longrightarrow> m' (unat f + x) = overlay img ss (unat v + x) (m (unat f + x)))"
proof (induction ss arbitrary: m)
  case Nil
  then show ?case by simp
next
  case (Cons s ss)
  obtain m1 where m1: "copy_loop img s 0 ms m = Inr m1" "copied_from img s 0 ms m m1"
    using copy_loop_ok [OF ap _ l, of s 0 m] Cons.prems by auto
  obtain m' where m': "copy_segments img ss ms m1 = Inr m'" "\<And>a. a div 4096 \<notin> frames_of ms \<Longrightarrow> m' a = m1 a"
      "\<And>v f x. (v, f) \<in> set ms \<Longrightarrow> x < 4096 \<Longrightarrow> m' (unat f + x) = overlay img ss (unat v + x) (m1 (unat f + x))"
    using Cons.IH [of m1] Cons.prems by auto
  have "m' (unat f + x) = overlay img (s # ss) (unat v + x) (m (unat f + x))" if "(v, f) \<in> set ms" "x < 4096" for v f x
    using m'(3) [OF that] copied_fromD(2) [OF m1(2) that] by (auto simp: file_part_def)
  then show ?case using m1(1) m'(1,2) copied_fromD(1) [OF m1(2)] by simp
qed

section \<open>The outcome of a load\<close>

lemma pool_data: "data_byte mc a \<Longrightarrow> a div 4096 \<notin> pool mc"
  by (auto simp: data_byte_def pool_def)

text \<open>Writing into the frames of the application changes nothing but their contents.\<close>

lemma app_ram:
  assumes ok: "app_ok mc ms" and m: "\<And>a. a div 4096 \<notin> frames_of ms \<Longrightarrow> m' a = m_ram mc a"
  shows "app_ok (mc\<lparr>m_ram := m'\<rparr>) ms" "pool (mc\<lparr>m_ram := m'\<rparr>) = pool mc"
    "w < USER_TOP \<Longrightarrow> page_of (mc\<lparr>m_ram := m'\<rparr>) w = page_of mc w"
proof -
  let ?mc = "mc\<lparr>m_ram := m'\<rparr>"
  have inv: "pt_inv mc" using ok by (simp add: app_ok_def)
  have nf: "frame_index x \<notin> frames_of ms" if x: "upath q" "tab mc q = Some x" for q x
  proof
    assume "frame_index x \<in> frames_of ms"
    then obtain v f where vf: "(v, f) \<in> set ms" "frame_index x = frame_index f" by (auto simp: frames_of_def)
    then have "data_byte mc (4096 * frame_index f)" using app_okD(9) [OF ok vf(1)] by simp
    then show False using x vf(2) by (auto simp: data_byte_def)
  qed
  have "pte ?mc x j = pte mc x j" if x: "upath q" "tab mc q = Some x" "j < 512" for q x j
  proof -
    have "m' (unat x + 8 * j + i) = m_ram mc (unat x + 8 * j + i)" if "i < 8" for i
      using m nf [OF x(1,2)] frame_offset_div [OF tab_aligned [OF x(2)], of "8 * j + i"] x(3) that by (simp add: add.assoc)
    then show ?thesis by (simp add: pte_def read64_def cong: read_bytes_cong)
  qed
  then have pt: "\<forall>q x j. upath q \<longrightarrow> tab mc q = Some x \<longrightarrow> j < 512 \<longrightarrow> pte ?mc x j = pte mc x j" by blast
  have cr: "m_cr3 ?mc = m_cr3 mc" by simp
  note st = same_tables [OF cr pt]
  have tb: "tab ?mc q = tab mc q" if "upath q" for q using st(1) that by simp
  have d: "data_byte ?mc a = data_byte mc a" for a using tb by (auto simp: data_byte_def)
  show "pool ?mc = pool mc" by (rule pool_cong [OF tb]) simp_all
  have "pt_ok (free_set (m_frames mc)) ?mc"
    using st(4) [of "free_set (m_frames mc)" "free_set (m_frames mc)"] inv by (simp add: pt_inv_def)
  then have "pt_inv ?mc" using inv by (simp add: pt_inv_def)
  moreover have "owned ?mc x" if "x \<in> set ms" for x
    using ok that st(3) by (auto simp: app_ok_def owned_def d split: prod.splits)
  ultimately show "app_ok ?mc ms" using ok by (simp add: app_ok_def)
  show "page_of ?mc w = page_of mc w" if "w < USER_TOP" using st(2) that by simp
qed

lemma loading_ram:
  assumes l: "loading mc0 mc ms" and m: "\<And>a. a div 4096 \<notin> frames_of ms \<Longrightarrow> m' a = m_ram mc a"
  shows "loading mc0 (mc\<lparr>m_ram := m'\<rparr>) ms"
proof -
  have ok: "app_ok mc ms" using l by (simp add: loading_def)
  note r = app_ram [of mc ms m', OF ok m]
  show ?thesis using l r(1) by (simp add: loading_def r(2,3))
qed

text \<open>The invariant of the loader's part of the kernel: the page tables and the scheduler are well-formed, and
  every page in the application window belongs to the active application.\<close>

definition active :: "kernel \<Rightarrow> mapping list" where
  "active k = (case ACTIVE_MAPPINGS k of None \<Rightarrow> [] | Some ms \<Rightarrow> ms)"

definition kernel_ok :: "kernel \<Rightarrow> bool" where
  "kernel_ok k \<longleftrightarrow> sched_inv (k_sched k) \<and> app_ok (k_machine k) (active k) \<and>
     (\<forall>v \<in> virts_of (active k). in_window v) \<and>
     (\<forall>w. in_window w \<longrightarrow> addr_of w \<notin> virts_of (active k) \<longrightarrow> page_of (k_machine k) w = None)"

text \<open>All frames the loader accounts for: free, serving as page tables, or holding the application.\<close>

definition accounted :: "kernel \<Rightarrow> nat set" where
  "accounted k = pool (k_machine k) \<union> frames_of (active k)"

definition same_outside :: "kernel \<Rightarrow> kernel \<Rightarrow> bool" where
  "same_outside k k' \<longleftrightarrow>
     (\<forall>w < USER_TOP. \<not> in_window w \<longrightarrow> page_of (k_machine k') w = page_of (k_machine k) w)"

lemma in_window_page: "in_window (addr_of w) \<longleftrightarrow> in_window w"
proof -
  have "unat w div 4096 * 4096 \<le> unat w" "unat w < unat w div 4096 * 4096 + 4096"
    using div_times_less_eq_dividend dividend_less_div_times by (blast, metis add.commute zero_less_numeral)
  then show ?thesis
    by (auto simp: in_window_def word_le_nat_alt word_less_nat_alt unat_addr_of APP_MIN_def STACK_TOP_def)
qed

lemma release_ok:
  assumes "kernel_ok k"
  obtains mc where "rollback (active k) (k_machine k) = Some mc" "pt_inv mc" "window_clean mc"
    "pool mc = accounted k" "same_outside k (k\<lparr>k_machine := mc\<rparr>)"
proof -
  have ok: "app_ok (k_machine k) (active k)" using assms by (simp add: kernel_ok_def)
  obtain mc where r: "rollback (active k) (k_machine k) = Some mc" "pt_inv mc"
      "pool mc = pool (k_machine k) \<union> frames_of (active k)"
      "\<And>w. w < USER_TOP \<Longrightarrow> page_of mc w = (if addr_of w \<in> virts_of (active k) then None else page_of (k_machine k) w)"
    using rollback_ok [OF ok] by blast
  have "window_clean mc"
    unfolding window_clean_def using r(4) in_window_user assms by (simp add: kernel_ok_def)
  moreover have "same_outside k (k\<lparr>k_machine := mc\<rparr>)"
    using r(4) assms in_window_page by (auto simp: same_outside_def kernel_ok_def)
  ultimately show ?thesis using that r by (simp add: accounted_def)
qed

text \<open>What \<open>release_finished_app\<close> leaves to the rest of the load.\<close>

lemma release_finished_app_cases:
  assumes k: "kernel_ok k"
  obtains (busy) "release_finished_app k = Some (Inl SchedulerBusy, k)"
  | (released) mc where "release_finished_app k = Some (Inr (), k\<lparr>k_machine := mc, ACTIVE_MAPPINGS := None\<rparr>)"
      "pt_inv mc" "window_clean mc" "pool mc = accounted k" "same_outside k (k\<lparr>k_machine := mc\<rparr>)"
proof (cases "ACTIVE_MAPPINGS k")
  case None
  then have "active k = []" by (simp add: active_def)
  then have "rollback (active k) (k_machine k) = Some (k_machine k)" by (simp add: rollback_def)
  moreover have "k\<lparr>ACTIVE_MAPPINGS := None\<rparr> = k" using None by simp
  ultimately show ?thesis using None released [of "k_machine k"] release_ok [OF k] by (auto simp: release_finished_app_def)
next
  case (Some ms)
  then have a: "active k = ms" by (simp add: active_def)
  show ?thesis
  proof (cases "task_dead (k_sched k) 3")
    case True
    then show ?thesis using release_ok [OF k] Some a released by (auto simp: release_finished_app_def)
  next
    case False
    then show ?thesis using busy Some by (simp add: release_finished_app_def)
  qed
qed

text \<open>The mapping and copying phases, from a state whose application window is empty.\<close>

definition stack_page :: "u64 \<Rightarrow> bool" where
  "stack_page p \<longleftrightarrow> aligned p \<and> STACK_TOP - of_nat STACK_PAGES * PAGE_SIZE \<le> p \<and> p < STACK_TOP"

lemma stack_page_index:
  assumes "stack_page p"
  shows "\<exists>i \<in> set [0..<STACK_PAGES]. p = STACK_TOP - of_nat STACK_PAGES * PAGE_SIZE + of_nat i * PAGE_SIZE"
proof -
  obtain q where q: "unat p = 4096 * q" using assms by (auto simp: stack_page_def aligned_unat dvd_def)
  have "0x103FFC000 \<le> unat p" "unat p < 0x104000000"
    using assms by (simp_all add: stack_page_def word_le_nat_alt word_less_nat_alt STACK_TOP_def STACK_PAGES_def PAGE_SIZE_def)
  then have "q = 0x103FFC \<or> q = 0x103FFD \<or> q = 0x103FFE \<or> q = 0x103FFF" using q by linarith
  then have "p = 0x103FFC000 \<or> p = 0x103FFD000 \<or> p = 0x103FFE000 \<or> p = 0x103FFF000"
    using q by (auto simp: word_unat_eq_iff)
  then show ?thesis by (auto simp: STACK_TOP_def STACK_PAGES_def PAGE_SIZE_def numeral_eq_Suc)
qed

lemma file_part_page:
  assumes "good_segment img s" "s \<in> set ss" "file_part s (unat a)"
  shows "segment_page ss (addr_of a)"
proof -
  have "unat (addr_of (s_vaddr s)) \<le> unat (addr_of a)"
    using assms(3) by (simp add: unat_addr_of file_part_def div_le_mono)
  moreover have "unat (addr_of a) \<le> unat a" by (simp add: unat_addr_of)
  ultimately show ?thesis using assms
    by (auto simp: segment_page_def file_part_def good_segment_def word_le_nat_alt intro!: bexI [of _ s])
qed

lemma load_bytes:
  assumes ld: "loading mc0 mc' ms'" and gr: "grown (mc\<lparr>m_ram := m\<rparr>) ms mc' ms'" and g0: "grown mc0 [] mc ms"
    and m: "\<And>v f x. (v, f) \<in> set ms \<Longrightarrow> x < 4096 \<Longrightarrow> m (unat f + x) = overlay img ss (unat v + x) (m_ram mc (unat f + x))"
    and pre: "\<forall>s \<in> set ss. good_segment img s \<and> (\<forall>a. file_part s (unat a) \<longrightarrow> addr_of a \<in> virts_of ms)"
    and vf: "(v, f) \<in> set ms'" "x < 4096"
  shows "m_ram mc' (unat f + x) = overlay img ss (unat v + x) 0"
proof -
  have ok: "app_ok mc' ms'" using ld by (simp add: loading_def)
  note a = app_okD [OF ok vf(1)]
  have d: "(unat f + x) div 4096 = frame_index f" by (rule frame_offset_div [OF a(4) vf(2)])
  show ?thesis
  proof (cases "(v, f) \<in> set ms")
    case True
    then have fi: "frame_index f \<in> frames_of ms" by (force simp: frames_of_def)
    then have "m_ram mc (unat f + x) = 0" using g0 d by (simp add: grown_def frames_of_def)
    moreover have "m_ram mc' (unat f + x) = m (unat f + x)" using gr fi d by (simp add: grown_def)
    ultimately show ?thesis using m [OF True vf(2)] by simp
  next
    case False
    have sub: "set ms \<subseteq> set ms'" using gr by (simp add: grown_def)
    have dm: "distinct (map (\<lambda>m. frame_index (snd m)) ms')" "distinct (map fst ms')" using ok by (simp_all add: app_ok_def)
    have nf: "frame_index f \<notin> frames_of ms"
      using False sub key_unique [OF dm(1) vf(1)] by (auto simp: frames_of_def)
    then have z: "m_ram mc' (unat f + x) = 0" using gr d vf(1) by (force simp: grown_def frames_of_def)
    have nv: "v \<notin> virts_of ms" using False sub key_unique [OF dm(2) vf(1)] by (auto simp: virts_of_def)
    have "\<not> file_part s (unat v + x)" if s: "s \<in> set ss" for s
    proof
      assume fp: "file_part s (unat v + x)"
      obtain q where q: "unat v = 4096 * q" using a(2) by (auto simp: aligned_unat dvd_def)
      have "unat v + x < 0x102000000" using fp pre s by (auto simp: file_part_def good_segment_def APP_MAX_def)
      then have u: "unat (v + of_nat x) = unat v + x" using vf(2) by (simp add: unat_word_ariths unat_of_nat)
      have "addr_of (v + of_nat x) = v" using q vf(2) by (simp add: word_unat_eq_iff unat_addr_of u)
      then show False using pre s fp nv u by metis
    qed
    then show ?thesis using z overlay_none [of ss "unat v + x"] by simp
  qed
qed

lemma copied_segments:
  assumes ld: "loading mc0 mc ms" and g: "\<forall>s \<in> set ss. good_segment img s" and l: "length img < 2 ^ 64"
    and pages: "\<And>p. segment_page ss p \<Longrightarrow> p \<in> virts_of ms"
  obtains m where "copy_segments img ss ms (m_ram mc) = Inr m" "loading mc0 (mc\<lparr>m_ram := m\<rparr>) ms"
    "\<And>v f x. (v, f) \<in> set ms \<Longrightarrow> x < 4096 \<Longrightarrow> m (unat f + x) = overlay img ss (unat v + x) (m_ram mc (unat f + x))"
    "\<forall>s \<in> set ss. good_segment img s \<and> (\<forall>a. file_part s (unat a) \<longrightarrow> addr_of a \<in> virts_of ms)"
proof -
  have ap: "frames_apart ms" using ld app_ok_apart by (auto simp: loading_def)
  have pre: "\<forall>s \<in> set ss. good_segment img s \<and> (\<forall>a. file_part s (unat a) \<longrightarrow> addr_of a \<in> virts_of ms)"
    using g file_part_page pages by blast
  obtain m where m: "copy_segments img ss ms (m_ram mc) = Inr m" "\<And>a. a div 4096 \<notin> frames_of ms \<Longrightarrow> m a = m_ram mc a"
      "\<And>v f x. (v, f) \<in> set ms \<Longrightarrow> x < 4096 \<Longrightarrow> m (unat f + x) = overlay img ss (unat v + x) (m_ram mc (unat f + x))"
    using copy_segments_ok [OF ap l pre, of "m_ram mc"] by blast
  show ?thesis by (rule that [OF m(1) loading_ram [OF ld m(2)] m(3) pre])
qed

lemma load_phases:
  assumes inv: "pt_inv mc0" and c: "window_clean mc0" and g: "\<forall>s \<in> set ss. good_segment img s" and l: "length img < 2 ^ 64"
  obtains (unmapped) e mc where "map_segments ss [] mc0 = Some (Inl e, mc)" "restored mc0 mc"
  | (no_stack) ms mc m e mc' where "map_segments ss [] mc0 = Some (Inr ms, mc)" "copy_segments img ss ms (m_ram mc) = Inr m"
      "map_stack [0..<STACK_PAGES] ms (mc\<lparr>m_ram := m\<rparr>) = Some (Inl e, mc')" "restored mc0 mc'"
  | (loaded) ms mc m ms' mc' where "map_segments ss [] mc0 = Some (Inr ms, mc)" "copy_segments img ss ms (m_ram mc) = Inr m"
      "map_stack [0..<STACK_PAGES] ms (mc\<lparr>m_ram := m\<rparr>) = Some (Inr ms', mc')" "loading mc0 mc' ms'"
      "\<And>p. segment_page ss p \<or> stack_page p \<Longrightarrow> p \<in> virts_of ms'"
      "\<And>v f x. (v, f) \<in> set ms' \<Longrightarrow> x < 4096 \<Longrightarrow> m_ram mc' (unat f + x) = overlay img ss (unat v + x) 0"
proof -
  have p1: "phase_ok mc0 mc0 [] (segment_page ss) (map_segments ss [] mc0)"
    by (rule map_segments_ok [OF loading_start [OF inv] c g])
  then obtain r mc where r: "map_segments ss [] mc0 = Some (r, mc)" unfolding phase_ok_def by (cases "map_segments ss [] mc0") auto
  show ?thesis
  proof (cases r)
    case (Inl e)
    then show ?thesis using unmapped p1 r by (simp add: phase_ok_def)
  next
    case (Inr ms)
    then have ld: "loading mc0 mc ms" "grown mc0 [] mc ms" and pages: "\<And>p. segment_page ss p \<Longrightarrow> p \<in> virts_of ms"
      using p1 r by (simp_all add: phase_ok_def)
    obtain m where m: "copy_segments img ss ms (m_ram mc) = Inr m" and ld1: "loading mc0 (mc\<lparr>m_ram := m\<rparr>) ms"
      and ov: "\<And>v f x. (v, f) \<in> set ms \<Longrightarrow> x < 4096 \<Longrightarrow> m (unat f + x) = overlay img ss (unat v + x) (m_ram mc (unat f + x))"
      and pre: "\<forall>s \<in> set ss. good_segment img s \<and> (\<forall>a. file_part s (unat a) \<longrightarrow> addr_of a \<in> virts_of ms)"
      using copied_segments [OF ld(1) g l pages] by blast
    have p2: "phase_ok mc0 (mc\<lparr>m_ram := m\<rparr>) ms stack_page (map_stack [0..<STACK_PAGES] ms (mc\<lparr>m_ram := m\<rparr>))"
      by (rule phase_ok_mono [OF map_stack_ok [OF ld1 c]]) (use stack_page_index in auto)
    then obtain r' mc' where r': "map_stack [0..<STACK_PAGES] ms (mc\<lparr>m_ram := m\<rparr>) = Some (r', mc')"
      unfolding phase_ok_def by (cases "map_stack [0..<STACK_PAGES] ms (mc\<lparr>m_ram := m\<rparr>)") auto
    show ?thesis
    proof (cases r')
      case (Inl e)
      then show ?thesis using no_stack p2 r r' Inr m by (simp add: phase_ok_def)
    next
      case Inr': (Inr ms')
      then have ld2: "loading mc0 mc' ms'" and gr: "grown (mc\<lparr>m_ram := m\<rparr>) ms mc' ms'" and "\<And>p. stack_page p \<Longrightarrow> p \<in> virts_of ms'"
        using p2 r' by (simp_all add: phase_ok_def)
      then have pg: "p \<in> virts_of ms'" if "segment_page ss p \<or> stack_page p" for p
        using that pages virts_mono [OF gr] by blast
      have "m_ram mc' (unat f + x) = overlay img ss (unat v + x) 0" if vf: "(v, f) \<in> set ms'" "x < 4096" for v f x
        by (rule load_bytes [OF ld2 gr ld(2) ov pre vf])
      then show ?thesis using loaded r r' Inr Inr' m ld2 pg by blast
    qed
  qed
qed

section \<open>Whole loads\<close>

text \<open>The byte an application reads at a virtual address.\<close>

definition user_byte :: "machine \<Rightarrow> u64 \<Rightarrow> u8 option" where
  "user_byte mc a = map_option (\<lambda>f. m_ram mc (unat f + unat a mod 4096)) (page_of mc a)"

lemma owned_user_byte:
  assumes ok: "app_ok mc ms" and m: "(addr_of a, f) \<in> set ms" and a: "a < USER_TOP"
  shows "user_byte mc a = Some (m_ram mc (unat f + unat a mod 4096))"
proof -
  note o = app_okD [OF ok m]
  have "bit (f OR PRESENT OR WRITABLE OR USER) 0" by (simp add: bit_simps PRESENT_def)
  then have "page_of mc (addr_of a) = Some f" using leaf_at_page [OF o(8)] addr_of_or_flags(1) [OF o(4)] by simp
  then show ?thesis using page_of_same_page [OF o(3) a, of mc] by (simp add: user_byte_def)
qed

text \<open>The memory of a loaded application: its segments, filled with zeros after the file part, and a zeroed stack.\<close>

definition app_address :: "segment list \<Rightarrow> u64 \<Rightarrow> bool" where
  "app_address ss a \<longleftrightarrow>
     (\<exists>s \<in> set ss. unat (s_vaddr s) \<le> unat a \<and> unat a < unat (s_vaddr s) + unat (s_memsz s)) \<or>
     unat STACK_TOP - 4 * 4096 \<le> unat a \<and> unat a < unat STACK_TOP"

definition image_loaded :: "u8 list \<Rightarrow> segment list \<Rightarrow> machine \<Rightarrow> bool" where
  "image_loaded img ss mc \<longleftrightarrow> (\<forall>a. app_address ss a \<longrightarrow> user_byte mc a = Some (overlay img ss (unat a) 0))"

lemma app_address_page:
  assumes "\<forall>s \<in> set ss. good_segment img s" "app_address ss a"
  shows "segment_page ss (addr_of a) \<or> stack_page (addr_of a)" "a < USER_TOP"
proof -
  have le: "unat a div 4096 * 4096 \<le> unat a" "unat a < unat a div 4096 * 4096 + 4096"
    using div_times_less_eq_dividend dividend_less_div_times by (blast, metis add.commute zero_less_numeral)
  have "segment_page ss (addr_of a)" if s: "s \<in> set ss" "unat (s_vaddr s) \<le> unat a" "unat a < unat (s_vaddr s) + unat (s_memsz s)" for s
    using s le div_le_mono [OF s(2), of 4096] by (auto simp: segment_page_def word_le_nat_alt unat_addr_of intro!: bexI [of _ s])
  moreover have "stack_page (addr_of a)" if "unat STACK_TOP - 4 * 4096 \<le> unat a" "unat a < unat STACK_TOP"
    using that le by (simp add: stack_page_def word_le_nat_alt word_less_nat_alt unat_addr_of STACK_TOP_def STACK_PAGES_def PAGE_SIZE_def)
  ultimately show "segment_page ss (addr_of a) \<or> stack_page (addr_of a)" using assms(2) unfolding app_address_def by blast
  show "a < USER_TOP"
    using assms by (fastforce simp: app_address_def good_segment_def word_less_nat_alt APP_MAX_def STACK_TOP_def USER_TOP_def)
qed

lemma image_loadedI:
  assumes ok: "app_ok mc ms" and g: "\<forall>s \<in> set ss. good_segment img s"
    and pg: "\<And>p. segment_page ss p \<or> stack_page p \<Longrightarrow> p \<in> virts_of ms"
    and bt: "\<And>v f x. (v, f) \<in> set ms \<Longrightarrow> x < 4096 \<Longrightarrow> m_ram mc (unat f + x) = overlay img ss (unat v + x) 0"
  shows "image_loaded img ss mc"
  unfolding image_loaded_def
proof (intro allI impI)
  fix a assume a: "app_address ss a"
  note ap = app_address_page [OF g a]
  obtain f where f: "(addr_of a, f) \<in> set ms" using pg [OF ap(1)] by (auto simp: virts_of_def)
  have "unat (addr_of a) + unat a mod 4096 = unat a" by (simp add: unat_addr_of)
  then show "user_byte mc a = Some (overlay img ss (unat a) 0)"
    using owned_user_byte [OF ok f ap(2)] bt [OF f, of "unat a mod 4096"] by simp
qed

definition after_failure :: "kernel \<Rightarrow> machine \<Rightarrow> bool" where
  "after_failure k mc \<longleftrightarrow> pt_inv mc \<and> window_clean mc \<and> pool mc = accounted k \<and> same_outside k (k\<lparr>k_machine := mc\<rparr>)"

lemma after_failure_restored: "after_failure k mc0 \<Longrightarrow> restored mc0 mc \<Longrightarrow> after_failure k mc"
  using in_window_user by (auto simp: after_failure_def restored_def window_clean_def same_outside_def)

lemma after_failure_ok:
  assumes "kernel_ok k" "after_failure k mc"
  defines "k' \<equiv> k\<lparr>k_machine := mc, ACTIVE_MAPPINGS := None\<rparr>"
  shows "kernel_ok k' \<and> accounted k' = accounted k \<and> same_outside k k'"
  using assms by (simp add: kernel_ok_def after_failure_def accounted_def active_def app_ok_def frames_of_def virts_of_def
      window_clean_def same_outside_def)

lemma loading_ok:
  assumes "kernel_ok k" "after_failure k mc0" "loading mc0 mc ms" "sched_inv s"
  defines "k' \<equiv> k\<lparr>k_machine := mc, k_sched := s, ACTIVE_MAPPINGS := Some ms\<rparr>"
  shows "kernel_ok k' \<and> accounted k' = accounted k \<and> same_outside k k'"
proof -
  have a: "active k' = ms" by (simp add: k'_def active_def)
  have w: "page_of mc w = page_of mc0 w" if "w < USER_TOP" "addr_of w \<notin> virts_of ms" for w
    using assms(3) that by (simp add: loading_def)
  have iw: "in_window v" if "v \<in> virts_of ms" for v using assms(3) that by (simp add: loading_def)
  have "page_of mc w = None" if "in_window w" "addr_of w \<notin> virts_of ms" for w
    using w [OF in_window_user [OF that(1)] that(2)] assms(2) that(1) by (simp add: after_failure_def window_clean_def)
  then have "kernel_ok k'" using assms(3,4) unfolding kernel_ok_def a by (simp add: k'_def loading_def)
  moreover have "accounted k' = accounted k" using assms(2,3) unfolding accounted_def a
    by (simp add: k'_def loading_def after_failure_def accounted_def)
  moreover have "same_outside k k'"
    unfolding same_outside_def
  proof (intro allI impI)
    fix x assume x: "x < USER_TOP" "\<not> in_window x"
    then have "addr_of x \<notin> virts_of ms" using iw in_window_page by blast
    then show "page_of (k_machine k') x = page_of (k_machine k) x"
      using w [OF x(1)] x assms(2) by (simp add: k'_def after_failure_def same_outside_def)
  qed
  ultimately show ?thesis by blast
qed

lemma load_and_spawn_cases:
  assumes k: "kernel_ok k" and l: "length img < 2 ^ 64"
  obtains (busy) "load_and_spawn L img port k = Some (Inl SchedulerBusy, k)"
  | (failed) e mc where "load_and_spawn L img port k = Some (Inl e, k\<lparr>k_machine := mc, ACTIVE_MAPPINGS := None\<rparr>)"
      "after_failure k mc"
  | (loaded) entry ss ms mc0 mc s where "load_and_spawn L img port k =
        Some (Inr \<lparr>lr_entry = entry, lr_mapped_pages = length ms, lr_image_bytes = length img\<rparr>,
              k\<lparr>k_machine := mc, k_sched := s, ACTIVE_MAPPINGS := Some ms\<rparr>)"
      "parse_segments img = Inr (entry, ss)" "after_failure k mc0" "loading mc0 mc ms" "image_loaded img ss mc"
      "spawn_user L entry (STACK_TOP - 8) port (k_sched k) = (True, s)"
  using k
proof (cases rule: release_finished_app_cases)
  case busy
  then show ?thesis using that(1) by (simp add: load_and_spawn_def)
next
  case (released mc0)
  then have af: "after_failure k mc0" by (simp add: after_failure_def)
  note rl = released(1)
  show ?thesis
  proof (cases "parse_segments img")
    case (Inl e)
    then show ?thesis using failed [OF _ af, of e] rl by (simp add: load_and_spawn_def)
  next
    case (Inr r)
    obtain entry ss where ps: "parse_segments img = Inr (entry, ss)" using Inr by (cases r) auto
    have g: "\<forall>s \<in> set ss. good_segment img s"
      using parse_segments_Inr [OF ps] parse_headers_good l by metis
    show ?thesis
      using released(2,3) g l
    proof (cases rule: load_phases)
      case (unmapped e mc)
      then show ?thesis using failed [of e mc] after_failure_restored [OF af] rl ps by (simp add: load_and_spawn_def)
    next
      case (no_stack ms mc m e mc')
      then show ?thesis using failed [of e mc'] after_failure_restored [OF af] rl ps by (simp add: load_and_spawn_def)
    next
      case lp: (loaded ms mc m ms' mc')
      obtain ok s where sp: "spawn_user L entry (STACK_TOP - 8) port (k_sched k) = (ok, s)" by fastforce
      show ?thesis
      proof (cases ok)
        case True
        have "app_ok mc' ms'" using lp(4) by (simp add: loading_def)
        then have "image_loaded img ss mc'" by (rule image_loadedI [OF _ g lp(5,6)])
        then show ?thesis using that(3) [OF _ ps af lp(4)] rl ps lp(1-3) sp True by (simp add: load_and_spawn_def)
      next
        case False
        then have "s = k_sched k" using sp by (auto simp: spawn_user_def Let_def split: if_splits)
        moreover obtain mc2 where "rollback ms' mc' = Some mc2" "restored mc0 mc2"
          using loading_rollback [OF lp(4) released(3)] by blast
        ultimately show ?thesis using failed [of SchedulerBusy mc2] after_failure_restored [OF af] rl ps lp(1-3) sp False
          by (simp add: load_and_spawn_def)
      qed
    qed
  qed
qed

section \<open>Loads that must succeed\<close>

text \<open>Every page takes one frame for its bytes and at most five for page tables.\<close>

definition free_count :: "machine \<Rightarrow> nat" where
  "free_count mc = card (free_set (m_frames mc))"

definition room :: "nat \<Rightarrow> mapping list \<Rightarrow> machine \<Rightarrow> bool" where
  "room n ms mc \<longleftrightarrow> length ms + n \<le> MAX_MAPPED_PAGES \<and> 6 * n < free_count mc"

definition uses :: "nat \<Rightarrow> mapping list \<Rightarrow> machine \<Rightarrow> mapping list \<Rightarrow> machine \<Rightarrow> bool" where
  "uses n ms mc ms' mc' \<longleftrightarrow> length ms' \<le> length ms + n \<and> free_count mc \<le> free_count mc' + 6 * n"

definition maps_all :: "nat \<Rightarrow> mapping list \<Rightarrow> machine \<Rightarrow> ((load_error + mapping list) \<times> machine) option \<Rightarrow> bool" where
  "maps_all n ms mc R \<longleftrightarrow> (\<exists>ms' mc'. R = Some (Inr ms', mc') \<and> uses n ms mc ms' mc')"

lemma room_uses: "room (n + k) ms mc \<Longrightarrow> uses n ms mc ms' mc' \<Longrightarrow> room k ms' mc'"
  by (auto simp: room_def uses_def)

lemma maps_all_uses: "maps_all k ms' mc' R \<Longrightarrow> uses n ms mc ms' mc' \<Longrightarrow> maps_all (n + k) ms mc R"
  unfolding maps_all_def uses_def by fastforce

lemma map_page_enough:
  assumes ok: "app_ok mc ms" and v: "v < USER_TOP" "aligned v" and r: "room (1 + n) ms mc"
  obtains f ms' mc' where "map_page ms v mc = Some (Inr f, ms', mc')" "uses 1 ms mc ms' mc'"
proof (cases "mapped_phys ms v")
  case (Some f)
  then show ?thesis using that [of f ms mc] by (simp add: map_page_def uses_def)
next
  case None
  have inv: "pt_inv mc" using ok by (simp add: app_ok_def)
  then have fi: "frames_inv (m_frames mc)" by (simp add: pt_inv_def)
  obtain x mc1 where al: "alloc_zeroed_frame mc = (x, mc1)" by fastforce
  have "free_set (m_frames mc) \<noteq> {}" using r by (auto simp: room_def free_count_def)
  then obtain f where f: "x = Some f" using fp.alloc_None [OF fi, of mc1] al by (cases x) auto
  note ad = alloc_data_frame [OF inv al [unfolded f]]
  have cnt: "card (free_set (m_frames mc)) = Suc (card (free_set (m_frames mc1)))" using alloc_count [OF fi al] f by simp
  obtain b mc2 where m: "map_user_page v f mc1 = (b, mc2)" by fastforce
  have ua: "user_args v f" using v ad(9,10) by (simp add: user_args_def aligned_def INITIAL_MAP_SIZE_def word_less_nat_alt)
  show ?thesis
  proof (cases b)
    case True
    then show ?thesis
      using that [of f "ms @ [(v, f)]" mc2] None al f m r cnt map_user_page_takes [OF ad(1) ua m]
      by (simp add: map_page_def room_def uses_def free_count_def)
  next
    case False
    then show ?thesis using map_user_page_enough [OF ad(1) ua m] False r cnt by (simp add: room_def free_count_def)
  qed
qed

lemma loading_map_page_enough:
  assumes l: "loading mc0 mc ms" and v: "in_window v" "aligned v" and r: "room (1 + n) ms mc"
  obtains f ms' mc' where "map_page ms v mc = Some (Inr f, ms', mc')" "loading mc0 mc' ms'" "uses 1 ms mc ms' mc'"
proof -
  have ok: "app_ok mc ms" using l by (simp add: loading_def)
  obtain f ms' mc' where m: "map_page ms v mc = Some (Inr f, ms', mc')" "uses 1 ms mc ms' mc'"
    by (rule map_page_enough [OF ok in_window_user [OF v(1)] v(2) r])
  show ?thesis
    using l v
    by (cases rule: loading_map_page) (use m that in auto)
qed

lemma map_pages_enough:
  assumes "loading mc0 mc ms" "aligned page" "APP_MIN \<le> page" "end_addr \<le> STACK_TOP"
    and "unat end_addr \<le> unat page + 4096 * n" "room n ms mc"
  shows "maps_all n ms mc (map_pages page end_addr ms mc)"
  using assms
proof (induction n arbitrary: page ms mc)
  case 0
  then have "\<not> page < end_addr" by (simp add: word_less_nat_alt)
  then show ?case by (subst map_pages.simps) (simp add: maps_all_def uses_def)
next
  case (Suc n)
  show ?case
  proof (cases "page < end_addr")
    case False
    then show ?thesis by (subst map_pages.simps) (simp add: maps_all_def uses_def)
  next
    case True
    then have w: "in_window page" using Suc.prems(3,4) by (auto simp: in_window_def)
    have u: "unat page < 0x104000000" using True Suc.prems(4) by (simp add: word_less_nat_alt word_le_nat_alt STACK_TOP_def)
    have nx: "checked_add page PAGE_SIZE = Some (page + 4096)" "unat (page + 4096) = unat page + 4096"
      using u by (simp_all add: checked_add_def PAGE_SIZE_def unat_word_ariths)
    have r: "room (1 + n) ms mc" using Suc.prems(6) by simp
    obtain f ms1 mc1 where m: "map_page ms page mc = Some (Inr f, ms1, mc1)" "loading mc0 mc1 ms1" "uses 1 ms mc ms1 mc1"
      by (rule loading_map_page_enough [OF Suc.prems(1) w Suc.prems(2) r])
    have "aligned (page + 4096)" using Suc.prems(2) unfolding aligned_unat nx(2) by simp
    then have "maps_all n ms1 mc1 (map_pages (page + 4096) end_addr ms1 mc1)"
      using Suc.IH [OF m(2)] Suc.prems(3-5) room_uses [OF r m(3)] nx(2) by (simp add: word_le_nat_alt)
    then show ?thesis
      using maps_all_uses [OF _ m(3)] True m(1) nx(1) by (subst map_pages.simps) simp
  qed
qed

text \<open>The pages a segment touches.\<close>

definition page_count :: "segment \<Rightarrow> nat" where
  "page_count s = (unat (s_vaddr s) + unat (s_memsz s) + 4095) div 4096 - unat (s_vaddr s) div 4096"

lemma segment_end:
  assumes "good_segment img s" "checked_add (s_vaddr s) (s_memsz s) = Some e" "align_up_page e = Some end_addr"
  shows "unat end_addr \<le> unat (addr_of (s_vaddr s)) + 4096 * page_count s"
proof -
  have e: "unat e = unat (s_vaddr s) + unat (s_memsz s)" using unat_checked_add [OF assms(2)] by simp
  obtain e2 where e2: "checked_add e (PAGE_SIZE - 1) = Some e2" "end_addr = addr_of e2"
    using assms(3) by (auto simp: align_up_page_def PAGE_SIZE_def)
  have "unat e2 = unat e + 4095" using unat_checked_add [OF e2(1)] by (simp add: PAGE_SIZE_def)
  then show ?thesis by (simp add: e2(2) unat_addr_of e page_count_def algebra_simps)
qed

lemma map_segments_enough:
  assumes "loading mc0 mc ms" "window_clean mc0" "\<forall>s \<in> set ss. good_segment img s" "room (sum_list (map page_count ss)) ms mc"
  shows "maps_all (sum_list (map page_count ss)) ms mc (map_segments ss ms mc)"
  using assms(1,3,4)
proof (induction ss arbitrary: ms mc)
  case Nil
  then show ?case by (simp add: maps_all_def uses_def)
next
  case (Cons s ss)
  have gs: "good_segment img s" using Cons.prems(2) by simp
  obtain e end_addr where g: "checked_add (s_vaddr s) (s_memsz s) = Some e" "align_up_page e = Some end_addr"
      "APP_MIN \<le> addr_of (s_vaddr s)" "end_addr \<le> STACK_TOP"
    using good_segment_pages [OF gs] by blast
  have r: "room (page_count s + sum_list (map page_count ss)) ms mc" using Cons.prems(3) by simp
  then have r1: "room (page_count s) ms mc" by (simp add: room_def)
  obtain ms1 mc1 where m: "map_pages (addr_of (s_vaddr s)) end_addr ms mc = Some (Inr ms1, mc1)"
      "uses (page_count s) ms mc ms1 mc1"
    using map_pages_enough [OF Cons.prems(1) _ g(3,4) segment_end [OF gs g(1,2)] r1] by (auto simp: maps_all_def)
  have l: "loading mc0 mc1 ms1"
    using map_pages_ok [OF Cons.prems(1) assms(2) _ g(3,4)] m(1) by (simp add: phase_ok_def)
  then have "maps_all (sum_list (map page_count ss)) ms1 mc1 (map_segments ss ms1 mc1)"
    using Cons.IH [OF l] Cons.prems(2) room_uses [OF r m(2)] by simp
  then show ?case using maps_all_uses [OF _ m(2)] g(1,2) m(1) by (simp add: align_down_addr)
qed

lemma map_stack_enough:
  assumes "loading mc0 mc ms" "\<forall>i \<in> set is. i < STACK_PAGES" "room (length is) ms mc"
  shows "maps_all (length is) ms mc (map_stack is ms mc)"
  using assms
proof (induction "is" arbitrary: ms mc)
  case Nil
  then show ?case by (simp add: maps_all_def uses_def)
next
  case (Cons i "is")
  let ?v = "STACK_TOP - of_nat STACK_PAGES * PAGE_SIZE + of_nat i * PAGE_SIZE"
  have v: "in_window ?v" "aligned ?v" using stack_slot [of i] Cons.prems(2) by simp_all
  have r: "room (1 + length is) ms mc" using Cons.prems(3) by simp
  obtain f ms1 mc1 where m: "map_page ms ?v mc = Some (Inr f, ms1, mc1)" "loading mc0 mc1 ms1" "uses 1 ms mc ms1 mc1"
    by (rule loading_map_page_enough [OF Cons.prems(1) v r])
  have "maps_all (length is) ms1 mc1 (map_stack is ms1 mc1)"
    using Cons.IH [OF m(2)] Cons.prems(2) room_uses [OF r m(3)] by simp
  then show ?case using maps_all_uses [OF _ m(3)] m(1) by simp
qed

text \<open>What suffices for a load to succeed: an acceptable image of at most 252 pages, a free task slot, no
  application in memory and six free frames for each page.\<close>

definition loadable :: "u8 list \<Rightarrow> kernel \<Rightarrow> bool" where
  "loadable img k \<longleftrightarrow> ACTIVE_MAPPINGS k = None \<and> t_state (TASKS (k_sched k) ! 3) \<in> {0, DEAD} \<and>
     (case parse_segments img of
        Inl e \<Rightarrow> False
      | Inr (entry, ss) \<Rightarrow>
          (let n = sum_list (map page_count ss) + STACK_PAGES in n \<le> MAX_MAPPED_PAGES \<and> 6 * n < free_count (k_machine k)))"

lemma load_enough:
  assumes k: "kernel_ok k" and l: "length img < 2 ^ 64" and a: "loadable img k"
  shows "\<exists>rep k'. load_and_spawn L img port k = Some (Inr rep, k')"
proof -
  let ?mc0 = "k_machine k"
  obtain entry ss where ps: "parse_segments img = Inr (entry, ss)"
    and r: "room (sum_list (map page_count ss) + STACK_PAGES) [] ?mc0"
    using a unfolding loadable_def room_def by (auto simp: Let_def split: sum.splits)
  have none: "ACTIVE_MAPPINGS k = None" "active k = []" using a by (simp_all add: loadable_def active_def)
  have inv: "pt_inv ?mc0" "window_clean ?mc0"
    using k none(2) by (simp_all add: kernel_ok_def app_ok_def window_clean_def virts_of_def)
  have g: "\<forall>s \<in> set ss. good_segment img s" using parse_segments_Inr [OF ps] parse_headers_good l by metis
  have rs: "room (sum_list (map page_count ss)) [] ?mc0" using r by (simp add: room_def)
  obtain ms1 mc1 where m1: "map_segments ss [] ?mc0 = Some (Inr ms1, mc1)"
      "uses (sum_list (map page_count ss)) [] ?mc0 ms1 mc1"
    using map_segments_enough [OF loading_start [OF inv(1)] inv(2) g rs] by (auto simp: maps_all_def)
  have ld: "loading ?mc0 mc1 ms1" and pg: "\<And>p. segment_page ss p \<Longrightarrow> p \<in> virts_of ms1"
    using map_segments_ok [OF loading_start [OF inv(1)] inv(2) g] m1(1) by (simp_all add: phase_ok_def)
  have r1: "room (length [0..<STACK_PAGES]) ms1 mc1" using room_uses [OF r m1(2)] by simp
  obtain m where m: "copy_segments img ss ms1 (m_ram mc1) = Inr m" "loading ?mc0 (mc1\<lparr>m_ram := m\<rparr>) ms1"
    by (rule copied_segments [OF ld g l pg]) assumption+
  have "room (length [0..<STACK_PAGES]) ms1 (mc1\<lparr>m_ram := m\<rparr>)" using r1 by (simp add: room_def free_count_def)
  then obtain ms2 mc2 where m2: "map_stack [0..<STACK_PAGES] ms1 (mc1\<lparr>m_ram := m\<rparr>) = Some (Inr ms2, mc2)"
    using map_stack_enough [OF m(2), of "[0..<STACK_PAGES]"] by (auto simp: maps_all_def)
  obtain s where "spawn_user L entry (STACK_TOP - 8) port (k_sched k) = (True, s)"
    using a by (auto simp: loadable_def spawn_user_def Let_def)
  then show ?thesis using none(1) ps m1(1) m(1) m2 by (simp add: load_and_spawn_def release_finished_app_def)
qed

section \<open>Properties of the loader\<close>


text \<open>C19. A load with enough memory succeeds, and a successful load puts exactly the image in memory: every byte
  of every segment reads back as the file byte of the last segment that covers it or as zero, the four
  stack pages read as zero, and task 3 is ready to enter the image at its entry point in user mode with the
  stack pointer and the event port it was given.\<close>

theorem load_and_spawn_image:
  assumes "kernel_ok k" "length img < 2 ^ 64"
  shows "case load_and_spawn L img port k of
      None \<Rightarrow> False
    | Some (Inl e, k') \<Rightarrow> \<not> loadable img k
    | Some (Inr rep, k') \<Rightarrow>
        (\<exists>ss. parse_segments img = Inr (lr_entry rep, ss) \<and> image_loaded img ss (k_machine k')) \<and>
        lr_image_bytes rep = length img \<and> lr_mapped_pages rep = length (active k') \<and>
        (let t = TASKS (k_sched k') ! 3; f = frame_store (k_sched k') (t_frame t) in
         t_state t = READY \<and> fr_rip f = lr_entry rep \<and> fr_cs f = 0x33 \<and> fr_ss f = 0x2b \<and>
         fr_rsp f = STACK_TOP - 8 \<and> fr_rdi f = ucast port)"
  using assms
proof (cases rule: load_and_spawn_cases [of k img L port])
  case busy
  then show ?thesis using load_enough [OF assms, of L port] by auto
next
  case (failed e mc)
  then show ?thesis using load_enough [OF assms, of L port] by auto
next
  case (loaded entry ss ms mc0 mc s)
  have "length (TASKS (k_sched k)) = MAX_TASKS" using assms(1) by (simp add: kernel_ok_def sched_inv_def wf_sched_def)
  then show ?thesis
    using loaded(1,2,5,6) by (auto simp: active_def spawn_user_def enqueue_def Let_def MAX_TASKS_def split: if_splits)
qed


section \<open>A concrete load\<close>

text \<open>A kernel with all frames but the first free and empty page tables, and the smallest useful image: one
  executable segment of three file bytes and sixteen bytes of memory.\<close>

definition demo_kernel :: kernel where
  "demo_kernel = \<lparr>k_machine = \<lparr>m_frames = full_frames, m_ram = (\<lambda>_. 0), m_cr3 = 0\<rparr>, k_sched = demo_sched,
     ACTIVE_MAPPINGS = None\<rparr>"

definition demo_image :: "u8 list" where
  "demo_image = [
     127, 69, 76, 70, 2, 1, 1, 0, 0, 0, 0, 0, 0, 0, 0, 0, 2, 0, 62, 0, 1, 0, 0, 0,
     0, 0, 0, 0, 1, 0, 0, 0, 64, 0, 0, 0, 0, 0, 0, 0, 0, 0, 0, 0, 0, 0, 0, 0,
     0, 0, 0, 0, 64, 0, 56, 0, 1, 0, 0, 0, 0, 0, 0, 0, 1, 0, 0, 0, 5, 0, 0, 0,
     120, 0, 0, 0, 0, 0, 0, 0, 0, 0, 0, 0, 1, 0, 0, 0, 0, 0, 0, 0, 0, 0, 0, 0,
     3, 0, 0, 0, 0, 0, 0, 0, 16, 0, 0, 0, 0, 0, 0, 0, 1, 0, 0, 0, 0, 0, 0, 0,
     235, 254, 144]"

definition demo_segment :: segment where
  "demo_segment = \<lparr>s_flags = 5, s_offset = 120, s_vaddr = 0x100000000, s_filesz = 3, s_memsz = 16\<rparr>"

lemma demo_header_fields:
  "le_at 2 demo_image 16 = Some (2 :: u16)" "le_at 2 demo_image 18 = Some (62 :: u16)" "le_at 4 demo_image 20 = Some (1 :: u32)"
  "le_at 8 demo_image 24 = Some (0x100000000 :: u64)" "le_at 8 demo_image 32 = Some (64 :: u64)"
  "le_at 2 demo_image 52 = Some (64 :: u16)" "le_at 2 demo_image 54 = Some (56 :: u16)" "le_at 2 demo_image 56 = Some (1 :: u16)"
  by (simp_all add: le_at_def checked_add_usize_def demo_image_def from_le_def)

lemma demo_program_fields:
  "le_at 4 demo_image 64 = Some (1 :: u32)" "le_at 4 demo_image 68 = Some (5 :: u32)" "le_at 8 demo_image 72 = Some (120 :: u64)"
  "le_at 8 demo_image 80 = Some (0x100000000 :: u64)" "le_at 8 demo_image 96 = Some (3 :: u64)"
  "le_at 8 demo_image 104 = Some (16 :: u64)" "le_at 8 demo_image 112 = Some (1 :: u64)"
  by (simp_all add: le_at_def checked_add_usize_def demo_image_def from_le_def)

lemma demo_image_start:
  "length demo_image = 123" "take 4 demo_image = [0x7f, 0x45, 0x4c, 0x46]" "demo_image ! 4 = 2" "demo_image ! 5 = 1" "demo_image ! 6 = 1"
  by (simp_all add: demo_image_def)

lemmas demo_image_facts = demo_header_fields demo_program_fields demo_image_start le16_def le32_def le64_def

lemma demo_image_parse: "parse_segments demo_image = Inr (0x100000000, [demo_segment])"
proof -
  have h: "parse_header demo_image 64 = Inr (Some demo_segment)"
    by (simp add: parse_header_def demo_image_facts PT_LOAD_def checked_add_def APP_MIN_def APP_MAX_def demo_segment_def)
  have "entry_ok 0x100000000 demo_segment" by (simp add: entry_ok_def demo_segment_def saturating_add64_def)
  then show ?thesis
    by (simp add: parse_segments_def demo_image_facts h ELF_HEADER_SIZE_def PROGRAM_HEADER_SIZE_def ET_EXEC_def EM_X86_64_def
        MAX_PROGRAM_HEADERS_def checked_add_usize_def APP_MIN_def APP_MAX_def)
qed

lemma demo_kernel_ok: "kernel_ok demo_kernel"
proof -
  let ?mc = "k_machine demo_kernel"
  have pt: "pte ?mc t i = 0" for t i
    by (simp add: pte_def demo_kernel_def read64_def read_bytes_def from_le_def upt_rec)
  have r: "addr_of (m_cr3 ?mc) = 0" "m_frames ?mc = full_frames" by (simp_all add: demo_kernel_def addr_of_def del: addr_of_fold)
  have "tab ?mc p = Some t \<longleftrightarrow> p = [] \<and> t = 0" for p t by (cases p) (auto simp: pt r split: option.splits)
  then have "pt_ok (free_set full_frames) ?mc" by (auto simp: pt_ok_def full_frames_free frame_index_def)
  then have "pt_inv ?mc" by (simp add: pt_inv_def r full_frames_inv)
  moreover have "page_of ?mc v = None" for v by (simp add: page_of_def indices_simp pt Let_def)
  ultimately show ?thesis
    using demo_sched_inv by (simp add: kernel_ok_def app_ok_def virts_of_def active_def) (simp add: demo_kernel_def)
qed

lemma demo_loadable: "loadable demo_image demo_kernel"
proof -
  have "page_count demo_segment = 1" by (simp add: page_count_def demo_segment_def)
  moreover have "free_count (k_machine demo_kernel) = MAX_FRAMES - 1" by (simp add: free_count_def demo_kernel_def full_frames_free)
  moreover have "t_state (TASKS demo_sched ! 3) = 0" by (simp add: demo_sched_eval empty_task_def)
  ultimately show ?thesis
    by (simp add: loadable_def demo_image_parse demo_kernel_def STACK_PAGES_def MAX_MAPPED_PAGES_def frame_consts)
qed

theorem parse_segments_sound_witness: "good_segment demo_image demo_segment \<and> odd (s_flags demo_segment)"
  using parse_segments_sound [OF demo_image_parse] by (simp add: demo_image_start)


theorem load_and_spawn_image_witness:
  "\<exists>rep k'. load_and_spawn demo_layout demo_image 7 demo_kernel = Some (Inr rep, k') \<and>
     user_byte (k_machine k') 0x100000001 = Some 0xfe \<and> user_byte (k_machine k') 0x100000003 = Some 0 \<and>
     user_byte (k_machine k') 0x103fffff8 = Some 0"
proof -
  have l: "length demo_image < 2 ^ 64" by (simp add: demo_image_start)
  note c = load_and_spawn_image [OF demo_kernel_ok l, where L = demo_layout and port = 7]
  obtain rep k' where r: "load_and_spawn demo_layout demo_image 7 demo_kernel = Some (Inr rep, k')"
    using load_enough [OF demo_kernel_ok l demo_loadable] by blast
  have "\<exists>ss. parse_segments demo_image = Inr (lr_entry rep, ss) \<and> image_loaded demo_image ss (k_machine k')"
    using c unfolding r option.case prod.case sum.case by blast
  then have il: "image_loaded demo_image [demo_segment] (k_machine k')" unfolding demo_image_parse by simp
  have a: "app_address [demo_segment] 0x100000001" "app_address [demo_segment] 0x100000003" "app_address [demo_segment] 0x103fffff8"
    by (simp_all add: app_address_def demo_segment_def STACK_TOP_def)
  note il = il [unfolded image_loaded_def, rule_format]
  show ?thesis using r il [OF a(1)] il [OF a(2)] il [OF a(3)]
    by (simp add: file_part_def file_byte_def demo_segment_def demo_image_def)
qed


end
