(* ===== verification/Rust_Text.thy ===== *)
theory Rust_Text
  imports Pippin_Prelude
begin

text \<open>
  The string operations of Rust's core library that the kernel's text protocols use, on strings
  as byte lists: splitting, decimal and hexadecimal parsing with overflow as an error, and ASCII
  upper case, well-formed UTF-8, prefixes, suffixes and lines.
\<close>

fun split_on :: "'a \<Rightarrow> 'a list \<Rightarrow> 'a list list" where
  "split_on c [] = [[]]"
| "split_on c (x # xs) =
     (if x = c then [] # split_on c xs
      else case split_on c xs of [] \<Rightarrow> [[x]] | f # fs \<Rightarrow> (x # f) # fs)"

fun split_once :: "char \<Rightarrow> string \<Rightarrow> (string \<times> string) option" where
  "split_once c [] = None"
| "split_once c (x # xs) =
     (if x = c then Some ([], xs) else map_option (\<lambda>(a, b). (x # a, b)) (split_once c xs))"

definition digit_val :: "nat \<Rightarrow> char \<Rightarrow> nat option" where
  "digit_val radix c =
     (let n = (of_char c :: nat);
          d = (if 48 \<le> n \<and> n \<le> 57 then Some (n - 48)
               else if 97 \<le> n \<and> n \<le> 122 then Some (n - 87)
               else if 65 \<le> n \<and> n \<le> 90 then Some (n - 55) else None) in
      case d of None \<Rightarrow> None | Some k \<Rightarrow> if k < radix then Some k else None)"

fun parse_digits :: "nat \<Rightarrow> nat \<Rightarrow> nat \<Rightarrow> string \<Rightarrow> nat option" where
  "parse_digits radix limit acc [] = Some acc"
| "parse_digits radix limit acc (c # cs) =
     (case digit_val radix c of
        None \<Rightarrow> None
      | Some d \<Rightarrow> if acc * radix + d > limit then None else parse_digits radix limit (acc * radix + d) cs)"

definition nonempty_digits :: "nat \<Rightarrow> nat \<Rightarrow> string \<Rightarrow> nat option" where
  "nonempty_digits radix limit s = (if s = [] then None else parse_digits radix limit 0 s)"

definition parse_uint :: "nat \<Rightarrow> nat \<Rightarrow> string \<Rightarrow> nat option" where
  "parse_uint radix limit s =
     (case s of [] \<Rightarrow> None | c # cs \<Rightarrow> nonempty_digits radix limit (if c = CHR ''+'' then cs else s))"

definition parse_u32 :: "string \<Rightarrow> u32 option" where
  "parse_u32 s = map_option of_nat (parse_uint 10 (2 ^ 32 - 1) s)"

definition parse_usize :: "string \<Rightarrow> usize option" where
  "parse_usize s = parse_uint 10 (2 ^ 64 - 1) s"

definition parse_hex32 :: "string \<Rightarrow> u32 option" where
  "parse_hex32 s = map_option of_nat (parse_uint 16 (2 ^ 32 - 1) s)"

definition parse_i32_str :: "string \<Rightarrow> int option" where
  "parse_i32_str s =
     (case s of
        [] \<Rightarrow> None
      | c # cs \<Rightarrow>
          if c = CHR ''-'' then map_option (\<lambda>n. - int n) (nonempty_digits 10 (2 ^ 31) cs)
          else map_option int (nonempty_digits 10 (2 ^ 31 - 1) (if c = CHR ''+'' then cs else s)))"

definition to_ascii_uppercase :: "char \<Rightarrow> char" where
  "to_ascii_uppercase c =
     (let n = (of_char c :: nat) in if 97 \<le> n \<and> n \<le> 122 then char_of (n - 32) else c)"

text \<open>\<^verbatim>\<open>Display\<close> of integers.\<close>

fun show_nat :: "nat \<Rightarrow> string" where
  "show_nat n = (if n < 10 then [char_of (48 + n)] else show_nat (n div 10) @ [char_of (48 + n mod 10)])"

declare show_nat.simps [simp del]

definition show_int :: "int \<Rightarrow> string" where
  "show_int n = (if n < 0 then CHR ''-'' # show_nat (nat (- n)) else show_nat (nat n))"

text \<open>\<^verbatim>\<open>core::str::from_utf8\<close> accepts well-formed UTF-8.\<close>

definition cont_byte :: "u8 \<Rightarrow> bool" where
  "cont_byte b \<longleftrightarrow> 0x80 \<le> b \<and> b \<le> 0xBF"

fun utf8_ok :: "u8 list \<Rightarrow> bool" where
  "utf8_ok [] = True"
| "utf8_ok (a # bs) =
     (if a \<le> 0x7F then utf8_ok bs
      else if 0xC2 \<le> a \<and> a \<le> 0xDF then
        (case bs of b # bs' \<Rightarrow> cont_byte b \<and> utf8_ok bs' | _ \<Rightarrow> False)
      else if 0xE0 \<le> a \<and> a \<le> 0xEF then
        (case bs of b # c # bs' \<Rightarrow>
           cont_byte b \<and> cont_byte c \<and> (a = 0xE0 \<longrightarrow> 0xA0 \<le> b) \<and> (a = 0xED \<longrightarrow> b \<le> 0x9F) \<and> utf8_ok bs'
         | _ \<Rightarrow> False)
      else if 0xF0 \<le> a \<and> a \<le> 0xF4 then
        (case bs of b # c # d # bs' \<Rightarrow>
           cont_byte b \<and> cont_byte c \<and> cont_byte d \<and> (a = 0xF0 \<longrightarrow> 0x90 \<le> b) \<and> (a = 0xF4 \<longrightarrow> b \<le> 0x8F) \<and> utf8_ok bs'
         | _ \<Rightarrow> False)
      else False)"

text \<open>A string literal as bytes.\<close>

definition bytes_of :: "string \<Rightarrow> u8 list" where
  "bytes_of s = map (\<lambda>c. of_nat (of_char c)) s"

definition str_of :: "u8 list \<Rightarrow> string" where
  "str_of bs = map (\<lambda>b. char_of (unat b)) bs"

text \<open>\<^verbatim>\<open>strip_prefix\<close>, \<^verbatim>\<open>strip_suffix\<close> and \<^verbatim>\<open>str::lines\<close>: a line loses its line feed and then
  a carriage return before it; what follows the last line feed is a line unless it is empty.\<close>

definition strip_prefix :: "'a list \<Rightarrow> 'a list \<Rightarrow> 'a list option" where
  "strip_prefix p xs = (if take (length p) xs = p then Some (drop (length p) xs) else None)"

definition strip_suffix :: "'a list \<Rightarrow> 'a list \<Rightarrow> 'a list option" where
  "strip_suffix p xs = map_option rev (strip_prefix (rev p) (rev xs))"

definition strip_cr :: "u8 list \<Rightarrow> u8 list" where
  "strip_cr xs = (case strip_suffix [13] xs of Some ys \<Rightarrow> ys | None \<Rightarrow> xs)"

definition str_lines :: "u8 list \<Rightarrow> u8 list list" where
  "str_lines xs = (let fs = split_on 10 xs in map strip_cr (butlast fs) @ (if last fs = [] then [] else [last fs]))"

section \<open>Lemmas\<close>

lemma split_on_nonempty [simp]: "split_on c s \<noteq> []"
  by (induction s) (auto split: list.splits)

lemma split_on_first: "fs = split_on c s \<Longrightarrow> \<exists>f gs. fs = f # gs"
  using split_on_nonempty by (metis neq_Nil_conv)

text \<open>Joining the pieces gives the string back, and no piece contains the separator.\<close>

fun join_with :: "'a \<Rightarrow> 'a list list \<Rightarrow> 'a list" where
  "join_with c [] = []"
| "join_with c [f] = f"
| "join_with c (f # fs) = f @ c # join_with c fs"

lemma join_with_Cons: "fs \<noteq> [] \<Longrightarrow> join_with c (f # fs) = f @ c # join_with c fs"
  by (cases fs) auto

lemma join_split: "join_with c (split_on c s) = s"
proof (induction s)
  case (Cons x s)
  show ?case
  proof (cases "split_on c s")
    case (Cons f fs)
    then show ?thesis using Cons.IH by (cases fs) auto
  qed simp
qed simp

lemma split_no_sep: "f \<in> set (split_on c s) \<Longrightarrow> c \<notin> set f"
  by (induction s arbitrary: f) (auto split: if_splits list.splits)

lemma split_on_plain: "c \<notin> set s \<Longrightarrow> split_on c s = [s]"
  by (induction s) auto

lemma split_on_append: "c \<notin> set f \<Longrightarrow> split_on c (f @ c # s) = f # split_on c s"
  by (induction f) auto

lemma split_join:
  assumes "fs \<noteq> []" "\<forall>f \<in> set fs. c \<notin> set f"
  shows "split_on c (join_with c fs) = fs"
  using assms by (induction c fs rule: join_with.induct) (auto simp: split_on_plain split_on_append)

lemma parse_digits_bound: "parse_digits radix limit acc s = Some n \<Longrightarrow> acc \<le> limit \<Longrightarrow> n \<le> limit"
  by (induction radix limit acc s rule: parse_digits.induct) (auto split: option.splits if_splits)

lemma parse_uint_bound: "parse_uint radix limit s = Some n \<Longrightarrow> n \<le> limit"
  using parse_digits_bound by (auto simp: parse_uint_def nonempty_digits_def split: list.splits if_splits)

lemma nonempty_digits_bound: "nonempty_digits radix limit s = Some n \<Longrightarrow> n \<le> limit"
  using parse_digits_bound [of radix limit 0 s n] by (simp add: nonempty_digits_def split: if_splits)

lemma parse_i32_bound:
  assumes "parse_i32_str s = Some n"
  shows "- (2 ^ 31) \<le> n \<and> n < 2 ^ 31"
proof -
  from assms obtain d cs where "n = - int d \<and> nonempty_digits 10 (2 ^ 31) cs = Some d \<or>
      n = int d \<and> nonempty_digits 10 (2 ^ 31 - 1) cs = Some d"
    unfolding parse_i32_str_def by (auto split: list.splits if_splits)
  then show ?thesis
  proof
    assume "n = - int d \<and> nonempty_digits 10 (2 ^ 31) cs = Some d"
    moreover from this have "d \<le> 2 ^ 31" using nonempty_digits_bound by blast
    ultimately show ?thesis by simp
  next
    assume "n = int d \<and> nonempty_digits 10 (2 ^ 31 - 1) cs = Some d"
    moreover from this have "d \<le> 2 ^ 31 - 1" using nonempty_digits_bound by blast
    ultimately show ?thesis by simp
  qed
qed

text \<open>Printing and parsing.\<close>

lemma of_digit: "d < 10 \<Longrightarrow> of_char (char_of (48 + d :: nat)) = (48 + d :: nat)"
  by simp

lemma digit_char: "d < 10 \<Longrightarrow> digit_val 10 (char_of (48 + d :: nat)) = Some d"
  by (simp only: digit_val_def of_digit Let_def) simp

lemma parse_digits_append:
  "parse_digits radix limit acc (xs @ ys) =
     (case parse_digits radix limit acc xs of None \<Rightarrow> None | Some a \<Rightarrow> parse_digits radix limit a ys)"
  by (induction radix limit acc xs rule: parse_digits.induct) (auto split: option.splits)

lemma parse_show_nat: "n \<le> limit \<Longrightarrow> parse_digits 10 limit 0 (show_nat n) = Some n"
proof (induction n rule: show_nat.induct)
  case (1 n)
  show ?case
  proof (cases "n < 10")
    case True
    then show ?thesis using 1(2) by (simp add: show_nat.simps digit_char)
  next
    case False
    then have "parse_digits 10 limit 0 (show_nat (n div 10)) = Some (n div 10)" using 1 by simp
    moreover have "n div 10 * 10 + n mod 10 = n" by simp
    ultimately show ?thesis using False 1(2) by (subst show_nat.simps) (simp add: parse_digits_append digit_char)
  qed
qed

lemma show_nat_digits: "c \<in> set (show_nat n) \<Longrightarrow> \<exists>d < 10. c = char_of (48 + d :: nat)"
proof (induction n rule: show_nat.induct)
  case (1 n)
  then show ?case by (cases "n < 10") (auto simp: show_nat.simps [of n] intro: exI [of _ "n mod 10"])
qed

lemma show_nat_nonempty [simp]: "show_nat n \<noteq> []"
  by (subst show_nat.simps) simp

lemma show_nat_plain: "CHR ''+'' \<notin> set (show_nat n)" "CHR ''-'' \<notin> set (show_nat n)" "CHR ''|'' \<notin> set (show_nat n)"
proof -
  have "48 \<le> (of_char c :: nat) \<and> (of_char c :: nat) < 58" if c: "c \<in> set (show_nat n)" for c
  proof -
    obtain d where "d < 10" "c = char_of (48 + d :: nat)" using show_nat_digits [OF c] by blast
    then show ?thesis by (simp only: of_digit) simp
  qed
  then show "CHR ''+'' \<notin> set (show_nat n)" "CHR ''-'' \<notin> set (show_nat n)" "CHR ''|'' \<notin> set (show_nat n)" by fastforce+
qed

lemma parse_u32_show: "n < 2 ^ 32 \<Longrightarrow> parse_u32 (show_nat n) = Some (of_nat n)"
proof -
  assume n: "n < 2 ^ 32"
  obtain c cs where c: "show_nat n = c # cs" using show_nat_nonempty by (metis neq_Nil_conv)
  then have "c \<noteq> CHR ''+''" using show_nat_plain(1) [of n] by auto
  then show ?thesis using parse_show_nat [of n "2 ^ 32 - 1"] n c by (simp add: parse_u32_def parse_uint_def nonempty_digits_def)
qed

lemma parse_i32_show: "- (2 ^ 31) \<le> n \<Longrightarrow> n < 2 ^ 31 \<Longrightarrow> parse_i32_str (show_int n) = Some n"
proof -
  assume b: "- (2 ^ 31) \<le> n" "n < 2 ^ 31"
  show ?thesis
  proof (cases "n < 0")
    case True
    then show ?thesis using parse_show_nat [of "nat (- n)" "2 ^ 31"] b by (simp add: show_int_def parse_i32_str_def nonempty_digits_def)
  next
    case False
    obtain c cs where c: "show_nat (nat n) = c # cs" using show_nat_nonempty by (metis neq_Nil_conv)
    then have "c \<noteq> CHR ''+''" "c \<noteq> CHR ''-''" using show_nat_plain(1,2) [of "nat n"] by auto
    then show ?thesis using parse_show_nat [of "nat n" "2 ^ 31 - 1"] b False c
      by (simp add: show_int_def parse_i32_str_def nonempty_digits_def)
  qed
qed

lemma show_no_bar: "CHR ''|'' \<notin> set (show_nat n)" "CHR ''|'' \<notin> set (show_int k)"
  using show_nat_plain(3) by (simp_all add: show_int_def)

end
