(* ===== verification/Syscall.thy ===== *)
theory Syscall
  imports Elf_Correct Ipc Rust_Text
begin

text \<open>
  The numbered system calls (\<^verbatim>\<open>syscall.rs\<close>) over the loader, the page tables, the ports and the
  scheduler. User memory is reached through the page tables of the machine: \<open>user_read\<close> and
  \<open>user_write\<close> fail (\<open>Fault\<close>) where an address does not translate. The bytes that \<^verbatim>\<open>serial.rs\<close>
  transmits are a log; the interrupt frame of \<^verbatim>\<open>int 0x41\<close> and the two padding bytes
  of \<^verbatim>\<open>Event\<close> are arguments.
\<close>

definition USER_MMAP :: u64 where "USER_MMAP = 0x108000000"

record sys =
  s_kernel :: kernel
  s_ports :: ports
  USER_MAPPED :: bool
  SERIAL_READY :: bool
  serial_log :: "u8 list"

datatype outcome = Ret u64 | Exited resume | Fault

section \<open>User memory\<close>

definition user_addr :: "machine \<Rightarrow> u64 \<Rightarrow> nat option" where
  "user_addr mc a = map_option (\<lambda>f. unat f + unat a mod 4096) (page_of mc a)"

definition user_addrs :: "machine \<Rightarrow> u64 \<Rightarrow> nat \<Rightarrow> nat list option" where
  "user_addrs mc a n = those (map (\<lambda>i. user_addr mc (a + of_nat i)) [0..<n])"

definition user_read :: "machine \<Rightarrow> u64 \<Rightarrow> nat \<Rightarrow> u8 list option" where
  "user_read mc a n = map_option (map (m_ram mc)) (user_addrs mc a n)"

definition user_write :: "machine \<Rightarrow> u64 \<Rightarrow> u8 list \<Rightarrow> machine option" where
  "user_write mc a bs =
     map_option (\<lambda>xs. mc\<lparr>m_ram := fold (\<lambda>(x, b) m. m(x := b)) (zip xs bs) (m_ram mc)\<rparr>) (user_addrs mc a (length bs))"

section \<open>Console output\<close>

definition write_byte :: "u8 \<Rightarrow> sys \<Rightarrow> sys" where
  "write_byte b st = (if \<not> SERIAL_READY st then st else st\<lparr>serial_log := serial_log st @ [b]\<rparr>)"

definition write_str :: "u8 list \<Rightarrow> sys \<Rightarrow> sys" where
  "write_str bs st = fold write_byte bs st"

section \<open>Dispatch\<close>

definition user_range :: "u64 \<Rightarrow> u64 \<Rightarrow> sys \<Rightarrow> bool" where
  "user_range p l st = user_range_mapped p l (k_machine (s_kernel st))"

text \<open>The layout of \<^verbatim>\<open>#[repr(C)] struct Event\<close>: two bytes, two of padding, four and eight.\<close>

definition event_bytes :: "u8 \<times> u8 \<Rightarrow> event \<Rightarrow> u8 list" where
  "event_bytes pad e = to_le (ev_kind e) @ [fst pad, snd pad] @ to_le (ev_source_pid e) @ to_le (ev_value e)"

definition sys_mmap :: "u64 \<Rightarrow> sys \<Rightarrow> outcome \<times> sys" where
  "sys_mmap a0 st =
     (if a0 \<noteq> USER_MMAP \<or> USER_MAPPED st then (Ret (- 1), st)
      else
        let k = s_kernel st; upd = (\<lambda>mc. st\<lparr>s_kernel := k\<lparr>k_machine := mc\<rparr>\<rparr>) in
        case alloc_zeroed_frame (k_machine k) of
          (None, mc) \<Rightarrow> (Ret (- 1), upd mc)
        | (Some phys, mc) \<Rightarrow>
            (case map_user_page USER_MMAP phys mc of
               (False, mc) \<Rightarrow> (case free_frame phys mc of None \<Rightarrow> (Fault, upd mc) | Some mc \<Rightarrow> (Ret (- 1), upd mc))
             | (True, mc) \<Rightarrow> (Ret USER_MMAP, (upd mc)\<lparr>USER_MAPPED := True\<rparr>)))"

definition sys_write :: "u64 \<Rightarrow> u64 \<Rightarrow> sys \<Rightarrow> outcome \<times> sys" where
  "sys_write a0 a1 st =
     (if a1 > 256 \<or> \<not> user_range a0 a1 st then (Ret (- 1), st)
      else case user_read (k_machine (s_kernel st)) a0 (unat a1) of
        None \<Rightarrow> (Fault, st)
      | Some bytes \<Rightarrow> if utf8_ok bytes then (Ret 0, write_str bytes st) else (Ret (- 1), st))"

definition sys_send :: "u64 \<Rightarrow> u64 \<Rightarrow> u64 \<Rightarrow> sys \<Rightarrow> outcome \<times> sys" where
  "sys_send a0 a1 a2 st =
     (if a0 \<le> 0xFFFF \<and> a1 \<le> 0xFFFF
      then case ipc_send (k_sched (s_kernel st)) (ucast a0) (ucast a1) a2 (s_ports st) of
        (ok, ps) \<Rightarrow> (Ret (if ok then 0 else - 1), st\<lparr>s_ports := ps\<rparr>)
      else (Ret (- 1), st))"

definition sys_recv :: "u8 \<times> u8 \<Rightarrow> u64 \<Rightarrow> u64 \<Rightarrow> sys \<Rightarrow> outcome \<times> sys" where
  "sys_recv pad a0 a1 st =
     (if \<not> user_range a1 16 st then (Ret (- 1), st)
      else case ipc_recv (current_pid (k_sched (s_kernel st))) (ucast a0) (s_ports st) of
        (None, ps) \<Rightarrow> (Ret (- 1), st\<lparr>s_ports := ps\<rparr>)
      | (Some e, ps) \<Rightarrow>
          let st = st\<lparr>s_ports := ps\<rparr>; k = s_kernel st in
          case user_write (k_machine k) a1 (event_bytes pad e) of
            None \<Rightarrow> (Fault, st)
          | Some mc \<Rightarrow> (Ret 0, st\<lparr>s_kernel := k\<lparr>k_machine := mc\<rparr>\<rparr>))"

definition sys_exit :: "layout \<Rightarrow> u64 \<Rightarrow> sys \<Rightarrow> outcome \<times> sys" where
  "sys_exit L frame st =
     (case on_exit L frame (k_sched (s_kernel st)) of
        (r, s) \<Rightarrow> (Exited r, st\<lparr>s_kernel := (s_kernel st)\<lparr>k_sched := s\<rparr>\<rparr>))"

definition pippin_syscall_dispatch ::
    "layout \<Rightarrow> u64 \<Rightarrow> u8 \<times> u8 \<Rightarrow> u64 \<Rightarrow> u64 \<Rightarrow> u64 \<Rightarrow> u64 \<Rightarrow> sys \<Rightarrow> outcome \<times> sys" where
  "pippin_syscall_dispatch L frame pad number a0 a1 a2 st =
     (if number = 0 then sys_exit L frame st
      else if number = 1 then sys_write a0 a1 st
      else if number = 2 then sys_mmap a0 st
      else if number = 3 then sys_send a0 a1 a2 st
      else if number = 4 then sys_recv pad a0 a1 st
      else (Ret (- 1), st))"

section \<open>Translations of user memory\<close>

lemma user_page_translates:
  assumes "user_page_mapped v mc"
  obtains f where "page_of mc v = Some f"
  using assms that by (auto simp: user_page_mapped_def page_of_def indices_simp Let_def split: if_splits)

lemma those_all: "\<forall>x \<in> set xs. f x \<noteq> None \<Longrightarrow> those (map f xs) = Some (map (\<lambda>x. the (f x)) xs)"
  by (induction xs) auto

lemma user_addrs_Some:
  assumes "\<And>i. i < n \<Longrightarrow> page_of mc (a + of_nat i) \<noteq> None"
  shows "user_addrs mc a n = Some (map (\<lambda>i. the (user_addr mc (a + of_nat i))) [0..<n])"
  unfolding user_addrs_def by (rule those_all) (use assms in \<open>auto simp: user_addr_def\<close>)

lemma user_addr_byte: "user_byte mc a = map_option (m_ram mc) (user_addr mc a)"
  by (simp add: user_byte_def user_addr_def option.map_comp o_def)

text \<open>Addresses inside owned pages translate to distinct bytes of the owned frames.\<close>

lemma owned_addr:
  assumes ok: "app_ok mc ms" and v: "addr_of a \<in> virts_of ms" "a < USER_TOP"
  obtains f where "(addr_of a, f) \<in> set ms" "user_addr mc a = Some (unat f + unat a mod 4096)"
    "(unat f + unat a mod 4096) div 4096 = frame_index f"
proof -
  obtain f where f: "(addr_of a, f) \<in> set ms" using v(1) by (auto simp: virts_of_def)
  note o = app_okD [OF ok f]
  have "page_of mc a = Some f"
    using leaf_at_page [OF o(8)] addr_of_or_flags(1) [OF o(4)] page_of_same_page [OF o(3) v(2), of mc]
    by (simp add: bit_simps PRESENT_def)
  then show ?thesis using that [OF f] frame_offset_div [OF o(4)] by (simp add: user_addr_def)
qed

lemma owned_addr_inj:
  assumes ok: "app_ok mc ms" and a: "addr_of a \<in> virts_of ms" "a < USER_TOP" and b: "addr_of b \<in> virts_of ms" "b < USER_TOP"
    and eq: "user_addr mc a = user_addr mc b"
  shows "a = b"
proof -
  obtain f where f: "(addr_of a, f) \<in> set ms" "user_addr mc a = Some (unat f + unat a mod 4096)"
      "(unat f + unat a mod 4096) div 4096 = frame_index f" by (rule owned_addr [OF ok a])
  obtain g where g: "(addr_of b, g) \<in> set ms" "user_addr mc b = Some (unat g + unat b mod 4096)"
      "(unat g + unat b mod 4096) div 4096 = frame_index g" by (rule owned_addr [OF ok b])
  have "frame_index f = frame_index g" using f g eq by simp
  then have "(addr_of a, f) = (addr_of b, g)"
    using key_unique [of "\<lambda>m. frame_index (snd m)" ms, OF _ f(1) g(1)] ok by (simp add: app_ok_def)
  then have "unat a div 4096 * 4096 = unat b div 4096 * 4096" "unat a mod 4096 = unat b mod 4096"
    using f(2) g(2) eq unat_addr_of [of a] unat_addr_of [of b] by auto
  then have "unat a = unat b" by (metis div_mult_mod_eq)
  then show ?thesis by (simp add: word_unat_eq_iff)
qed

lemma fold_writes:
  assumes "distinct xs" "length bs = length xs"
  shows "i < length xs \<Longrightarrow> fold (\<lambda>(x, b) m. m(x := b)) (zip xs bs) m (xs ! i) = bs ! i"
    "y \<notin> set xs \<Longrightarrow> fold (\<lambda>(x, b) m. m(x := b)) (zip xs bs) m y = m y"
proof -
  show out: "fold (\<lambda>(x, b) m. m(x := b)) (zip xs bs) m y = m y" if "y \<notin> set xs" for xs bs y and m :: "'a \<Rightarrow> 'b"
    using that by (induction xs arbitrary: bs m) (auto simp: zip_Cons1 fun_upd_def split: list.splits)
  show "fold (\<lambda>(x, b) m. m(x := b)) (zip xs bs) m (xs ! i) = bs ! i" if "i < length xs"
    using assms that
  proof (induction xs arbitrary: bs m i)
    case (Cons x xs)
    then show ?case using out [of x xs "tl bs"] by (cases bs; cases i) (auto simp: fun_upd_def)
  qed simp
qed

lemma user_write_owned:
  assumes ok: "app_ok mc ms" and n: "length bs < 2 ^ 64"
    and own: "\<And>i. i < length bs \<Longrightarrow> addr_of (a + of_nat i) \<in> virts_of ms \<and> a + of_nat i < USER_TOP"
  obtains m' where "user_write mc a bs = Some (mc\<lparr>m_ram := m'\<rparr>)" "app_ok (mc\<lparr>m_ram := m'\<rparr>) ms"
    "pool (mc\<lparr>m_ram := m'\<rparr>) = pool mc" "\<And>w. w < USER_TOP \<Longrightarrow> page_of (mc\<lparr>m_ram := m'\<rparr>) w = page_of mc w"
    "user_read (mc\<lparr>m_ram := m'\<rparr>) a (length bs) = Some bs"
proof -
  define xs where "xs = map (\<lambda>i. the (user_addr mc (a + of_nat i))) [0..<length bs]"
  have so: "\<exists>f. (addr_of (a + of_nat i), f) \<in> set ms \<and> user_addr mc (a + of_nat i) = Some (xs ! i) \<and>
      xs ! i div 4096 = frame_index f" if i: "i < length bs" for i
  proof -
    obtain f where "(addr_of (a + of_nat i), f) \<in> set ms"
        "user_addr mc (a + of_nat i) = Some (unat f + unat (a + of_nat i) mod 4096)"
        "(unat f + unat (a + of_nat i) mod 4096) div 4096 = frame_index f"
      by (rule owned_addr [OF ok conjunct1 [OF own [OF i]] conjunct2 [OF own [OF i]]])
    moreover have "xs ! i = the (user_addr mc (a + of_nat i))" using i by (simp add: xs_def)
    ultimately show ?thesis by (intro exI [of _ f]) simp
  qed
  have pg: "page_of mc (a + of_nat i) \<noteq> None" if "i < length bs" for i using so [OF that] by (auto simp: user_addr_def)
  have ua: "user_addrs mc a (length bs) = Some xs" unfolding xs_def by (rule user_addrs_Some [OF pg])
  have "distinct xs"
    unfolding distinct_conv_nth
  proof (intro allI impI)
    fix i j assume ij: "i < length xs" "j < length xs" "i \<noteq> j"
    then have l: "i < length bs" "j < length bs" by (simp_all add: xs_def)
    show "xs ! i \<noteq> xs ! j"
    proof
      assume "xs ! i = xs ! j"
      then have eq: "user_addr mc (a + of_nat i) = user_addr mc (a + of_nat j)" using so [OF l(1)] so [OF l(2)] by auto
      have "a + of_nat i = a + of_nat j"
        by (rule owned_addr_inj [OF ok _ _ _ _ eq]) (use own l in blast)+
      then have "(of_nat i :: u64) = of_nat j" by simp
      then have "unat (of_nat i :: u64) = unat (of_nat j :: u64)" by simp
      moreover have "i < 2 ^ 64" "j < 2 ^ 64" using l n by linarith+
      ultimately show False using ij(3) by (simp add: unat_of_nat)
    qed
  qed
  note fw = fold_writes [OF this, where bs = bs and m = "m_ram mc"]
  define m' where "m' = fold (\<lambda>(x, b) m. m(x := b)) (zip xs bs) (m_ram mc)"
  have len: "length bs = length xs" by (simp add: xs_def)
  have out: "m' x = m_ram mc x" if x: "x div 4096 \<notin> frames_of ms" for x
  proof -
    have "xs ! i div 4096 \<in> frames_of ms" if "i < length xs" for i using so [of i] that len by (force simp: frames_of_def)
    then have "x \<notin> set xs" using x by (auto simp: in_set_conv_nth)
    then show ?thesis using fw(2) [OF len] by (simp add: m'_def)
  qed
  note r = app_ram [of mc ms m', OF ok out]
  have "user_addr (mc\<lparr>m_ram := m'\<rparr>) (a + of_nat i) = user_addr mc (a + of_nat i)" if "i \<in> set [0..<length bs]" for i
    using r(3) own that by (simp add: user_addr_def)
  then have "map (\<lambda>i. user_addr (mc\<lparr>m_ram := m'\<rparr>) (a + of_nat i)) [0..<length bs] =
      map (\<lambda>i. user_addr mc (a + of_nat i)) [0..<length bs]" by (rule map_cong [OF refl])
  then have "user_addrs (mc\<lparr>m_ram := m'\<rparr>) a (length bs) = Some xs" using ua by (simp only: user_addrs_def)
  moreover have "map m' xs = bs" by (rule nth_equalityI) (use fw(1) [OF len] len in \<open>simp_all add: m'_def\<close>)
  ultimately have "user_read (mc\<lparr>m_ram := m'\<rparr>) a (length bs) = Some bs" by (simp add: user_read_def)
  moreover have "user_write mc a bs = Some (mc\<lparr>m_ram := m'\<rparr>)" using ua by (simp add: user_write_def m'_def)
  ultimately show ?thesis using that r by blast
qed

section \<open>Every call is safe\<close>

text \<open>\<open>ms\<close> are the pages user mode owns: those of the application and the one of the memory call.\<close>

definition sys_ok :: "sys \<Rightarrow> mapping list \<Rightarrow> bool" where
  "sys_ok st ms \<longleftrightarrow> sched_inv (k_sched (s_kernel st)) \<and> wf_ports (s_ports st) \<and> app_ok (k_machine (s_kernel st)) ms \<and>
     (\<forall>v. user_page_mapped v (k_machine (s_kernel st)) \<longrightarrow> addr_of v \<in> virts_of ms) \<and>
     (\<not> USER_MAPPED st \<longrightarrow> USER_MMAP \<notin> virts_of ms)"

definition unchanged :: "sys \<Rightarrow> sys \<Rightarrow> bool" where
  "unchanged st st' \<longleftrightarrow> s_ports st' = s_ports st \<and> serial_log st' = serial_log st \<and> USER_MAPPED st' = USER_MAPPED st \<and>
     k_sched (s_kernel st') = k_sched (s_kernel st) \<and>
     pool (k_machine (s_kernel st')) = pool (k_machine (s_kernel st)) \<and>
     (\<forall>w < USER_TOP. page_of (k_machine (s_kernel st')) w = page_of (k_machine (s_kernel st)) w)"

definition call_ok :: "sys \<Rightarrow> mapping list \<Rightarrow> outcome \<times> sys \<Rightarrow> bool" where
  "call_ok st ms R \<longleftrightarrow> (case R of (r, st') \<Rightarrow>
     r \<noteq> Fault \<and> r \<noteq> Exited Panicked \<and> wf_ports (s_ports st') \<and>
     (\<exists>ms'. set ms \<subseteq> set ms' \<and> virts_of ms' \<subseteq> insert USER_MMAP (virts_of ms) \<and> app_ok (k_machine (s_kernel st')) ms' \<and>
        pool (k_machine (s_kernel st')) \<union> frames_of ms' = pool (k_machine (s_kernel st)) \<union> frames_of ms) \<and>
     (r = Ret (- 1) \<longrightarrow> unchanged st st'))"

lemma unchanged_refl [simp]: "unchanged st st"
  by (simp add: unchanged_def)

lemma call_okI:
  assumes "sys_ok st ms" "r \<noteq> Fault" "r \<noteq> Exited Panicked" "wf_ports (s_ports st')"
    and "k_machine (s_kernel st') = k_machine (s_kernel st)" "r = Ret (- 1) \<Longrightarrow> unchanged st st'"
  shows "call_ok st ms (r, st')"
  using assms by (auto simp: call_ok_def sys_ok_def intro!: exI [of _ ms])

lemma user_range_owned:
  assumes "sys_ok st ms" "user_range a n st" "i < unat n"
  shows "addr_of (a + of_nat i) \<in> virts_of ms" "a + of_nat i < USER_TOP"
proof -
  have m: "user_page_mapped (a + of_nat i) (k_machine (s_kernel st))"
    using assms(2,3) by (simp add: user_range_def user_range_bytes)
  then show "addr_of (a + of_nat i) \<in> virts_of ms" using assms(1) by (simp add: sys_ok_def)
  show "a + of_nat i < USER_TOP" using m by (simp add: user_page_mapped_def not_le split: if_splits)
qed

lemma user_range_reads:
  assumes "user_range a n st"
  obtains bs where "user_read (k_machine (s_kernel st)) a (unat n) = Some bs" "length bs = unat n"
proof -
  have "page_of (k_machine (s_kernel st)) (a + of_nat i) \<noteq> None" if "i < unat n" for i
  proof -
    have "user_page_mapped (a + of_nat i) (k_machine (s_kernel st))"
      using assms that by (simp add: user_range_def user_range_bytes)
    then show ?thesis by (rule user_page_translates) simp
  qed
  from user_addrs_Some [OF this] show ?thesis using that by (simp add: user_read_def)
qed

lemma write_str_log:
  "write_str bs st = st\<lparr>serial_log := serial_log st @ (if SERIAL_READY st then bs else [])\<rparr>"
  unfolding write_str_def by (induction bs arbitrary: st) (simp_all add: write_byte_def)

lemma sys_write_ok:
  assumes "sys_ok st ms"
  shows "call_ok st ms (sys_write a0 a1 st)"
proof (cases "a1 > 256 \<or> \<not> user_range a0 a1 st")
  case True
  then show ?thesis using assms by (auto simp: sys_write_def sys_ok_def intro!: call_okI)
next
  case False
  then obtain bs where "user_read (k_machine (s_kernel st)) a0 (unat a1) = Some bs" using user_range_reads by blast
  then show ?thesis using False assms by (auto simp: sys_write_def write_str_log sys_ok_def intro!: call_okI)
qed

lemma send_as_rejected: "fst (send_as i k v p ps) = False \<Longrightarrow> snd (send_as i k v p ps) = ps"
  by (auto simp: send_as_def port_push_def split: if_splits prod.splits)

lemma recv_nothing: "fst (ipc_recv cur i ps) = None \<Longrightarrow> snd (ipc_recv cur i ps) = ps"
  by (auto simp: ipc_recv_def port_pop_def Let_def split: if_splits prod.splits)

lemma sys_send_ok:
  assumes "sys_ok st ms"
  shows "call_ok st ms (sys_send a0 a1 a2 st)"
proof (cases "a0 \<le> 0xFFFF \<and> a1 \<le> 0xFFFF")
  case False
  then show ?thesis using assms by (auto simp: sys_send_def sys_ok_def intro!: call_okI)
next
  case True
  obtain ok ps where r: "ipc_send (k_sched (s_kernel st)) (ucast a0) (ucast a1) a2 (s_ports st) = (ok, ps)" by fastforce
  have "wf_ports ps" using wf_send_as [of "s_ports st"] r assms by (metis ipc_send_def snd_conv sys_ok_def)
  moreover have "\<not> ok \<Longrightarrow> ps = s_ports st" using send_as_rejected r by (metis fst_conv ipc_send_def snd_conv)
  ultimately show ?thesis using True r assms
    by (auto simp: sys_send_def unchanged_def intro!: call_okI)
qed

lemma sys_exit_ok:
  assumes "sys_ok st ms"
  shows "call_ok st ms (sys_exit L frame st)"
proof -
  obtain r s where e: "on_exit L frame (k_sched (s_kernel st)) = (r, s)" by fastforce
  have "sched_inv (k_sched (s_kernel st))" using assms by (simp add: sys_ok_def)
  from schedule_cases [OF this e [unfolded on_exit_def]] have "r \<noteq> Panicked" by (auto split: list.splits if_splits)
  then show ?thesis using assms e by (auto simp: sys_exit_def sys_ok_def intro!: call_okI)
qed

lemma USER_MMAP_page: "USER_MMAP < USER_TOP" "aligned USER_MMAP"
  by (simp_all add: USER_MMAP_def USER_TOP_def aligned_def)

lemma sys_mmap_cases:
  assumes st: "sys_ok st ms"
  obtains (refused) "sys_mmap a0 st = (Ret (- 1), st)"
  | (failed) mc where "sys_mmap a0 st = (Ret (- 1), st\<lparr>s_kernel := (s_kernel st)\<lparr>k_machine := mc\<rparr>\<rparr>)" "app_ok mc ms"
      "pool mc = pool (k_machine (s_kernel st))" "\<And>w. w < USER_TOP \<Longrightarrow> page_of mc w = page_of (k_machine (s_kernel st)) w"
  | (mapped) f mc where "a0 = USER_MMAP" "\<not> USER_MAPPED st"
      "sys_mmap a0 st = (Ret USER_MMAP, st\<lparr>s_kernel := (s_kernel st)\<lparr>k_machine := mc\<rparr>, USER_MAPPED := True\<rparr>)"
      "app_ok mc (ms @ [(USER_MMAP, f)])" "pool mc = pool (k_machine (s_kernel st)) - {frame_index f}"
      "frame_index f \<in> pool (k_machine (s_kernel st))"
      "\<And>w. w < USER_TOP \<Longrightarrow> page_of mc w = (if addr_of w = USER_MMAP then Some f else page_of (k_machine (s_kernel st)) w)"
      "\<And>a. a div 4096 = frame_index f \<Longrightarrow> m_ram mc a = 0"
proof (cases "a0 \<noteq> USER_MMAP \<or> USER_MAPPED st")
  case True
  then show ?thesis using refused by (auto simp: sys_mmap_def)
next
  case False
  let ?mc = "k_machine (s_kernel st)"
  have ok: "app_ok ?mc ms" and nv: "USER_MMAP \<notin> virts_of ms" using st False by (simp_all add: sys_ok_def)
  show ?thesis
    using ok USER_MMAP_page nv
  proof (cases rule: fresh_page_cases)
    case no_frame
    then show ?thesis using failed [of ?mc] ok False by (simp add: sys_mmap_def)
  next
    case (unmapped f mc1 mc2 mc')
    then show ?thesis using failed [of mc'] False by (simp add: sys_mmap_def)
  next
    case (given f mc1 mc')
    then show ?thesis using mapped [of mc' f] False by (simp add: sys_mmap_def)
  qed
qed

lemma sys_mmap_ok:
  assumes "sys_ok st ms"
  shows "call_ok st ms (sys_mmap a0 st)"
  using assms
proof (cases rule: sys_mmap_cases [of st ms a0])
  case refused
  then show ?thesis using assms by (auto simp: sys_ok_def intro!: call_okI)
next
  case (failed mc)
  then show ?thesis using assms by (auto simp: call_ok_def unchanged_def sys_ok_def intro!: exI [of _ ms])
next
  case (mapped f mc)
  then have "frames_of (ms @ [(USER_MMAP, f)]) = insert (frame_index f) (frames_of ms)"
    "virts_of (ms @ [(USER_MMAP, f)]) = insert USER_MMAP (virts_of ms)" by (auto simp: frames_of_def virts_of_def)
  then have "set ms \<subseteq> set (ms @ [(USER_MMAP, f)]) \<and> virts_of (ms @ [(USER_MMAP, f)]) \<subseteq> insert USER_MMAP (virts_of ms) \<and>
      app_ok mc (ms @ [(USER_MMAP, f)]) \<and>
      pool mc \<union> frames_of (ms @ [(USER_MMAP, f)]) = pool (k_machine (s_kernel st)) \<union> frames_of ms"
    using mapped(4-6) by auto
  moreover have "USER_MMAP \<noteq> - 1" by (simp add: USER_MMAP_def)
  ultimately show ?thesis using mapped(3) assms unfolding call_ok_def sys_ok_def
    by (simp del: set_append) blast
qed

text \<open>A delivery: the event leaves the queue and its bytes are in user memory.\<close>

lemma length_to_le [simp]: "length (to_le (w :: 'a::len word)) = LENGTH('a) div 8"
  by (simp add: to_le_def)

lemma length_event_bytes [simp]: "length (event_bytes pad e) = 16"
  by (simp add: event_bytes_def)

lemma sys_recv_cases:
  assumes st: "sys_ok st ms"
  obtains (refused) "sys_recv pad a0 a1 st = (Ret (- 1), st)"
  | (delivered) e ps m' where "user_range a1 16 st"
      "ipc_recv (current_pid (k_sched (s_kernel st))) (ucast a0) (s_ports st) = (Some e, ps)"
      "sys_recv pad a0 a1 st = (Ret 0, st\<lparr>s_ports := ps,
         s_kernel := (s_kernel st)\<lparr>k_machine := (k_machine (s_kernel st))\<lparr>m_ram := m'\<rparr>\<rparr>\<rparr>)"
      "app_ok ((k_machine (s_kernel st))\<lparr>m_ram := m'\<rparr>) ms"
      "pool ((k_machine (s_kernel st))\<lparr>m_ram := m'\<rparr>) = pool (k_machine (s_kernel st))"
      "user_read ((k_machine (s_kernel st))\<lparr>m_ram := m'\<rparr>) a1 16 = Some (event_bytes pad e)"
proof -
  obtain r ps where q: "ipc_recv (current_pid (k_sched (s_kernel st))) (ucast a0) (s_ports st) = (r, ps)" by fastforce
  show ?thesis
  proof (cases "user_range a1 16 st \<and> r \<noteq> None")
    case False
    have "ps = s_ports st" if "r = None" using recv_nothing q that by (metis fst_conv snd_conv)
    then show ?thesis using refused False q by (cases r) (auto simp: sys_recv_def)
  next
    case True
    then obtain e where e: "r = Some e" by blast
    have ok: "app_ok (k_machine (s_kernel st)) ms" using st by (simp add: sys_ok_def)
    have own: "addr_of (a1 + of_nat i) \<in> virts_of ms \<and> a1 + of_nat i < USER_TOP" if "i < length (event_bytes pad e)" for i
      using user_range_owned [OF st conjunct1 [OF True]] that by simp
    obtain m' where m: "user_write (k_machine (s_kernel st)) a1 (event_bytes pad e) = Some ((k_machine (s_kernel st))\<lparr>m_ram := m'\<rparr>)"
        "app_ok ((k_machine (s_kernel st))\<lparr>m_ram := m'\<rparr>) ms"
        "pool ((k_machine (s_kernel st))\<lparr>m_ram := m'\<rparr>) = pool (k_machine (s_kernel st))"
        "user_read ((k_machine (s_kernel st))\<lparr>m_ram := m'\<rparr>) a1 (length (event_bytes pad e)) = Some (event_bytes pad e)"
      by (rule user_write_owned [OF ok _ own, where bs = "event_bytes pad e"]) simp_all
    then show ?thesis using delivered [OF _ _ _ m(2,3)] True q e by (simp add: sys_recv_def Let_def)
  qed
qed

lemma sys_recv_ok:
  assumes "sys_ok st ms"
  shows "call_ok st ms (sys_recv pad a0 a1 st)"
  using assms
proof (cases rule: sys_recv_cases [of st ms pad a0 a1])
  case refused
  then show ?thesis using assms by (auto simp: sys_ok_def intro!: call_okI)
next
  case (delivered e ps m')
  have "wf_ports ps" using wf_recv [of "s_ports st"] delivered(2) assms by (metis snd_conv sys_ok_def)
  then show ?thesis using delivered(3-5) by (auto simp: call_ok_def intro!: exI [of _ ms])
qed

section \<open>Properties of the system calls\<close>


text \<open>Receiving through call 4 delivers: when it returns zero the oldest event of a port the caller owns
  has left the queue and its sixteen bytes are readable at the caller's address; it
  fails exactly when the buffer is not user memory or the port has nothing for the caller.\<close>

theorem syscall_recv_delivers:
  assumes "sys_ok st ms"
  shows "case pippin_syscall_dispatch L frame pad 4 a0 a1 a2 st of (r, st') \<Rightarrow>
    (case ipc_recv (current_pid (k_sched (s_kernel st))) (ucast a0) (s_ports st) of
       (Some e, ps) \<Rightarrow>
         if user_range a1 16 st
         then r = Ret 0 \<and> s_ports st' = ps \<and> user_read (k_machine (s_kernel st')) a1 16 = Some (event_bytes pad e)
         else r = Ret (- 1) \<and> st' = st
     | (None, ps) \<Rightarrow> r = Ret (- 1) \<and> st' = st)"
proof -
  have d: "pippin_syscall_dispatch L frame pad 4 a0 a1 a2 st = sys_recv pad a0 a1 st" by (simp add: pippin_syscall_dispatch_def)
  note rn = recv_nothing [of "current_pid (k_sched (s_kernel st))" "ucast a0" "s_ports st"]
  from assms show ?thesis
  proof (cases rule: sys_recv_cases [of st ms pad a0 a1])
    case refused
    then show ?thesis using rn by (auto simp: d) (auto simp: sys_recv_def Let_def split: if_splits prod.splits option.splits)
  next
    case (delivered e ps m')
    then show ?thesis by (simp add: d)
  qed
qed

text \<open>The call numbers differ in how they treat a port number that does not fit sixteen bits: sending rejects
  it, receiving truncates it and answers for another port.\<close>

lemma syscall_recv_truncates:
  "sys_recv pad (a0 + 0x10000) a1 st = sys_recv pad a0 a1 st"
  "a0 > 0xFFFF \<Longrightarrow> sys_send a0 a1 a2 st = (Ret (- 1), st)"
proof -
  have "(ucast (a0 + 0x10000) :: u16) = ucast a0" by transfer (simp add: take_bit_eq_mod mod_mod_cancel)
  then show "sys_recv pad (a0 + 0x10000) a1 st = sys_recv pad a0 a1 st" by (simp add: sys_recv_def)
qed (auto simp: sys_send_def)

section \<open>A concrete call\<close>

definition demo_sys :: sys where
  "demo_sys = \<lparr>s_kernel = demo_kernel, s_ports = ports_statics, USER_MAPPED = False, SERIAL_READY = True, serial_log = []\<rparr>"

lemma demo_unmapped: "\<not> user_page_mapped v (k_machine demo_kernel)"
  by (simp add: user_page_mapped_def pte_def demo_kernel_def read64_def read_bytes_def from_le_def upt_rec Let_def)

lemma demo_sys_ok: "sys_ok demo_sys []"
  using demo_kernel_ok demo_unmapped wf_ports_statics
  by (simp add: sys_ok_def demo_sys_def kernel_ok_def) (simp add: demo_kernel_def active_def virts_of_def)


theorem syscall_recv_delivers_witness:
  "pippin_syscall_dispatch demo_layout 0x777 (0, 0) 4 1 0x100000000 0 demo_sys = (Ret (- 1), demo_sys)"
proof -
  obtain r ps where q: "ipc_recv (current_pid (k_sched (s_kernel demo_sys))) (ucast (1 :: u64)) (s_ports demo_sys) = (r, ps)" by fastforce
  have "\<not> user_range 0x100000000 16 demo_sys"
    using demo_unmapped by (simp add: user_range_def demo_sys_def user_range_bytes) (metis zero_less_numeral)
  then show ?thesis
    using syscall_recv_delivers [OF demo_sys_ok, where L = demo_layout and frame = "0x777" and
        pad = "(0, 0)" and ?a0.0 = 1 and ?a1.0 = "0x100000000" and ?a2.0 = 0, unfolded q]
    by (cases r) (auto split: prod.splits)
qed

end
