(* ===== verification/Raster.thy ===== *)
theory Raster
  imports Rust_Text
begin

text \<open>
  Pixel buffers: the screen size and the built-in font of \<^verbatim>\<open>compositor.rs\<close> and the drawing
  primitives of \<^verbatim>\<open>window_server.rs\<close>. A buffer is a list of \<^verbatim>\<open>u32\<close> pixels, row by row;
  writing outside it is the index panic of the source, the value \<open>None\<close>.
\<close>

definition WIDTH :: nat where "WIDTH = 1024"
definition HEIGHT :: nat where "HEIGHT = 768"

type_synonym pixels = "u32 list"

definition glyph :: "char \<Rightarrow> nat list" where
  "glyph c =
     (if c = CHR ''A'' then [14, 17, 17, 31, 17, 17, 17]
      else if c = CHR ''B'' then [30, 17, 17, 30, 17, 17, 30]
      else if c = CHR ''C'' then [14, 17, 16, 16, 16, 17, 14]
      else if c = CHR ''D'' then [30, 17, 17, 17, 17, 17, 30]
      else if c = CHR ''E'' then [31, 16, 16, 30, 16, 16, 31]
      else if c = CHR ''F'' then [31, 16, 16, 30, 16, 16, 16]
      else if c = CHR ''G'' then [14, 17, 16, 23, 17, 17, 14]
      else if c = CHR ''H'' then [17, 17, 17, 31, 17, 17, 17]
      else if c = CHR ''I'' then [31, 4, 4, 4, 4, 4, 31]
      else if c = CHR ''J'' then [7, 2, 2, 2, 18, 18, 12]
      else if c = CHR ''K'' then [17, 18, 20, 24, 20, 18, 17]
      else if c = CHR ''L'' then [16, 16, 16, 16, 16, 16, 31]
      else if c = CHR ''M'' then [17, 27, 21, 21, 17, 17, 17]
      else if c = CHR ''N'' then [17, 25, 21, 19, 17, 17, 17]
      else if c = CHR ''O'' then [14, 17, 17, 17, 17, 17, 14]
      else if c = CHR ''P'' then [30, 17, 17, 30, 16, 16, 16]
      else if c = CHR ''Q'' then [14, 17, 17, 17, 21, 18, 13]
      else if c = CHR ''R'' then [30, 17, 17, 30, 20, 18, 17]
      else if c = CHR ''S'' then [15, 16, 16, 14, 1, 1, 30]
      else if c = CHR ''T'' then [31, 4, 4, 4, 4, 4, 4]
      else if c = CHR ''U'' then [17, 17, 17, 17, 17, 17, 14]
      else if c = CHR ''V'' then [17, 17, 17, 17, 17, 10, 4]
      else if c = CHR ''W'' then [17, 17, 17, 21, 21, 21, 10]
      else if c = CHR ''X'' then [17, 17, 10, 4, 10, 17, 17]
      else if c = CHR ''Y'' then [17, 17, 10, 4, 4, 4, 4]
      else if c = CHR ''Z'' then [31, 1, 2, 4, 8, 16, 31]
      else [0, 0, 0, 0, 0, 0, 0])"

text \<open>A \<^verbatim>\<open>for\<close> loop whose body may panic.\<close>

fun for_each :: "('a \<Rightarrow> 's \<Rightarrow> 's option) \<Rightarrow> 'a list \<Rightarrow> 's \<Rightarrow> 's option" where
  "for_each f [] s = Some s"
| "for_each f (x # xs) s = (case f x s of None \<Rightarrow> None | Some s \<Rightarrow> for_each f xs s)"

definition put_pixel :: "nat \<Rightarrow> u32 \<Rightarrow> pixels \<Rightarrow> pixels option" where
  "put_pixel i c px = (if i < length px then Some (px[i := c]) else None)"

definition add32 :: "int \<Rightarrow> int \<Rightarrow> int" where "add32 a b = i32_wrap (a + b)"
definition sub32 :: "int \<Rightarrow> int \<Rightarrow> int" where "sub32 a b = i32_wrap (a - b)"
definition mul32 :: "int \<Rightarrow> int \<Rightarrow> int" where "mul32 a b = i32_wrap (a * b)"

text \<open>Division rounds towards zero.\<close>

definition div32 :: "int \<Rightarrow> int \<Rightarrow> int" where
  "div32 a b = sgn a * sgn b * (\<bar>a\<bar> div \<bar>b\<bar>)"

definition draw_fill :: "int \<Rightarrow> int \<Rightarrow> int \<Rightarrow> int \<Rightarrow> u32 \<Rightarrow> pixels \<Rightarrow> pixels option" where
  "draw_fill x y w h color px =
     for_each (\<lambda>row. for_each (\<lambda>col. put_pixel (nat row * WIDTH + nat col) color)
         [max x 0..min (add32 x w) (int WIDTH) - 1])
       [max y 0..min (add32 y h) (int HEIGHT) - 1] px"

definition draw_glyph :: "int \<Rightarrow> int \<Rightarrow> u32 \<Rightarrow> nat list \<Rightarrow> pixels \<Rightarrow> pixels option" where
  "draw_glyph x y color bitmap px =
     for_each (\<lambda>(row, bits). for_each (\<lambda>col px.
          if bit (bits :: nat) (4 - col) then draw_fill (add32 x (int col)) (add32 y (int row)) 1 1 color px else Some px) [0..<5])
       (enumerate 0 bitmap) px"

definition draw_text :: "int \<Rightarrow> int \<Rightarrow> string \<Rightarrow> u32 \<Rightarrow> nat \<Rightarrow> pixels \<Rightarrow> pixels option" where
  "draw_text x y label color max_chars px =
     for_each (\<lambda>(index, byte). draw_glyph (add32 x (mul32 (int index) 7)) y color (glyph (to_ascii_uppercase byte)))
       (enumerate 0 (take max_chars label)) px"

section \<open>What drawing does\<close>

definition screen :: "pixels \<Rightarrow> bool" where
  "screen px \<longleftrightarrow> length px = WIDTH * HEIGHT"

definition pixel_at :: "pixels \<Rightarrow> int \<Rightarrow> int \<Rightarrow> u32" where
  "pixel_at px x y = px ! (nat y * WIDTH + nat x)"

definition on_screen :: "int \<Rightarrow> int \<Rightarrow> bool" where
  "on_screen x y \<longleftrightarrow> 0 \<le> x \<and> x < int WIDTH \<and> 0 \<le> y \<and> y < int HEIGHT"

text \<open>A drawing step that never panics and changes pixels only inside a region, and there to what \<open>v\<close> says.\<close>

definition paints :: "(int \<Rightarrow> int \<Rightarrow> u32 option) \<Rightarrow> (pixels \<Rightarrow> pixels option) \<Rightarrow> bool" where
  "paints v d \<longleftrightarrow> (\<forall>px. screen px \<longrightarrow> (\<exists>px'. d px = Some px' \<and> screen px' \<and>
     (\<forall>x y. on_screen x y \<longrightarrow> pixel_at px' x y = (case v x y of None \<Rightarrow> pixel_at px x y | Some c \<Rightarrow> c))))"

lemma paintsD:
  assumes "paints v d" "screen px"
  obtains px' where "d px = Some px'" "screen px'"
    "\<And>x y. on_screen x y \<Longrightarrow> pixel_at px' x y = (case v x y of None \<Rightarrow> pixel_at px x y | Some c \<Rightarrow> c)"
  using assms unfolding paints_def by blast

lemma paints_none: "paints (\<lambda>_ _. None) Some"
  by (simp add: paints_def)

lemma paints_seq:
  assumes "paints v d" "paints w e"
  shows "paints (\<lambda>x y. case w x y of None \<Rightarrow> v x y | Some c \<Rightarrow> Some c) (\<lambda>px. case d px of None \<Rightarrow> None | Some px \<Rightarrow> e px)"
  unfolding paints_def
proof (intro allI impI)
  fix px assume s: "screen px"
  obtain p1 where p1: "d px = Some p1" "screen p1"
      "\<And>x y. on_screen x y \<Longrightarrow> pixel_at p1 x y = (case v x y of None \<Rightarrow> pixel_at px x y | Some c \<Rightarrow> c)"
    using paintsD [OF assms(1) s] by blast
  obtain p2 where p2: "e p1 = Some p2" "screen p2"
      "\<And>x y. on_screen x y \<Longrightarrow> pixel_at p2 x y = (case w x y of None \<Rightarrow> pixel_at p1 x y | Some c \<Rightarrow> c)"
    using paintsD [OF assms(2) p1(2)] by blast
  show "\<exists>px'. (case d px of None \<Rightarrow> None | Some px \<Rightarrow> e px) = Some px' \<and> screen px' \<and> (\<forall>x y. on_screen x y \<longrightarrow>
      pixel_at px' x y = (case case w x y of None \<Rightarrow> v x y | Some c \<Rightarrow> Some c of None \<Rightarrow> pixel_at px x y | Some c \<Rightarrow> c))"
    using p1 p2 by (auto split: option.splits)
qed

text \<open>A loop of painting steps; the last step that covers a pixel decides.\<close>

fun last_of :: "('a \<Rightarrow> int \<Rightarrow> int \<Rightarrow> u32 option) \<Rightarrow> 'a list \<Rightarrow> int \<Rightarrow> int \<Rightarrow> u32 option" where
  "last_of v [] x y = None"
| "last_of v (a # as) x y = (case last_of v as x y of None \<Rightarrow> v a x y | Some c \<Rightarrow> Some c)"

lemma paints_for_each: "\<forall>a \<in> set xs. paints (v a) (f a) \<Longrightarrow> paints (last_of v xs) (for_each f xs)"
proof (induction xs)
  case Nil
  then show ?case by (simp add: paints_def)
next
  case (Cons a xs)
  then have "paints (v a) (f a)" "paints (last_of v xs) (for_each f xs)" by simp_all
  from paints_seq [OF this] show ?case by (simp add: paints_def)
qed

lemma last_of_None: "last_of v xs x y = None \<longleftrightarrow> (\<forall>a \<in> set xs. v a x y = None)"
  by (induction xs) (auto split: option.splits)

lemma last_of_uniform:
  "\<forall>a \<in> set xs. v a x y = None \<or> v a x y = Some k \<Longrightarrow>
   last_of v xs x y = (if \<exists>a \<in> set xs. v a x y = Some k then Some k else None)"
  by (induction xs) (auto split: option.splits if_splits)

lemma pixel_index:
  assumes "on_screen x y" "on_screen u v"
  shows "nat y * WIDTH + nat x = nat v * WIDTH + nat u \<longleftrightarrow> x = u \<and> y = v"
proof -
  have b: "nat x < WIDTH" "nat u < WIDTH" using assms by (auto simp: on_screen_def WIDTH_def)
  have "nat y = nat v \<and> nat x = nat u" if "nat y * WIDTH + nat x = nat v * WIDTH + nat u"
    using arg_cong [OF that, of "\<lambda>k. k div WIDTH"] arg_cong [OF that, of "\<lambda>k. k mod WIDTH"] b by simp
  then show ?thesis using assms by (auto simp: on_screen_def)
qed

lemma paints_pixel:
  assumes "on_screen x y"
  shows "paints (\<lambda>u v. if u = x \<and> v = y then Some c else None) (put_pixel (nat y * WIDTH + nat x) c)"
  unfolding paints_def
proof (intro allI impI)
  fix px assume s: "screen px"
  have "nat y < HEIGHT" "nat x < WIDTH" using assms by (auto simp: on_screen_def)
  then have "nat y * WIDTH + nat x < length px"
    using s by (simp add: screen_def WIDTH_def HEIGHT_def)
  then show "\<exists>px'. put_pixel (nat y * WIDTH + nat x) c px = Some px' \<and> screen px' \<and> (\<forall>u v. on_screen u v \<longrightarrow>
      pixel_at px' u v = (case if u = x \<and> v = y then Some c else None of None \<Rightarrow> pixel_at px u v | Some c \<Rightarrow> c))"
    using s pixel_index [OF assms] by (auto simp: put_pixel_def screen_def pixel_at_def nth_list_update)
qed

definition in_rect :: "int \<Rightarrow> int \<Rightarrow> int \<Rightarrow> int \<Rightarrow> int \<Rightarrow> int \<Rightarrow> bool" where
  "in_rect x y w h u v \<longleftrightarrow> x \<le> u \<and> u < x + w \<and> y \<le> v \<and> v < y + h"

lemma paints_cong: "paints v d \<Longrightarrow> (\<And>x y. on_screen x y \<Longrightarrow> v x y = w x y) \<Longrightarrow> paints w d"
  by (simp add: paints_def)

lemma paints_fill:
  "paints (\<lambda>u v. if x \<le> u \<and> u < add32 x w \<and> y \<le> v \<and> v < add32 y h then Some c else None) (draw_fill x y w h c)"
proof -
  let ?cols = "[max x 0..min (add32 x w) (int WIDTH) - 1]" and ?rows = "[max y 0..min (add32 y h) (int HEIGHT) - 1]"
  let ?p = "\<lambda>row col u v. if u = col \<and> v = row then Some c else None"
  have r: "paints (last_of (?p row) ?cols) (for_each (\<lambda>col. put_pixel (nat row * WIDTH + nat col) c) ?cols)"
    if "row \<in> set ?rows" for row
    by (rule paints_for_each) (use that in \<open>auto intro!: paints_pixel simp: on_screen_def\<close>)
  have all: "paints (last_of (\<lambda>row. last_of (?p row) ?cols) ?rows) (draw_fill x y w h c)"
    unfolding draw_fill_def [abs_def] by (rule paints_for_each, rule ballI, rule r)
  have row: "last_of (?p row) ?cols u v = (if v = row \<and> max x 0 \<le> u \<and> u < min (add32 x w) (int WIDTH) then Some c else None)" for row u v
    by (subst last_of_uniform [where k = c]) auto
  show ?thesis
    by (rule paints_cong [OF all], subst last_of_uniform [where k = c]) (auto simp: row on_screen_def)
qed

text \<open>Drawing confined to a region.\<close>

definition confined :: "(int \<Rightarrow> int \<Rightarrow> bool) \<Rightarrow> (pixels \<Rightarrow> pixels option) \<Rightarrow> bool" where
  "confined R d \<longleftrightarrow> (\<exists>v. paints v d \<and> (\<forall>x y. v x y \<noteq> None \<longrightarrow> R x y))"

lemma confined_mono: "confined R d \<Longrightarrow> (\<And>x y. R x y \<Longrightarrow> S x y) \<Longrightarrow> confined S d"
  unfolding confined_def by blast

lemma confined_Some: "confined R Some"
  using paints_none by (auto simp: confined_def)

lemma confined_for_each:
  assumes "\<forall>a \<in> set xs. confined R (f a)"
  shows "confined R (for_each f xs)"
proof -
  from assms obtain v where v: "\<forall>a \<in> set xs. paints (v a) (f a) \<and> (\<forall>x y. v a x y \<noteq> None \<longrightarrow> R x y)"
    unfolding confined_def by metis
  then have "paints (last_of v xs) (for_each f xs)" by (intro paints_for_each) blast
  moreover have "R x y" if "last_of v xs x y \<noteq> None" for x y using that v unfolding last_of_None by blast
  ultimately show ?thesis unfolding confined_def by blast
qed

lemma confined_fill:
  "(\<And>u v. x \<le> u \<Longrightarrow> u < add32 x w \<Longrightarrow> y \<le> v \<Longrightarrow> v < add32 y h \<Longrightarrow> R u v) \<Longrightarrow> confined R (draw_fill x y w h c)"
  using paints_fill unfolding confined_def by (intro exI conjI, assumption) (auto split: if_splits)

lemma confined_glyph:
  assumes "length bitmap \<le> 7" "- 2147483648 \<le> y" "y + 7 < 2147483648"
  shows "confined (\<lambda>u v. y \<le> v \<and> v < y + 7) (draw_glyph x y c bitmap)"
  unfolding draw_glyph_def [abs_def]
proof (intro confined_for_each ballI)
  fix rb assume "rb \<in> set (enumerate 0 bitmap)"
  then have "fst rb < 7" using assms(1) by (simp add: in_set_enumerate_eq)
  then obtain row bits where rb: "rb = (row, bits)" "row < 7" by (cases rb) simp
  show "confined (\<lambda>u v. y \<le> v \<and> v < y + 7)
      (case rb of (row, bits) \<Rightarrow> for_each (\<lambda>col px. if bit bits (4 - col) then draw_fill (add32 x (int col)) (add32 y (int row)) 1 1 c px
         else Some px) [0..<5])"
    unfolding rb(1) prod.case
  proof (intro confined_for_each ballI)
    fix col
    have "confined (\<lambda>u v. y \<le> v \<and> v < y + 7) (draw_fill (add32 x (int col)) (add32 y (int row)) 1 1 c)"
      by (rule confined_fill) (use rb(2) assms(2,3) in \<open>auto simp: add32_def\<close>)
    then show "confined (\<lambda>u v. y \<le> v \<and> v < y + 7)
        (\<lambda>px. if bit bits (4 - col) then draw_fill (add32 x (int col)) (add32 y (int row)) 1 1 c px else Some px)"
      using confined_Some by (cases "bit bits (4 - col)") simp_all
  qed
qed

lemma length_glyph [simp]: "length (glyph c) = 7"
  by (simp add: glyph_def)

lemma confined_text:
  assumes "- 2147483648 \<le> y" "y + 7 < 2147483648"
  shows "confined (\<lambda>u v. y \<le> v \<and> v < y + 7) (draw_text x y label c n)"
  unfolding draw_text_def [abs_def]
proof (intro confined_for_each ballI)
  fix ib :: "nat \<times> char"
  show "confined (\<lambda>u v. y \<le> v \<and> v < y + 7)
      (case ib of (index, byte) \<Rightarrow> draw_glyph (add32 x (mul32 (int index) 7)) y c (glyph (to_ascii_uppercase byte)))"
    by (cases ib) (simp add: confined_glyph assms)
qed

end
