(* ===== verification/Window_Server.thy ===== *)
theory Window_Server
  imports Raster
begin

text \<open>
  The window server (\<^verbatim>\<open>window_server.rs\<close>): windows of client programs, driven by the lines of a text
  protocol and by pointer packets. \<open>validate\<close> and \<open>command\<close> are the two readings of a line, \<open>pointer\<close>
  and \<open>key\<close> turn input into events, \<open>paint\<close> draws the windows back to front. \<^verbatim>\<open>i32\<close> values are \<open>int\<close>
  with the wrap-around of every unchecked operation written out.
\<close>

definition MAX_WINDOWS :: nat where "MAX_WINDOWS = 8"
definition MAX_WIDTH :: int where "MAX_WIDTH = 600"
definition MAX_HEIGHT :: int where "MAX_HEIGHT = 440"
definition TITLE_HEIGHT :: int where "TITLE_HEIGHT = 44"
definition BORDER :: int where "BORDER = 1"
definition FRAME :: u32 where "FRAME = 0x009aa2a8"
definition SURFACE :: u32 where "SURFACE = 0x00f7f7f5"
definition HEADER_ACTIVE :: u32 where "HEADER_ACTIVE = 0x00e9ecef"
definition HEADER_INACTIVE :: u32 where "HEADER_INACTIVE = 0x00dfe3e6"
definition INK :: u32 where "INK = 0x00252b31"
definition MUTED_INK :: u32 where "MUTED_INK = 0x006f777d"
definition CLOSE :: u32 where "CLOSE = 0x00d95d55"
definition SHADOW :: u32 where "SHADOW = 0x00151b22"

record wevent =
  we_id :: u32
  we_kind :: string
  we_a :: int
  we_b :: int

definition Event_new :: "u32 \<Rightarrow> string \<Rightarrow> int \<Rightarrow> int \<Rightarrow> wevent" where
  "Event_new i kind a b = \<lparr>we_id = i, we_kind = kind, we_a = a, we_b = b\<rparr>"

record window =
  w_id :: u32
  w_title :: string
  w_x :: int
  w_y :: int
  w_width :: int
  w_height :: int
  w_visible :: bool
  w_surface :: "u32 list"
  w_updating :: bool
  w_cursor :: nat

definition frame_width :: "window \<Rightarrow> int" where
  "frame_width w = add32 (w_width w) (mul32 BORDER 2)"

definition frame_height :: "window \<Rightarrow> int" where
  "frame_height w = add32 (add32 (w_height w) TITLE_HEIGHT) BORDER"

definition w_contains :: "window \<Rightarrow> int \<Rightarrow> int \<Rightarrow> bool" where
  "w_contains w x y \<longleftrightarrow> w_visible w \<and> x \<ge> w_x w \<and> y \<ge> w_y w \<and>
     x < add32 (w_x w) (frame_width w) \<and> y < add32 (w_y w) (frame_height w)"

definition w_local :: "window \<Rightarrow> int \<Rightarrow> int \<Rightarrow> int \<times> int" where
  "w_local w x y = (sub32 (sub32 x (w_x w)) BORDER, sub32 (sub32 y (w_y w)) TITLE_HEIGHT)"

datatype grab = Grab_Move u32 int int | Grab_Resize u32 int int int int

record server =
  ws_windows :: "window list"
  ws_focused :: "u32 option"
  ws_grab :: "grab option"
  ws_pressed :: "u32 option"

definition ws_new :: server where
  "ws_new = \<lparr>ws_windows = [], ws_focused = None, ws_grab = None, ws_pressed = None\<rparr>"

definition is_active :: "server \<Rightarrow> bool" where
  "is_active s \<longleftrightarrow> list_ex w_visible (ws_windows s)"

fun position :: "('a \<Rightarrow> bool) \<Rightarrow> 'a list \<Rightarrow> nat option" where
  "position P [] = None"
| "position P (x # xs) = (if P x then Some 0 else map_option Suc (position P xs))"

definition rfind :: "('a \<Rightarrow> bool) \<Rightarrow> 'a list \<Rightarrow> 'a option" where
  "rfind P xs = find P (rev xs)"

definition rposition :: "('a \<Rightarrow> bool) \<Rightarrow> 'a list \<Rightarrow> nat option" where
  "rposition P xs = map_option (\<lambda>i. length xs - 1 - i) (position P (rev xs))"

definition remove_nth :: "nat \<Rightarrow> 'a list \<Rightarrow> 'a list" where
  "remove_nth i xs = take i xs @ drop (i + 1) xs"

definition cursor_at :: "server \<Rightarrow> int \<Rightarrow> int \<Rightarrow> nat" where
  "cursor_at s x y = (case rfind (\<lambda>w. w_contains w x y) (ws_windows s) of None \<Rightarrow> 0 | Some w \<Rightarrow> w_cursor w)"

section \<open>The protocol\<close>

definition valid_size :: "int \<Rightarrow> int \<Rightarrow> bool" where
  "valid_size width height \<longleftrightarrow> width \<ge> 80 \<and> height \<ge> 50 \<and> width \<le> MAX_WIDTH \<and> height \<le> MAX_HEIGHT"

text \<open>\<open>fld fs k\<close> is the value of the \<open>k\<close>-th call of \<^verbatim>\<open>fields.next()\<close>.\<close>

definition fld :: "string list \<Rightarrow> nat \<Rightarrow> string option" where
  "fld fs k = (if k < length fs then Some (fs ! k) else None)"

definition parse_i32 :: "string option \<Rightarrow> int option" where
  "parse_i32 v = Option.bind v parse_i32_str"

text \<open>One run \<^verbatim>\<open>count,color\<close> of a paint command at offset \<open>at\<close> of a surface of \<open>len\<close> pixels.\<close>

definition parse_run :: "nat \<Rightarrow> usize \<Rightarrow> string \<Rightarrow> (usize \<times> u32) option" where
  "parse_run len at run =
     (case split_once (CHR '','') run of None \<Rightarrow> None | Some (cnt, color) \<Rightarrow>
      case (parse_usize cnt, parse_hex32 color) of
        (Some cnt, Some color) \<Rightarrow>
          (case checked_add_usize at cnt of
             None \<Rightarrow> None
           | Some end_at \<Rightarrow> if cnt = 0 \<or> end_at > len then None else Some (end_at, color))
      | _ \<Rightarrow> None)"

fun runs_ok :: "nat \<Rightarrow> usize \<Rightarrow> string list \<Rightarrow> bool" where
  "runs_ok len at [] = True"
| "runs_ok len at (run # runs) =
     (case parse_run len at run of None \<Rightarrow> False | Some (end_at, _) \<Rightarrow> runs_ok len end_at runs)"

definition validate :: "server \<Rightarrow> string \<Rightarrow> bool" where
  "validate s line =
     (let fs = split_on (CHR ''|'') line; op = fs ! 0 in
      case Option.bind (fld fs 1) parse_u32 of None \<Rightarrow> False | Some i \<Rightarrow>
      if i = 0 then False
      else if op = ''WC'' then
        (case (parse_i32 (fld fs 2), parse_i32 (fld fs 3), parse_i32 (fld fs 4), parse_i32 (fld fs 5), fld fs 6) of
           (Some x, Some y, Some width, Some height, Some title) \<Rightarrow>
             length (ws_windows s) < MAX_WINDOWS \<and> \<not> list_ex (\<lambda>w. w_id w = i) (ws_windows s) \<and>
             valid_size width height \<and> length title \<le> 48 \<and> fld fs 7 = None
         | _ \<Rightarrow> False)
      else
        (case find (\<lambda>w. w_id w = i) (ws_windows s) of None \<Rightarrow> False | Some window \<Rightarrow>
         if op \<in> {''WD'', ''WS'', ''WH'', ''WI'', ''WB'', ''WE''} then fld fs 2 = None
         else if op = ''WT'' then (case fld fs 2 of None \<Rightarrow> False | Some t \<Rightarrow> length t \<le> 48) \<and> fld fs 3 = None
         else if op = ''WM'' then parse_i32 (fld fs 2) \<noteq> None \<and> parse_i32 (fld fs 3) \<noteq> None \<and> fld fs 4 = None
         else if op = ''WZ'' then
           (case (parse_i32 (fld fs 2), parse_i32 (fld fs 3)) of
              (Some w, Some h) \<Rightarrow> valid_size w h \<and> fld fs 4 = None
            | _ \<Rightarrow> False)
         else if op = ''WK'' then
           (case fld fs 2 of None \<Rightarrow> False | Some t \<Rightarrow> t \<in> {''default'', ''hand'', ''text''}) \<and> fld fs 3 = None
         else if op = ''WP'' then
           (if \<not> w_updating window then False
            else case Option.bind (fld fs 2) parse_usize of None \<Rightarrow> False | Some at \<Rightarrow>
              case fld fs 3 of None \<Rightarrow> False | Some runs \<Rightarrow>
              if runs = [] \<or> fld fs 4 \<noteq> None then False
              else runs_ok (length (w_surface window)) at (split_on (CHR '';'') runs))
         else False))"

section \<open>Commands\<close>

type_synonym ws_result = "server \<times> wevent list"

definition upd_window :: "nat \<Rightarrow> (window \<Rightarrow> window) \<Rightarrow> server \<Rightarrow> server" where
  "upd_window index f s = s\<lparr>ws_windows := (ws_windows s)[index := f (ws_windows s ! index)]\<rparr>"

definition clamp_x :: "int \<Rightarrow> int" where "clamp_x x = clamp 0 (int WIDTH - 40) x"
definition clamp_y :: "int \<Rightarrow> int" where "clamp_y y = clamp 0 (int HEIGHT - TITLE_HEIGHT) y"

definition resize_window :: "nat \<Rightarrow> int \<Rightarrow> int \<Rightarrow> ws_result \<Rightarrow> ws_result" where
  "resize_window index width height r =
     (case r of (s, events) \<Rightarrow>
      if \<not> valid_size width height then (s, events)
      else
        let window = ws_windows s ! index in
        if w_width window = width \<and> w_height window = height then (s, events)
        else
          (upd_window index (\<lambda>w. w\<lparr>w_width := width, w_height := height,
              w_surface := replicate (nat (mul32 width height)) SURFACE\<rparr>) s,
           events @ [Event_new (w_id window) ''Resize'' width height, Event_new (w_id window) ''Redraw'' width height]))"

definition focus_window :: "u32 \<Rightarrow> ws_result \<Rightarrow> ws_result" where
  "focus_window i r =
     (case r of (s, events) \<Rightarrow>
      let (s, events) =
            (if ws_focused s \<noteq> Some i then
               (s\<lparr>ws_focused := Some i\<rparr>,
                events @ (case ws_focused s of None \<Rightarrow> [] | Some old \<Rightarrow> [Event_new old ''FocusLost'' 0 0]) @
                [Event_new i ''FocusGained'' 0 0])
             else (s, events)) in
      case position (\<lambda>w. w_id w = i) (ws_windows s) of
        None \<Rightarrow> (s, events)
      | Some index \<Rightarrow>
          (s\<lparr>ws_windows := remove_nth index (ws_windows s) @ [ws_windows s ! index]\<rparr>, events))"

fun paint_runs :: "usize \<Rightarrow> string list \<Rightarrow> u32 list \<Rightarrow> u32 list" where
  "paint_runs at [] surface = surface"
| "paint_runs at (run # runs) surface =
     (case parse_run (length surface) at run of
        None \<Rightarrow> surface
      | Some (end_at, color) \<Rightarrow>
          paint_runs end_at runs
            (take at surface @ replicate (end_at - at) (color AND 0x00ffffff) @ drop end_at surface))"

definition create_window :: "u32 \<Rightarrow> string list \<Rightarrow> server \<Rightarrow> ws_result" where
  "create_window i fs s =
     (if length (ws_windows s) \<ge> MAX_WINDOWS \<or> list_ex (\<lambda>w. w_id w = i) (ws_windows s) then (s, [])
      else
        case (parse_i32 (fld fs 2), parse_i32 (fld fs 3), parse_i32 (fld fs 4), parse_i32 (fld fs 5), fld fs 6) of
          (Some x, Some y, Some width, Some height, Some title) \<Rightarrow>
            if \<not> valid_size width height \<or> length title > 48 then (s, [])
            else
              let x = clamp_x x; y = clamp_y y in
              (s\<lparr>ws_windows := ws_windows s @ [\<lparr>w_id = i, w_title = title, w_x = x, w_y = y, w_width = width,
                   w_height = height, w_visible = False, w_surface = replicate (nat (mul32 width height)) SURFACE,
                   w_updating = False, w_cursor = 0\<rparr>]\<rparr>,
               [Event_new i ''WindowCreated'' x y, Event_new i ''Redraw'' width height])
        | _ \<Rightarrow> (s, []))"

definition destroy_window :: "u32 \<Rightarrow> nat \<Rightarrow> server \<Rightarrow> ws_result" where
  "destroy_window i index s =
     (let s = s\<lparr>ws_windows := remove_nth index (ws_windows s)\<rparr>;
          (s, events) =
            (if ws_focused s = Some i then
               (case rfind w_visible (ws_windows s) of
                  None \<Rightarrow> (s\<lparr>ws_focused := None\<rparr>, [])
                | Some nxt \<Rightarrow> (s\<lparr>ws_focused := Some (w_id nxt)\<rparr>, [Event_new (w_id nxt) ''FocusGained'' 0 0]))
             else (s, []))
      in (s\<lparr>ws_grab := None, ws_pressed := None\<rparr>, events))"

definition hide_window :: "u32 \<Rightarrow> nat \<Rightarrow> server \<Rightarrow> ws_result" where
  "hide_window i index s =
     (let s = upd_window index (\<lambda>w. w\<lparr>w_visible := False\<rparr>) s in
      if ws_focused s = Some i then (s\<lparr>ws_focused := None\<rparr>, [Event_new i ''FocusLost'' 0 0]) else (s, []))"

definition move_window :: "u32 \<Rightarrow> nat \<Rightarrow> string list \<Rightarrow> server \<Rightarrow> ws_result" where
  "move_window i index fs s =
     (case (parse_i32 (fld fs 2), parse_i32 (fld fs 3)) of
        (Some x, Some y) \<Rightarrow>
          (upd_window index (\<lambda>w. w\<lparr>w_x := clamp_x x, w_y := clamp_y y\<rparr>) s, [Event_new i ''Move'' (clamp_x x) (clamp_y y)])
      | _ \<Rightarrow> (s, []))"

definition paint_window :: "nat \<Rightarrow> string list \<Rightarrow> server \<Rightarrow> server" where
  "paint_window index fs s =
     (if \<not> w_updating (ws_windows s ! index) then s
      else
        case Option.bind (fld fs 2) parse_usize of
          None \<Rightarrow> s
        | Some at \<Rightarrow>
            upd_window index (\<lambda>w. w\<lparr>w_surface := paint_runs at
              (split_on (CHR '';'') (case fld fs 3 of None \<Rightarrow> [] | Some runs \<Rightarrow> runs)) (w_surface w)\<rparr>) s)"

definition command :: "string \<Rightarrow> server \<Rightarrow> ws_result" where
  "command line s =
     (let fs = split_on (CHR ''|'') line; op = fs ! 0 in
      case Option.bind (fld fs 1) parse_u32 of None \<Rightarrow> (s, []) | Some i \<Rightarrow>
      if i = 0 then (s, [])
      else if op = ''WC'' then create_window i fs s
      else
        case position (\<lambda>w. w_id w = i) (ws_windows s) of None \<Rightarrow> (s, []) | Some index \<Rightarrow>
        if op = ''WD'' then destroy_window i index s
        else if op = ''WS'' then focus_window i (upd_window index (\<lambda>w. w\<lparr>w_visible := True\<rparr>) s, [])
        else if op = ''WH'' then hide_window i index s
        else if op = ''WT'' then
          (case fld fs 2 of
             None \<Rightarrow> (s, [])
           | Some title \<Rightarrow>
               if length title \<le> 48 then (upd_window index (\<lambda>w. w\<lparr>w_title := title\<rparr>) s, []) else (s, []))
        else if op = ''WM'' then move_window i index fs s
        else if op = ''WZ'' then
          (case (parse_i32 (fld fs 2), parse_i32 (fld fs 3)) of
             (Some width, Some height) \<Rightarrow> resize_window index width height (s, [])
           | _ \<Rightarrow> (s, []))
        else if op = ''WK'' then
          (case fld fs 2 of
             None \<Rightarrow> (s, [])
           | Some c \<Rightarrow> (upd_window index (\<lambda>w. w\<lparr>w_cursor := if c = ''hand'' then 1 else if c = ''text'' then 2 else 0\<rparr>) s, []))
        else if op = ''WI'' then
          (s, [Event_new i ''Redraw'' (w_width (ws_windows s ! index)) (w_height (ws_windows s ! index))])
        else if op = ''WB'' then (upd_window index (\<lambda>w. w\<lparr>w_updating := True\<rparr>) s, [])
        else if op = ''WP'' then (paint_window index fs s, [])
        else if op = ''WE'' then (upd_window index (\<lambda>w. w\<lparr>w_updating := False\<rparr>) s, [])
        else (s, []))"

section \<open>Input\<close>

definition drag :: "grab \<Rightarrow> int \<Rightarrow> int \<Rightarrow> server \<Rightarrow> ws_result" where
  "drag g x y s =
     (case g of
        Grab_Move i ox oy \<Rightarrow>
          (case position (\<lambda>w. w_id w = i) (ws_windows s) of
             None \<Rightarrow> (s, [])
           | Some index \<Rightarrow>
               let nx = clamp_x (sub32 x ox); ny = clamp_y (sub32 y oy); w = ws_windows s ! index in
               if (w_x w, w_y w) \<noteq> (nx, ny)
               then (upd_window index (\<lambda>w. w\<lparr>w_x := nx, w_y := ny\<rparr>) s, [Event_new i ''Move'' nx ny])
               else (s, []))
      | Grab_Resize i sx sy sw sh \<Rightarrow>
          (case position (\<lambda>w. w_id w = i) (ws_windows s) of
             None \<Rightarrow> (s, [])
           | Some index \<Rightarrow>
               resize_window index (clamp 80 MAX_WIDTH (sub32 (add32 sw x) sx)) (clamp 50 MAX_HEIGHT (sub32 (add32 sh y) sy)) (s, [])))"

definition in_client :: "window \<Rightarrow> int \<times> int \<Rightarrow> bool" where
  "in_client w p \<longleftrightarrow> (case p of (lx, ly) \<Rightarrow> lx \<ge> 0 \<and> ly \<ge> 0 \<and> lx < w_width w \<and> ly < w_height w)"

definition press :: "nat \<Rightarrow> int \<Rightarrow> int \<Rightarrow> server \<Rightarrow> ws_result" where
  "press index x y s =
     (let i = w_id (ws_windows s ! index);
          (s, events) = focus_window i (s, []);
          window = last (ws_windows s);
          local_x = sub32 x (w_x window); local_y = sub32 y (w_y window) in
      if local_y < TITLE_HEIGHT then
        (if local_x \<ge> sub32 (frame_width window) 36 then (s, events @ [Event_new i ''CloseRequested'' 0 0])
         else (s\<lparr>ws_grab := Some (Grab_Move i local_x local_y)\<rparr>, events))
      else if local_x \<ge> sub32 (frame_width window) 14 \<and> local_y \<ge> sub32 (frame_height window) 14 then
        (s\<lparr>ws_grab := Some (Grab_Resize i x y (w_width window) (w_height window))\<rparr>, events)
      else if in_client window (w_local window x y) then
        (s\<lparr>ws_pressed := Some i\<rparr>,
         events @ [Event_new i ''MouseDown'' (fst (w_local window x y)) (snd (w_local window x y))])
      else (s, events))"

definition hover :: "nat option \<Rightarrow> int \<Rightarrow> int \<Rightarrow> server \<Rightarrow> bool \<times> ws_result" where
  "hover hit x y s =
     (case hit of
        None \<Rightarrow> (False, s, [])
      | Some index \<Rightarrow>
          let window = ws_windows s ! index in
          (True, s,
           if in_client window (w_local window x y)
           then [Event_new (w_id window) ''MouseMove'' (fst (w_local window x y)) (snd (w_local window x y))] else []))"

definition pointer :: "int \<Rightarrow> int \<Rightarrow> bool \<Rightarrow> bool \<Rightarrow> server \<Rightarrow> bool \<times> ws_result" where
  "pointer x y left was_left s =
     (if left \<and> ws_grab s \<noteq> None then (True, drag (the (ws_grab s)) x y s)
      else
        let s = (if left then s else s\<lparr>ws_grab := None\<rparr>);
            hit = rposition (\<lambda>w. w_contains w x y) (ws_windows s) in
        if left \<and> \<not> was_left then
          (case hit of None \<Rightarrow> (False, s, []) | Some index \<Rightarrow> (True, press index x y s))
        else if \<not> left \<and> was_left \<and> ws_pressed s \<noteq> None then
          let i = the (ws_pressed s) in
          (True, s\<lparr>ws_pressed := None\<rparr>,
           case find (\<lambda>w. w_id w = i) (ws_windows s) of
             None \<Rightarrow> []
           | Some window \<Rightarrow> [Event_new i ''MouseUp'' (fst (w_local window x y)) (snd (w_local window x y))])
        else hover hit x y s)"

definition key :: "server \<Rightarrow> u8 \<Rightarrow> u8 option \<Rightarrow> wevent list" where
  "key s scan txt =
     (case ws_focused s of
        None \<Rightarrow> []
      | Some i \<Rightarrow>
          [Event_new i (if scan AND 0x80 = 0 then ''KeyDown'' else ''KeyUp'') (uint (scan AND 0x7f)) 0] @
          (case txt of None \<Rightarrow> [] | Some byte \<Rightarrow> [Event_new i ''TextInput'' (uint byte) 0]))"

section \<open>Painting\<close>

definition draw_surface :: "window \<Rightarrow> pixels \<Rightarrow> pixels option" where
  "draw_surface w =
     for_each (\<lambda>sy px.
        let dy = add32 (add32 (w_y w) TITLE_HEIGHT) sy in
        if dy < 0 \<or> dy \<ge> int HEIGHT then Some px
        else for_each (\<lambda>sx px.
            let dx = add32 (add32 (w_x w) BORDER) sx; k = nat sy * nat (w_width w) + nat sx in
            if dx \<ge> 0 \<and> dx < int WIDTH
            then (if k < length (w_surface w) then put_pixel (nat dy * WIDTH + nat dx) (w_surface w ! k) px else None)
            else Some px)
          [0..w_width w - 1] px)
       [0..w_height w - 1]"

definition draw_chrome :: "bool \<Rightarrow> window \<Rightarrow> (pixels \<Rightarrow> pixels option) list" where
  "draw_chrome focused w =
     (let x = w_x w; y = w_y w; fw = frame_width w; fh = frame_height w;
          close_x = sub32 (add32 x fw) 31; control_y = add32 y 13;
          title_chars = nat (max (div32 (sub32 fw 88) 7) 0);
          title_px = mul32 (int (min (length (w_title w)) title_chars)) 7;
          title_x = add32 x (max (div32 (sub32 fw title_px) 2) 14) in
      [draw_fill (add32 x 8) (add32 y 10) fw fh SHADOW,
       draw_fill (add32 x 4) (add32 y 5) fw fh 0x00323a42,
       draw_fill x y fw fh FRAME,
       draw_fill (add32 x 1) (add32 y 1) (sub32 fw 2) (sub32 fh 2) SURFACE,
       draw_fill (add32 x 1) (add32 y 1) (sub32 fw 2) (sub32 TITLE_HEIGHT 1) (if focused then HEADER_ACTIVE else HEADER_INACTIVE),
       draw_fill (add32 x 1) (sub32 (add32 y TITLE_HEIGHT) 1) (sub32 fw 2) 1 0x00c7cdd1,
       draw_fill (add32 close_x 3) control_y 12 18 CLOSE,
       draw_fill close_x (add32 control_y 3) 18 12 CLOSE,
       draw_text (add32 close_x 6) (add32 control_y 6) ''X'' 0x00ffffff 1,
       draw_text title_x (add32 y 18) (w_title w) (if focused then INK else MUTED_INK) title_chars,
       draw_fill (add32 x BORDER) (add32 y TITLE_HEIGHT) (w_width w) (w_height w) SURFACE])"

definition draw_mark :: "window \<Rightarrow> (pixels \<Rightarrow> pixels option) list" where
  "draw_mark w =
     [draw_fill (sub32 (add32 (w_x w) (frame_width w)) 11) (sub32 (add32 (w_y w) (frame_height w)) 5) 7 1 0x009aa2a8,
      draw_fill (sub32 (add32 (w_x w) (frame_width w)) 8) (sub32 (add32 (w_y w) (frame_height w)) 8) 4 1 0x009aa2a8]"

definition draw_window :: "bool \<Rightarrow> window \<Rightarrow> pixels \<Rightarrow> pixels option" where
  "draw_window focused w = for_each (\<lambda>step. step) (draw_chrome focused w @ [draw_surface w] @ draw_mark w)"

definition paint :: "server \<Rightarrow> pixels \<Rightarrow> pixels option" where
  "paint s = for_each (\<lambda>w px. if \<not> w_visible w then Some px else draw_window (ws_focused s = Some (w_id w)) w px) (ws_windows s)"

section \<open>Searching and updating the window list\<close>

lemma position_SomeD: "position P xs = Some i \<Longrightarrow> i < length xs \<and> P (xs ! i)"
  by (induction xs arbitrary: i) (auto split: if_splits)

lemma position_None: "position P xs = None \<longleftrightarrow> (\<forall>x \<in> set xs. \<not> P x)"
  by (induction xs) auto

lemma find_hd: "find P xs = (if filter P xs = [] then None else Some (hd (filter P xs)))"
  by (induction xs) auto

lemma rfind_last: "rfind P xs = (if filter P xs = [] then None else Some (last (filter P xs)))"
  by (simp add: rfind_def find_hd rev_filter [symmetric] hd_rev)

lemma same_id: "distinct (map w_id ws) \<Longrightarrow> v \<in> set ws \<Longrightarrow> w \<in> set ws \<Longrightarrow> w_id v = w_id w \<Longrightarrow> v = w"
  by (auto simp: distinct_map dest: inj_onD)

lemma remove_nth_filter:
  assumes "distinct (map w_id ws)" "k < length ws" "w_id (ws ! k) = i"
  shows "remove_nth k ws = filter (\<lambda>w. w_id w \<noteq> i) ws"
proof -
  let ?a = "take k ws" and ?b = "drop (Suc k) ws"
  have s: "ws = ?a @ ws ! k # ?b" by (rule id_take_nth_drop [OF assms(2)])
  have "i \<notin> w_id ` set ?a" "i \<notin> w_id ` set ?b"
    using assms(1,3) by (subst (asm) s, simp)+
  then have "filter (\<lambda>w. w_id w \<noteq> i) ?a = ?a" "filter (\<lambda>w. w_id w \<noteq> i) ?b = ?b" by (auto simp: filter_id_conv)
  then have "filter (\<lambda>w. w_id w \<noteq> i) (?a @ ws ! k # ?b) = ?a @ ?b" using assms(3) by simp
  then show ?thesis using s by (simp add: remove_nth_def)
qed

lemma update_map:
  assumes "distinct (map w_id ws)" "k < length ws" "w_id (ws ! k) = i"
  shows "ws[k := f (ws ! k)] = map (\<lambda>w. if w_id w = i then f w else w) ws"
proof (rule nth_equalityI)
  fix j assume j: "j < length (ws[k := f (ws ! k)])"
  then have "w_id (ws ! j) = i \<longleftrightarrow> j = k" using assms by (auto simp: distinct_conv_nth)
  then show "ws[k := f (ws ! k)] ! j = map (\<lambda>w. if w_id w = i then f w else w) ws ! j" using j by auto
qed simp

section \<open>The invariant\<close>

definition window_ok :: "window \<Rightarrow> bool" where
  "window_ok w \<longleftrightarrow> w_id w \<noteq> 0 \<and> valid_size (w_width w) (w_height w) \<and> 0 \<le> w_x w \<and> w_x w \<le> int WIDTH - 40 \<and>
     0 \<le> w_y w \<and> w_y w \<le> int HEIGHT - TITLE_HEIGHT \<and> length (w_surface w) = nat (w_width w * w_height w) \<and>
     length (w_title w) \<le> 48 \<and> w_cursor w \<le> 2"

definition ids :: "window list \<Rightarrow> u32 list" where "ids ws = map w_id ws"

definition visible_ids :: "window list \<Rightarrow> u32 list" where "visible_ids ws = map w_id (filter w_visible ws)"

fun grab_id :: "grab \<Rightarrow> u32" where
  "grab_id (Grab_Move i _ _) = i"
| "grab_id (Grab_Resize i _ _ _ _) = i"

text \<open>Keyboard focus, when there is one, is with the front-most visible window.\<close>

definition ws_inv :: "server \<Rightarrow> bool" where
  "ws_inv s \<longleftrightarrow> length (ws_windows s) \<le> MAX_WINDOWS \<and> distinct (ids (ws_windows s)) \<and>
     (\<forall>w \<in> set (ws_windows s). window_ok w) \<and>
     (\<forall>i. ws_focused s = Some i \<longrightarrow> visible_ids (ws_windows s) \<noteq> [] \<and> last (visible_ids (ws_windows s)) = i) \<and>
     (\<forall>g. ws_grab s = Some g \<longrightarrow> grab_id g \<in> set (ids (ws_windows s))) \<and>
     (\<forall>i. ws_pressed s = Some i \<longrightarrow> i \<in> set (ids (ws_windows s)))"

lemma ws_invD:
  assumes "ws_inv s"
  shows "length (ws_windows s) \<le> MAX_WINDOWS" "distinct (map w_id (ws_windows s))"
    "w \<in> set (ws_windows s) \<Longrightarrow> window_ok w"
    "ws_focused s = Some i \<Longrightarrow> visible_ids (ws_windows s) \<noteq> []" "ws_focused s = Some i \<Longrightarrow> last (visible_ids (ws_windows s)) = i"
    "ws_grab s = Some g \<Longrightarrow> grab_id g \<in> set (ids (ws_windows s))" "ws_pressed s = Some i \<Longrightarrow> i \<in> set (ids (ws_windows s))"
  using assms by (auto simp: ws_inv_def ids_def)

lemma ws_new_inv: "ws_inv ws_new"
  by (simp add: ws_inv_def ws_new_def ids_def)

lemma map_update_ids:
  assumes "\<And>w. w_id (f w) = w_id w"
  shows "ids (map (\<lambda>w. if w_id w = i then f w else w) ws) = ids ws"
  using assms by (simp add: ids_def)

lemma map_update_visible:
  assumes "\<And>w. w_id (f w) = w_id w" "\<And>w. w_visible (f w) = w_visible w"
  shows "visible_ids (map (\<lambda>w. if w_id w = i then f w else w) ws) = visible_ids ws"
  using assms by (induction ws) (auto simp: visible_ids_def)

text \<open>An update of one window that keeps its identity and visibility.\<close>

lemma upd_window_inv:
  assumes inv: "ws_inv s" and k: "position (\<lambda>w. w_id w = i) (ws_windows s) = Some k"
    and f: "\<And>w. w_id (f w) = w_id w" "\<And>w. w_visible (f w) = w_visible w" "window_ok (ws_windows s ! k) \<Longrightarrow> window_ok (f (ws_windows s ! k))"
  shows "ws_inv (upd_window k f s)"
proof -
  note p = position_SomeD [OF k]
  have u: "(ws_windows s)[k := f (ws_windows s ! k)] = map (\<lambda>w. if w_id w = i then f w else w) (ws_windows s)"
    using update_map [OF ws_invD(2) [OF inv]] p by blast
  have "window_ok (f (ws_windows s ! k))" using f(3) ws_invD(3) [OF inv] p by simp
  then have "\<forall>w \<in> set ((ws_windows s)[k := f (ws_windows s ! k)]). window_ok w"
    using ws_invD(3) [OF inv] by (auto dest: set_update_subset_insert [THEN subsetD])
  moreover have "ids ((ws_windows s)[k := f (ws_windows s ! k)]) = ids (ws_windows s)"
    "visible_ids ((ws_windows s)[k := f (ws_windows s ! k)]) = visible_ids (ws_windows s)"
    unfolding u using map_update_ids map_update_visible f(1,2) by blast+
  ultimately show ?thesis using inv by (simp add: ws_inv_def upd_window_def)
qed

lemma last_filter: "xs \<noteq> [] \<Longrightarrow> P (last xs) \<Longrightarrow> filter P xs \<noteq> [] \<and> last (filter P xs) = last xs"
  by (induction xs) (auto split: if_splits)

lemma visible_filter: "visible_ids (filter (\<lambda>w. w_id w \<noteq> i) ws) = filter (\<lambda>j. j \<noteq> i) (visible_ids ws)"
  by (induction ws) (auto simp: visible_ids_def)

lemma visible_hide: "visible_ids (map (\<lambda>w. if w_id w = i then w\<lparr>w_visible := False\<rparr> else w) ws) = filter (\<lambda>j. j \<noteq> i) (visible_ids ws)"
  by (induction ws) (auto simp: visible_ids_def)

lemma destroy_window_inv:
  assumes inv: "ws_inv s" and k: "position (\<lambda>w. w_id w = i) (ws_windows s) = Some k"
  shows "ws_inv (fst (destroy_window i k s))"
proof -
  note p = position_SomeD [OF k]
  define ws where "ws = filter (\<lambda>w. w_id w \<noteq> i) (ws_windows s)"
  have r: "remove_nth k (ws_windows s) = ws" using remove_nth_filter [OF ws_invD(2) [OF inv]] p by (simp add: ws_def)
  have b: "length ws \<le> MAX_WINDOWS" "distinct (ids ws)" "\<forall>w \<in> set ws. window_ok w"
    using ws_invD(1-3) [OF inv] order.trans [OF length_filter_le [of "\<lambda>w. w_id w \<noteq> i" "ws_windows s"]]
    by (auto simp: ws_def ids_def intro: distinct_map_filter)
  have "last (visible_ids ws) = j \<and> visible_ids ws \<noteq> []" if "ws_focused s = Some j" "j \<noteq> i" for j
    using last_filter [of "visible_ids (ws_windows s)" "\<lambda>j. j \<noteq> i"] ws_invD(4,5) [OF inv that(1)] that(2)
    unfolding ws_def visible_filter by simp
  moreover have "rfind w_visible ws = (if visible_ids ws = [] then None else Some (last (filter w_visible ws)))"
    by (simp add: rfind_last visible_ids_def)
  moreover have "visible_ids ws \<noteq> [] \<Longrightarrow> w_id (last (filter w_visible ws)) = last (visible_ids ws)"
    by (simp add: visible_ids_def last_map)
  ultimately show ?thesis using b by (cases "ws_focused s") (auto simp: destroy_window_def r ws_inv_def Let_def)
qed

lemma hide_window_inv:
  assumes inv: "ws_inv s" and k: "position (\<lambda>w. w_id w = i) (ws_windows s) = Some k"
  shows "ws_inv (fst (hide_window i k s))"
proof -
  note p = position_SomeD [OF k]
  let ?f = "\<lambda>w. w\<lparr>w_visible := False\<rparr>"
  define ws where "ws = map (\<lambda>w. if w_id w = i then ?f w else w) (ws_windows s)"
  have u: "(ws_windows s)[k := ?f (ws_windows s ! k)] = ws"
    using update_map [OF ws_invD(2) [OF inv], of k i ?f] p by (simp add: ws_def)
  have "\<forall>w \<in> set ws. window_ok w" using ws_invD(3) [OF inv] by (auto simp: ws_def window_ok_def)
  moreover have "ids ws = ids (ws_windows s)" "length ws = length (ws_windows s)"
    unfolding ws_def using map_update_ids [of ?f] by simp_all
  moreover have "last (visible_ids ws) = j \<and> visible_ids ws \<noteq> []" if "ws_focused s = Some j" "j \<noteq> i" for j
    using last_filter [of "visible_ids (ws_windows s)" "\<lambda>j. j \<noteq> i"] ws_invD(4,5) [OF inv that(1)] that(2)
    unfolding ws_def visible_hide by simp
  ultimately show ?thesis using inv by (auto simp: hide_window_def upd_window_def u ws_inv_def Let_def)
qed

text \<open>Raising a visible window to the front and giving it the focus.\<close>

definition raised :: "u32 \<Rightarrow> window list \<Rightarrow> window list" where
  "raised i ws = filter (\<lambda>w. w_id w \<noteq> i) ws @ filter (\<lambda>w. w_id w = i) ws"

lemma filter_only:
  assumes "distinct (map w_id ws)" "k < length ws" "w_id (ws ! k) = i"
  shows "filter (\<lambda>w. w_id w = i) ws = [ws ! k]"
proof -
  let ?a = "take k ws" and ?b = "drop (Suc k) ws"
  have s: "ws = ?a @ ws ! k # ?b" by (rule id_take_nth_drop [OF assms(2)])
  have "i \<notin> w_id ` set ?a" "i \<notin> w_id ` set ?b"
    using assms(1,3) by (subst (asm) s, simp)+
  then have "filter (\<lambda>w. w_id w = i) ?a = []" "filter (\<lambda>w. w_id w = i) ?b = []" by (auto simp: filter_empty_conv)
  then have "filter (\<lambda>w. w_id w = i) (?a @ ws ! k # ?b) = [ws ! k]" using assms(3) by simp
  then show ?thesis using s by simp
qed

lemma focus_window_eq:
  assumes d: "distinct (map w_id (ws_windows s))" and k: "k < length (ws_windows s)" "w_id (ws_windows s ! k) = i"
  shows "fst (focus_window i (s, es)) = s\<lparr>ws_focused := Some i, ws_windows := raised i (ws_windows s)\<rparr>"
proof -
  obtain j where j: "position (\<lambda>w. w_id w = i) (ws_windows s) = Some j"
    using k position_None [of "\<lambda>w. w_id w = i" "ws_windows s"] nth_mem [OF k(1)]
    by (cases "position (\<lambda>w. w_id w = i) (ws_windows s)") auto
  note p = position_SomeD [OF j]
  have "remove_nth j (ws_windows s) @ [ws_windows s ! j] = raised i (ws_windows s)"
    unfolding raised_def using remove_nth_filter [OF d, of j i] filter_only [OF d, of j i] p by simp
  then show ?thesis using j by (auto simp: focus_window_def Let_def)
qed

lemma raised_facts:
  assumes d: "distinct (map w_id ws)" and k: "k < length ws" "w_id (ws ! k) = i" "w_visible (ws ! k)"
  shows "distinct (ids (raised i ws))" "set (raised i ws) = set ws" "length (raised i ws) = length ws"
    "visible_ids (raised i ws) \<noteq> []" "last (visible_ids (raised i ws)) = i" "last (raised i ws) = ws ! k" "raised i ws \<noteq> []"
proof -
  note fo = filter_only [OF d k(1,2)]
  show st: "set (raised i ws) = set ws" by (auto simp: raised_def)
  show ln: "length (raised i ws) = length ws"
    using sum_length_filter_compl [of "\<lambda>w. w_id w \<noteq> i" ws] by (simp add: raised_def)
  show "distinct (ids (raised i ws))"
  proof -
    have "set (ids (raised i ws)) = set (ids ws)" "length (ids (raised i ws)) = length (ids ws)"
      using st ln by (simp_all add: ids_def)
    then show ?thesis using d by (metis card_distinct distinct_card ids_def)
  qed
  show "visible_ids (raised i ws) \<noteq> []" "last (visible_ids (raised i ws)) = i" "last (raised i ws) = ws ! k" "raised i ws \<noteq> []"
    using fo k by (simp_all add: raised_def visible_ids_def)
qed

lemma focus_window_inv:
  assumes inv: "ws_inv s" and k: "k < length (ws_windows s)" "w_id (ws_windows s ! k) = i" "w_visible (ws_windows s ! k)"
  shows "ws_inv (fst (focus_window i (s, es)))"
proof -
  note d = ws_invD(2) [OF inv] and r = raised_facts [OF ws_invD(2) [OF inv] k]
  have "set (ids (raised i (ws_windows s))) = set (ids (ws_windows s))" using r(2) by (simp add: ids_def)
  then show ?thesis
    unfolding focus_window_eq [OF d k(1,2)] using inv r by (simp add: ws_inv_def)
qed

section \<open>Every operation keeps the invariant\<close>

lemma clamp_bounds: "0 \<le> clamp_x x" "clamp_x x \<le> int WIDTH - 40" "0 \<le> clamp_y y" "clamp_y y \<le> int HEIGHT - TITLE_HEIGHT"
  by (simp_all add: clamp_x_def clamp_y_def clamp_def WIDTH_def HEIGHT_def TITLE_HEIGHT_def)

lemma valid_area: "valid_size w h \<Longrightarrow> mul32 w h = w * h"
proof -
  assume "valid_size w h"
  then have b: "0 \<le> w" "w \<le> 600" "0 \<le> h" "h \<le> 440" by (simp_all add: valid_size_def MAX_WIDTH_def MAX_HEIGHT_def)
  then have "w * h \<le> 600 * 440" "0 \<le> w * h" by (intro mult_mono, simp_all)
  then show ?thesis by (simp add: mul32_def)
qed

lemma create_window_inv:
  assumes inv: "ws_inv s" and i: "i \<noteq> 0"
  shows "ws_inv (fst (create_window i fs s))"
proof -
  have ok: "ws_inv (s\<lparr>ws_windows := ws_windows s @ [w]\<rparr>)"
    if "length (ws_windows s) < MAX_WINDOWS" "w_id w \<notin> set (ids (ws_windows s))" "window_ok w" "\<not> w_visible w" for w
    using inv that by (auto simp: ws_inv_def ids_def visible_ids_def)
  have "i \<notin> set (ids (ws_windows s))" if "\<not> list_ex (\<lambda>w. w_id w = i) (ws_windows s)"
    using that by (auto simp: ids_def list_ex_iff)
  then show ?thesis
    using inv i clamp_bounds
    by (auto simp: create_window_def Let_def not_le window_ok_def valid_area intro!: ok split: option.splits)
qed

lemma resize_window_inv:
  assumes inv: "ws_inv s" and k: "position (\<lambda>w. w_id w = i) (ws_windows s) = Some k"
  shows "ws_inv (fst (resize_window k width height (s, es)))"
proof (cases "valid_size width height \<and> \<not> (w_width (ws_windows s ! k) = width \<and> w_height (ws_windows s ! k) = height)")
  case True
  then have "ws_inv (upd_window k (\<lambda>w. w\<lparr>w_width := width, w_height := height,
      w_surface := replicate (nat (mul32 width height)) SURFACE\<rparr>) s)"
    by (intro upd_window_inv [OF inv k]) (auto simp: window_ok_def valid_area)
  then show ?thesis using True by (auto simp: resize_window_def Let_def)
next
  case False
  then show ?thesis using inv by (auto simp: resize_window_def Let_def)
qed

lemma move_window_inv:
  assumes inv: "ws_inv s" and k: "position (\<lambda>w. w_id w = i) (ws_windows s) = Some k"
  shows "ws_inv (upd_window k (\<lambda>w. w\<lparr>w_x := clamp_x x, w_y := clamp_y y\<rparr>) s)"
  by (intro upd_window_inv [OF inv k]) (auto simp: window_ok_def clamp_bounds)

lemma show_window_inv:
  assumes inv: "ws_inv s" and k: "position (\<lambda>w. w_id w = i) (ws_windows s) = Some k"
  shows "ws_inv (fst (focus_window i (upd_window k (\<lambda>w. w\<lparr>w_visible := True\<rparr>) s, [])))"
proof -
  let ?s = "upd_window k (\<lambda>w. w\<lparr>w_visible := True\<rparr>) s"
  note p = position_SomeD [OF k]
  have d: "distinct (map w_id (ws_windows ?s))" "set (ids (ws_windows ?s)) = set (ids (ws_windows s))"
    "\<forall>w \<in> set (ws_windows ?s). window_ok w" "length (ws_windows ?s) = length (ws_windows s)"
  proof -
    have e: "ws_windows ?s = map (\<lambda>w. if w_id w = i then w\<lparr>w_visible := True\<rparr> else w) (ws_windows s)"
      using update_map [OF ws_invD(2) [OF inv], of k i "\<lambda>w. w\<lparr>w_visible := True\<rparr>"] p by (simp add: upd_window_def)
    have "ids (ws_windows ?s) = ids (ws_windows s)" unfolding e by (rule map_update_ids) simp
    then show "distinct (map w_id (ws_windows ?s))" "set (ids (ws_windows ?s)) = set (ids (ws_windows s))"
      using ws_invD(2) [OF inv] by (simp_all add: ids_def)
    show "\<forall>w \<in> set (ws_windows ?s). window_ok w" using ws_invD(3) [OF inv] by (auto simp: e window_ok_def)
  qed (simp add: upd_window_def)
  have k': "k < length (ws_windows ?s)" "w_id (ws_windows ?s ! k) = i" "w_visible (ws_windows ?s ! k)"
    using p by (simp_all add: upd_window_def)
  note r = raised_facts [OF d(1) k']
  have "set (ids (raised i (ws_windows ?s))) = set (ids (ws_windows s))" using r(2) d(2) by (simp add: ids_def)
  moreover have "ws_grab ?s = ws_grab s" "ws_pressed ?s = ws_pressed s" by (simp_all add: upd_window_def)
  ultimately show ?thesis unfolding focus_window_eq [OF d(1) k'(1,2)] using inv r d by (simp add: ws_inv_def)
qed

lemma parse_run_bound: "parse_run len at run = Some (e, c) \<Longrightarrow> at < e \<and> e \<le> len"
  by (auto simp: parse_run_def checked_add_usize_def split: option.splits prod.splits if_splits)

lemma length_paint_runs [simp]: "length (paint_runs at runs surface) = length surface"
  by (induction at runs surface rule: paint_runs.induct) (auto dest: parse_run_bound split: option.splits prod.splits)

lemma paint_window_inv:
  assumes inv: "ws_inv s" and k: "position (\<lambda>w. w_id w = i) (ws_windows s) = Some k"
  shows "ws_inv (paint_window k fs s)"
proof -
  have "ws_inv (upd_window k (\<lambda>w. w\<lparr>w_surface := paint_runs at runs (w_surface w)\<rparr>) s)" for at runs
    by (intro upd_window_inv [OF inv k]) (auto simp: window_ok_def)
  then show ?thesis using inv by (auto simp: paint_window_def split: option.splits)
qed

lemma command_inv:
  assumes inv: "ws_inv s"
  shows "ws_inv (fst (command line s))"
proof -
  let ?fs = "split_on (CHR ''|'') line"
  show ?thesis
  proof (cases "Option.bind (fld ?fs 1) parse_u32")
    case None
    then show ?thesis using inv by (simp add: command_def Let_def)
  next
    case (Some i)
    show ?thesis
    proof (cases "i = 0 \<or> ?fs ! 0 = ''WC''")
      case True
      then show ?thesis using inv Some create_window_inv [OF inv] by (auto simp: command_def Let_def)
    next
      case False
      show ?thesis
      proof (cases "position (\<lambda>w. w_id w = i) (ws_windows s)")
        case None
        then show ?thesis using inv Some False by (simp add: command_def Let_def)
      next
        case k: (Some k)
        have t: "length title \<le> 48 \<Longrightarrow> ws_inv (upd_window k (\<lambda>w. w\<lparr>w_title := title\<rparr>) s)" for title
          by (intro upd_window_inv [OF inv k]) (auto simp: window_ok_def)
        have c: "ws_inv (upd_window k (\<lambda>w. w\<lparr>w_cursor := if c = ''hand'' then 1 else if c = ''text'' then 2 else 0\<rparr>) s)" for c
          by (intro upd_window_inv [OF inv k]) (auto simp: window_ok_def)
        have u: "ws_inv (upd_window k (\<lambda>w. w\<lparr>w_updating := b\<rparr>) s)" for b
          by (intro upd_window_inv [OF inv k]) (auto simp: window_ok_def)
        note all = destroy_window_inv [OF inv k] show_window_inv [OF inv k] hide_window_inv [OF inv k] move_window_inv [OF inv k]
          resize_window_inv [OF inv k] paint_window_inv [OF inv k]
        show ?thesis using all inv Some False k t c u
          by (auto simp: command_def Let_def move_window_def simp del: One_nat_def split: option.splits)
      qed
    qed
  qed
qed

lemma position_first: "position P xs = Some i \<Longrightarrow> j < i \<Longrightarrow> \<not> P (xs ! j)"
  by (induction xs arbitrary: i j) (auto simp: nth_Cons split: if_splits nat.splits)

lemma rposition_SomeD:
  assumes "rposition P xs = Some k"
  shows "k < length xs" "P (xs ! k)" "\<And>j. k < j \<Longrightarrow> j < length xs \<Longrightarrow> \<not> P (xs ! j)"
proof -
  from assms obtain i where i: "position P (rev xs) = Some i" "k = length xs - 1 - i" by (auto simp: rposition_def)
  note p = position_SomeD [OF i(1)]
  show "k < length xs" "P (xs ! k)" using i(2) p by (auto simp: rev_nth)
  show "\<not> P (xs ! j)" if j: "k < j" "j < length xs" for j
  proof -
    have "length xs - 1 - j < i" using j i(2) p by simp
    then have "\<not> P (rev xs ! (length xs - 1 - j))" by (rule position_first [OF i(1)])
    then show ?thesis using j by (simp add: rev_nth)
  qed
qed

lemma rposition_None: "rposition P xs = None \<longleftrightarrow> (\<forall>x \<in> set xs. \<not> P x)"
  by (simp add: rposition_def position_None)

text \<open>Pressing the button over a window: it is raised, focused, and nothing else moves.\<close>

lemma press_state:
  assumes inv: "ws_inv s" and k: "k < length (ws_windows s)" "w_visible (ws_windows s ! k)"
  shows "\<exists>g p. fst (press k x y s) = s\<lparr>ws_focused := Some (w_id (ws_windows s ! k)),
      ws_windows := raised (w_id (ws_windows s ! k)) (ws_windows s), ws_grab := g, ws_pressed := p\<rparr> \<and>
    (g = ws_grab s \<or> (\<exists>h. g = Some h \<and> grab_id h = w_id (ws_windows s ! k))) \<and>
    (p = ws_pressed s \<or> p = Some (w_id (ws_windows s ! k)))"
proof -
  let ?i = "w_id (ws_windows s ! k)"
  obtain s1 es where f: "focus_window ?i (s, []) = (s1, es)" by fastforce
  then have s1: "s1 = s\<lparr>ws_focused := Some ?i, ws_windows := raised ?i (ws_windows s)\<rparr>"
    using focus_window_eq [OF ws_invD(2) [OF inv] k(1) refl, of "[]"] by simp
  have "fst (press k x y s) = s1 \<or> (\<exists>h. fst (press k x y s) = s1\<lparr>ws_grab := Some h\<rparr> \<and> grab_id h = ?i) \<or>
      fst (press k x y s) = s1\<lparr>ws_pressed := Some ?i\<rparr>"
    unfolding press_def f Let_def prod.case
    by (simp add: if_distrib [of fst] del: split_paired_Ex) (metis grab_id.simps)
  then consider "fst (press k x y s) = s1" | h where "fst (press k x y s) = s1\<lparr>ws_grab := Some h\<rparr>" "grab_id h = ?i"
    | "fst (press k x y s) = s1\<lparr>ws_pressed := Some ?i\<rparr>" by blast
  then show ?thesis
  proof cases
    case 1
    then show ?thesis by (intro exI [of _ "ws_grab s"] exI [of _ "ws_pressed s"]) (simp add: s1)
  next
    case (2 h)
    then show ?thesis by (intro exI [of _ "Some h"] exI [of _ "ws_pressed s"]) (simp add: s1)
  next
    case 3
    then show ?thesis by (intro exI [of _ "ws_grab s"] exI [of _ "Some ?i"]) (simp add: s1)
  qed
qed

lemma press_inv:
  assumes inv: "ws_inv s" and k: "k < length (ws_windows s)" "w_visible (ws_windows s ! k)"
  shows "ws_inv (fst (press k x y s))"
proof -
  let ?i = "w_id (ws_windows s ! k)"
  obtain g p where e: "fst (press k x y s) = s\<lparr>ws_focused := Some ?i, ws_windows := raised ?i (ws_windows s), ws_grab := g, ws_pressed := p\<rparr>"
      "g = ws_grab s \<or> (\<exists>h. g = Some h \<and> grab_id h = ?i)" "p = ws_pressed s \<or> p = Some ?i"
    using press_state [OF assms] by blast
  have "ws_inv (s\<lparr>ws_focused := Some ?i, ws_windows := raised ?i (ws_windows s)\<rparr>)"
    using focus_window_inv [OF inv k(1) refl k(2), of "[]"] unfolding focus_window_eq [OF ws_invD(2) [OF inv] k(1) refl] .
  moreover have "?i \<in> set (ids (raised ?i (ws_windows s)))"
    using raised_facts(2) [OF ws_invD(2) [OF inv] k(1) refl k(2)] k(1) by (simp add: ids_def)
  ultimately show ?thesis using e by (auto simp: ws_inv_def)
qed

lemma drag_inv:
  assumes inv: "ws_inv s"
  shows "ws_inv (fst (drag g x y s))"
proof (cases g)
  case (Grab_Move i ox oy)
  then show ?thesis using inv move_window_inv [OF inv] by (auto simp: drag_def Let_def split: option.splits)
next
  case (Grab_Resize i sx sy sw sh)
  then show ?thesis using inv resize_window_inv [OF inv] by (auto simp: drag_def split: option.splits)
qed

lemma pointer_inv:
  assumes inv: "ws_inv s"
  shows "ws_inv (fst (snd (pointer x y left was_left s)))"
proof -
  have g: "ws_inv (s\<lparr>ws_grab := None\<rparr>)" "ws_inv (s\<lparr>ws_grab := None, ws_pressed := None\<rparr>)" "ws_inv (s\<lparr>ws_pressed := None\<rparr>)"
    using inv by (simp_all add: ws_inv_def)
  have p: "ws_inv (fst (press k x y s))" if "rposition (\<lambda>w. w_contains w x y) (ws_windows s) = Some k" for k
    using press_inv [OF inv] rposition_SomeD [OF that] by (simp add: w_contains_def)
  have h: "ws_inv (fst (snd (hover hit x y t)))" if "ws_inv t" for t hit
    using that by (simp add: hover_def Let_def split: option.splits)
  show ?thesis using g p h inv drag_inv [OF inv]
    by (auto simp: pointer_def Let_def split: option.splits)
qed

text \<open>Everything that can happen to a server.\<close>

inductive ws_step :: "server \<Rightarrow> server \<Rightarrow> bool" where
  step_command: "command line s = (s', es) \<Longrightarrow> ws_step s s'"
| step_pointer: "pointer x y left was_left s = (h, s', es) \<Longrightarrow> ws_step s s'"

inductive_cases ws_step_cases: "ws_step s s'"

definition ws_reachable :: "server \<Rightarrow> bool" where
  "ws_reachable s \<longleftrightarrow> ws_step\<^sup>*\<^sup>* ws_new s"

lemma ws_reachable_invariant: "ws_reachable s \<Longrightarrow> ws_inv s"
  unfolding ws_reachable_def
proof (induction rule: rtranclp_induct)
  case base
  then show ?case by (rule ws_new_inv)
next
  case (step s s')
  from step.hyps(2) show ?case
    using command_inv [OF step.IH] pointer_inv [OF step.IH] by (elim ws_step_cases) (metis fst_conv snd_conv)+
qed

section \<open>Validated commands\<close>

lemma find_position: "find P xs = map_option (\<lambda>i. xs ! i) (position P xs)"
  by (induction xs) (auto simp: option.map_comp o_def)

definition run_of :: "string \<Rightarrow> nat \<times> u32" where
  "run_of run = (case split_once (CHR '','') run of None \<Rightarrow> (0, 0) | Some (n, c) \<Rightarrow> (the (parse_usize n), the (parse_hex32 c)))"

text \<open>The pixels a list of runs stands for.\<close>

definition run_pixels :: "string list \<Rightarrow> u32 list" where
  "run_pixels runs = concat (map (\<lambda>run. replicate (fst (run_of run)) (snd (run_of run) AND 0x00ffffff)) runs)"

lemma run_pixels_simps [simp]:
  "run_pixels [] = []"
  "run_pixels (run # runs) = replicate (fst (run_of run)) (snd (run_of run) AND 0x00ffffff) @ run_pixels runs"
  by (simp_all add: run_pixels_def)

lemma parse_run_of: "parse_run len at run = Some (e, c) \<Longrightarrow> run_of run = (e - at, c) \<and> at < e \<and> e \<le> len"
  by (auto simp: parse_run_def run_of_def checked_add_usize_def split: option.splits prod.splits if_splits)

lemma paint_runs_valid:
  "runs_ok (length surface) at runs \<Longrightarrow> at \<le> length surface \<Longrightarrow>
   at + length (run_pixels runs) \<le> length surface \<and>
   paint_runs at runs surface = take at surface @ run_pixels runs @ drop (at + length (run_pixels runs)) surface"
proof (induction at runs surface rule: paint_runs.induct)
  case (1 at surface)
  then show ?case by simp
next
  case (2 at run runs surface)
  from 2(2) obtain e c where p: "parse_run (length surface) at run = Some (e, c)" "runs_ok (length surface) e runs"
    by (auto split: option.splits prod.splits)
  note r = parse_run_of [OF p(1)]
  let ?s = "take at surface @ replicate (e - at) (c AND 0x00ffffff) @ drop e surface"
  have l: "length ?s = length surface" using r by simp
  have IH: "e + length (run_pixels runs) \<le> length surface"
    "paint_runs e runs ?s = take e ?s @ run_pixels runs @ drop (e + length (run_pixels runs)) ?s"
    using 2(1) [OF p(1) refl] p(2) l r by simp_all
  have "take e ?s = take at surface @ replicate (e - at) (c AND 0x00ffffff)" using r by simp
  moreover have "drop (e + n) ?s = drop (e + n) surface" for n using r by (simp add: add.commute)
  ultimately show ?case using IH p(1) r by simp
qed

lemma runs_ok_start: "runs_ok len at (run # runs) \<Longrightarrow> at \<le> len"
  by (auto dest: parse_run_bound split: option.splits prod.splits)

text \<open>What a command line asks for, field by field.\<close>

definition line_fields :: "string \<Rightarrow> string list" where
  "line_fields line = split_on (CHR ''|'') line"

definition line_id :: "string \<Rightarrow> u32" where
  "line_id line = the (Option.bind (fld (line_fields line) 1) parse_u32)"

lemma validate_op:
  assumes "validate s line" "line_fields line ! 0 \<noteq> ''WC''"
  obtains k where "Option.bind (fld (line_fields line) 1) parse_u32 = Some (line_id line)" "line_id line \<noteq> 0"
    "position (\<lambda>w. w_id w = line_id line) (ws_windows s) = Some k"
    "find (\<lambda>w. w_id w = line_id line) (ws_windows s) = Some (ws_windows s ! k)"
  using assms
  by (auto simp: validate_def Let_def line_id_def line_fields_def find_position split: option.splits if_splits)

lemma validate_paint:
  assumes v: "validate s line" and op: "line_fields line ! 0 = ''WP''"
  obtains k at runs where "position (\<lambda>w. w_id w = line_id line) (ws_windows s) = Some k"
    "Option.bind (fld (line_fields line) 2) parse_usize = Some at" "fld (line_fields line) 3 = Some runs"
    "command line s = (upd_window k (\<lambda>w. w\<lparr>w_surface := take at (w_surface w) @ run_pixels (split_on (CHR '';'') runs) @
       drop (at + length (run_pixels (split_on (CHR '';'') runs))) (w_surface w)\<rparr>) s, [])"
    "at + length (run_pixels (split_on (CHR '';'') runs)) \<le> length (w_surface (ws_windows s ! k))"
proof -
  let ?fs = "line_fields line" and ?i = "line_id line"
  have ne: "?fs ! 0 \<noteq> ''WC''" using op by simp
  obtain k where k: "Option.bind (fld ?fs 1) parse_u32 = Some ?i" "?i \<noteq> 0" "position (\<lambda>w. w_id w = ?i) (ws_windows s) = Some k"
      "find (\<lambda>w. w_id w = ?i) (ws_windows s) = Some (ws_windows s ! k)"
    by (rule validate_op [OF v ne])
  let ?w = "ws_windows s ! k"
  have "w_updating ?w \<and> (\<exists>at runs. Option.bind (fld ?fs 2) parse_usize = Some at \<and> fld ?fs 3 = Some runs \<and>
      runs_ok (length (w_surface ?w)) at (split_on (CHR '';'') runs))"
    using v op k unfolding validate_def Let_def line_fields_def by (simp split: option.splits if_splits)
  then obtain at runs where r: "w_updating ?w" "Option.bind (fld ?fs 2) parse_usize = Some at" "fld ?fs 3 = Some runs"
      "runs_ok (length (w_surface ?w)) at (split_on (CHR '';'') runs)" by blast
  have "at \<le> length (w_surface ?w)" using r(4) runs_ok_start split_on_nonempty by (metis neq_Nil_conv)
  note pv = paint_runs_valid [OF r(4) this]
  have "command line s = (upd_window k (\<lambda>w. w\<lparr>w_surface := paint_runs at (split_on (CHR '';'') runs) (w_surface w)\<rparr>) s, [])"
    using op k r by (simp add: command_def Let_def line_fields_def paint_window_def)
  also have "\<dots> = (upd_window k (\<lambda>w. w\<lparr>w_surface := take at (w_surface w) @ run_pixels (split_on (CHR '';'') runs) @
       drop (at + length (run_pixels (split_on (CHR '';'') runs))) (w_surface w)\<rparr>) s, [])"
    using pv by (simp add: upd_window_def)
  finally show ?thesis using that k(3) r(2,3) pv by blast
qed

lemma create_validated:
  assumes v: "validate s line" and op: "line_fields line ! 0 = ''WC''"
  obtains x y w h title where "parse_i32 (fld (line_fields line) 2) = Some x" "parse_i32 (fld (line_fields line) 3) = Some y"
    "parse_i32 (fld (line_fields line) 4) = Some w" "parse_i32 (fld (line_fields line) 5) = Some h"
    "fld (line_fields line) 6 = Some title" "valid_size w h"
    "command line s = (s\<lparr>ws_windows := ws_windows s @ [\<lparr>w_id = line_id line, w_title = title, w_x = clamp_x x, w_y = clamp_y y,
       w_width = w, w_height = h, w_visible = False, w_surface = replicate (nat (w * h)) SURFACE, w_updating = False, w_cursor = 0\<rparr>]\<rparr>,
       [Event_new (line_id line) ''WindowCreated'' (clamp_x x) (clamp_y y), Event_new (line_id line) ''Redraw'' w h])"
proof -
  let ?fs = "line_fields line"
  obtain i where i: "Option.bind (fld ?fs 1) parse_u32 = Some i" "i \<noteq> 0"
    using v unfolding validate_def Let_def line_fields_def by (simp split: option.split_asm if_split_asm)
  have big: "case (parse_i32 (fld ?fs 2), parse_i32 (fld ?fs 3), parse_i32 (fld ?fs 4), parse_i32 (fld ?fs 5), fld ?fs 6) of
       (Some x, Some y, Some width, Some height, Some title) \<Rightarrow>
         length (ws_windows s) < MAX_WINDOWS \<and> \<not> list_ex (\<lambda>w. w_id w = i) (ws_windows s) \<and>
         valid_size width height \<and> length title \<le> 48 \<and> fld ?fs 7 = None
     | _ \<Rightarrow> False"
    using v op i unfolding validate_def Let_def line_fields_def by simp
  obtain x y w h title where r': "parse_i32 (fld ?fs 2) = Some x" "parse_i32 (fld ?fs 3) = Some y"
      "parse_i32 (fld ?fs 4) = Some w" "parse_i32 (fld ?fs 5) = Some h" "fld ?fs 6 = Some title"
    using big by (cases "parse_i32 (fld ?fs 2)"; cases "parse_i32 (fld ?fs 3)"; cases "parse_i32 (fld ?fs 4)";
      cases "parse_i32 (fld ?fs 5)"; cases "fld ?fs 6"; simp)
  note r = i r' big [unfolded r' option.case prod.case, simplified]
  have "line_id line = i" using r(1) by (simp add: line_id_def)
  then have "command line s = (s\<lparr>ws_windows := ws_windows s @ [\<lparr>w_id = line_id line, w_title = title, w_x = clamp_x x, w_y = clamp_y y,
       w_width = w, w_height = h, w_visible = False, w_surface = replicate (nat (w * h)) SURFACE, w_updating = False, w_cursor = 0\<rparr>]\<rparr>,
       [Event_new (line_id line) ''WindowCreated'' (clamp_x x) (clamp_y y), Event_new (line_id line) ''Redraw'' w h])"
    using op r by (simp add: command_def Let_def line_fields_def create_window_def valid_area)
  then show ?thesis using that [OF r'] r by simp
qed

section \<open>Hit testing\<close>

text \<open>The front-most visible window under a point.\<close>

definition top_window :: "server \<Rightarrow> int \<Rightarrow> int \<Rightarrow> window option" where
  "top_window s x y = rfind (\<lambda>w. w_contains w x y) (ws_windows s)"

lemma rposition_rfind: "rfind P xs = map_option (\<lambda>i. xs ! i) (rposition P xs)"
proof -
  have "find P (rev xs) = map_option (\<lambda>i. rev xs ! i) (position P (rev xs))" by (rule find_position)
  then show ?thesis
    by (cases "position P (rev xs)") (use position_SomeD [of P "rev xs"] in \<open>auto simp: rfind_def rposition_def rev_nth\<close>)
qed

lemma frame_sizes:
  assumes "window_ok w"
  shows "frame_width w = w_width w + 2" "frame_height w = w_height w + 45"
    "add32 (w_x w) (frame_width w) = w_x w + w_width w + 2" "add32 (w_y w) (frame_height w) = w_y w + w_height w + 45"
proof -
  have b: "80 \<le> w_width w" "w_width w \<le> 600" "50 \<le> w_height w" "w_height w \<le> 440" "0 \<le> w_x w" "w_x w \<le> 984" "0 \<le> w_y w" "w_y w \<le> 724"
    using assms by (simp_all add: window_ok_def valid_size_def MAX_WIDTH_def MAX_HEIGHT_def WIDTH_def HEIGHT_def TITLE_HEIGHT_def)
  show f: "frame_width w = w_width w + 2" "frame_height w = w_height w + 45"
    using b by (simp_all add: frame_width_def frame_height_def add32_def mul32_def BORDER_def TITLE_HEIGHT_def)
  show "add32 (w_x w) (frame_width w) = w_x w + w_width w + 2" "add32 (w_y w) (frame_height w) = w_y w + w_height w + 45"
    unfolding f using b by (simp_all add: add32_def)
qed

text \<open>Events of the pointer that carry client coordinates.\<close>

definition client_event :: "window \<Rightarrow> wevent \<Rightarrow> bool" where
  "client_event w e \<longleftrightarrow> we_id e = w_id w \<and> 0 \<le> we_a e \<and> we_a e < w_width w \<and> 0 \<le> we_b e \<and> we_b e < w_height w"

lemma in_client_event: "in_client w (w_local w x y) \<Longrightarrow>
   client_event w (Event_new (w_id w) kind (fst (w_local w x y)) (snd (w_local w x y)))"
  by (cases "w_local w x y") (simp add: in_client_def client_event_def Event_new_def)

lemma focus_events:
  "snd (focus_window i (s, es)) = es @ (if ws_focused s = Some i then [] else
     (case ws_focused s of None \<Rightarrow> [] | Some old \<Rightarrow> [Event_new old ''FocusLost'' 0 0]) @ [Event_new i ''FocusGained'' 0 0])"
  by (auto simp: focus_window_def Let_def split: option.splits)

lemma press_events:
  assumes inv: "ws_inv s" and k: "k < length (ws_windows s)" "w_visible (ws_windows s ! k)"
    and e: "e \<in> set (snd (press k x y s))" "we_kind e = ''MouseDown''"
  shows "client_event (ws_windows s ! k) e \<and> ws_pressed (fst (press k x y s)) = Some (w_id (ws_windows s ! k))"
proof -
  let ?w = "ws_windows s ! k"
  obtain s1 es where f: "focus_window (w_id ?w) (s, []) = (s1, es)" by fastforce
  have s1: "s1 = s\<lparr>ws_focused := Some (w_id ?w), ws_windows := raised (w_id ?w) (ws_windows s)\<rparr>"
    using focus_window_eq [OF ws_invD(2) [OF inv] k(1) refl, of "[]"] f by simp
  have es: "we_kind a \<noteq> ''MouseDown''" if "a \<in> set es" for a
    using focus_events [of "w_id ?w" s "[]"] f that by (auto simp: Event_new_def split: if_splits option.splits)
  have l: "last (ws_windows s1) = ?w" using raised_facts(6) [OF ws_invD(2) [OF inv] k(1) refl k(2)] by (simp add: s1)
  show ?thesis
    using e es in_client_event [of ?w x y] unfolding press_def f Let_def prod.case l
    by (auto simp: Event_new_def split: if_splits)
qed

section \<open>What paint leaves on the screen\<close>

lemma for_each_append: "for_each f (xs @ ys) s = (case for_each f xs s of None \<Rightarrow> None | Some s \<Rightarrow> for_each f ys s)"
  by (induction xs arbitrary: s) (auto split: option.splits)

lemma paints_skip: "(\<And>u v. on_screen u v \<Longrightarrow> p u v = None) \<Longrightarrow> paints p (\<lambda>px. Some px)"
  by (simp add: paints_def)

lemma last_of_pick:
  "a \<in> set xs \<Longrightarrow> v a x y = Some c \<Longrightarrow> (\<And>b. b \<in> set xs \<Longrightarrow> b \<noteq> a \<Longrightarrow> v b x y = None) \<Longrightarrow> last_of v xs x y = Some c"
  by (subst last_of_uniform [where k = c]) auto

lemma surface_index:
  assumes "0 \<le> sx" "sx < w" "0 \<le> sy" "sy < h"
  shows "nat sy * nat w + nat sx < nat (w * h)"
proof -
  have "sy * w + sx < sy * w + w" using assms by simp
  also have "\<dots> = (sy + 1) * w" by (simp add: algebra_simps)
  also have "\<dots> \<le> h * w" using assms by (intro mult_right_mono) simp_all
  finally have "sy * w + sx < w * h" by (simp add: mult.commute)
  moreover have "nat sy * nat w + nat sx = nat (sy * w + sx)" using assms by (simp add: nat_add_distrib nat_mult_distrib)
  ultimately show ?thesis using assms by simp
qed

definition client_pixel :: "window \<Rightarrow> int \<Rightarrow> int \<Rightarrow> u32 option" where
  "client_pixel w u v =
     (if w_x w + 1 \<le> u \<and> u < w_x w + 1 + w_width w \<and> w_y w + 44 \<le> v \<and> v < w_y w + 44 + w_height w
      then Some (w_surface w ! (nat (v - w_y w - 44) * nat (w_width w) + nat (u - w_x w - 1))) else None)"

lemma window_bounds:
  assumes "window_ok w"
  shows "80 \<le> w_width w" "w_width w \<le> 600" "50 \<le> w_height w" "w_height w \<le> 440" "0 \<le> w_x w" "w_x w \<le> 984" "0 \<le> w_y w" "w_y w \<le> 724"
    "length (w_surface w) = nat (w_width w * w_height w)"
  using assms by (simp_all add: window_ok_def valid_size_def MAX_WIDTH_def MAX_HEIGHT_def WIDTH_def HEIGHT_def TITLE_HEIGHT_def)

lemma paints_surface:
  assumes ok: "window_ok w"
  shows "paints (client_pixel w) (draw_surface w)"
proof -
  note b = window_bounds [OF ok]
  let ?cols = "[0..w_width w - 1]" and ?rows = "[0..w_height w - 1]"
  let ?p = "\<lambda>sy sx u v. if u = w_x w + 1 + sx \<and> v = w_y w + 44 + sy then Some (w_surface w ! (nat sy * nat (w_width w) + nat sx)) else None"
  have cell: "paints (?p sy sx) (\<lambda>px. let dx = add32 (add32 (w_x w) BORDER) sx; k = nat sy * nat (w_width w) + nat sx in
        if dx \<ge> 0 \<and> dx < int WIDTH
        then (if k < length (w_surface w) then put_pixel (nat (w_y w + 44 + sy) * WIDTH + nat dx) (w_surface w ! k) px else None) else Some px)"
    if sy: "sy \<in> set ?rows" "w_y w + 44 + sy < int HEIGHT" and sx: "sx \<in> set ?cols" for sy sx
  proof -
    have dx: "add32 (add32 (w_x w) BORDER) sx = w_x w + 1 + sx" using b sx by (simp add: add32_def BORDER_def)
    have k: "nat sy * nat (w_width w) + nat sx < length (w_surface w)" using surface_index sx sy b(9) by simp
    show ?thesis
    proof (cases "w_x w + 1 + sx < int WIDTH")
      case True
      then have "on_screen (w_x w + 1 + sx) (w_y w + 44 + sy)" using b sx sy by (simp add: on_screen_def)
      from paints_pixel [OF this] show ?thesis using True k b sx by (simp add: dx)
    next
      case False
      then have "paints (?p sy sx) (\<lambda>px. Some px)" by (intro paints_skip) (auto simp: on_screen_def)
      then show ?thesis using False by (simp add: dx)
    qed
  qed
  have line: "paints (last_of (?p sy) ?cols) (\<lambda>px. let dy = add32 (add32 (w_y w) TITLE_HEIGHT) sy in
        if dy < 0 \<or> dy \<ge> int HEIGHT then Some px
        else for_each (\<lambda>sx px. let dx = add32 (add32 (w_x w) BORDER) sx; k = nat sy * nat (w_width w) + nat sx in
            if dx \<ge> 0 \<and> dx < int WIDTH
            then (if k < length (w_surface w) then put_pixel (nat dy * WIDTH + nat dx) (w_surface w ! k) px else None) else Some px)
          ?cols px)" if sy: "sy \<in> set ?rows" for sy
  proof -
    have dy: "add32 (add32 (w_y w) TITLE_HEIGHT) sy = w_y w + 44 + sy" using b sy by (simp add: add32_def TITLE_HEIGHT_def)
    show ?thesis
    proof (cases "w_y w + 44 + sy < int HEIGHT")
      case True
      have "paints (last_of (?p sy) ?cols) (for_each (\<lambda>sx px. let dx = add32 (add32 (w_x w) BORDER) sx; k = nat sy * nat (w_width w) + nat sx in
            if dx \<ge> 0 \<and> dx < int WIDTH
            then (if k < length (w_surface w) then put_pixel (nat (w_y w + 44 + sy) * WIDTH + nat dx) (w_surface w ! k) px else None) else Some px)
          ?cols)"
        by (rule paints_for_each, rule ballI, rule cell [OF sy True])
      then show ?thesis using True b sy by (simp add: dy)
    next
      case False
      then have "last_of (?p sy) ?cols u v = None" if "on_screen u v" for u v
        using that by (auto simp: last_of_None on_screen_def)
      then have "paints (last_of (?p sy) ?cols) (\<lambda>px. Some px)" by (rule paints_skip)
      then show ?thesis using False by (simp add: dy)
    qed
  qed
  have all: "paints (last_of (\<lambda>sy. last_of (?p sy) ?cols) ?rows) (draw_surface w)"
    unfolding draw_surface_def by (rule paints_for_each, rule ballI, rule line)
  have "last_of (\<lambda>sy. last_of (?p sy) ?cols) ?rows u v = client_pixel w u v" for u v
  proof (cases "client_pixel w u v")
    case None
    then show ?thesis by (auto simp: client_pixel_def last_of_None split: if_splits)
  next
    case (Some c)
    then have uv: "u - w_x w - 1 \<in> set ?cols" "v - w_y w - 44 \<in> set ?rows" and
      c: "c = w_surface w ! (nat (v - w_y w - 44) * nat (w_width w) + nat (u - w_x w - 1))"
      by (auto simp: client_pixel_def split: if_splits)
    have "last_of (?p (v - w_y w - 44)) ?cols u v = Some c"
      by (rule last_of_pick [where v = "?p (v - w_y w - 44)", OF uv(1)]) (auto simp: c)
    then have "last_of (\<lambda>sy. last_of (?p sy) ?cols) ?rows u v = Some c"
      by (rule last_of_pick [where v = "\<lambda>sy. last_of (?p sy) ?cols", OF uv(2)]) (auto simp: last_of_None)
    then show ?thesis using Some by simp
  qed
  then show ?thesis using all by (intro paints_cong [OF all]) simp
qed

text \<open>The two strokes of the resize mark in the lower right corner are drawn over the client area.\<close>

definition resize_mark :: "window \<Rightarrow> int \<Rightarrow> int \<Rightarrow> bool" where
  "resize_mark w u v \<longleftrightarrow>
     w_x w + w_width w - 9 \<le> u \<and> u < w_x w + w_width w - 2 \<and> v = w_y w + w_height w + 40 \<or>
     w_x w + w_width w - 6 \<le> u \<and> u < w_x w + w_width w - 2 \<and> v = w_y w + w_height w + 37"

lemma draw_window_paints:
  assumes ok: "window_ok w"
  shows "\<exists>p. paints p (draw_window focused w) \<and>
    (\<forall>u v c. client_pixel w u v = Some c \<longrightarrow> \<not> resize_mark w u v \<longrightarrow> p u v = Some c)"
proof -
  note b = window_bounds [OF ok] and f = frame_sizes [OF ok]
  let ?id = "\<lambda>step :: pixels \<Rightarrow> pixels option. step"
  have any: "confined (\<lambda>_ _. True) (draw_fill x y w h c)" for x y w h c by (rule confined_fill) simp
  have anyt: "confined (\<lambda>_ _. True) (draw_text x (add32 (w_y w) k) l c n)" if "0 \<le> k" "k < 100" for x l c n k
    by (rule confined_mono [OF confined_text]) (use b that in \<open>auto simp: add32_def\<close>)
  have cy: "add32 (add32 (w_y w) 13) 6 = add32 (w_y w) 19" using b by (simp add: add32_def)
  let ?chrome = "draw_chrome focused w" and ?mark = "draw_mark w"
  have "\<forall>d \<in> set ?chrome. confined (\<lambda>_ _. True) d" by (simp add: draw_chrome_def Let_def any anyt cy)
  then have "confined (\<lambda>_ _. True) (for_each ?id ?chrome)" by (rule confined_for_each)
  then obtain p1 where p1: "paints p1 (for_each ?id ?chrome)" unfolding confined_def by blast
  have mark: "confined (resize_mark w) (draw_fill (sub32 (w_x w + w_width w + 2) a) (sub32 (w_y w + w_height w + 45) b) n 1 c)"
    if "a = 11 \<and> b = 5 \<and> n = 7 \<or> a = 8 \<and> b = 8 \<and> n = 4" for a b n c
    by (rule confined_fill) (use b that in \<open>auto simp: resize_mark_def sub32_def add32_def\<close>)
  have "confined (resize_mark w) (for_each ?id ?mark)"
    by (rule confined_for_each) (simp add: draw_mark_def f(3,4) mark)
  then obtain p3 where p3: "paints p3 (for_each ?id ?mark)" "\<And>u v. p3 u v \<noteq> None \<Longrightarrow> resize_mark w u v" unfolding confined_def by blast
  note p = paints_seq [OF paints_seq [OF p1 paints_surface [OF ok]] p3(1)]
  have "draw_window focused w = (\<lambda>px. case case for_each ?id ?chrome px of None \<Rightarrow> None | Some px \<Rightarrow> draw_surface w px of
      None \<Rightarrow> None | Some px \<Rightarrow> for_each ?id ?mark px)"
    unfolding draw_window_def by (rule ext) (simp add: for_each_append split: option.splits)
  then have "paints (\<lambda>x y. case p3 x y of None \<Rightarrow> (case client_pixel w x y of None \<Rightarrow> p1 x y | Some c \<Rightarrow> Some c) | Some c \<Rightarrow> Some c) (draw_window focused w)"
    using p by simp
  moreover have "p3 u v = None" if "\<not> resize_mark w u v" for u v using p3(2) that by blast
  ultimately show ?thesis by (intro exI conjI) (assumption, simp)
qed

lemma paint_paints:
  assumes inv: "ws_inv s"
  shows "\<exists>p. paints p (paint s) \<and> (\<forall>w u v c. rfind w_visible (ws_windows s) = Some w \<longrightarrow> client_pixel w u v = Some c \<longrightarrow>
    \<not> resize_mark w u v \<longrightarrow> p u v = Some c)"
proof -
  let ?d = "\<lambda>w px. if \<not> w_visible w then Some px else draw_window (ws_focused s = Some (w_id w)) w px"
  let ?P = "\<lambda>w p. paints p (?d w) \<and> (w_visible w \<longrightarrow> (\<forall>u v c. client_pixel w u v = Some c \<longrightarrow> \<not> resize_mark w u v \<longrightarrow> p u v = Some c)) \<and>
      (\<not> w_visible w \<longrightarrow> p = (\<lambda>_ _. None))"
  have "\<exists>p. ?P w p" if "w \<in> set (ws_windows s)" for w
    using draw_window_paints [OF ws_invD(3) [OF inv that]] paints_skip [of "\<lambda>_ _. None"] by (cases "w_visible w") auto
  then obtain p where P: "\<forall>w \<in> set (ws_windows s). ?P w (p w)" using bchoice [of "set (ws_windows s)" ?P] by blast
  have p: "\<And>w. w \<in> set (ws_windows s) \<Longrightarrow> paints (p w) (?d w)"
      "\<And>w u v c. w \<in> set (ws_windows s) \<Longrightarrow> w_visible w \<Longrightarrow> client_pixel w u v = Some c \<Longrightarrow> \<not> resize_mark w u v \<Longrightarrow> p w u v = Some c"
      "\<And>w. w \<in> set (ws_windows s) \<Longrightarrow> \<not> w_visible w \<Longrightarrow> p w = (\<lambda>_ _. None)"
    using P by blast+
  have "paints (last_of p (ws_windows s)) (paint s)"
    unfolding paint_def by (rule paints_for_each) (use p(1) in blast)
  moreover have "last_of p (ws_windows s) u v = Some c"
    if w: "rfind w_visible (ws_windows s) = Some w" "client_pixel w u v = Some c" "\<not> resize_mark w u v" for w u v c
  proof -
    obtain k where k: "k < length (ws_windows s)" "ws_windows s ! k = w" "w_visible w"
        "\<And>j. k < j \<Longrightarrow> j < length (ws_windows s) \<Longrightarrow> \<not> w_visible (ws_windows s ! j)"
      using w(1) rposition_SomeD [of w_visible "ws_windows s"] by (auto simp: rposition_rfind)
    have sp: "ws_windows s = take k (ws_windows s) @ w # drop (Suc k) (ws_windows s)" using id_take_nth_drop [OF k(1)] k(2) by simp
    have "p a u v = None" if a: "a \<in> set (drop (Suc k) (ws_windows s))" for a
    proof -
      obtain i where "i < length (ws_windows s) - Suc k" "a = ws_windows s ! (Suc k + i)"
        using a by (auto simp: in_set_conv_nth)
      then have "\<not> w_visible a" using k(4) [of "Suc k + i"] by simp
      then show ?thesis using p(3) [OF in_set_dropD [OF a]] by simp
    qed
    then have "last_of p (drop (Suc k) (ws_windows s)) u v = None" by (simp add: last_of_None)
    moreover have "p w u v = Some c" using p(2) [OF _ k(3) w(2,3)] k(1,2) by auto
    moreover have "last_of p (xs @ ys) u v = (case last_of p ys u v of None \<Rightarrow> last_of p xs u v | Some c \<Rightarrow> Some c)" for xs ys
      by (induction xs) (auto split: option.splits)
    ultimately show ?thesis by (subst sp) simp
  qed
  ultimately show ?thesis by blast
qed

section \<open>Properties of the window server\<close>

text \<open>C22. Whatever lines clients send and however the pointer moves, the server stays in order: at most eight
  windows with distinct non-zero identifiers and allowed sizes, each reachable on the screen and with
  a surface of exactly its area; a drag or a press refers to a window that exists; and keystrokes go to
  nobody but the front-most visible window.\<close>

theorem window_server_invariant:
  assumes "ws_reachable s"
  shows "ws_inv s \<and> (\<forall>e \<in> set (key s scan txt). \<exists>w. rfind w_visible (ws_windows s) = Some w \<and> we_id e = w_id w)"
proof -
  have inv: "ws_inv s" by (rule ws_reachable_invariant [OF assms])
  have "\<exists>w. rfind w_visible (ws_windows s) = Some w \<and> we_id e = w_id w" if e: "e \<in> set (key s scan txt)" for e
  proof -
    have "ws_focused s = Some (we_id e)" using e by (auto simp: key_def Event_new_def split: option.splits)
    then obtain i where i: "ws_focused s = Some i" "we_id e = i" by blast
    then show ?thesis using ws_invD(4,5) [OF inv i(1)] by (auto simp: rfind_last visible_ids_def last_map)
  qed
  then show ?thesis using inv by blast
qed

text \<open>C23. A validated line is carried out in full. A validated creation appends a hidden window
  of the requested title and size, kept on the screen; a validated paint command replaces exactly
  the pixels from its offset on by all of its runs, inside the surface, and changes nothing else.\<close>

theorem validated_command:
  assumes "validate s line"
  shows "(line_fields line ! 0 = ''WC'' \<longrightarrow>
      (\<exists>x y w h title. parse_i32 (fld (line_fields line) 2) = Some x \<and> parse_i32 (fld (line_fields line) 3) = Some y \<and>
         parse_i32 (fld (line_fields line) 4) = Some w \<and> parse_i32 (fld (line_fields line) 5) = Some h \<and>
         fld (line_fields line) 6 = Some title \<and>
         fst (command line s) = s\<lparr>ws_windows := ws_windows s @ [\<lparr>w_id = line_id line, w_title = title, w_x = clamp_x x,
           w_y = clamp_y y, w_width = w, w_height = h, w_visible = False, w_surface = replicate (nat (w * h)) SURFACE,
           w_updating = False, w_cursor = 0\<rparr>]\<rparr>)) \<and>
    (line_fields line ! 0 = ''WP'' \<longrightarrow>
      (\<exists>k at runs. position (\<lambda>w. w_id w = line_id line) (ws_windows s) = Some k \<and>
         Option.bind (fld (line_fields line) 2) parse_usize = Some at \<and> fld (line_fields line) 3 = Some runs \<and>
         (let new = run_pixels (split_on (CHR '';'') runs) in
          at + length new \<le> length (w_surface (ws_windows s ! k)) \<and>
          command line s = (upd_window k (\<lambda>w. w\<lparr>w_surface := take at (w_surface w) @ new @ drop (at + length new) (w_surface w)\<rparr>) s, []))))"
proof (intro conjI impI)
  assume op: "line_fields line ! 0 = ''WC''"
  show "\<exists>x y w h title. parse_i32 (fld (line_fields line) 2) = Some x \<and> parse_i32 (fld (line_fields line) 3) = Some y \<and>
         parse_i32 (fld (line_fields line) 4) = Some w \<and> parse_i32 (fld (line_fields line) 5) = Some h \<and>
         fld (line_fields line) 6 = Some title \<and>
         fst (command line s) = s\<lparr>ws_windows := ws_windows s @ [\<lparr>w_id = line_id line, w_title = title, w_x = clamp_x x,
           w_y = clamp_y y, w_width = w, w_height = h, w_visible = False, w_surface = replicate (nat (w * h)) SURFACE,
           w_updating = False, w_cursor = 0\<rparr>]\<rparr>"
    by (rule create_validated [OF assms op]) simp
next
  assume op: "line_fields line ! 0 = ''WP''"
  show "\<exists>k at runs. position (\<lambda>w. w_id w = line_id line) (ws_windows s) = Some k \<and>
         Option.bind (fld (line_fields line) 2) parse_usize = Some at \<and> fld (line_fields line) 3 = Some runs \<and>
         (let new = run_pixels (split_on (CHR '';'') runs) in
          at + length new \<le> length (w_surface (ws_windows s ! k)) \<and>
          command line s = (upd_window k (\<lambda>w. w\<lparr>w_surface := take at (w_surface w) @ new @ drop (at + length new) (w_surface w)\<rparr>) s, []))"
    by (rule validate_paint [OF assms op]) (simp add: Let_def)
qed

text \<open>C24. Pressing the button goes to the window one sees: the front-most visible window under the
  pointer comes to the front unchanged and takes the focus, a \<^verbatim>\<open>MouseDown\<close> is sent only to it and with coordinates
  inside its client area; with no window under the pointer the packet is left to others.\<close>

theorem press_goes_to_top_window:
  assumes "ws_reachable s" "ws_grab s = None"
  shows "case top_window s x y of
      None \<Rightarrow> pointer x y True False s = (False, s, [])
    | Some w \<Rightarrow> \<exists>s' es. pointer x y True False s = (True, s', es) \<and> ws_focused s' = Some (w_id w) \<and>
        last (ws_windows s') = w \<and> set (ws_windows s') = set (ws_windows s) \<and>
        (\<forall>e \<in> set es. we_kind e = ''MouseDown'' \<longrightarrow> client_event w e \<and> ws_pressed s' = Some (w_id w))"
proof (cases "rposition (\<lambda>w. w_contains w x y) (ws_windows s)")
  case None
  then show ?thesis using assms(2) by (simp add: top_window_def rposition_rfind pointer_def)
next
  case (Some k)
  have inv: "ws_inv s" by (rule ws_reachable_invariant [OF assms(1)])
  note r = rposition_SomeD [OF Some]
  have vis: "w_visible (ws_windows s ! k)" using r(2) by (simp add: w_contains_def)
  note rf = raised_facts [OF ws_invD(2) [OF inv] r(1) refl vis]
  have p: "pointer x y True False s = (True, press k x y s)" using Some assms(2) by (simp add: pointer_def)
  obtain s' es where pr: "press k x y s = (s', es)" by fastforce
  have "ws_focused s' = Some (w_id (ws_windows s ! k)) \<and> ws_windows s' = raised (w_id (ws_windows s ! k)) (ws_windows s)"
    using press_state [OF inv r(1) vis, of x y] pr by auto
  moreover have "client_event (ws_windows s ! k) e \<and> ws_pressed s' = Some (w_id (ws_windows s ! k))"
    if "e \<in> set es" "we_kind e = ''MouseDown''" for e
    using press_events [OF inv r(1) vis, of e x y] pr that by simp
  ultimately show ?thesis using rf(2,6) p pr Some by (auto simp: top_window_def rposition_rfind)
qed

text \<open>C25. Painting never writes outside the screen and shows the front window: for every reachable state
  \<^verbatim>\<open>paint\<close> completes, and every on-screen pixel of the client area of the front-most visible window, outside
  the resize mark, is the pixel of its surface.\<close>

theorem paint_shows_front_window:
  assumes "ws_reachable s" "screen px"
  shows "\<exists>px'. paint s px = Some px' \<and> screen px' \<and>
    (\<forall>w u v c. rfind w_visible (ws_windows s) = Some w \<longrightarrow> on_screen u v \<longrightarrow> client_pixel w u v = Some c \<longrightarrow>
       \<not> resize_mark w u v \<longrightarrow> pixel_at px' u v = c)"
proof -
  obtain p where p: "paints p (paint s)" "\<And>w u v c. rfind w_visible (ws_windows s) = Some w \<Longrightarrow> client_pixel w u v = Some c \<Longrightarrow>
      \<not> resize_mark w u v \<Longrightarrow> p u v = Some c"
    using paint_paints [OF ws_reachable_invariant [OF assms(1)]] by blast
  obtain px' where px': "paint s px = Some px'" "screen px'"
      "\<And>x y. on_screen x y \<Longrightarrow> pixel_at px' x y = (case p x y of None \<Rightarrow> pixel_at px x y | Some c \<Rightarrow> c)"
    by (rule paintsD [OF p(1) assms(2)]) blast
  have "pixel_at px' u v = c" if "rfind w_visible (ws_windows s) = Some w" "on_screen u v" "client_pixel w u v = Some c"
      "\<not> resize_mark w u v" for w u v c
    using px'(3) [OF that(2)] p(2) [OF that(1,3,4)] by simp
  then show ?thesis using px'(1,2) by blast
qed

section \<open>A concrete session\<close>

definition demo_ws :: server where
  "demo_ws = fst (command ''WS|7'' (fst (command ''WC|7|10|20|100|60|Hello'' ws_new)))"

lemma demo_fields:
  "split_on (CHR ''|'') ''WC|7|10|20|100|60|Hello'' = [''WC'', ''7'', ''10'', ''20'', ''100'', ''60'', ''Hello'']"
  "split_on (CHR ''|'') ''WS|7'' = [''WS'', ''7'']"
  by (simp_all)

lemma demo_numbers:
  "parse_u32 ''7'' = Some 7" "parse_i32_str ''10'' = Some 10" "parse_i32_str ''20'' = Some 20"
  "parse_i32_str ''100'' = Some 100" "parse_i32_str ''60'' = Some 60"
  by (simp_all add: parse_u32_def parse_uint_def nonempty_digits_def parse_i32_str_def digit_val_def Let_def)

definition demo_window :: window where
  "demo_window = \<lparr>w_id = 7, w_title = ''Hello'', w_x = 10, w_y = 20, w_width = 100, w_height = 60, w_visible = True,
     w_surface = replicate 6000 SURFACE, w_updating = False, w_cursor = 0\<rparr>"

lemma demo_valid: "validate ws_new ''WC|7|10|20|100|60|Hello''"
  by (simp add: validate_def Let_def demo_fields fld_def demo_numbers parse_i32_def ws_new_def MAX_WINDOWS_def valid_size_def
      MAX_WIDTH_def MAX_HEIGHT_def)

lemma demo_created:
  "fst (command ''WC|7|10|20|100|60|Hello'' ws_new) = ws_new\<lparr>ws_windows := [demo_window\<lparr>w_visible := False\<rparr>]\<rparr>"
  by (simp add: command_def Let_def demo_fields fld_def demo_numbers create_window_def parse_i32_def ws_new_def MAX_WINDOWS_def
      valid_size_def MAX_WIDTH_def MAX_HEIGHT_def demo_window_def clamp_x_def clamp_y_def clamp_def WIDTH_def HEIGHT_def TITLE_HEIGHT_def
      mul32_def)

lemma demo_ws_eq: "demo_ws = \<lparr>ws_windows = [demo_window], ws_focused = Some 7, ws_grab = None, ws_pressed = None\<rparr>"
  unfolding demo_ws_def demo_created
  by (simp add: command_def Let_def demo_fields fld_def demo_numbers ws_new_def upd_window_def focus_window_def demo_window_def remove_nth_def)

lemma demo_ws_reachable: "ws_reachable demo_ws"
proof -
  have "ws_step s (fst (command line s))" for s line by (rule step_command [of line s _ "snd (command line s)"]) simp
  then show ?thesis unfolding ws_reachable_def demo_ws_def by (meson rtranclp.rtrancl_refl rtranclp.rtrancl_into_rtrancl)
qed

lemma demo_contains: "w_contains demo_window 50 30"
  by (simp add: w_contains_def demo_window_def frame_width_def frame_height_def add32_def mul32_def BORDER_def TITLE_HEIGHT_def)

theorem window_server_invariant_witness: "ws_inv demo_ws"
  using window_server_invariant [OF demo_ws_reachable, of 0 None] by blast

theorem validated_command_witness:
  "\<exists>w. ws_windows (fst (command ''WC|7|10|20|100|60|Hello'' ws_new)) = [w] \<and> w_title w = ''Hello''"
proof -
  have "line_fields ''WC|7|10|20|100|60|Hello'' ! 0 = ''WC''" "fld (line_fields ''WC|7|10|20|100|60|Hello'') 6 = Some ''Hello''"
    by (simp_all add: line_fields_def fld_def)
  then show ?thesis using validated_command [OF demo_valid] by (auto simp: ws_new_def)
qed

theorem press_goes_to_top_window_witness:
  "\<exists>s' es. pointer 50 30 True False demo_ws = (True, s', es) \<and> ws_focused s' = Some 7"
proof -
  have "ws_grab demo_ws = None" "top_window demo_ws 50 30 = Some demo_window"
    using demo_contains by (simp_all add: demo_ws_eq top_window_def rfind_def)
  moreover have "w_id demo_window = 7" by (simp add: demo_window_def)
  ultimately show ?thesis using press_goes_to_top_window [OF demo_ws_reachable, of 50 30] by auto
qed

theorem paint_shows_front_window_witness:
  "\<exists>px'. paint demo_ws (replicate (WIDTH * HEIGHT) 0) = Some px' \<and> pixel_at px' 20 70 = SURFACE"
proof -
  have s: "screen (replicate (WIDTH * HEIGHT) 0)" by (simp add: screen_def)
  have "rfind w_visible (ws_windows demo_ws) = Some demo_window" by (simp add: demo_ws_eq rfind_def demo_window_def)
  moreover have "on_screen 20 70" "client_pixel demo_window 20 70 = Some SURFACE" "\<not> resize_mark demo_window 20 70"
    by (simp_all add: on_screen_def WIDTH_def HEIGHT_def client_pixel_def demo_window_def resize_mark_def)
  ultimately show ?thesis using paint_shows_front_window [OF demo_ws_reachable s] by blast
qed

end
