(* ===== verification/Console.thy ===== *)
theory Console
  imports Rust_Text
begin

text \<open>
  The displays of \<^verbatim>\<open>display.rs\<close>: the 80 by 25 VGA text console with its hardware cursor, and
  the checks on the framebuffer the boot loader offers. The 2000 cells of text memory are a list;
  a write outside them, which the raw pointer of the source would carry out anywhere in
  memory, is the value \<open>None\<close>.
\<close>

definition VGA_WIDTH :: nat where "VGA_WIDTH = 80"
definition VGA_HEIGHT :: nat where "VGA_HEIGHT = 25"

record text_console =
  tc_row :: usize
  tc_column :: usize
  tc_attribute :: u8
  vga :: "u16 list"
  crtc_cursor :: u16

definition tc_cell :: "text_console \<Rightarrow> u8 \<Rightarrow> u16" where
  "tc_cell t byte = push_bit 8 (ucast (tc_attribute t)) OR ucast byte"

definition tc_blank :: "text_console \<Rightarrow> u16" where
  "tc_blank t = push_bit 8 (ucast (tc_attribute t)) OR 0x20"

definition vga_write :: "nat \<Rightarrow> u16 \<Rightarrow> text_console \<Rightarrow> text_console option" where
  "vga_write i c t = (if i < VGA_WIDTH * VGA_HEIGHT then Some (t\<lparr>vga := (vga t)[i := c]\<rparr>) else None)"

text \<open>The two bytes of the position go to the cursor registers 14 and 15.\<close>

definition update_cursor :: "text_console \<Rightarrow> text_console" where
  "update_cursor t =
     (let position = (of_nat (tc_row t * VGA_WIDTH + min (tc_column t) (VGA_WIDTH - 1)) :: u16);
          low = (ucast position :: u8); high = (ucast (drop_bit 8 position) :: u8) in
      t\<lparr>crtc_cursor := push_bit 8 (ucast high) OR ucast low\<rparr>)"

definition tc_clear :: "text_console \<Rightarrow> text_console" where
  "tc_clear t =
     (let blank = tc_blank t;
          t = t\<lparr>vga := fold (\<lambda>cell v. v[cell := blank]) [0..<VGA_WIDTH * VGA_HEIGHT] (vga t)\<rparr> in
      update_cursor (t\<lparr>tc_row := 0, tc_column := 0\<rparr>))"

definition tc_new :: "u16 list \<Rightarrow> u16 \<Rightarrow> text_console" where
  "tc_new memory cursor =
     tc_clear \<lparr>tc_row = 0, tc_column = 0, tc_attribute = 0x1f, vga = memory, crtc_cursor = cursor\<rparr>"

definition set_attribute :: "u8 \<Rightarrow> text_console \<Rightarrow> text_console" where
  "set_attribute a t = t\<lparr>tc_attribute := a\<rparr>"

definition scroll_row :: "nat \<Rightarrow> u16 list \<Rightarrow> u16 list" where
  "scroll_row row v =
     fold (\<lambda>column v. let from = row * VGA_WIDTH + column; to = from - VGA_WIDTH in v[to := v ! from]) [0..<VGA_WIDTH] v"

definition tc_scroll :: "text_console \<Rightarrow> text_console" where
  "tc_scroll t =
     (let v = fold scroll_row [1..<VGA_HEIGHT] (vga t);
          v = fold (\<lambda>column v. v[(VGA_HEIGHT - 1) * VGA_WIDTH + column := tc_blank t]) [0..<VGA_WIDTH] v in
      t\<lparr>vga := v, tc_row := VGA_HEIGHT - 1\<rparr>)"

definition put_byte :: "u8 \<Rightarrow> text_console \<Rightarrow> text_console option" where
  "put_byte byte t =
     (if byte = 10 then Some (t\<lparr>tc_row := tc_row t + 1, tc_column := 0\<rparr>)
      else if byte = 13 then Some (t\<lparr>tc_column := 0\<rparr>)
      else if byte = 8 then
        (if tc_column t > 0 then
           let t = t\<lparr>tc_column := tc_column t - 1\<rparr> in vga_write (tc_row t * VGA_WIDTH + tc_column t) (tc_blank t) t
         else Some t)
      else if 0x20 \<le> byte \<and> byte \<le> 0x7e then
        let t = (if tc_column t = VGA_WIDTH then t\<lparr>tc_row := tc_row t + 1, tc_column := 0\<rparr> else t);
            t = (if tc_row t = VGA_HEIGHT then tc_scroll t else t) in
        map_option (\<lambda>t. t\<lparr>tc_column := tc_column t + 1\<rparr>) (vga_write (tc_row t * VGA_WIDTH + tc_column t) (tc_cell t byte) t)
      else Some t)"

definition tc_put :: "u8 \<Rightarrow> text_console \<Rightarrow> text_console option" where
  "tc_put byte t =
     map_option (\<lambda>t. update_cursor (if tc_row t = VGA_HEIGHT then tc_scroll t else t)) (put_byte byte t)"

fun tc_write_str :: "u8 list \<Rightarrow> text_console \<Rightarrow> text_console option" where
  "tc_write_str [] t = Some t"
| "tc_write_str (b # bs) t = (case tc_put b t of None \<Rightarrow> None | Some t \<Rightarrow> tc_write_str bs t)"

section \<open>Framebuffer discovery\<close>

record framebuffer =
  fb_address :: u64
  fb_width :: u64
  fb_height :: u64
  fb_pitch :: u64

text \<open>The argument is the answer of \<^verbatim>\<open>pippin_limine_framebuffer\<close>.\<close>

definition fb_discover :: "(u64 \<times> u64 \<times> u64 \<times> u64 \<times> u16) option \<Rightarrow> framebuffer option" where
  "fb_discover r =
     (case r of
        None \<Rightarrow> None
      | Some (address, width, height, pitch, bpp) \<Rightarrow>
          if address = 0 \<or> width = 0 \<or> height = 0 \<or> width > 8192 \<or> height > 8192 \<or> bpp \<noteq> 32 \<or> pitch < width * 4 \<or> pitch > 65536
          then None
          else Some \<lparr>fb_address = address, fb_width = width, fb_height = height, fb_pitch = pitch\<rparr>)"

text \<open>The byte offsets from the base that \<^verbatim>\<open>Framebuffer::clear\<close> writes a pixel to, in order.\<close>

definition fb_clear_offsets :: "framebuffer \<Rightarrow> nat list" where
  "fb_clear_offsets fb =
     concat (map (\<lambda>y. map (\<lambda>x. y * unat (fb_pitch fb) + x * 4) [0..<unat (fb_width fb)]) [0..<unat (fb_height fb)])"

definition fb_clear :: "framebuffer \<Rightarrow> ram \<Rightarrow> ram" where
  "fb_clear fb m =
     fold (\<lambda>off m. write_list m (unat (fb_address fb) + off) (to_le (0x00202b45 :: u32))) (fb_clear_offsets fb) m"

section \<open>The console as twenty-five lines\<close>

definition console_ok :: "text_console \<Rightarrow> bool" where
  "console_ok t \<longleftrightarrow> length (vga t) = 2000 \<and> tc_row t < 25 \<and> tc_column t \<le> 80"

text \<open>The reference: rows of cells and the position of the next character.\<close>

type_synonym grid = "u16 list list \<times> nat \<times> nat"

definition rows_of :: "u16 list \<Rightarrow> u16 list list" where
  "rows_of v = map (\<lambda>r. take 80 (drop (80 * r) v)) [0..<25]"

definition abs_console :: "text_console \<Rightarrow> grid" where
  "abs_console t = (rows_of (vga t), tc_row t, tc_column t)"

definition line_feed :: "u16 \<Rightarrow> grid \<Rightarrow> grid" where
  "line_feed blank g = (case g of (rows, r, c) \<Rightarrow>
     if r = 24 then (tl rows @ [replicate 80 blank], 24, 0) else (rows, r + 1, 0))"

definition ref_put :: "u8 \<Rightarrow> u8 \<Rightarrow> grid \<Rightarrow> grid" where
  "ref_put attribute byte g =
     (let blank = push_bit 8 (ucast attribute) OR 0x20; cell = push_bit 8 (ucast attribute) OR ucast byte in
      case g of (rows, r, c) \<Rightarrow>
      if byte = 10 then line_feed blank g
      else if byte = 13 then (rows, r, 0)
      else if byte = 8 then (if c > 0 then (rows[r := (rows ! r)[c - 1 := blank]], r, c - 1) else g)
      else if 0x20 \<le> byte \<and> byte \<le> 0x7e then
        (case (if c = 80 then line_feed blank g else g) of (rows, r, c) \<Rightarrow>
           (rows[r := (rows ! r)[c := cell]], r, c + 1))
      else g)"

lemma VGA_values: "VGA_WIDTH = 80" "VGA_HEIGHT = 25"
  by (simp_all add: VGA_WIDTH_def VGA_HEIGHT_def)

lemma copy_cells:
  assumes "n \<le> 80" "1 \<le> row" "row * 80 + n \<le> length v"
  defines "w \<equiv> fold (\<lambda>column v. v[row * 80 + column - 80 := v ! (row * 80 + column)]) [0..<n] v"
  shows "length w = length v \<and> (\<forall>i < length v. w ! i = (if row * 80 - 80 \<le> i \<and> i < row * 80 - 80 + n then v ! (i + 80) else v ! i))"
  using assms(1,3) unfolding w_def
proof (induction n)
  case (Suc n)
  let ?w = "fold (\<lambda>column v. v[row * 80 + column - 80 := v ! (row * 80 + column)]) [0..<n] v"
  have IH: "length ?w = length v" "\<And>i. i < length v \<Longrightarrow> ?w ! i = (if row * 80 - 80 \<le> i \<and> i < row * 80 - 80 + n then v ! (i + 80) else v ! i)"
    using Suc by auto
  have "?w ! (row * 80 + n) = v ! (row * 80 + n)" using IH(2) [of "row * 80 + n"] Suc.prems assms(2) by auto
  then show ?case using IH Suc.prems assms(2) by (auto simp: nth_list_update)
qed auto

lemma scroll_rows:
  assumes "m \<le> 25" "length v = 2000"
  shows "length (fold scroll_row [1..<m] v) = 2000 \<and>
    (\<forall>i < 2000. fold scroll_row [1..<m] v ! i = (if i + 80 < m * 80 then v ! (i + 80) else v ! i))"
  using assms(1)
proof (induction m)
  case (Suc m)
  show ?case
  proof (cases "m = 0")
    case True
    then show ?thesis using assms(2) by simp
  next
    case False
    let ?w = "fold scroll_row [1..<m] v"
    have IH: "length ?w = 2000" "\<And>i. i < 2000 \<Longrightarrow> ?w ! i = (if i + 80 < m * 80 then v ! (i + 80) else v ! i)"
      using Suc by auto
    have cc: "length (scroll_row m ?w) = 2000"
      "\<And>i. i < 2000 \<Longrightarrow> scroll_row m ?w ! i = (if m * 80 - 80 \<le> i \<and> i < m * 80 - 80 + 80 then ?w ! (i + 80) else ?w ! i)"
      using copy_cells [of 80 m ?w] IH(1) False Suc.prems by (simp_all add: scroll_row_def VGA_values Let_def)
    have "[1..<Suc m] = [1..<m] @ [m]" using False by simp
    then show ?thesis using cc IH(2) False Suc.prems by auto
  qed
qed (use assms(2) in simp)

lemma fill_cells:
  "k + n \<le> length v \<Longrightarrow> fold (\<lambda>column v. v[k + column := b]) [0..<n] v = take k v @ replicate n b @ drop (k + n) v"
proof (induction n)
  case (Suc n)
  then have "fold (\<lambda>column v. v[k + column := b]) [0..<Suc n] v = (take k v @ replicate n b @ drop (k + n) v)[k + n := b]" by simp
  also have "\<dots> = take k v @ replicate n b @ (drop (k + n) v)[0 := b]" using Suc.prems by (simp add: list_update_append)
  also have "(drop (k + n) v)[0 := b] = b # drop (k + Suc n) v" using Suc.prems by (simp add: Cons_nth_drop_Suc [symmetric])
  finally show ?case by (simp add: replicate_append_same)
qed simp

lemma scroll_result:
  assumes "length (vga t) = 2000"
  shows "tc_scroll t = t\<lparr>vga := drop 80 (vga t) @ replicate 80 (tc_blank t), tc_row := 24\<rparr>"
proof -
  let ?v = "fold scroll_row [1..<25] (vga t)"
  have s: "length ?v = 2000" "\<And>i. i < 2000 \<Longrightarrow> ?v ! i = (if i + 80 < 25 * 80 then vga t ! (i + 80) else vga t ! i)"
    using scroll_rows [of 25 "vga t"] assms by auto
  have "take 1920 ?v = drop 80 (vga t)" by (rule nth_equalityI) (use s assms in \<open>simp_all add: add.commute\<close>)
  moreover have "fold (\<lambda>column v. v[1920 + column := tc_blank t]) [0..<80] ?v = take 1920 ?v @ replicate 80 (tc_blank t) @ drop 2000 ?v"
    using fill_cells [of 1920 80 ?v] s(1) by simp
  ultimately show ?thesis using s(1) by (simp add: tc_scroll_def VGA_values Let_def)
qed

lemma rows_update:
  assumes "length v = 2000" "r < 25" "c < 80"
  shows "rows_of (v[r * 80 + c := x]) = (rows_of v)[r := (rows_of v ! r)[c := x]]"
proof (rule nth_equalityI)
  fix i assume "i < length (rows_of (v[r * 80 + c := x]))"
  then have i: "i < 25" by (simp add: rows_of_def)
  show "rows_of (v[r * 80 + c := x]) ! i = (rows_of v)[r := (rows_of v ! r)[c := x]] ! i"
  proof (cases "i = r")
    case True
    have "take 80 (drop (80 * r) (v[r * 80 + c := x])) = (take 80 (drop (80 * r) v))[c := x]"
      by (simp add: drop_update_swap take_update_swap mult.commute)
    then show ?thesis using True i assms(2) by (simp add: rows_of_def)
  next
    case False
    have "take 80 (drop (80 * i) (v[r * 80 + c := x])) = take 80 (drop (80 * i) v)"
    proof (rule nth_equalityI)
      fix j assume j: "j < length (take 80 (drop (80 * i) (v[r * 80 + c := x])))"
      then have "r * 80 + c \<noteq> 80 * i + j" using False assms(3) by (auto dest: mult_less_cancel2 [THEN iffD2])
      then show "take 80 (drop (80 * i) (v[r * 80 + c := x])) ! j = take 80 (drop (80 * i) v) ! j"
        using j i assms(1) by (simp add: nth_list_update_neq)
    qed simp
    then show ?thesis using False i by (simp add: rows_of_def)
  qed
qed (simp add: rows_of_def)

lemma rows_scroll:
  assumes "length v = 2000"
  shows "rows_of (drop 80 v @ replicate 80 b) = tl (rows_of v) @ [replicate 80 b]"
proof (rule nth_equalityI)
  fix i assume "i < length (rows_of (drop 80 v @ replicate 80 b))"
  then have i: "i < 25" by (simp add: rows_of_def)
  show "rows_of (drop 80 v @ replicate 80 b) ! i = (tl (rows_of v) @ [replicate 80 b]) ! i"
  proof (cases "i = 24")
    case True
    then show ?thesis using assms by (simp add: rows_of_def nth_append)
  next
    case False
    then have "i < 24" using i by simp
    then show ?thesis using assms by (simp add: rows_of_def nth_append nth_tl add.commute mult.commute algebra_simps)
  qed
qed (simp add: rows_of_def)

lemma cursor_bytes: "push_bit 8 (ucast (ucast (drop_bit 8 (p :: u16)) :: u8)) OR ucast (ucast p :: u8) = (p :: u16)"
  by (rule bit_word_eqI) (auto simp: bit_simps)

lemma update_cursor_pos:
  "update_cursor t = t\<lparr>crtc_cursor := of_nat (tc_row t * 80 + min (tc_column t) 79)\<rparr>"
  by (simp add: update_cursor_def Let_def cursor_bytes VGA_values)

text \<open>The position the hardware cursor is put to.\<close>

definition cursor_shown :: "text_console \<Rightarrow> bool" where
  "cursor_shown t \<longleftrightarrow> crtc_cursor t = of_nat (tc_row t * 80 + min (tc_column t) 79)"

lemma put_refines:
  assumes ok: "console_ok t"
  shows "\<exists>t'. tc_put b t = Some t' \<and> console_ok t' \<and> cursor_shown t' \<and> tc_attribute t' = tc_attribute t \<and>
    abs_console t' = ref_put (tc_attribute t) b (abs_console t)"
proof -
  have l: "length (vga t) = 2000" "tc_row t < 25" "tc_column t \<le> 80" using ok by (simp_all add: console_ok_def)
  let ?b = "tc_blank t"
  have sc: "tc_scroll u = u\<lparr>vga := drop 80 (vga u) @ replicate 80 (tc_blank u), tc_row := 24\<rparr>" if "length (vga u) = 2000" for u
    by (rule scroll_result [OF that])
  have ru: "rows_of (v[r * 80 + c := x]) = (rows_of v)[r := (rows_of v ! r)[c := x]]" if "length v = 2000" "r < 25" "c < 80" for v r c x
    by (rule rows_update [OF that])
  note simps = tc_put_def put_byte_def ref_put_def abs_console_def line_feed_def update_cursor_pos cursor_shown_def VGA_values Let_def
    tc_blank_def tc_cell_def console_ok_def vga_write_def
  consider "b = 10" | "b = 13" | "b = 8" | "b \<notin> {10, 13, 8}" "0x20 \<le> b \<and> b \<le> 0x7e" | "b \<notin> {10, 13, 8}" "\<not> (0x20 \<le> b \<and> b \<le> 0x7e)" by blast
  then show ?thesis
  proof cases
    case 1
    then show ?thesis using l rows_scroll [OF l(1)] by (auto simp: simps sc)
  next
    case 2
    then show ?thesis using l by (simp add: simps)
  next
    case 3
    then show ?thesis using l ru [OF l(1,2), of "tc_column t - 1"] by (auto simp: simps)
  next
    case 4
    define u where "u = (if tc_column t = 80 then
        (if tc_row t = 24 then t\<lparr>tc_column := 0, vga := drop 80 (vga t) @ replicate 80 ?b, tc_row := 24\<rparr>
         else t\<lparr>tc_row := tc_row t + 1, tc_column := 0\<rparr>) else t)"
    have u: "length (vga u) = 2000" "tc_row u < 25" "tc_column u < 80" "tc_attribute u = tc_attribute t"
      "abs_console u = (if tc_column t = 80 then line_feed ?b (abs_console t) else abs_console t)"
      using l rows_scroll [OF l(1)] by (auto simp: u_def abs_console_def line_feed_def)
    have "put_byte b t = map_option (\<lambda>t. t\<lparr>tc_column := tc_column t + 1\<rparr>) (vga_write (tc_row u * 80 + tc_column u) (tc_cell u b) u)"
      using 4 l by (auto simp: u_def put_byte_def VGA_values Let_def sc tc_blank_def)
    then have p: "put_byte b t = Some (u\<lparr>vga := (vga u)[tc_row u * 80 + tc_column u := tc_cell u b], tc_column := tc_column u + 1\<rparr>)"
      using u(2,3) by (simp add: vga_write_def VGA_values)
    have "ref_put (tc_attribute t) b (abs_console t) = (case abs_console u of (rows, r, c) \<Rightarrow> (rows[r := (rows ! r)[c := tc_cell u b]], r, c + 1))"
      using 4 u(4,5) by (auto simp: ref_put_def Let_def tc_blank_def tc_cell_def abs_console_def split: prod.splits)
    then show ?thesis
      using p u(1-4) ru [OF u(1-3)] by (simp add: tc_put_def VGA_values update_cursor_pos cursor_shown_def console_ok_def abs_console_def)
  next
    case 5
    then show ?thesis using l by (auto simp: simps)
  qed
qed

lemma clear_ok:
  assumes "length (vga t) = 2000"
  shows "console_ok (tc_clear t)" "vga (tc_clear t) = replicate 2000 (tc_blank t)" "cursor_shown (tc_clear t)"
    "tc_attribute (tc_clear t) = tc_attribute t"
proof -
  have v: "vga (tc_clear t) = replicate 2000 (tc_blank t)"
    using fill_cells [of 0 2000 "vga t" "tc_blank t"] assms by (simp add: tc_clear_def Let_def VGA_values update_cursor_pos)
  then show "vga (tc_clear t) = replicate 2000 (tc_blank t)" .
  show "console_ok (tc_clear t)" using v by (simp add: console_ok_def) (simp add: tc_clear_def Let_def update_cursor_pos)
  show "cursor_shown (tc_clear t)" "tc_attribute (tc_clear t) = tc_attribute t"
    by (simp_all add: cursor_shown_def tc_clear_def Let_def update_cursor_pos)
qed

section \<open>Properties of the displays\<close>

text \<open>C26. The text console is a scrolling grid of 25 lines of 80 cells: from any state of a console whose
  position is on the screen, writing any bytes at all (line feeds, returns, backspaces, wrapped
  lines, control bytes) touches only the 2000 cells of text memory, follows the reference
  step by step and leaves the position on the screen.\<close>

theorem console_write_refines:
  assumes "console_ok t"
  shows "\<exists>t'. tc_write_str bs t = Some t' \<and> console_ok t' \<and>
    abs_console t' = fold (ref_put (tc_attribute t)) bs (abs_console t) \<and> (bs \<noteq> [] \<longrightarrow> cursor_shown t')"
  using assms
proof (induction bs arbitrary: t)
  case Nil
  then show ?case by simp
next
  case (Cons b bs)
  obtain u where u: "tc_put b t = Some u" "console_ok u" "cursor_shown u" "tc_attribute u = tc_attribute t"
      "abs_console u = ref_put (tc_attribute t) b (abs_console t)"
    using put_refines [OF Cons.prems, of b] by blast
  show ?case using Cons.IH [OF u(2)] u by (cases bs) auto
qed

text \<open>Every framebuffer that discovery accepts can be cleared safely: each pixel lies inside the
  \<^verbatim>\<open>pitch * height\<close> bytes of the framebuffer, which is at most half a gibibyte, and no two pixels overlap.\<close>

theorem fb_clear_in_bounds:
  assumes "fb_discover r = Some fb"
  shows "unat (fb_pitch fb) * unat (fb_height fb) \<le> 2 ^ 29 \<and>
    (\<forall>off \<in> set (fb_clear_offsets fb). off + 4 \<le> unat (fb_pitch fb) * unat (fb_height fb)) \<and>
    (\<forall>i < length (fb_clear_offsets fb). \<forall>j < i. fb_clear_offsets fb ! j + 4 \<le> fb_clear_offsets fb ! i)"
proof -
  define p w h where "p = unat (fb_pitch fb)" and "w = unat (fb_width fb)" and "h = unat (fb_height fb)"
  have "fb_width fb \<le> 8192" "fb_height fb \<le> 8192" "fb_width fb * 4 \<le> fb_pitch fb" "fb_pitch fb \<le> 65536"
    using assms by (auto simp: fb_discover_def not_less split: option.splits if_splits)
  then have b: "w \<le> 8192" "h \<le> 8192" "p \<le> 65536" "w * 4 \<le> p"
    by (simp_all add: p_def w_def h_def word_le_nat_alt unat_word_ariths)
  define row where "row y = map (\<lambda>x. y * p + x * 4) [0..<w]" for y
  have offs: "fb_clear_offsets fb = concat (map row [0..<h])" by (simp add: fb_clear_offsets_def row_def [abs_def] p_def w_def h_def)
  have rb: "y * p \<le> off \<and> off + 4 \<le> y * p + p" if "off \<in> set (row y)" for off y
    using that b(4) by (auto simp: row_def)
  have sorted: "sorted_wrt (\<lambda>a b. a + 4 \<le> b) (concat (map row [0..<n])) \<and> (\<forall>off \<in> set (concat (map row [0..<n])). off + 4 \<le> n * p)" for n
  proof (induction n)
    case (Suc n)
    have "sorted_wrt (\<lambda>a b. a + 4 \<le> b) (row n)" by (simp add: row_def sorted_wrt_map sorted_wrt_iff_nth_less)
    moreover have "a + 4 \<le> c" if "a \<in> set (concat (map row [0..<n]))" "c \<in> set (row n)" for a c
      using Suc.IH that rb [of c n] by fastforce
    ultimately show ?case using Suc.IH rb [of _ n] by (fastforce simp: sorted_wrt_append)
  qed simp
  have "h * p \<le> 8192 * 65536" by (rule mult_mono) (use b in simp_all)
  then have "p * h \<le> 2 ^ 29" by (simp add: mult.commute)
  moreover have "\<forall>off \<in> set (fb_clear_offsets fb). off + 4 \<le> p * h" using sorted [of h] offs by (simp add: mult.commute)
  moreover have "\<forall>i < length (fb_clear_offsets fb). \<forall>j < i. fb_clear_offsets fb ! j + 4 \<le> fb_clear_offsets fb ! i"
    using sorted [of h] offs by (simp add: sorted_wrt_iff_nth_less)
  ultimately show ?thesis by (simp add: p_def h_def)
qed

theorem console_write_refines_witness:
  "\<exists>t'. tc_write_str [72, 105] (tc_new (replicate 2000 0) 0) = Some t' \<and> console_ok t' \<and> tc_column t' = 2"
proof -
  let ?t = "tc_new (replicate 2000 0) 0"
  have "console_ok ?t" unfolding tc_new_def by (rule clear_ok(1)) simp
  moreover have "tc_row ?t = 0" "tc_column ?t = 0" by (simp_all add: tc_new_def tc_clear_def Let_def update_cursor_pos)
  ultimately show ?thesis
    using console_write_refines [of ?t "[72, 105]"] by (auto simp: abs_console_def ref_put_def Let_def)
qed

theorem fb_clear_in_bounds_witness:
  "\<exists>fb. fb_discover (Some (0xfd000000, 1024, 768, 4096, 32)) = Some fb \<and> unat (fb_pitch fb) * unat (fb_height fb) \<le> 2 ^ 29"
proof -
  have "\<exists>fb. fb_discover (Some (0xfd000000, 1024, 768, 4096, 32)) = Some fb" by (simp add: fb_discover_def)
  then show ?thesis using fb_clear_in_bounds by blast
qed

end
