(* ===== verification/Bridge.thy ===== *)
theory Bridge
  imports Window_Server Syscall
begin

text \<open>
  The bounded line protocol to the host shell (\<^verbatim>\<open>bridge.rs\<close>). The bytes waiting in the second UART are
  a list, each call of \<^verbatim>\<open>poll\<close> takes at most 128 of them; what is written to the UART is a log. The
  command callback is a function on the state of its owner.
\<close>

definition MAX_LINE :: usize where "MAX_LINE = 384"

record bridge =
  b_line :: "u8 list"
  b_len :: usize
  b_overflow :: bool

definition bridge_new :: bridge where
  "bridge_new = \<lparr>b_line = replicate MAX_LINE 0, b_len = 0, b_overflow = False\<rparr>"

definition answer :: "(string \<Rightarrow> 's \<Rightarrow> bool \<times> 's) \<Rightarrow> u8 list \<Rightarrow> 's \<Rightarrow> u8 list \<times> 's" where
  "answer cmd line s =
     (if line = bytes_of ''H|1'' then (bytes_of ''R|1\<newline>'', s)
      else if line = bytes_of ''H|2'' then (bytes_of ''R|2\<newline>'', s)
      else case cmd (str_of line) s of
        (True, s) \<Rightarrow> (bytes_of ''A\<newline>'', s)
      | (False, s) \<Rightarrow> (bytes_of ''N\<newline>'', s))"

text \<open>One byte of input: the answer to send, and the new state. \<open>None\<close> is the index panic.\<close>

definition poll_byte :: "(string \<Rightarrow> 's \<Rightarrow> bool \<times> 's) \<Rightarrow> u8 \<Rightarrow> bridge \<times> 's \<Rightarrow> (u8 list \<times> bridge \<times> 's) option" where
  "poll_byte cmd byte st =
     (case st of (b, s) \<Rightarrow>
      if byte = 10 then
        let (out, s) =
              (if \<not> b_overflow b then
                 (let line = take (b_len b) (b_line b) in if utf8_ok line then answer cmd line s else ([], s))
               else ([], s)) in
        Some (out, b\<lparr>b_len := 0, b_overflow := False\<rparr>, s)
      else if byte \<noteq> 13 \<and> \<not> b_overflow b then
        (if b_len b < MAX_LINE then
           (if b_len b < length (b_line b)
            then Some ([], b\<lparr>b_line := (b_line b)[b_len b := byte], b_len := b_len b + 1\<rparr>, s) else None)
         else Some ([], b\<lparr>b_overflow := True\<rparr>, s))
      else Some ([], b, s))"

fun poll_bytes :: "(string \<Rightarrow> 's \<Rightarrow> bool \<times> 's) \<Rightarrow> nat \<Rightarrow> u8 list \<Rightarrow> bridge \<times> 's \<Rightarrow> (u8 list \<times> u8 list \<times> bridge \<times> 's) option" where
  "poll_bytes cmd 0 pending st = Some ([], pending, st)"
| "poll_bytes cmd (Suc n) [] st = Some ([], [], st)"
| "poll_bytes cmd (Suc n) (byte # pending) st =
     (case poll_byte cmd byte st of
        None \<Rightarrow> None
      | Some (out, st) \<Rightarrow>
          map_option (\<lambda>(out', rest). (out @ out', rest)) (poll_bytes cmd n pending st))"

definition bridge_poll :: "(string \<Rightarrow> 's \<Rightarrow> bool \<times> 's) \<Rightarrow> u8 list \<Rightarrow> bridge \<times> 's \<Rightarrow> (u8 list \<times> u8 list \<times> bridge \<times> 's) option" where
  "bridge_poll cmd pending st = poll_bytes cmd 128 pending st"

definition bridge_action :: "u8 list \<Rightarrow> u8 list" where
  "bridge_action action = bytes_of ''E|'' @ action @ bytes_of ''\<newline>''"

definition bridge_event :: "wevent \<Rightarrow> u8 list" where
  "bridge_event e = bytes_of (''EV|'' @ show_nat (unat (we_id e)) @ ''|'' @ we_kind e @ ''|'' @ show_int (we_a e) @ ''|'' @
     show_int (we_b e) @ ''\<newline>'')"

section \<open>Framing\<close>

text \<open>The reference: the input is cut at line feeds, carriage returns are dropped, and every line of at most
  384 bytes of UTF-8 is answered.\<close>

definition line_body :: "u8 list \<Rightarrow> u8 list" where
  "line_body l = filter (\<lambda>b. b \<noteq> 13) l"

definition ref_line :: "(string \<Rightarrow> 's \<Rightarrow> bool \<times> 's) \<Rightarrow> u8 list \<Rightarrow> u8 list \<times> 's \<Rightarrow> u8 list \<times> 's" where
  "ref_line cmd l r =
     (case r of (out, s) \<Rightarrow>
      if length (line_body l) \<le> MAX_LINE \<and> utf8_ok (line_body l)
      then (case answer cmd (line_body l) s of (o', s) \<Rightarrow> (out @ o', s)) else (out, s))"

definition ref_lines :: "(string \<Rightarrow> 's \<Rightarrow> bool \<times> 's) \<Rightarrow> u8 list list \<Rightarrow> 's \<Rightarrow> u8 list \<times> 's" where
  "ref_lines cmd ls s = fold (ref_line cmd) ls ([], s)"

text \<open>The buffer holds what the current line has so far, or notes that it is too long.\<close>

definition holds :: "bridge \<Rightarrow> u8 list \<Rightarrow> bool" where
  "holds b cur \<longleftrightarrow> length (b_line b) = MAX_LINE \<and>
     (if length (line_body cur) > MAX_LINE then b_overflow b
      else \<not> b_overflow b \<and> b_len b = length (line_body cur) \<and> take (b_len b) (b_line b) = line_body cur)"

lemma holds_new: "holds bridge_new []"
  by (simp add: holds_def bridge_new_def line_body_def)

lemma poll_byte_line:
  assumes "holds b cur"
  shows "\<exists>b'. holds b' [] \<and> poll_byte cmd 10 (b, s) =
    (case ref_line cmd cur ([], s) of (out, s') \<Rightarrow> Some (out, b', s'))"
  using assms
  by (intro exI [of _ "b\<lparr>b_len := 0, b_overflow := False\<rparr>"])
    (auto simp: holds_def poll_byte_def ref_line_def line_body_def Let_def split: if_splits prod.splits)

lemma poll_byte_more:
  assumes h: "holds b cur" and ne: "byte \<noteq> 10"
  shows "\<exists>b'. holds b' (cur @ [byte]) \<and> poll_byte cmd byte (b, s) = Some ([], b', s)"
proof (cases "byte = 13 \<or> b_overflow b")
  case True
  then have "poll_byte cmd byte (b, s) = Some ([], b, s)" using ne by (auto simp: poll_byte_def)
  moreover have "holds b (cur @ [byte])" using h True by (auto simp: holds_def line_body_def split: if_splits)
  ultimately show ?thesis by blast
next
  case False
  then have c: "length (line_body cur) \<le> MAX_LINE" "b_len b = length (line_body cur)" "take (b_len b) (b_line b) = line_body cur"
      "length (b_line b) = MAX_LINE"
    using h by (auto simp: holds_def split: if_splits)
  have lb: "line_body (cur @ [byte]) = line_body cur @ [byte]" using False by (simp add: line_body_def)
  show ?thesis
  proof (cases "b_len b < MAX_LINE")
    case True
    have "take (Suc (b_len b)) ((b_line b)[b_len b := byte]) = line_body cur @ [byte]"
      using True c by (simp add: take_Suc_conv_app_nth)
    then have "holds (b\<lparr>b_line := (b_line b)[b_len b := byte], b_len := b_len b + 1\<rparr>) (cur @ [byte])"
      using True False c lb by (simp add: holds_def)
    then show ?thesis using True False ne c by (auto simp: poll_byte_def)
  next
    case full: False
    then have "holds (b\<lparr>b_overflow := True\<rparr>) (cur @ [byte])" using c lb by (simp add: holds_def)
    then show ?thesis using full False ne by (auto simp: poll_byte_def)
  qed
qed

lemma ref_line_out: "ref_line cmd l (out, s) = (case ref_line cmd l ([], s) of (o', s') \<Rightarrow> (out @ o', s'))"
  by (auto simp: ref_line_def split: prod.splits)

lemma ref_lines_out: "fold (ref_line cmd) ls (out, s) = (case fold (ref_line cmd) ls ([], s) of (o', s') \<Rightarrow> (out @ o', s'))"
proof (induction ls arbitrary: out s)
  case (Cons l ls)
  obtain o1 s1 where 1: "ref_line cmd l ([], s) = (o1, s1)" by fastforce
  obtain o2 s2 where 2: "fold (ref_line cmd) ls ([], s1) = (o2, s2)" by fastforce
  show ?case using Cons.IH [of "out @ o1" s1] Cons.IH [of o1 s1] ref_line_out [of cmd l out s] 1 2 by simp
qed simp

text \<open>Splitting what is pending, given what the current line already has.\<close>

definition lines_after :: "u8 list \<Rightarrow> u8 list \<Rightarrow> u8 list list" where
  "lines_after cur bs = (case split_on 10 bs of [] \<Rightarrow> [] | f # fs \<Rightarrow> (cur @ f) # fs)"

lemma lines_after_simps [simp]:
  "lines_after cur [] = [cur]"
  "lines_after cur (10 # bs) = cur # lines_after [] bs"
  "b \<noteq> 10 \<Longrightarrow> lines_after cur (b # bs) = lines_after (cur @ [b]) bs"
  by (auto simp: lines_after_def split: list.splits)

lemma lines_after_nonempty [simp]: "lines_after cur bs \<noteq> []"
  using split_on_nonempty [of 10 bs] by (auto simp: lines_after_def split: list.splits)

lemma poll_lines:
  "holds b cur \<Longrightarrow> \<exists>b'. holds b' (last (lines_after cur bs)) \<and> poll_bytes cmd (length bs) bs (b, s) =
    (case ref_lines cmd (butlast (lines_after cur bs)) s of (out, s') \<Rightarrow> Some (out, [], b', s'))"
proof (induction bs arbitrary: b cur s)
  case Nil
  then show ?case by (auto simp: ref_lines_def)
next
  case (Cons byte bs)
  show ?case
  proof (cases "byte = 10")
    case True
    obtain b1 where b1: "holds b1 []" "poll_byte cmd 10 (b, s) = (case ref_line cmd cur ([], s) of (out, s') \<Rightarrow> Some (out, b1, s'))"
      using poll_byte_line [OF Cons.prems, of cmd s] by blast
    obtain o1 s1 where o1: "ref_line cmd cur ([], s) = (o1, s1)" by fastforce
    obtain o2 s2 where o2: "ref_lines cmd (butlast (lines_after [] bs)) s1 = (o2, s2)" by fastforce
    obtain b2 where b2: "holds b2 (last (lines_after [] bs))" "poll_bytes cmd (length bs) bs (b1, s1) = Some (o2, [], b2, s2)"
      using Cons.IH [OF b1(1), of s1] unfolding o2 prod.case by blast
    have "ref_lines cmd (cur # butlast (lines_after [] bs)) s = (o1 @ o2, s2)"
      using o1 o2 ref_lines_out [of cmd "butlast (lines_after [] bs)" o1 s1] by (simp add: ref_lines_def)
    then show ?thesis using True b1(2) b2 o1 by (intro exI [of _ b2]) simp
  next
    case False
    obtain b1 where b1: "holds b1 (cur @ [byte])" "poll_byte cmd byte (b, s) = Some ([], b1, s)"
      using poll_byte_more [OF Cons.prems False, of cmd s] by blast
    obtain o2 s2 where o2: "ref_lines cmd (butlast (lines_after (cur @ [byte]) bs)) s = (o2, s2)" by fastforce
    obtain b2 where b2: "holds b2 (last (lines_after (cur @ [byte]) bs))" "poll_bytes cmd (length bs) bs (b1, s) = Some (o2, [], b2, s2)"
      using Cons.IH [OF b1(1), of s] unfolding o2 prod.case by blast
    then show ?thesis using False b1(2) o2 by (intro exI [of _ b2]) simp
  qed
qed

lemma poll_bytes_split:
  "length xs = n \<Longrightarrow> poll_bytes cmd (n + m) (xs @ ys) st =
    (case poll_bytes cmd n xs st of None \<Rightarrow> None | Some (out, _, st') \<Rightarrow>
       map_option (\<lambda>(o', rest). (out @ o', rest)) (poll_bytes cmd m ys st'))"
proof (induction n arbitrary: xs st)
  case 0
  then show ?case by (cases "poll_bytes cmd m ys st") auto
next
  case (Suc n)
  then obtain x zs where "xs = x # zs" "length zs = n" by (cases xs) auto
  then show ?case using Suc.IH [of zs]
    by (auto simp: option.map_comp o_def case_prod_beta split: option.splits prod.splits)
qed

section \<open>Properties of the bridge\<close>


text \<open>An event line can be read back: without its line feed it splits into exactly five fields, from which the
  parsers of the kernel's own protocol recover the identifier, the kind and both numbers.\<close>

theorem bridge_event_roundtrip:
  assumes "CHR ''|'' \<notin> set (we_kind e)" "- (2 ^ 31) \<le> we_a e" "we_a e < 2 ^ 31" "- (2 ^ 31) \<le> we_b e" "we_b e < 2 ^ 31"
  shows "\<exists>l. bridge_event e = bytes_of (l @ ''\<newline>'') \<and>
    (\<exists>i a b. split_on (CHR ''|'') l = [''EV'', i, we_kind e, a, b] \<and> parse_u32 i = Some (we_id e) \<and>
       parse_i32_str a = Some (we_a e) \<and> parse_i32_str b = Some (we_b e))"
proof -
  let ?fs = "[''EV'', show_nat (unat (we_id e)), we_kind e, show_int (we_a e), show_int (we_b e)]"
  have "split_on (CHR ''|'') (join_with (CHR ''|'') ?fs) = ?fs"
    by (rule split_join) (use assms(1) show_no_bar in auto)
  moreover have "unat (we_id e) < 2 ^ 32" using unsigned_less [of "we_id e", where 'a = nat] by simp
  ultimately show ?thesis
    using parse_u32_show [of "unat (we_id e)"] parse_i32_show assms(2-5)
    by (intro exI [of _ "join_with (CHR ''|'') ?fs"]) (auto simp: bridge_event_def)
qed

theorem bridge_event_roundtrip_witness:
  "\<exists>l. bridge_event (Event_new 7 ''Move'' (- 3) 20) = bytes_of (l @ ''\<newline>'') \<and> split_on (CHR ''|'') l ! 2 = ''Move''"
proof -
  have "\<exists>l. bridge_event (Event_new 7 ''Move'' (- 3) 20) = bytes_of (l @ ''\<newline>'') \<and>
      (\<exists>i a b. split_on (CHR ''|'') l = [''EV'', i, we_kind (Event_new 7 ''Move'' (- 3) 20), a, b] \<and>
         parse_u32 i = Some (we_id (Event_new 7 ''Move'' (- 3) 20)) \<and>
         parse_i32_str a = Some (we_a (Event_new 7 ''Move'' (- 3) 20)) \<and> parse_i32_str b = Some (we_b (Event_new 7 ''Move'' (- 3) 20)))"
    by (rule bridge_event_roundtrip) (simp_all add: Event_new_def)
  then show ?thesis by (auto simp: Event_new_def)
qed

end
