(* ===== verification/Heap_Alloc.thy ===== *)
theory Heap_Alloc
  imports Pippin_Prelude
begin

text \<open>
  The kernel heap, \<^verbatim>\<open>heap.rs\<close>: a first-fit free list threaded through the heap's own bytes.
  A block header is the two words \<^verbatim>\<open>size\<close> and \<^verbatim>\<open>next\<close> at the block's address, a null
  pointer is 0, and an allocation stores its block's address in the word before the
  returned pointer. The address of the static array \<^verbatim>\<open>HEAP\<close> is the linker's and an argument.
  The search loop follows pointers in memory, so it is a partial function; that it always returns
  is part of what is proved. Interrupts are masked around both operations, which makes
  them atomic steps.
\<close>

section \<open>The allocator\<close>

definition HEAP_SIZE :: u64 where "HEAP_SIZE = 4194304"
definition ALIGN :: u64 where "ALIGN = 16"
definition size_of_Block :: u64 where "size_of_Block = 16"
definition size_of_usize :: u64 where "size_of_usize = 8"

record heap =
  h_ram :: ram
  FREE_HEAD :: u64
  HEAP_READY :: bool

definition block_size :: "ram \<Rightarrow> u64 \<Rightarrow> u64" where
  "block_size m b = read64 m (unat b)"

definition block_next :: "ram \<Rightarrow> u64 \<Rightarrow> u64" where
  "block_next m b = read64 m (unat b + 8)"

definition write_block :: "u64 \<Rightarrow> u64 \<Rightarrow> u64 \<Rightarrow> ram \<Rightarrow> ram" where
  "write_block b sz nxt m = write64 (write64 m (unat b) sz) (unat b + 8) nxt"

definition payload :: "u64 \<Rightarrow> u64" where
  "payload b = b + size_of_Block"

definition align_up :: "u64 \<Rightarrow> u64 \<Rightarrow> u64" where
  "align_up v a = (v + a - 1) AND NOT (a - 1)"

definition heap_init :: "u64 \<Rightarrow> heap \<Rightarrow> heap" where
  "heap_init base h = \<lparr> h_ram = write_block base HEAP_SIZE 0 (h_ram h), FREE_HEAD = base, HEAP_READY = True \<rparr>"

definition take_block :: "u64 \<Rightarrow> u64 \<Rightarrow> u64 \<Rightarrow> u64 \<Rightarrow> u64 \<Rightarrow> heap \<Rightarrow> u64 \<times> heap" where
  "take_block want prev cur pa used h =
     (let size = block_size (h_ram h) cur;
          nxt = block_next (h_ram h) cur;
          h1 = (if prev = 0 then h\<lparr>FREE_HEAD := nxt\<rparr>
                else h\<lparr>h_ram := write64 (h_ram h) (unat prev + 8) nxt\<rparr>);
          tail = pa + want;
          h2 = (if size - used \<ge> size_of_Block
                then h1\<lparr>h_ram := write_block tail (size - used) (FREE_HEAD h1) (h_ram h1), FREE_HEAD := tail\<rparr>
                else h1);
          m3 = write64 (h_ram h2) (unat cur) used;
          m4 = write64 m3 (unat (pa - size_of_usize)) cur
      in (pa, h2\<lparr>h_ram := m4\<rparr>))"

partial_function (option) alloc_walk :: "u64 \<Rightarrow> u64 \<Rightarrow> u64 \<Rightarrow> u64 \<Rightarrow> heap \<Rightarrow> (u64 \<times> heap) option" where
  "alloc_walk want align prev cur h =
     (if cur = 0 then Some (0, h)
      else let size = block_size (h_ram h) cur;
               pa = align_up (payload cur + size_of_usize) align;
               used = pa + want - cur
           in if used \<le> size then Some (take_block want prev cur pa used h)
              else alloc_walk want align cur (block_next (h_ram h) cur) h)"

definition heap_alloc :: "u64 \<Rightarrow> u64 \<Rightarrow> heap \<Rightarrow> (u64 \<times> heap) option" where
  "heap_alloc sz align h =
     (if \<not> HEAP_READY h then Some (0, h)
      else alloc_walk (max (align_up sz ALIGN) ALIGN) (max align ALIGN) 0 (FREE_HEAD h) h)"

definition heap_dealloc :: "u64 \<Rightarrow> heap \<Rightarrow> heap" where
  "heap_dealloc ptr h =
     (if ptr = 0 \<or> \<not> HEAP_READY h then h
      else let header = read64 (h_ram h) (unat (ptr - size_of_usize));
               size = block_size (h_ram h) header
           in h\<lparr>h_ram := write_block header size (FREE_HEAD h) (h_ram h), FREE_HEAD := header\<rparr>)"

section \<open>Clients of the heap\<close>

text \<open>The layouts Rust can form: the alignment is a power of two and the size, rounded up to it, does
  not exceed \<^verbatim>\<open>isize::MAX\<close>.\<close>

definition layout_ok :: "u64 \<Rightarrow> u64 \<Rightarrow> bool" where
  "layout_ok sz align \<longleftrightarrow> align \<in> set (map (\<lambda>k. 2 ^ k) [0..<64]) \<and> unat sz + unat align \<le> 2 ^ 63"

text \<open>Where the linker scripts put the array: 16-aligned and in the higher half.\<close>

definition heap_at :: "u64 \<Rightarrow> bool" where
  "heap_at base \<longleftrightarrow> 0xffffffff80000000 \<le> unat base \<and> unat base + 4194304 < 2 ^ 64 \<and> unat base mod 16 = 0"

type_synonym allocation = "u64 \<times> u64 \<times> u64"

text \<open>A run of the kernel as the heap sees it: allocations, releases of live pointers, and
  owners writing to the bytes they were given, in any order.\<close>

inductive heap_run :: "u64 \<Rightarrow> heap \<Rightarrow> allocation list \<Rightarrow> bool" for base where
  run_init: "heap_at base \<Longrightarrow> heap_run base (heap_init base h) []"
| run_alloc: "heap_run base h live \<Longrightarrow> layout_ok sz align \<Longrightarrow> heap_alloc sz align h = Some (p, h') \<Longrightarrow>
    live' = (if p = 0 then live else (p, sz, align) # live) \<Longrightarrow> heap_run base h' live'"
| run_free: "heap_run base h live \<Longrightarrow> (p, sz, align) \<in> set live \<Longrightarrow>
    heap_run base (heap_dealloc p h) (remove1 (p, sz, align) live)"
| run_write: "heap_run base h live \<Longrightarrow> (p, sz, align) \<in> set live \<Longrightarrow> i < unat sz \<Longrightarrow>
    heap_run base (h\<lparr>h_ram := (h_ram h)(unat p + i := v)\<rparr>) live"

definition bytes_of_alloc :: "allocation \<Rightarrow> nat set" where
  "bytes_of_alloc = (\<lambda>(p, sz, align). {unat p ..< unat p + unat sz})"

section \<open>Rounding\<close>

definition up :: "nat \<Rightarrow> nat \<Rightarrow> nat" where
  "up n v = (v + n - 1) div n * n"

lemma up_bounds:
  assumes "0 < n"
  shows "v \<le> up n v" "up n v < v + n" "n dvd up n v"
proof -
  have m: "up n v = v + n - 1 - (v + n - 1) mod n"
    unfolding up_def by (simp add: minus_mod_eq_div_mult [symmetric])
  have "(v + n - 1) mod n < n" "(v + n - 1) mod n \<le> v + n - 1"
    using assms by simp_all
  then show "v \<le> up n v" "up n v < v + n" unfolding m using assms by linarith+
  show "n dvd up n v" unfolding up_def by simp
qed

lemma unat_pow: "k < 64 \<Longrightarrow> unat (2 ^ k :: u64) = 2 ^ k"
proof -
  assume "k < 64"
  then have "(2::nat) ^ k < 2 ^ 64" by (rule power_strict_increasing) simp
  then have "unat (of_nat (2 ^ k) :: u64) = 2 ^ k" by (simp only: unat_of_nat) simp
  then show ?thesis by simp
qed

lemma mask_clear: "unat (w AND NOT (2 ^ k - 1)) = unat w div 2 ^ k * 2 ^ k" if "k < 64" for w :: u64
proof -
  have "w AND NOT (2 ^ k - 1) = push_bit k (drop_bit k w)"
    by (rule bit_word_eqI) (auto simp: bit_simps mask_eq_exp_minus_1 [symmetric] dest: bit_imp_le_length)
  also have "\<dots> = w div 2 ^ k * 2 ^ k" by (simp add: push_bit_eq_mult drop_bit_eq_div)
  finally have e: "w AND NOT (2 ^ k - 1) = w div 2 ^ k * 2 ^ k" .
  have p: "unat (2 ^ k :: u64) = 2 ^ k" by (rule unat_pow [OF that])
  have l: "unat w < 2 ^ 64" using unsigned_less [of w, where 'a = nat] by simp
  have "unat w div 2 ^ k * 2 ^ k \<le> unat w" by simp
  then have "unat w div 2 ^ k * 2 ^ k < 2 ^ 64" using l by (rule le_less_trans)
  moreover have "unat w div 2 ^ k < 2 ^ 64" using div_le_dividend l by (rule le_less_trans)
  ultimately show ?thesis unfolding e by (simp add: unat_word_ariths unat_div p)
qed

lemma align_up_exact:
  assumes "k < 64" "unat v + 2 ^ k \<le> 2 ^ 64"
  shows "unat (align_up v (2 ^ k)) = up (2 ^ k) (unat v)"
proof -
  have p: "unat (2 ^ k :: u64) = 2 ^ k" by (rule unat_pow [OF assms(1)])
  have "unat (v + (2 ^ k - 1)) = unat v + 2 ^ k - 1"
    using assms by (simp add: unat_word_ariths p unat_sub word_le_nat_alt)
  then show ?thesis using mask_clear [OF assms(1), of "v + (2 ^ k - 1)"]
    by (simp add: align_up_def up_def add_diff_eq)
qed

lemma align_up_wraps:
  assumes "k < 64" "unat v + 2 ^ k > 2 ^ 64"
  shows "align_up v (2 ^ k) = 0"
proof -
  have p: "unat (2 ^ k :: u64) = 2 ^ k" by (rule unat_pow [OF assms(1)])
  have l: "unat v < 2 ^ 64" using unsigned_less [of v, where 'a = nat] by simp
  have "(2::nat) ^ k < 2 ^ 64" using assms(1) by (rule power_strict_increasing) simp
  then have "unat (v + (2 ^ k - 1)) = unat v + 2 ^ k - 1 - 2 ^ 64"
    using assms l by (simp add: unat_word_ariths p unat_sub word_le_nat_alt mod_if)
  then have "unat (v + (2 ^ k - 1)) < 2 ^ k" using l zero_less_power [of "2::nat" k] by linarith
  then show ?thesis using mask_clear [OF assms(1), of "v + (2 ^ k - 1)"]
    by (simp add: align_up_def add_diff_eq unat_eq_0)
qed

section \<open>The abstract heap\<close>

text \<open>A block is its address and size. A live allocation is kept with the address of its block.\<close>

type_synonym block = "nat \<times> nat"
type_synonym live = "nat \<times> allocation"

definition place :: "u64 \<Rightarrow> nat \<Rightarrow> nat" where
  "place align a = up (max (unat align) 16) (a + 24)"

definition heap_room :: "u64 \<Rightarrow> nat" where
  "heap_room sz = max (up 16 (unat sz)) 16"

definition fits :: "u64 \<Rightarrow> u64 \<Rightarrow> block \<Rightarrow> bool" where
  "fits sz align = (\<lambda>(a, s). place align a + heap_room sz \<le> a + s)"

definition disj :: "block \<Rightarrow> block \<Rightarrow> bool" where
  "disj = (\<lambda>(a, s) (b, t). a + s \<le> b \<or> b + t \<le> a)"

definition good_block :: "u64 \<Rightarrow> block \<Rightarrow> bool" where
  "good_block base = (\<lambda>(a, s). unat base \<le> a \<and> a + s \<le> unat base + 4194304 \<and> 16 dvd a \<and> 16 dvd s \<and> 16 \<le> s)"

definition live_block :: "live \<Rightarrow> block" where
  "live_block = (\<lambda>(a, p, sz, align). (a, unat p + heap_room sz - a))"

definition live_ok :: "ram \<Rightarrow> live \<Rightarrow> bool" where
  "live_ok m = (\<lambda>(a, p, sz, align). layout_ok sz align \<and> unat p = place align a \<and>
     unat (read64 m a) = unat p + heap_room sz - a \<and> unat (read64 m (unat p - 8)) = a)"

fun linked :: "ram \<Rightarrow> u64 \<Rightarrow> block list \<Rightarrow> bool" where
  "linked m p [] \<longleftrightarrow> p = 0"
| "linked m p ((a, s) # bs) \<longleftrightarrow> unat p = a \<and> unat (read64 m a) = s \<and> linked m (read64 m (a + 8)) bs"

definition heap_inv :: "u64 \<Rightarrow> heap \<Rightarrow> block list \<Rightarrow> live list \<Rightarrow> bool" where
  "heap_inv base h fl us \<longleftrightarrow> heap_at base \<and> HEAP_READY h \<and> linked (h_ram h) (FREE_HEAD h) fl \<and>
     (\<forall>u \<in> set us. live_ok (h_ram h) u) \<and> sorted_wrt disj (fl @ map live_block us) \<and>
     (\<forall>b \<in> set (fl @ map live_block us). good_block base b) \<and>
     sum_list (map snd (fl @ map live_block us)) = 4194304"

lemma disj_sym: "disj b c \<longleftrightarrow> disj c b"
  by (auto simp: disj_def split: prod.splits)

lemma linked_cong:
  assumes "\<And>a s x. (a, s) \<in> set bs \<Longrightarrow> a \<le> x \<Longrightarrow> x < a + 16 \<Longrightarrow> m x = m' x"
  shows "linked m p bs = linked m' p bs"
  using assms
proof (induction bs arbitrary: p)
  case (Cons b bs)
  obtain a s where b: "b = (a, s)" by fastforce
  have "read_bytes m a 8 = read_bytes m' a 8" "read_bytes m (a + 8) 8 = read_bytes m' (a + 8) 8"
    using Cons.prems [of a s] by (auto simp: b intro: read_bytes_cong)
  moreover have "linked m q bs = linked m' q bs" for q
    using Cons.prems by (intro Cons.IH) auto
  ultimately show ?case by (simp add: b read64_def)
qed simp

lemma linked_null: "linked m p bs \<Longrightarrow> (\<And>b. b \<in> set bs \<Longrightarrow> 0 < fst b) \<Longrightarrow> p = 0 \<longleftrightarrow> bs = []"
  by (cases bs) fastforce+

lemma pow_le_16: "(2::nat) ^ j \<le> 16 \<longleftrightarrow> j \<le> 4"
  using power_increasing_iff [of "2::nat" j 4] by simp

lemma layout_cases:
  assumes "layout_ok sz align"
  obtains k where "4 \<le> k" "k < 64" "max align ALIGN = 2 ^ k" "max (unat align) 16 = 2 ^ k"
proof -
  from assms obtain j where j: "j < 64" "align = 2 ^ j" by (auto simp: layout_ok_def)
  have u: "unat align = 2 ^ j" using unat_pow [OF j(1)] j(2) by simp
  have e: "max (2 ^ j) (2 ^ 4 :: nat) = 2 ^ (max j 4)" by (auto simp: max_def pow_le_16)
  have n: "unat (max align ALIGN) = max (unat align) 16"
    by (simp add: max_def word_le_nat_alt ALIGN_def)
  show thesis
  proof (rule that [of "max j 4"])
    show "max (unat align) 16 = 2 ^ max j 4" using e u by simp
    have "unat (max align ALIGN) = unat (2 ^ max j 4 :: u64)"
      unfolding n using e u unat_pow [of "max j 4"] j(1) by simp
    then show "max align ALIGN = 2 ^ max j 4" by (rule word_unat_eq_iff [THEN iffD2])
  qed (use j in auto)
qed

lemma room_value:
  assumes "layout_ok sz align"
  shows "unat (max (align_up sz ALIGN) ALIGN) = heap_room sz" "unat sz \<le> heap_room sz" "16 dvd heap_room sz" "16 \<le> heap_room sz"
    "heap_room sz < 2 ^ 63 + 16"
proof -
  have l: "unat sz \<le> 2 ^ 63" using assms by (auto simp: layout_ok_def)
  have "unat (align_up sz (2 ^ 4)) = up (2 ^ 4) (unat sz)" using l by (intro align_up_exact) simp_all
  then have "unat (align_up sz ALIGN) = up 16 (unat sz)" by (simp add: ALIGN_def)
  then show "unat (max (align_up sz ALIGN) ALIGN) = heap_room sz"
    by (simp add: heap_room_def max_def word_le_nat_alt ALIGN_def)
  show "unat sz \<le> heap_room sz" "16 dvd heap_room sz" "16 \<le> heap_room sz" "heap_room sz < 2 ^ 63 + 16"
    using up_bounds [of 16 "unat sz"] l by (auto simp: heap_room_def max_def)
qed

lemma place_bounds:
  assumes "layout_ok sz align" "16 dvd a"
  shows "a + 32 \<le> place align a" "16 dvd place align a" "unat align dvd place align a"
proof -
  obtain k where k: "4 \<le> k" "max (unat align) 16 = 2 ^ k" using assms(1) by (rule layout_cases)
  have d: "2 ^ k dvd place align a" "a + 24 \<le> place align a"
    using up_bounds [of "2 ^ k" "a + 24"] by (simp_all add: place_def k)
  have "(16::nat) dvd 2 ^ k" using le_imp_power_dvd [OF k(1), of "2::nat"] by simp
  then show p: "16 dvd place align a" using d(1) by (rule dvd_trans)
  have "16 dvd place align a - a" using p assms(2) by (rule dvd_diff_nat)
  moreover have "place align a - a \<ge> 24" using d(2) by simp
  ultimately have "place align a - a \<ge> 32" by (auto elim!: dvdE)
  then show "a + 32 \<le> place align a" by simp
  obtain j where j: "j < 64" "align = 2 ^ j" using assms(1) by (auto simp: layout_ok_def)
  have "unat align dvd max (unat align) 16"
    using unat_pow [OF j(1)] j(2) le_imp_power_dvd [of 4 j "2::nat"] le_imp_power_dvd [of j 4 "2::nat"]
    by (cases "j \<le> 4") (auto simp: max_def pow_le_16)
  then show "unat align dvd place align a" using d(1) k(2) by (metis dvd_trans)
qed

lemma heap_top: "heap_at base \<Longrightarrow> unat base + 4194304 + 16 \<le> 2 ^ 64"
  unfolding heap_at_def by simp presburger

lemma up_wraps:
  assumes "k < 64" "v + 2 ^ k > (2::nat) ^ 64"
  shows "2 ^ 64 \<le> up (2 ^ k) v"
proof -
  obtain q where q: "up (2 ^ k) v = 2 ^ k * q" using up_bounds(3) [of "2 ^ k" v] by (auto elim: dvdE)
  have e: "(2::nat) ^ 64 = 2 ^ k * 2 ^ (64 - k)" using assms(1) by (simp flip: power_add)
  have "2 ^ k * 2 ^ (64 - k) < 2 ^ k * q + 2 ^ k"
    using up_bounds(1) [of "2 ^ k" v] assms(2) unfolding q e by simp
  then have "2 ^ k * 2 ^ (64 - k) < 2 ^ k * (q + 1)" by simp
  then have "2 ^ (64 - k) < q + 1" by (simp only: mult_less_cancel1)
  then have "2 ^ k * 2 ^ (64 - k) \<le> 2 ^ k * q" by simp
  then show ?thesis unfolding e q .
qed

lemma walk_test:
  fixes cur sw sz align :: u64
  assumes "heap_at base" "good_block base (a, s)" "layout_ok sz align" "unat cur = a" "unat sw = s"
  defines "pa \<equiv> align_up (payload cur + size_of_usize) (max align ALIGN)"
    and "want \<equiv> max (align_up sz ALIGN) ALIGN"
  shows "pa + want - cur \<le> sw \<longleftrightarrow> fits sz align (a, s)"
    and "fits sz align (a, s) \<Longrightarrow> unat pa = place align a \<and> unat (pa + want - cur) = place align a + heap_room sz - a"
proof -
  obtain k where k: "4 \<le> k" "k < 64" "max align ALIGN = 2 ^ k" "max (unat align) 16 = 2 ^ k"
    using assms(3) by (rule layout_cases)
  note w = room_value [OF assms(3), folded want_def]
  have a: "0xffffffff80000000 \<le> a" "a + s + 16 \<le> 2 ^ 64" "16 \<le> s" "s \<le> 4194304"
    using assms(1,2) heap_top [OF assms(1)] by (auto simp: heap_at_def good_block_def)
  have v: "unat (payload cur + size_of_usize) = a + 24"
    using a assms(4) by (simp add: payload_def size_of_Block_def size_of_usize_def unat_word_ariths)
  have pl: "place align a = up (2 ^ k) (a + 24)" by (simp add: place_def k)
  have "(pa + want - cur \<le> sw \<longleftrightarrow> fits sz align (a, s)) \<and>
    (fits sz align (a, s) \<longrightarrow> unat pa = place align a \<and> unat (pa + want - cur) = place align a + heap_room sz - a)"
  proof (cases "a + 24 + 2 ^ k \<le> (2::nat) ^ 64")
    case True
    have p: "unat pa = place align a"
      unfolding pa_def k(3) pl by (subst align_up_exact) (use True k v in simp_all)
    have ge: "a + 24 \<le> unat pa" unfolding p pl by (rule up_bounds) simp
    have l: "unat pa < 2 ^ 64" using unsigned_less [of pa, where 'a = nat] by simp
    have "unat (pa - cur) = unat pa - a" using ge assms(4) by (simp add: unat_sub word_le_nat_alt)
    then have "unat ((pa - cur) + want) = unat pa - a + heap_room sz"
      using l a(1) w(1,5) by (simp add: unat_word_ariths)
    moreover have "pa - cur + want = pa + want - cur" by simp
    ultimately have u: "unat (pa + want - cur) = unat pa - a + heap_room sz" by metis
    show ?thesis using ge assms(5) u p by (auto simp: word_le_nat_alt fits_def)
  next
    case False
    have z: "pa = 0" unfolding pa_def k(3) by (rule align_up_wraps) (use False k v in simp_all)
    have "2 ^ 64 \<le> place align a" unfolding pl using k(2) False by (intro up_wraps) simp_all
    then have nf: "\<not> fits sz align (a, s)" using a(2) by (simp add: fits_def)
    have "unat (want - cur) = heap_room sz + 2 ^ 64 - a"
      using a(1,2) w(1,5) assms(4) by (simp add: unat_sub_if' )
    then have "\<not> pa + want - cur \<le> sw" using a(2) w(4) assms(5) by (simp add: z word_le_nat_alt)
    then show ?thesis using nf by simp
  qed
  then show "pa + want - cur \<le> sw \<longleftrightarrow> fits sz align (a, s)"
    and "fits sz align (a, s) \<Longrightarrow> unat pa = place align a \<and> unat (pa + want - cur) = place align a + heap_room sz - a"
    by blast+
qed

definition prev_of :: "block list \<Rightarrow> u64" where
  "prev_of xs = (if xs = [] then 0 else of_nat (fst (last xs)))"

text \<open>The search stops at the first block that fits, or returns null after the whole list.\<close>

lemma walk_result:
  assumes "heap_at base" "layout_ok sz align"
  defines "want \<equiv> max (align_up sz ALIGN) ALIGN"
  shows "linked (h_ram h) cur ys \<Longrightarrow> \<forall>b \<in> set ys. good_block base b \<Longrightarrow>
    (if \<forall>b \<in> set ys. \<not> fits sz align b then alloc_walk want (max align ALIGN) (prev_of xs) cur h = Some (0, h)
     else \<exists>as a s bs pa used. ys = as @ (a, s) # bs \<and> (\<forall>b \<in> set as. \<not> fits sz align b) \<and> fits sz align (a, s) \<and> unat pa = place align a \<and>
       unat used = place align a + heap_room sz - a \<and>
       alloc_walk want (max align ALIGN) (prev_of xs) cur h = Some (take_block want (prev_of (xs @ as)) (of_nat a) pa used h))"
proof (induction ys arbitrary: cur xs)
  case Nil
  then show ?case by (simp add: alloc_walk.simps)
next
  case (Cons b ys)
  obtain a s where b: "b = (a, s)" by fastforce
  have g: "good_block base (a, s)" using Cons.prems(2) b by simp
  have cur: "unat cur = a" "unat (block_size (h_ram h) cur) = s" "of_nat a = cur"
    and lk: "linked (h_ram h) (block_next (h_ram h) cur) ys"
    using Cons.prems(1) b by (auto simp: block_size_def block_next_def)
  have nz: "cur \<noteq> 0" using g assms(1) cur(1) by (auto simp: good_block_def heap_at_def)
  let ?pa = "align_up (payload cur + size_of_usize) (max align ALIGN)"
  note t = walk_test [OF assms(1) g assms(2) cur(1,2), folded want_def]
  show ?case
  proof (cases "fits sz align (a, s)")
    case True
    have w: "alloc_walk want (max align ALIGN) (prev_of xs) cur h =
        Some (take_block want (prev_of (xs @ [])) (of_nat a) ?pa (?pa + want - cur) h)"
      using True nz t(1) cur(3) by (subst alloc_walk.simps) (simp add: Let_def)
    have nall: "\<not> (\<forall>c \<in> set (b # ys). \<not> fits sz align c)" using True b by auto
    show ?thesis
      unfolding if_not_P [OF nall]
      by (rule exI [of _ "[]"], rule exI [of _ a], rule exI [of _ s], rule exI [of _ ys],
          rule exI [of _ ?pa], rule exI [of _ "?pa + want - cur"])
        (use True t(2) [OF True] b w in simp)
  next
    case False
    have st: "alloc_walk want (max align ALIGN) (prev_of xs) cur h =
        alloc_walk want (max align ALIGN) (prev_of (xs @ [b])) (block_next (h_ram h) cur) h"
      using nz t(1) False cur(3) by (subst alloc_walk.simps) (simp add: Let_def prev_of_def b)
    have ih: "if \<forall>b \<in> set ys. \<not> fits sz align b
      then alloc_walk want (max align ALIGN) (prev_of xs) cur h = Some (0, h)
      else \<exists>as a s bs pa used. ys = as @ (a, s) # bs \<and> (\<forall>b \<in> set as. \<not> fits sz align b) \<and> fits sz align (a, s) \<and> unat pa = place align a \<and>
        unat used = place align a + heap_room sz - a \<and>
        alloc_walk want (max align ALIGN) (prev_of xs) cur h = Some (take_block want (prev_of ((xs @ [b]) @ as)) (of_nat a) pa used h)"
      unfolding st by (rule Cons.IH [OF lk]) (use Cons.prems(2) in simp)
    show ?thesis
    proof (cases "\<forall>b \<in> set ys. \<not> fits sz align b")
      case True
      then show ?thesis using ih False b by simp
    next
      case some: False
      then obtain as a' s' bs pa used where r: "ys = as @ (a', s') # bs" "\<forall>b \<in> set as. \<not> fits sz align b" "fits sz align (a', s')" "unat pa = place align a'"
        "unat used = place align a' + heap_room sz - a'"
        "alloc_walk want (max align ALIGN) (prev_of xs) cur h = Some (take_block want (prev_of ((xs @ [b]) @ as)) (of_nat a') pa used h)"
        using ih by (simp only: if_False) blast
      have nall: "\<not> (\<forall>c \<in> set (b # ys). \<not> fits sz align c)" using some by auto
      show ?thesis
        unfolding if_not_P [OF nall]
        by (rule exI [of _ "b # as"], rule exI [of _ a'], rule exI [of _ s'], rule exI [of _ bs],
            rule exI [of _ pa], rule exI [of _ used]) (use r False b in simp)
    qed
  qed
qed

section \<open>What an allocation does to memory\<close>

definition headers :: "block list \<Rightarrow> nat set" where
  "headers bs = (\<Union>(a, s) \<in> set bs. {a ..< a + 16})"

definition extent :: "block \<Rightarrow> nat set" where
  "extent = (\<lambda>(a, s). {a ..< a + s})"

definition same_off :: "nat set \<Rightarrow> ram \<Rightarrow> ram \<Rightarrow> bool" where
  "same_off S m m' \<longleftrightarrow> (\<forall>x. x \<notin> S \<longrightarrow> m' x = m x)"

lemma same_off_refl [simp]: "same_off S m m"
  by (simp add: same_off_def)

lemma same_off_trans: "same_off S m m' \<Longrightarrow> same_off T m' m'' \<Longrightarrow> S \<union> T \<subseteq> R \<Longrightarrow> same_off R m m''"
  unfolding same_off_def by (metis UnCI subsetD)

lemma same_off_write64: "{a ..< a + 8} \<subseteq> S \<Longrightarrow> same_off S m (write64 m a v)"
  by (auto simp: same_off_def write64_def write_list_def)

lemma same_off_write_block: "{unat b ..< unat b + 16} \<subseteq> S \<Longrightarrow> same_off S m (write_block b sz n m)"
  unfolding write_block_def
  by (rule same_off_trans [of S _ "write64 m (unat b) sz" S]) (auto intro!: same_off_write64)

lemma read64_same_off: "same_off S m m' \<Longrightarrow> {a ..< a + 8} \<inter> S = {} \<Longrightarrow> read64 m' a = read64 m a"
  unfolding read64_def same_off_def
  by (intro arg_cong [where f = from_le] read_bytes_cong) (auto simp: disjoint_iff)

lemma linked_same_off: "same_off S m m' \<Longrightarrow> headers bs \<inter> S = {} \<Longrightarrow> linked m' p bs = linked m p bs"
  by (rule linked_cong) (force simp: same_off_def headers_def disjoint_iff)

lemma headers_simps [simp]: "headers [] = {}" "headers (b # bs) = {fst b ..< fst b + 16} \<union> headers bs"
  "headers (bs @ cs) = headers bs \<union> headers cs"
  by (auto simp: headers_def split: prod.splits)

lemma disj_extent: "disj b c \<Longrightarrow> extent b \<inter> extent c = {}"
  by (auto simp: disj_def extent_def split: prod.splits)

lemma header_in_extent: "good_block base b \<Longrightarrow> {fst b ..< fst b + 16} \<subseteq> extent b"
  by (auto simp: good_block_def extent_def split: prod.splits)

lemma headers_apart:
  assumes "\<forall>c \<in> set bs. disj b c \<and> good_block base c"
  shows "headers bs \<inter> extent b = {}"
proof -
  have "{fst c ..< fst c + 16} \<inter> extent b = {}" if "c \<in> set bs" for c
    using header_in_extent [of base c] disj_extent [of b c] assms that by blast
  then show ?thesis by (fastforce simp: headers_def)
qed

lemma live_in_block:
  assumes "live_ok m (a, p, sz, align)" "good_block base (live_block (a, p, sz, align))"
  shows "a + 32 \<le> unat p" "{a ..< a + 8} \<subseteq> extent (live_block (a, p, sz, align))"
    "{unat p - 8 ..< unat p} \<subseteq> extent (live_block (a, p, sz, align))"
    "bytes_of_alloc (p, sz, align) \<subseteq> extent (live_block (a, p, sz, align))"
proof -
  have l: "layout_ok sz align" "unat p = place align a" "16 dvd a"
    using assms by (auto simp: live_ok_def good_block_def live_block_def)
  show p: "a + 32 \<le> unat p" using place_bounds(1) [OF l(1,3)] l(2) by simp
  show "{a ..< a + 8} \<subseteq> extent (live_block (a, p, sz, align))"
    "{unat p - 8 ..< unat p} \<subseteq> extent (live_block (a, p, sz, align))"
    "bytes_of_alloc (p, sz, align) \<subseteq> extent (live_block (a, p, sz, align))"
    using p room_value(2) [OF l(1)] by (auto simp: extent_def live_block_def bytes_of_alloc_def)
qed

lemma live_same_off:
  assumes "live_ok m u" "good_block base (live_block u)" "same_off S m m'" "extent (live_block u) \<inter> S = {}"
  shows "live_ok m' u"
proof -
  obtain a p sz align where u: "u = (a, p, sz, align)" by (cases u)
  note b = live_in_block [OF assms(1,2) [unfolded u]]
  have "read64 m' a = read64 m a" using assms(3,4) b(2) u by (intro read64_same_off) auto
  moreover have "read64 m' (unat p - 8) = read64 m (unat p - 8)"
    using assms(3,4) b(1,3) u by (intro read64_same_off) auto
  ultimately show ?thesis using assms(1) by (auto simp: u live_ok_def)
qed

lemma unlink:
  assumes "linked m p (xs @ (a, s) # ys)" "sorted_wrt disj (xs @ (a, s) # ys)"
    "\<forall>b \<in> set (xs @ (a, s) # ys). good_block base b" "xs \<noteq> []"
  shows "linked (write64 m (fst (last xs) + 8) (read64 m (a + 8))) p (xs @ ys)"
  using assms
proof (induction xs arbitrary: p)
  case (Cons b xs)
  obtain b1 t where b: "b = (b1, t)" by fastforce
  show ?case
  proof (cases "xs = []")
    case True
    have "headers ys \<inter> extent b = {}" using Cons.prems(2,3) by (intro headers_apart) (auto simp: True)
    moreover have "{b1 + 8 ..< b1 + 16} \<subseteq> extent b"
      using Cons.prems(3) by (auto simp: b extent_def good_block_def)
    ultimately have "headers ys \<inter> {b1 + 8 ..< b1 + 16} = {}" by blast
    then have "linked (write64 m (b1 + 8) (read64 m (a + 8))) q ys = linked m q ys" for q
      by (intro linked_same_off [of "{b1 + 8 ..< b1 + 16}"] same_off_write64) auto
    then show ?thesis using Cons.prems(1) by (simp add: True b)
  next
    case False
    let ?l = "fst (last xs)"
    have l: "last xs \<in> set xs" using False by simp
    have "disj b (last xs)" "good_block base b" "good_block base (last xs)" using Cons.prems(2,3) l by auto
    then have d: "b1 + 16 \<le> ?l \<or> ?l + 16 \<le> b1" by (auto simp: disj_def good_block_def b split: prod.splits)
    have "linked (write64 m (?l + 8) (read64 m (a + 8))) (read64 m (b1 + 8)) (xs @ ys)"
      using Cons.prems False by (intro Cons.IH) (auto simp: b)
    moreover have "read64 (write64 m (?l + 8) v) b1 = read64 m b1"
      "read64 (write64 m (?l + 8) v) (b1 + 8) = read64 m (b1 + 8)" for v
      using d by auto
    ultimately show ?thesis using Cons.prems(1) False by (simp add: b)
  qed
qed simp

lemma heap_invD:
  assumes "heap_inv base h fl us"
  shows "heap_at base" "HEAP_READY h" "linked (h_ram h) (FREE_HEAD h) fl"
    "\<And>u. u \<in> set us \<Longrightarrow> live_ok (h_ram h) u \<and> good_block base (live_block u)"
    "\<And>b. b \<in> set fl \<Longrightarrow> good_block base b"
    "sorted_wrt disj fl" "sorted_wrt disj (map live_block us)"
    "\<And>b u. b \<in> set fl \<Longrightarrow> u \<in> set us \<Longrightarrow> disj b (live_block u)"
    "sum_list (map snd fl) + sum_list (map snd (map live_block us)) = 4194304"
  using assms by (auto simp: heap_inv_def sorted_wrt_append)

lemma block_pos: "heap_at base \<Longrightarrow> good_block base b \<Longrightarrow> 0 < fst b \<and> fst b + snd b < 2 ^ 64"
  by (auto simp: heap_at_def good_block_def split: prod.splits)

lemma prev_of_value:
  assumes "heap_at base" "\<forall>b \<in> set xs. good_block base b" "xs \<noteq> []"
  shows "prev_of xs \<noteq> 0" "unat (prev_of xs) = fst (last xs)"
proof -
  have "0 < fst (last xs) \<and> fst (last xs) < 2 ^ 64"
    using block_pos [OF assms(1), of "last xs"] assms(2,3) by force
  then have u: "unat (prev_of xs) = fst (last xs)" "0 < fst (last xs)"
    using assms(3) by (simp_all add: prev_of_def unat_of_nat)
  then show "prev_of xs \<noteq> 0" "unat (prev_of xs) = fst (last xs)" by auto
qed

lemma split_block:
  assumes "disj (a, s) c" "U \<le> s"
  shows "disj (a, U) c" "disj (a + U, s - U) c"
  using assms by (auto simp: disj_def split: prod.splits)

text \<open>The free list once a block is unlinked, and once its remainder is put back in front.\<close>

lemma unlinked:
  assumes "heap_inv base h (xs @ (a, s) # ys) us"
  defines "h1 \<equiv> (if prev_of xs = 0 then h\<lparr>FREE_HEAD := read64 (h_ram h) (a + 8)\<rparr>
                else h\<lparr>h_ram := write64 (h_ram h) (unat (prev_of xs) + 8) (read64 (h_ram h) (a + 8))\<rparr>)"
  shows "linked (h_ram h1) (FREE_HEAD h1) (xs @ ys)" "same_off (headers xs) (h_ram h) (h_ram h1)" "HEAP_READY h1"
proof -
  note i = heap_invD [OF assms(1)]
  have "linked (h_ram h1) (FREE_HEAD h1) (xs @ ys) \<and> same_off (headers xs) (h_ram h) (h_ram h1)"
  proof (cases "xs = []")
    case True
    then show ?thesis using i(3) by (simp add: h1_def prev_of_def)
  next
    case False
    have g: "\<forall>b \<in> set (xs @ (a, s) # ys). good_block base b" using i(5) by blast
    note p = prev_of_value [OF i(1) _ False]
    have "{fst (last xs) ..< fst (last xs) + 16} \<subseteq> headers xs"
      using False by (auto simp: headers_def split: prod.splits intro!: bexI [of _ "last xs"])
    then show ?thesis using unlink [OF i(3,6) g False] p g
      by (auto simp: h1_def intro!: same_off_write64)
  qed
  then show "linked (h_ram h1) (FREE_HEAD h1) (xs @ ys)" "same_off (headers xs) (h_ram h) (h_ram h1)" by auto
  show "HEAP_READY h1" using i(2) by (simp add: h1_def)
qed

lemma push_block:
  assumes "linked (h_ram h) (FREE_HEAD h) bs" "headers bs \<inter> {unat b ..< unat b + 16} = {}"
  shows "linked (write_block b sz (FREE_HEAD h) (h_ram h)) b ((unat b, unat sz) # bs)"
proof -
  have "linked (write_block b sz (FREE_HEAD h) (h_ram h)) q bs = linked (h_ram h) q bs" for q
    using assms(2) by (intro linked_same_off same_off_write_block) auto
  then show ?thesis using assms(1) by (simp add: write_block_def)
qed

text \<open>The new division of the heap: the block is cut at \<open>U\<close>, its front is live and the rest is free.\<close>

definition rest_of :: "nat \<Rightarrow> nat \<Rightarrow> nat \<Rightarrow> block list" where
  "rest_of a s U = (if 16 \<le> s - U then [(a + U, s - U)] else [])"

lemma middle_apart:
  assumes "heap_inv base h (xs @ (a, s) # ys) us" "c \<in> set xs \<union> set ys \<union> set (map live_block us)"
  shows "disj (a, s) c"
proof -
  note i = heap_invD [OF assms(1)]
  have "disj c (a, s) \<or> disj (a, s) c" using assms(2) i(6) i(8) [of "(a, s)"] by (auto simp: sorted_wrt_append)
  then show ?thesis using disj_sym by blast
qed

lemma cut_blocks:
  assumes "heap_inv base h (xs @ (a, s) # ys) us" "live_block u = (a, U)" "U \<le> s" "16 \<le> U" "16 dvd U"
  shows "sorted_wrt disj ((rest_of a s U @ xs @ ys) @ map live_block (u # us))"
    "\<forall>b \<in> set ((rest_of a s U @ xs @ ys) @ map live_block (u # us)). good_block base b"
    "sum_list (map snd ((rest_of a s U @ xs @ ys) @ map live_block (u # us))) = 4194304"
proof -
  note i = heap_invD [OF assms(1)]
  note d = middle_apart [OF assms(1)]
  have dU: "disj (a, U) c \<and> disj c (a, U) \<and> disj (a + U, s - U) c"
    if "c \<in> set xs \<union> set ys \<union> set (map live_block us)" for c
    using split_block [OF d [OF that] assms(3)] disj_sym by blast
  have "disj (a + U, s - U) (a, U)" using assms(3) by (auto simp: disj_def)
  then show "sorted_wrt disj ((rest_of a s U @ xs @ ys) @ map live_block (u # us))"
    using dU i(6,7,8) by (auto simp: sorted_wrt_append rest_of_def assms(2))
  have g: "good_block base (a, s)" using i(5) by simp
  then have "good_block base (a, U)" "16 \<le> s - U \<Longrightarrow> good_block base (a + U, s - U)"
    using assms(3-5) by (auto simp: good_block_def)
  then show "\<forall>b \<in> set ((rest_of a s U @ xs @ ys) @ map live_block (u # us)). good_block base b"
    using i(4,5) by (auto simp: rest_of_def assms(2))
  have "16 dvd s - U" using g assms(5) by (simp add: good_block_def)
  then have "16 \<le> s - U \<or> s = U" using assms(3) by (auto elim!: dvdE)
  then show "sum_list (map snd ((rest_of a s U @ xs @ ys) @ map live_block (u # us))) = 4194304"
    using i(9) assms(3) by (auto simp: rest_of_def assms(2))
qed

lemma take_block_correct:
  assumes inv: "heap_inv base h (xs @ (a, s) # ys) us" and lo: "layout_ok sz align" and f: "fits sz align (a, s)"
    and pa: "unat pa = place align a" and used: "unat used = place align a + heap_room sz - a"
  defines "want \<equiv> max (align_up sz ALIGN) ALIGN" and "U \<equiv> place align a + heap_room sz - a"
  obtains h' where "take_block want (prev_of xs) (of_nat a) pa used h = (pa, h')"
    "heap_inv base h' (rest_of a s U @ xs @ ys) ((a, pa, sz, align) # us)"
    "same_off (headers xs \<union> extent (a, s)) (h_ram h) (h_ram h')"
proof -
  note i = heap_invD [OF inv]
  have g: "good_block base (a, s)" using i(5) by simp
  have a: "0 < a" "a + s < 2 ^ 64" "16 dvd a" "16 \<le> s" using block_pos [OF i(1) g] g by (auto simp: good_block_def)
  note w = room_value [OF lo, folded want_def] and pb = place_bounds [OF lo a(3)]
  have U: "U \<le> s" "48 \<le> U" "16 dvd U" "unat used = U" "unat pa + heap_room sz = a + U"
    using f pb w(3,4) used pa by (auto simp: fits_def U_def a(3))
  have cur: "unat (of_nat a :: u64) = a" using a(2) by (simp add: unat_of_nat)
  have sz: "unat (block_size (h_ram h) (of_nat a)) = s"
  proof -
    have "linked m p (xs @ (a, s) # ys) \<Longrightarrow> unat (read64 m a) = s" for m p by (induction xs arbitrary: p) auto
    then show ?thesis using i(3) cur by (simp add: block_size_def)
  qed
  have diff: "unat (block_size (h_ram h) (of_nat a) - used) = s - U"
    using sz U by (simp add: unat_sub word_le_nat_alt)
  have tail: "unat (pa + want) = a + U" using U(1,5) w(1) a(2) by (simp add: unat_word_ariths)
  have bk: "unat (pa - size_of_usize) = unat pa - 8"
    using pb(1) pa by (simp add: size_of_usize_def unat_sub word_le_nat_alt)
  define h1 where "h1 = (if prev_of xs = 0 then h\<lparr>FREE_HEAD := read64 (h_ram h) (a + 8)\<rparr>
                else h\<lparr>h_ram := write64 (h_ram h) (unat (prev_of xs) + 8) (read64 (h_ram h) (a + 8))\<rparr>)"
  note u = unlinked [OF inv, folded h1_def]
  have off: "headers (xs @ ys) \<inter> extent (a, s) = {}"
    using i(5) middle_apart [OF inv] by (intro headers_apart [of _ _ base]) auto
  define h2 where "h2 = (if block_size (h_ram h) (of_nat a) - used \<ge> size_of_Block
      then h1\<lparr>h_ram := write_block (pa + want) (block_size (h_ram h) (of_nat a) - used) (FREE_HEAD h1) (h_ram h1), FREE_HEAD := pa + want\<rparr>
      else h1)"
  have c: "block_size (h_ram h) (of_nat a) - used \<ge> size_of_Block \<longleftrightarrow> 16 \<le> s - U"
    using diff by (simp add: word_le_nat_alt size_of_Block_def)
  have l2: "linked (h_ram h2) (FREE_HEAD h2) (rest_of a s U @ xs @ ys) \<and> same_off (extent (a, s)) (h_ram h1) (h_ram h2)"
  proof (cases "16 \<le> s - U")
    case True
    have sub: "{unat (pa + want) ..< unat (pa + want) + 16} \<subseteq> extent (a, s)"
      unfolding tail using True by (auto simp: extent_def)
    then have "headers (xs @ ys) \<inter> {unat (pa + want) ..< unat (pa + want) + 16} = {}" using off by blast
    from push_block [OF u(1) this, of "block_size (h_ram h) (of_nat a) - used"] sub
    show ?thesis using True by (simp add: h2_def c rest_of_def tail diff same_off_write_block)
  next
    case False
    then show ?thesis using u(1) by (simp add: h2_def c rest_of_def)
  qed
  define m4 where "m4 = write64 (write64 (h_ram h2) a used) (unat pa - 8) (of_nat a)"
  have "{a ..< a + 8} \<subseteq> {a ..< a + U}" "{unat pa - 8 ..< unat pa - 8 + 8} \<subseteq> {a ..< a + U}"
    using U pb(1) w(4) pa by auto
  note o4 = same_off_trans [OF same_off_write64 [OF this(1)] same_off_write64 [OF this(2)] Un_least [OF subset_refl subset_refl],
      of "h_ram h2" used "of_nat a", folded m4_def]
  have "{a ..< a + U} \<subseteq> extent (a, s)" using U(1) by (auto simp: extent_def)
  moreover have "headers (rest_of a s U) \<inter> {a ..< a + U} = {}" by (auto simp: rest_of_def)
  ultimately have "headers (rest_of a s U @ xs @ ys) \<inter> {a ..< a + U} = {}"
    using off unfolding headers_simps(3) by blast
  then have l4: "linked m4 (FREE_HEAD h2) (rest_of a s U @ xs @ ys)" using linked_same_off [OF o4] l2 by blast
  have all: "same_off (headers xs \<union> extent (a, s)) (h_ram h) m4"
  proof -
    have "same_off (headers xs \<union> extent (a, s)) (h_ram h) (h_ram h2)"
      by (rule same_off_trans [OF u(2) l2 [THEN conjunct2]]) simp
    then show ?thesis using o4 by (rule same_off_trans) (use U(1) in \<open>auto simp: extent_def\<close>)
  qed
  have new: "live_ok m4 (a, pa, sz, align)"
    using lo pa U(4,5) cur pb(1) by (auto simp: live_ok_def m4_def)
  have old: "live_ok m4 v" if v: "v \<in> set us" for v
  proof (rule live_same_off [OF _ _ all])
    show "live_ok (h_ram h) v" "good_block base (live_block v)" using i(4) v by auto
    have "disj (live_block v) c" if "c \<in> set (xs @ (a, s) # ys)" for c
      using i(8) [OF that v] by (rule disj_sym [THEN iffD1])
    then have "headers xs \<inter> extent (live_block v) = {}"
      using i(5) by (intro headers_apart [of _ _ base]) auto
    moreover have "extent (a, s) \<inter> extent (live_block v) = {}" using i(8) v by (intro disj_extent) auto
    ultimately show "extent (live_block v) \<inter> (headers xs \<union> extent (a, s)) = {}" by blast
  qed
  have lb: "live_block (a, pa, sz, align) = (a, U)" using pa by (simp add: live_block_def U_def)
  have r: "HEAP_READY h2" using u(3) by (simp add: h2_def)
  show thesis
  proof (rule that)
    show "take_block want (prev_of xs) (of_nat a) pa used h = (pa, h2\<lparr>h_ram := m4\<rparr>)"
      by (simp add: take_block_def Let_def h2_def h1_def m4_def block_next_def cur bk)
    show "heap_inv base (h2\<lparr>h_ram := m4\<rparr>) (rest_of a s U @ xs @ ys) ((a, pa, sz, align) # us)"
      using cut_blocks [OF inv lb U(1)] U(2,3) i(1) r l4 new old by (simp add: heap_inv_def)
    show "same_off (headers xs \<union> extent (a, s)) (h_ram h) (h_ram (h2\<lparr>h_ram := m4\<rparr>))" using all by simp
  qed
qed

section \<open>Runs\<close>

lemma dealloc_correct:
  assumes inv: "heap_inv base h fl (us @ (a, p, sz, align) # vs)"
  defines "b \<equiv> live_block (a, p, sz, align)"
  shows "heap_inv base (heap_dealloc p h) (b # fl) (us @ vs)" "same_off (extent b) (h_ram h) (h_ram (heap_dealloc p h))"
proof -
  note i = heap_invD [OF inv]
  have l: "live_ok (h_ram h) (a, p, sz, align)" "good_block base b" using i(4) by (auto simp: b_def)
  have e: "a + 32 \<le> unat p" "unat (read64 (h_ram h) a) = snd b" "fst b = a" "unat (read64 (h_ram h) (unat p - 8)) = a"
    using live_in_block(1) [OF l(1)] l by (auto simp: live_ok_def b_def live_block_def)
  have q: "unat (p - size_of_usize) = unat p - 8"
    using e(1) by (simp add: size_of_usize_def unat_sub word_le_nat_alt)
  have nz: "p \<noteq> 0" using e(1) by auto
  define hd where "hd = read64 (h_ram h) (unat p - 8)"
  have d: "heap_dealloc p h = h\<lparr>h_ram := write_block hd (read64 (h_ram h) a) (FREE_HEAD h) (h_ram h), FREE_HEAD := hd\<rparr>"
    using nz i(2) e(4) by (simp add: heap_dealloc_def Let_def q block_size_def hd_def)
  have hd: "unat hd = a" using e(4) by (simp add: hd_def)
  have sub: "{unat hd ..< unat hd + 16} \<subseteq> extent b" using header_in_extent [OF l(2)] e(3) hd by simp
  have db: "disj b c" if "c \<in> set fl \<union> set (map live_block us) \<union> set (map live_block vs)" for c
  proof -
    have "disj b c \<or> disj c b"
      using that i(7) i(8) [of c "(a, p, sz, align)"] by (auto simp: sorted_wrt_append b_def)
    then show ?thesis using disj_sym by blast
  qed
  have "headers fl \<inter> extent b = {}" using db i(5) by (intro headers_apart [of _ _ base]) auto
  then have "linked (write_block hd (read64 (h_ram h) a) (FREE_HEAD h) (h_ram h)) hd (b # fl)"
    using push_block [OF i(3), of hd "read64 (h_ram h) a"] sub e(2,3) hd
    by (metis inf.orderE inf_bot_right inf_left_commute prod.collapse)
  moreover show so: "same_off (extent b) (h_ram h) (h_ram (heap_dealloc p h))"
    unfolding d using same_off_write_block [OF sub] by simp
  moreover have "live_ok (h_ram (heap_dealloc p h)) v" if v: "v \<in> set (us @ vs)" for v
  proof (rule live_same_off [OF _ _ so, of _ base])
    show "live_ok (h_ram h) v" "good_block base (live_block v)" using i(4) [of v] v by auto
    show "extent (live_block v) \<inter> extent b = {}" using disj_extent [OF db, of "live_block v"] v by auto
  qed
  moreover have "sorted_wrt disj ((b # fl) @ map live_block (us @ vs))"
    using i(6-8) db by (auto simp: sorted_wrt_append)
  ultimately show "heap_inv base (heap_dealloc p h) (b # fl) (us @ vs)"
    using i(1,2,4,5,9) l(2) by (auto simp: heap_inv_def d b_def)
qed

lemma init_inv: "heap_at base \<Longrightarrow> heap_inv base (heap_init base h) [(unat base, 4194304)] []"
  by (auto simp: heap_inv_def heap_init_def write_block_def HEAP_SIZE_def good_block_def heap_at_def mod_eq_0_iff_dvd)

lemma write_inv:
  assumes inv: "heap_inv base h fl us" and u: "(a, p, sz, align) \<in> set us" and i: "i < unat sz"
  shows "heap_inv base (h\<lparr>h_ram := (h_ram h)(unat p + i := v)\<rparr>) fl us"
proof -
  note iv = heap_invD [OF inv]
  let ?m = "(h_ram h)(unat p + i := v)" and ?b = "live_block (a, p, sz, align)"
  have l: "live_ok (h_ram h) (a, p, sz, align)" "good_block base ?b" using iv(4) u by auto
  note b = live_in_block [OF l]
  have so: "same_off {unat p + i} (h_ram h) ?m" by (simp add: same_off_def)
  have inb: "unat p + i \<in> extent ?b" using b(4) i by (auto simp: bytes_of_alloc_def)
  have "headers fl \<inter> extent ?b = {}"
    using iv(5) iv(8) [OF _ u] disj_sym by (intro headers_apart [of _ _ base]) blast
  then have "linked ?m (FREE_HEAD h) fl" using linked_same_off [OF so] inb iv(3) by blast
  moreover have "live_ok ?m w" if w: "w \<in> set us" for w
  proof (cases "w = (a, p, sz, align)")
    case True
    have "read64 ?m a = read64 (h_ram h) a" "read64 ?m (unat p - 8) = read64 (h_ram h) (unat p - 8)"
      using b(1) by (auto intro!: read64_same_off [OF so])
    then show ?thesis using l(1) by (auto simp: live_ok_def True)
  next
    case False
    have "disj (live_block w) ?b \<or> disj ?b (live_block w)"
      using iv(7) w u False by (induction us) auto
    then have "extent (live_block w) \<inter> extent ?b = {}" using disj_extent by blast
    then show ?thesis using iv(4) [OF w] inb by (intro live_same_off [OF _ _ so, of _ base]) auto
  qed
  ultimately show ?thesis using inv by (simp add: heap_inv_def)
qed

lemma alloc_cases:
  assumes inv: "heap_inv base h fl us" and lo: "layout_ok sz align"
  shows "if \<forall>b \<in> set fl. \<not> fits sz align b then heap_alloc sz align h = Some (0, h)
    else \<exists>a s xs ys p h'. fl = xs @ (a, s) # ys \<and> (\<forall>b \<in> set xs. \<not> fits sz align b) \<and> heap_alloc sz align h = Some (p, h') \<and> unat p = place align a \<and>
      heap_inv base h' (rest_of a s (place align a + heap_room sz - a) @ xs @ ys) ((a, p, sz, align) # us) \<and>
      same_off (headers xs \<union> extent (a, s)) (h_ram h) (h_ram h')"
proof -
  note i = heap_invD [OF inv]
  have r: "heap_alloc sz align h = alloc_walk (max (align_up sz ALIGN) ALIGN) (max align ALIGN) (prev_of []) (FREE_HEAD h) h"
    using i(2) by (simp add: heap_alloc_def prev_of_def)
  note w = walk_result [OF i(1) lo i(3), of "[]", folded r]
  show ?thesis
  proof (cases "\<forall>b \<in> set fl. \<not> fits sz align b")
    case True
    then show ?thesis using w i(5) by simp
  next
    case False
    then obtain xs a s ys pa used where e: "fl = xs @ (a, s) # ys" "\<forall>b \<in> set xs. \<not> fits sz align b" "fits sz align (a, s)" "unat pa = place align a"
      "unat used = place align a + heap_room sz - a"
      "heap_alloc sz align h = Some (take_block (max (align_up sz ALIGN) ALIGN) (prev_of xs) (of_nat a) pa used h)"
      using w i(5) by (simp only: if_False append_Nil) blast
    obtain h' where "take_block (max (align_up sz ALIGN) ALIGN) (prev_of xs) (of_nat a) pa used h = (pa, h')"
      "heap_inv base h' (rest_of a s (place align a + heap_room sz - a) @ xs @ ys) ((a, pa, sz, align) # us)"
      "same_off (headers xs \<union> extent (a, s)) (h_ram h) (h_ram h')"
      using take_block_correct [OF inv [unfolded e(1)] lo e(3,4,5)] .
    then show ?thesis using e False by auto
  qed
qed

lemma place_pos: "layout_ok sz align \<Longrightarrow> 16 dvd a \<Longrightarrow> unat p = place align a \<Longrightarrow> p \<noteq> 0"
  using place_bounds(1) [of sz align a] by auto

lemma run_inv:
  assumes "heap_run base h live"
  shows "\<exists>fl us. heap_inv base h fl us \<and> map snd us = live"
  using assms
proof (induction rule: heap_run.induct)
  case (run_init h)
  then show ?case using init_inv [of base h] by fastforce
next
  case (run_alloc h live sz align p h' live')
  then obtain fl us where inv: "heap_inv base h fl us" "map snd us = live" by blast
  note c = alloc_cases [OF inv(1) run_alloc.hyps(2)]
  show ?case
  proof (cases "\<forall>b \<in> set fl. \<not> fits sz align b")
    case True
    then show ?thesis using c run_alloc.hyps(3,4) inv by auto
  next
    case False
    obtain a s xs ys where e: "fl = xs @ (a, s) # ys" "unat p = place align a"
      "heap_inv base h' (rest_of a s (place align a + heap_room sz - a) @ xs @ ys) ((a, p, sz, align) # us)"
      using c [unfolded if_not_P [OF False]] run_alloc.hyps(3) by auto
    have "16 dvd a" using heap_invD(5) [OF inv(1), of "(a, s)"] e(1) by (auto simp: good_block_def)
    then have "p \<noteq> 0" by (rule place_pos [OF run_alloc.hyps(2) _ e(2)])
    then show ?thesis using e(3) inv(2) run_alloc.hyps(4)
      by (intro exI [of _ "rest_of a s (place align a + heap_room sz - a) @ xs @ ys"] exI [of _ "(a, p, sz, align) # us"]) simp
  qed
next
  case (run_free h live p sz align)
  then obtain fl us where inv: "heap_inv base h fl us" "map snd us = live" by blast
  then have "(p, sz, align) \<in> set (map snd us)" using run_free.hyps by simp
  then obtain as bs where s: "map snd us = as @ (p, sz, align) # bs" "(p, sz, align) \<notin> set as" by (meson split_list_first)
  then obtain us1 a us2 where u: "us = us1 @ (a, p, sz, align) # us2" "as = map snd us1" "bs = map snd us2"
    by (auto simp: map_eq_append_conv)
  have "map snd (us1 @ us2) = remove1 (p, sz, align) live" using s u inv(2) by (auto simp: remove1_append)
  then show ?case using dealloc_correct(1) [OF inv(1) [unfolded u(1)]] by blast
next
  case (run_write h live p sz align i v)
  then obtain fl us where inv: "heap_inv base h fl us" "map snd us = live" by blast
  then obtain a where "(a, p, sz, align) \<in> set us" using run_write.hyps(2) by force
  then show ?case using write_inv [OF inv(1) _ run_write.hyps(3)] inv(2) by blast
qed

lemma live_bytes:
  assumes "heap_inv base h fl us" "q \<in> set (map snd us)"
  obtains u where "u \<in> set us" "bytes_of_alloc q \<subseteq> extent (live_block u)"
proof -
  obtain u where u: "u \<in> set us" "q = snd u" using assms(2) by auto
  show thesis
    using that [OF u(1)] heap_invD(4) [OF assms(1) u(1)] live_in_block(4) [of "h_ram h" "fst u" "fst q" "fst (snd q)" "snd (snd q)" base] u(2)
    by simp
qed

text \<open>Nothing leaks: when no allocation is live the free list accounts for every byte of the heap.\<close>

lemma heap_no_leak:
  assumes "heap_run base h []"
  shows "\<exists>fl. linked (h_ram h) (FREE_HEAD h) fl \<and> sum_list (map snd fl) = unat HEAP_SIZE"
proof -
  obtain fl us where i: "heap_inv base h fl us" "map snd us = []" using run_inv [OF assms] by blast
  then show ?thesis using heap_invD(3,9) [OF i(1)] by (auto simp: HEAP_SIZE_def)
qed


text \<open>Releasing an allocation leaves every other live allocation's bytes alone and makes the memory usable again at once:
  the same request made next is served, with the same pointer.\<close>

theorem heap_free_reuses:
  assumes "heap_run base h live" "(p, sz, align) \<in> set live"
  shows "(\<forall>q \<in> set (remove1 (p, sz, align) live). \<forall>x \<in> bytes_of_alloc q. h_ram (heap_dealloc p h) x = h_ram h x) \<and>
    (\<exists>h'. heap_alloc sz align (heap_dealloc p h) = Some (p, h'))"
proof -
  obtain fl us where inv: "heap_inv base h fl us" "map snd us = live" using run_inv [OF assms(1)] by blast
  then have "(p, sz, align) \<in> set (map snd us)" using assms(2) by simp
  then obtain as bs where s: "map snd us = as @ (p, sz, align) # bs" "(p, sz, align) \<notin> set as" by (meson split_list_first)
  then obtain us1 a us2 where u: "us = us1 @ (a, p, sz, align) # us2" "as = map snd us1" "bs = map snd us2"
    by (auto simp: map_eq_append_conv)
  note d = dealloc_correct [OF inv(1) [unfolded u(1)]]
  let ?b = "live_block (a, p, sz, align)"
  have rm: "remove1 (p, sz, align) live = map snd (us1 @ us2)" using s u inv(2) by (auto simp: remove1_append)
  have keep: "h_ram (heap_dealloc p h) x = h_ram h x" if q: "q \<in> set (map snd (us1 @ us2))" "x \<in> bytes_of_alloc q" for q x
  proof -
    obtain v where v: "v \<in> set (us1 @ us2)" "bytes_of_alloc q \<subseteq> extent (live_block v)"
      using live_bytes [OF d(1) q(1)] by metis
    have "disj ?b (live_block v)" using heap_invD(8) [OF d(1) _ v(1), of ?b] by simp
    from disj_extent [OF this] show ?thesis using d(2) v(2) q(2) by (auto simp: same_off_def)
  qed
  have l: "live_ok (h_ram h) (a, p, sz, align)" using heap_invD(4) [OF inv(1)] u(1) by auto
  then have lo: "layout_ok sz align" "unat p = place align a" by (auto simp: live_ok_def)
  have "a \<le> unat p" using live_in_block(1) [OF l] heap_invD(4) [OF inv(1)] u(1) by force
  then have f: "fits sz align ?b" using lo(2) by (simp add: fits_def live_block_def)
  then obtain a' s xs ys p' h' where e: "?b # fl = xs @ (a', s) # ys" "\<forall>b \<in> set xs. \<not> fits sz align b"
    "heap_alloc sz align (heap_dealloc p h) = Some (p', h')" "unat p' = place align a'"
    using alloc_cases [OF d(1) lo(1)] by (auto split: if_splits)
  have "xs = []" using e(1,2) f by (cases xs) auto
  then have "a' = a" using e(1) by (simp add: live_block_def)
  then have "p' = p" using e(4) lo(2) by (simp add: word_unat_eq_iff)
  then show ?thesis using e(3) keep rm by auto
qed

section \<open>A concrete run\<close>

definition demo_heap :: heap where
  "demo_heap = heap_init 0xffffffff80200000 \<lparr> h_ram = (\<lambda>_. 0), FREE_HEAD = 0, HEAP_READY = False \<rparr>"

definition demo_used :: heap where
  "demo_used = snd (the (heap_alloc 100 64 demo_heap))"

lemma demo_request: "layout_ok 100 64"
  by (simp add: layout_ok_def image_def) (rule bexI [of _ 6]; simp)

lemma demo_run: "heap_run 0xffffffff80200000 demo_heap []"
  unfolding demo_heap_def by (rule heap_run.run_init) (simp add: heap_at_def)

lemma demo_size: "block_size (h_ram demo_heap) 0xffffffff80200000 = 4194304"
  by (simp add: demo_heap_def heap_init_def write_block_def block_size_def HEAP_SIZE_def)

lemma demo_alloc: "heap_alloc 100 64 demo_heap = Some (0xffffffff80200040, demo_used)"
proof -
  have "heap_alloc 100 64 demo_heap = alloc_walk 112 64 0 0xffffffff80200000 demo_heap"
    by (simp add: heap_alloc_def demo_heap_def heap_init_def align_up_def ALIGN_def)
  also have "\<dots> = Some (take_block 112 0 0xffffffff80200000 0xffffffff80200040 176 demo_heap)"
    by (subst alloc_walk.simps) (simp add: demo_size align_up_def payload_def size_of_Block_def size_of_usize_def)
  finally show ?thesis unfolding demo_used_def by (simp add: take_block_def Let_def)
qed

lemma demo_heap_live: "heap_run 0xffffffff80200000 demo_used [(0xffffffff80200040, 100, 64)]"
  by (rule heap_run.run_alloc [OF demo_run demo_request demo_alloc]) simp


theorem heap_free_reuses_witness:
  "heap_run 0xffffffff80200000 demo_used [(0xffffffff80200040, 100, 64)] \<and>
   (\<exists>h'. heap_alloc 100 64 (heap_dealloc 0xffffffff80200040 demo_used) = Some (0xffffffff80200040, h'))"
  using heap_free_reuses [OF demo_heap_live, of "0xffffffff80200040" 100 64] demo_heap_live by simp

end
