(* ===== verification/File_Fat.thy ===== *)
theory File_Fat
  imports Rust_Text "HOL-Library.Monad_Syntax"
begin

text \<open>
  The read-only File Manager, \<^verbatim>\<open>file.rs\<close>: the app bundle format, boot modules, and the FAT32 reader.
  A disk is a function from sector numbers to the 512 bytes that a read returns, \<open>None\<close> for a read that
  fails; the register protocol of the AHCI controller is behind it. The outer \<open>option\<close> of a
  result is a panic or a loop that does not end, the inner one is Rust's \<^verbatim>\<open>Option\<close>.
\<close>

section \<open>The bundle format\<close>

record app_bundle =
  bu_name :: "u8 list"
  bu_message :: "u8 list"

definition bundle_parse :: "u8 list \<Rightarrow> app_bundle option" where
  "bundle_parse contents =
     (if \<not> utf8_ok contents then None else
      case str_lines contents of
        l1 # l2 # l3 # _ \<Rightarrow>
          if l1 \<noteq> bytes_of ''PIPPIN-BUNDLE/1'' then None else
          (case (strip_prefix (bytes_of ''name='') l2, strip_prefix (bytes_of ''message='') l3) of
             (Some nm, Some msg) \<Rightarrow>
               if nm = [] \<or> length nm > 64 \<or> length msg > 256 then None
               else Some \<lparr> bu_name = nm, bu_message = msg \<rparr>
           | _ \<Rightarrow> None)
      | _ \<Rightarrow> None)"

text \<open>\<^verbatim>\<open>pippin_boot_bundle\<close> is the loader's: its answer is an argument.\<close>

definition boot_bundle :: "(u64 \<times> u64) option \<Rightarrow> ram \<Rightarrow> app_bundle option" where
  "boot_bundle answer m =
     (case answer of
        None \<Rightarrow> None
      | Some (address, sz) \<Rightarrow>
          if address = 0 \<or> sz > 4096 then None else bundle_parse (read_bytes m (unat address) (unat sz)))"

section \<open>Sectors\<close>

type_synonym disk = "u64 \<Rightarrow> u8 list option"

definition read_sector :: "disk \<Rightarrow> u64 \<Rightarrow> u8 list option" where
  "read_sector d lba = (if lba \<ge> 2 ^ 48 then None else d lba)"

definition file_le16 :: "u8 list \<Rightarrow> nat \<Rightarrow> u16 option" where
  "file_le16 bytes at = (if at + 2 \<le> length bytes then Some (from_le (take 2 (drop at bytes))) else None)"

definition file_le32 :: "u8 list \<Rightarrow> nat \<Rightarrow> u32 option" where
  "file_le32 bytes at = (if at + 4 \<le> length bytes then Some (from_le (take 4 (drop at bytes))) else None)"

section \<open>The volume\<close>

record fat32 =
  f_reserved :: u32
  fat_size :: u32
  first_data :: u32
  sectors_per_cluster :: u32
  f_root :: u32
  f_clusters :: u32

definition mount_geometry :: "u8 list \<Rightarrow> fat32 option option" where
  "mount_geometry sector = do {
     res \<leftarrow> file_le16 sector 14;
     sz \<leftarrow> file_le32 sector 36;
     total \<leftarrow> file_le32 sector 32;
     rt \<leftarrow> file_le32 sector 44;
     let spc = (ucast (sector ! 13) :: u32);
     let reserved = (ucast res :: u32);
     let fats = (ucast (sector ! 16) :: u32);
     Some (case checked_mul fats sz of
       None \<Rightarrow> None
     | Some fs \<Rightarrow> (case checked_add reserved fs of
         None \<Rightarrow> None
       | Some first \<Rightarrow>
           if spc = 0 \<or> \<not> is_power_of_two spc \<or> spc > 64 \<or> fats = 0 \<or> sz = 0 \<or> first \<ge> total then None
           else let clusters = (total - first) div spc in
             if rt < 2 \<or> rt \<ge> clusters + 2 then None
             else Some \<lparr> f_reserved = reserved, fat_size = sz, first_data = first,
                         sectors_per_cluster = spc, f_root = rt, f_clusters = clusters \<rparr>))
   }"

definition mount :: "disk \<Rightarrow> fat32 option option" where
  "mount d =
     (case read_sector d 0 of
        None \<Rightarrow> Some None
      | Some sector \<Rightarrow>
          if drop 510 sector \<noteq> [0x55, 0xaa] then Some None
          else do {
            bps \<leftarrow> file_le16 sector 11;
            entries \<leftarrow> file_le16 sector 17;
            if bps \<noteq> 512 \<or> entries \<noteq> 0 then Some None else mount_geometry sector
          })"

definition first_sector :: "fat32 \<Rightarrow> u32 \<Rightarrow> u64 option" where
  "first_sector f cluster =
     (if cluster < 2 \<or> cluster \<ge> f_clusters f + 2 then None
      else Some (ucast (first_data f + (cluster - 2) * sectors_per_cluster f)))"

definition fat_next :: "fat32 \<Rightarrow> disk \<Rightarrow> u32 \<Rightarrow> u32 option option" where
  "fat_next f d cluster =
     (case checked_mul cluster 4 of
        None \<Rightarrow> Some None
      | Some byte \<Rightarrow>
          if byte div 512 \<ge> fat_size f then Some None
          else case read_sector d (ucast (f_reserved f + byte div 512)) of
            None \<Rightarrow> Some None
          | Some sector \<Rightarrow> do {
              w \<leftarrow> file_le32 sector (unat (byte mod 512));
              let nxt = w AND 0x0fffffff;
              Some (if nxt \<ge> 0x0ffffff8 then None else Some nxt)
            })"

section \<open>Finding the directory entry\<close>

datatype scan = Stop | Hit u32 usize | Miss

fun chunks_exact :: "nat \<Rightarrow> 'a list \<Rightarrow> 'a list list" where
  "chunks_exact n xs = (if n = 0 \<or> length xs < n then [] else take n xs # chunks_exact n (drop n xs))"

declare chunks_exact.simps [simp del]

definition HELLO_PIP :: "u8 list" where
  "HELLO_PIP = bytes_of ''HELLO   PIP''"

fun scan_rows :: "u8 list list \<Rightarrow> scan option" where
  "scan_rows [] = Some Miss"
| "scan_rows (row # rows) =
     (if row ! 0 = 0 then Some Stop
      else if row ! 0 = 0xe5 \<or> row ! 11 = 0x0f \<or> row ! 11 AND 0x18 \<noteq> 0 then scan_rows rows
      else if take 11 row = HELLO_PIP then do {
        hi \<leftarrow> file_le16 row 20;
        lo \<leftarrow> file_le16 row 26;
        sz \<leftarrow> file_le32 row 28;
        Some (Hit (push_bit 16 (ucast hi) OR ucast lo) (unat sz))
      }
      else scan_rows rows)"

fun scan_sectors :: "disk \<Rightarrow> u64 \<Rightarrow> nat list \<Rightarrow> scan option" where
  "scan_sectors d first [] = Some Miss"
| "scan_sectors d first (i # is) =
     (case read_sector d (first + of_nat i) of
        None \<Rightarrow> Some Stop
      | Some sector \<Rightarrow> do {
          r \<leftarrow> scan_rows (chunks_exact 32 sector);
          (case r of Miss \<Rightarrow> scan_sectors d first is | _ \<Rightarrow> Some r)
        })"

fun scan_root :: "disk \<Rightarrow> fat32 \<Rightarrow> nat \<Rightarrow> u32 \<Rightarrow> scan option" where
  "scan_root d f 0 cluster = Some Miss"
| "scan_root d f (Suc n) cluster =
     (case first_sector f cluster of
        None \<Rightarrow> Some Stop
      | Some first \<Rightarrow> do {
          r \<leftarrow> scan_sectors d first [0..<unat (sectors_per_cluster f)];
          (case r of
             Miss \<Rightarrow> do { c \<leftarrow> fat_next f d cluster; (case c of None \<Rightarrow> Some Stop | Some c \<Rightarrow> scan_root d f n c) }
           | _ \<Rightarrow> Some r)
        })"

section \<open>Copying the file\<close>

text \<open>The flag tells whether the reads succeeded; the static buffer \<^verbatim>\<open>FAT_BUNDLE\<close> is threaded through.\<close>

definition copy_into :: "u8 list \<Rightarrow> usize \<Rightarrow> u8 list \<Rightarrow> u8 list option" where
  "copy_into buf at bs =
     (if at + length bs \<le> length buf then Some (take at buf @ bs @ drop (at + length bs) buf) else None)"

fun copy_sectors :: "disk \<Rightarrow> u64 \<Rightarrow> usize \<Rightarrow> nat list \<Rightarrow> usize \<times> u8 list \<Rightarrow> (bool \<times> usize \<times> u8 list) option" where
  "copy_sectors d first sz [] (copied, buf) = Some (True, copied, buf)"
| "copy_sectors d first sz (i # is) (copied, buf) =
     (case read_sector d (first + of_nat i) of
        None \<Rightarrow> Some (False, copied, buf)
      | Some sector \<Rightarrow> do {
          let amount = min 512 (sz - copied);
          buf \<leftarrow> copy_into buf copied (take amount sector);
          (if copied + amount = sz then Some (True, copied + amount, buf)
           else copy_sectors d first sz is (copied + amount, buf))
        })"

partial_function (option) copy_file ::
  "disk \<Rightarrow> fat32 \<Rightarrow> usize \<Rightarrow> u32 \<Rightarrow> usize \<Rightarrow> u8 list \<Rightarrow> (bool \<times> u8 list) option" where
  "copy_file d f sz cluster copied buf =
     (if copied < sz then
        (case first_sector f cluster of
           None \<Rightarrow> Some (False, buf)
         | Some first \<Rightarrow>
             Option.bind (copy_sectors d first sz [0..<unat (sectors_per_cluster f)] (copied, buf)) (\<lambda>r.
               if fst r then
                 (if fst (snd r) < sz then
                    Option.bind (fat_next f d cluster) (\<lambda>c.
                      case c of
                        None \<Rightarrow> Some (False, snd (snd r))
                      | Some c \<Rightarrow> copy_file d f sz c (fst (snd r)) (snd (snd r)))
                  else copy_file d f sz cluster (fst (snd r)) (snd (snd r)))
               else Some (False, snd (snd r))))
      else Some (True, buf))"

definition fat_bundle :: "disk \<Rightarrow> u8 list \<Rightarrow> (app_bundle option \<times> u8 list) option" where
  "fat_bundle d buf = do {
     m \<leftarrow> mount d;
     (case m of
        None \<Rightarrow> Some (None, buf)
      | Some f \<Rightarrow> do {
          r \<leftarrow> scan_root d f 16 (f_root f);
          (case r of
             Hit start sz \<Rightarrow>
               if sz = 0 \<or> sz > 4096 then Some (None, buf)
               else do {
                 c \<leftarrow> copy_file d f sz start 0 buf;
                 (case c of
                    (True, buf) \<Rightarrow> Some (bundle_parse (take sz buf), buf)
                  | (False, buf) \<Rightarrow> Some (None, buf))
               }
           | _ \<Rightarrow> Some (None, buf))
        })
   }"

section \<open>Every read succeeds or is handled\<close>

text \<open>A sector is an array of 512 bytes.\<close>

definition disk_ok :: "disk \<Rightarrow> bool" where
  "disk_ok d \<longleftrightarrow> (\<forall>l s. d l = Some s \<longrightarrow> length s = 512)"

lemma read_sector_length: "disk_ok d \<Longrightarrow> read_sector d l = Some s \<Longrightarrow> length s = 512"
  by (auto simp: read_sector_def disk_ok_def split: if_splits)

lemma file_le_total: "at + 2 \<le> length bs \<Longrightarrow> \<exists>r. file_le16 bs at = Some r" "at + 4 \<le> length bs \<Longrightarrow> \<exists>r. file_le32 bs at = Some r"
  by (simp_all add: file_le16_def file_le32_def)

lemma mount_total:
  assumes "disk_ok d"
  shows "\<exists>r. mount d = Some r"
proof (cases "read_sector d 0")
  case (Some s)
  have l: "length s = 512" using read_sector_length [OF assms Some] .
  obtain a b c e g h where "file_le16 s 11 = Some a" "file_le16 s 17 = Some b" "file_le16 s 14 = Some c"
    "file_le32 s 36 = Some e" "file_le32 s 32 = Some g" "file_le32 s 44 = Some h"
    using file_le_total [of _ s] l by (simp add: file_le16_def file_le32_def)
  then show ?thesis using Some by (simp add: mount_def mount_geometry_def Let_def)
qed (simp add: mount_def)

lemma fat_next_total:
  assumes "disk_ok d"
  shows "\<exists>r. fat_next f d c = Some r"
proof (cases "checked_mul c 4")
  case (Some b)
  have "unat b = unat c * 4" using unat_checked_mul [OF Some] by simp
  then have "unat (b mod 512) = 4 * (unat c mod 128)"
    using mult_mod_right [of 4 "unat c" 128] by (simp add: unat_mod_distrib mult.commute)
  then have le: "unat (b mod 512) + 4 \<le> 512" by simp
  show ?thesis
  proof (cases "read_sector d (ucast (f_reserved f + b div 512))")
    case (Some s)
    then obtain w where "file_le32 s (unat (b mod 512)) = Some w"
      using le read_sector_length [OF assms Some] file_le_total(2) by metis
    then show ?thesis using Some \<open>checked_mul c 4 = Some b\<close> by (simp add: fat_next_def Let_def)
  qed (simp add: fat_next_def Some)
qed (simp add: fat_next_def)

lemma chunks_length: "r \<in> set (chunks_exact n xs) \<Longrightarrow> length r = n"
proof (induction n xs rule: chunks_exact.induct)
  case (1 n xs)
  then show ?case by (subst (asm) (2) chunks_exact.simps) (auto split: if_splits)
qed

lemma scan_rows_total: "\<forall>r \<in> set rows. length r = 32 \<Longrightarrow> \<exists>r. scan_rows rows = Some r"
  by (induction rows) (auto simp: file_le16_def file_le32_def)

lemma scan_sectors_total: "\<exists>r. scan_sectors d first is = Some r"
proof (induction "is")
  case (Cons i "is")
  show ?case
  proof (cases "read_sector d (first + of_nat i)")
    case (Some s)
    obtain r where "scan_rows (chunks_exact 32 s) = Some r" using scan_rows_total chunks_length by metis
    then show ?thesis using Some Cons by (cases r) simp_all
  qed simp
qed simp

lemma scan_root_total:
  assumes "disk_ok d"
  shows "\<exists>r. scan_root d f n c = Some r"
proof (induction n arbitrary: c)
  case (Suc n)
  show ?case
  proof (cases "first_sector f c")
    case (Some first)
    obtain r where r: "scan_sectors d first [0..<unat (sectors_per_cluster f)] = Some r" using scan_sectors_total by blast
    obtain nx where n: "fat_next f d c = Some nx" using fat_next_total [OF assms] by blast
    show ?thesis using Some r n Suc by (cases r) (auto split: option.splits)
  qed simp
qed simp

section \<open>What copying copies\<close>

text \<open>The reference: sector \<open>i\<close> of the file that starts at a cluster, by following the chain.\<close>

function file_sector :: "disk \<Rightarrow> fat32 \<Rightarrow> u32 \<Rightarrow> nat \<Rightarrow> u64 option" where
  "file_sector d f c i =
     (if sectors_per_cluster f = 0 then None
      else if i < unat (sectors_per_cluster f) then map_option (\<lambda>first. first + of_nat i) (first_sector f c)
      else if first_sector f c = None then None
      else case fat_next f d c of Some (Some c') \<Rightarrow> file_sector d f c' (i - unat (sectors_per_cluster f)) | _ \<Rightarrow> None)"
  by pat_completeness auto
termination
proof (relation "measure (\<lambda>(d, f, c, i). i)")
  fix d f c i x2 x2a
  assume a: "sectors_per_cluster f \<noteq> 0" "\<not> i < unat (sectors_per_cluster f)"
  have "0 < unat (sectors_per_cluster f)" using a(1) by (simp add: unat_gt_0)
  then show "((d, f, x2a, i - unat (sectors_per_cluster f)), d, f, c, i) \<in> measure (\<lambda>(d, f, c, i). i)"
    using a(2) by simp
qed simp

declare file_sector.simps [simp del]

definition file_read :: "disk \<Rightarrow> fat32 \<Rightarrow> u32 \<Rightarrow> nat \<Rightarrow> u8 list option" where
  "file_read d f c i = Option.bind (file_sector d f c i) (read_sector d)"

definition sectors_for :: "nat \<Rightarrow> nat" where
  "sectors_for n = (n + 511) div 512"

definition file_data :: "disk \<Rightarrow> fat32 \<Rightarrow> u32 \<Rightarrow> nat \<Rightarrow> u8 list option" where
  "file_data d f c n = map_option (\<lambda>ss. take n (concat ss)) (those (map (file_read d f c) [0..<sectors_for n]))"

lemma those_map_Cons: "those (map g (x # xs)) = (case g x of None \<Rightarrow> None | Some y \<Rightarrow> map_option ((#) y) (those (map g xs)))"
  by (simp split: option.splits)

lemma those_map_append:
  "those (map g (xs @ ys)) = (case those (map g xs) of None \<Rightarrow> None | Some as \<Rightarrow> map_option ((@) as) (those (map g ys)))"
proof (induction xs)
  case (Cons x xs)
  then show ?case by (cases "g x"; cases "those (map g xs)"; cases "those (map g ys)") simp_all
qed (simp add: option.map_ident_strong split: option.splits)

lemma those_length: "those xs = Some ys \<Longrightarrow> length ys = length xs"
  by (induction xs arbitrary: ys) (auto split: option.splits)

lemma those_mem: "those (map g xs) = Some ys \<Longrightarrow> \<forall>y \<in> set ys. \<exists>x \<in> set xs. g x = Some y"
  by (induction xs arbitrary: ys) (fastforce split: option.splits)+

lemma length_concat_512: "\<forall>s \<in> set ss. length s = 512 \<Longrightarrow> length (concat ss) = 512 * length ss"
  by (induction ss) auto

lemma sectors_for_bounds: "n \<le> 512 * sectors_for n" "512 * sectors_for n < n + 512"
proof -
  have "n + 511 = 512 * sectors_for n + (n + 511) mod 512" "(n + 511) mod 512 < 512"
    by (simp_all add: sectors_for_def)
  then show "n \<le> 512 * sectors_for n" "512 * sectors_for n < n + 512" by linarith+
qed

lemma sectors_for_unique:
  assumes "n \<le> 512 * q" "512 * q < n + 512"
  shows "sectors_for n = q"
proof -
  have "512 * sectors_for n < 512 * Suc q" "512 * q < 512 * Suc (sectors_for n)"
    using assms sectors_for_bounds [of n] unfolding mult_Suc_right by linarith+
  then show ?thesis by simp
qed

lemma sectors_for_step: "0 < n \<Longrightarrow> sectors_for n = Suc (sectors_for (n - 512))"
proof (rule sectors_for_unique)
  assume "0 < n"
  note b = sectors_for_bounds [of "n - 512"]
  show "n \<le> 512 * Suc (sectors_for (n - 512))" using b(1) unfolding mult_Suc_right by linarith
  show "512 * Suc (sectors_for (n - 512)) < n + 512"
  proof (cases "n \<le> 512")
    case True
    then have "sectors_for (n - 512) = 0" by (simp add: sectors_for_def)
    then show ?thesis using \<open>0 < n\<close> by simp
  next
    case False
    then show ?thesis using b(2) unfolding mult_Suc_right by linarith
  qed
qed

lemma sectors_for_diff: "512 * k \<le> n \<Longrightarrow> sectors_for (n - 512 * k) + k = sectors_for n"
  using sectors_for_bounds [of "n - 512 * k"] by (intro sectors_for_unique [symmetric]) (simp_all add: algebra_simps)

lemma sectors_for_le: "n \<le> 512 * k \<longleftrightarrow> sectors_for n \<le> k"
proof
  assume "n \<le> 512 * k"
  then have "512 * sectors_for n < 512 * Suc k" using sectors_for_bounds(2) [of n] unfolding mult_Suc_right by linarith
  then show "sectors_for n \<le> k" by simp
next
  assume "sectors_for n \<le> k"
  then have "512 * sectors_for n \<le> 512 * k" by simp
  then show "n \<le> 512 * k" using sectors_for_bounds(1) [of n] by linarith
qed

text \<open>One cluster: as many sectors as are still needed, or as the cluster has.\<close>

lemma copy_sectors_spec:
  assumes "disk_ok d" "copied < sz" "sz \<le> length buf"
  shows "case those (map (\<lambda>i. read_sector d (first + of_nat i)) (take (sectors_for (sz - copied)) is)) of
      None \<Rightarrow> \<exists>co bu. copy_sectors d first sz is (copied, buf) = Some (False, co, bu) \<and> length bu = length buf
    | Some ss \<Rightarrow> (let end = min sz (copied + 512 * length is) in
        copy_sectors d first sz is (copied, buf) =
          Some (True, end, take copied buf @ take (end - copied) (concat ss) @ drop end buf))"
  using assms(2,3)
proof (induction "is" arbitrary: copied buf)
  case Nil
  then show ?case by simp
next
  case (Cons i "is")
  note sf = sectors_for_step [of "sz - copied"]
  show ?case
  proof (cases "read_sector d (first + of_nat i)")
    case None
    then show ?thesis using Cons.prems sf by simp
  next
    case (Some s)
    have l: "length s = 512" by (rule read_sector_length [OF assms(1) Some])
    define am where "am = min 512 (sz - copied)"
    define b1 where "b1 = take copied buf @ take am s @ drop (copied + am) buf"
    have ci: "copy_into buf copied (take am s) = Some b1"
      using Cons.prems l by (simp add: copy_into_def b1_def am_def)
    have lb: "length b1 = length buf" using Cons.prems l by (auto simp: b1_def am_def)
    show ?thesis
    proof (cases "copied + am = sz")
      case True
      have n: "sectors_for (sz - copied) = 1" using Cons.prems True by (simp add: am_def sectors_for_def)
      have m: "min sz (copied + (512 + 512 * length is)) = sz" using True by (simp add: am_def min_def split: if_splits)
      have "am = sz - copied" using True Cons.prems by simp
      then show ?thesis using Some ci True n m by (simp add: am_def [symmetric] b1_def Let_def)
    next
      case False
      then have am: "am = 512" "copied + 512 < sz" using Cons.prems by (auto simp: am_def min_def split: if_splits)
      have st: "copy_sectors d first sz (i # is) (copied, buf) = copy_sectors d first sz is (copied + 512, b1)"
        using Some ci False am by (simp add: am_def [symmetric])
      have sf': "sectors_for (sz - copied) = Suc (sectors_for (sz - (copied + 512)))" using sf Cons.prems by simp
      let ?R = "those (map (\<lambda>i. read_sector d (first + of_nat i)) (take (sectors_for (sz - (copied + 512))) is))"
      note ih = Cons.IH [OF am(2), of b1, unfolded lb, OF Cons.prems(2)]
      have tk: "take (copied + 512) b1 = take copied buf @ s" and dr: "drop e b1 = drop e buf" if "copied + 512 \<le> e" for e
        using Cons.prems l am that by (auto simp: b1_def)
      show ?thesis
      proof (cases ?R)
        case None
        then show ?thesis using ih st sf' Some lb by simp
      next
        case (Some ss)
        let ?e = "min sz (copied + 512 + 512 * length is)"
        have e: "copied + 512 \<le> ?e" using am by simp
        have "take (?e - copied) (s @ concat ss) = s @ take (?e - (copied + 512)) (concat ss)" using l e by simp
        then show ?thesis
          using ih st sf' Some \<open>read_sector d (first + of_nat i) = Some s\<close> tk [OF e] dr [OF e]
          by (simp add: Let_def add.assoc)
      qed
    qed
  qed
qed

lemma file_read_first:
  "sectors_per_cluster f \<noteq> 0 \<Longrightarrow> first_sector f c = Some first \<Longrightarrow> i < unat (sectors_per_cluster f) \<Longrightarrow>
    file_read d f c i = read_sector d (first + of_nat i)"
  by (simp add: file_read_def file_sector.simps [of d f c])

lemma file_read_stop: "first_sector f c = None \<Longrightarrow> file_read d f c i = None"
  by (simp add: file_read_def file_sector.simps [of d f c])

lemma file_read_next:
  assumes "sectors_per_cluster f \<noteq> 0" "first_sector f c = Some first" "fat_next f d c = Some nx"
  shows "file_read d f c (unat (sectors_per_cluster f) + i) = (case nx of None \<Rightarrow> None | Some c' \<Rightarrow> file_read d f c' i)"
  using assms by (cases nx) (simp_all add: file_read_def file_sector.simps [of d f c])

lemma map_upt_split: "S \<le> k \<Longrightarrow> map g [0..<k] = map g [0..<S] @ map (\<lambda>i. g (S + i)) [0..<k - S]"
  by (rule nth_equalityI) (auto simp: nth_append)

lemma those_map_None: "(\<And>x. x \<in> set xs \<Longrightarrow> g x = None) \<Longrightarrow> xs \<noteq> [] \<Longrightarrow> those (map g xs) = None"
  by (cases xs) auto

lemma copy_file_done [simp]: "\<not> copied < sz \<Longrightarrow> copy_file d f sz c copied buf = Some (True, buf)"
  by (simp add: copy_file.simps)

lemma copy_file_spec:
  assumes d: "disk_ok d" and spc: "sectors_per_cluster f \<noteq> 0" and "copied < sz" "sz \<le> length buf"
  shows "case file_data d f c (sz - copied) of
      None \<Rightarrow> \<exists>bu. copy_file d f sz c copied buf = Some (False, bu) \<and> length bu = length buf
    | Some data \<Rightarrow> copy_file d f sz c copied buf = Some (True, take copied buf @ data @ drop sz buf)"
  using assms(3,4)
proof (induction "sz - copied" arbitrary: copied buf c rule: less_induct)
  case less
  let ?S = "unat (sectors_per_cluster f)" and ?k = "sectors_for (sz - copied)"
  have S: "0 < ?S" using spc by (simp add: unat_gt_0)
  have k: "?k = Suc (sectors_for (sz - copied - 512))" using less.prems by (intro sectors_for_step) simp
  show ?case
  proof (cases "first_sector f c")
    case None
    have "those (map (file_read d f c) [0..<?k]) = None"
      using file_read_stop [OF None] k by (intro those_map_None) auto
    then show ?thesis using None less.prems by (subst copy_file.simps) (simp add: file_data_def copy_file.simps)
  next
    case (Some first)
    let ?rd = "\<lambda>i. read_sector d (first + of_nat i)"
    note cs = copy_sectors_spec [OF d less.prems, of first "[0..<?S]"]
    have front: "map (file_read d f c) [0..<j] = map ?rd [0..<j]" if "j \<le> ?S" for j
      using that file_read_first [OF spc Some] by simp
    show ?thesis
    proof (cases "?k \<le> ?S")
      case True
      have fin: "min sz (copied + 512 * ?S) = sz" using True sectors_for_le [of "sz - copied" ?S] by simp
      have tk: "take ?k [0..<?S] = [0..<?k]" using True by simp
      have fd: "file_data d f c (sz - copied) = map_option (\<lambda>ss. take (sz - copied) (concat ss)) (those (map ?rd [0..<?k]))"
        unfolding file_data_def front [OF True] ..
      show ?thesis
      proof (cases "those (map ?rd [0..<?k])")
        case None
        then obtain co bu where "copy_sectors d first sz [0..<?S] (copied, buf) = Some (False, co, bu)" "length bu = length buf"
          using cs unfolding tk by auto
        then show ?thesis using None Some less.prems by (simp add: fd copy_file.simps [of d f sz c copied])
      next
        case (Some ss)
        then show ?thesis using cs less.prems \<open>first_sector f c = Some first\<close>
          unfolding tk by (simp add: fd copy_file.simps [of d f sz c copied] fin Let_def)
      qed
    next
      case False
      let ?e = "copied + 512 * ?S"
      have lt: "?e < sz" using False sectors_for_le [of "sz - copied" ?S] by simp
      have fin: "min sz ?e = ?e" using lt by simp
      have tk: "take ?k [0..<?S] = [0..<?S]" using False by simp
      have dec: "sz - ?e < sz - copied" using S lt by simp
      have k': "?k - ?S = sectors_for (sz - ?e)"
        using sectors_for_diff [of ?S "sz - copied"] lt by (fastforce simp: diff_diff_eq)
      obtain nx where nx: "fat_next f d c = Some nx" using fat_next_total [OF d] by blast
      have split: "map (file_read d f c) [0..<?k] =
          map ?rd [0..<?S] @ map (\<lambda>i. case nx of None \<Rightarrow> None | Some c' \<Rightarrow> file_read d f c' i) [0..<sectors_for (sz - ?e)]"
        using map_upt_split [of ?S ?k "file_read d f c"] front [of ?S] file_read_next [OF spc Some nx] k' False by simp
      show ?thesis
      proof (cases "those (map ?rd [0..<?S])")
        case None
        then obtain co bu where "copy_sectors d first sz [0..<?S] (copied, buf) = Some (False, co, bu)" "length bu = length buf"
          using cs unfolding tk by auto
        then show ?thesis using None Some less.prems those_map_append [of "\<lambda>x. x"]
          by (simp add: file_data_def split copy_file.simps [of d f sz c copied] those_map_append [of "\<lambda>x. x", simplified])
      next
        case ss: (Some ss)
        define b1 where "b1 = take copied buf @ take (512 * ?S) (concat ss) @ drop ?e buf"
        have c1: "copy_sectors d first sz [0..<?S] (copied, buf) = Some (True, ?e, b1)"
          using cs ss unfolding tk by (simp add: fin Let_def b1_def)
        have "\<forall>s \<in> set ss. length s = 512" using those_mem [OF ss] read_sector_length [OF d] by blast
        then have "length (concat ss) = 512 * length ss" by (rule length_concat_512)
        then have lc: "length (concat ss) = 512 * ?S" using those_length [OF ss] by simp
        have lb: "length b1 = length buf" using lt less.prems lc by (simp add: b1_def)
        have tb: "take ?e b1 = take copied buf @ concat ss" "drop sz b1 = drop sz buf"
          using lt less.prems lc by (auto simp: b1_def)
        show ?thesis
        proof (cases nx)
          case None
          have "sectors_for (sz - ?e) \<noteq> 0" using sectors_for_step [of "sz - ?e"] lt by simp
          then have "those (map (\<lambda>i. None) [0..<sectors_for (sz - ?e)] :: u8 list option list) = None"
            by (intro those_map_None) auto
          then show ?thesis using None nx c1 Some less.prems lt lb ss
            by (simp add: file_data_def split copy_file.simps [of d f sz c copied] those_map_append [of "\<lambda>x. x", simplified])
        next
          case (Some c')
          note ih = less.hyps [OF dec lt, of b1 c', unfolded lb, OF less.prems(2)]
          have st: "copy_file d f sz c copied buf = copy_file d f sz c' ?e b1"
            using less.prems \<open>first_sector f c = Some first\<close> c1 lt nx Some by (simp add: copy_file.simps [of d f sz c copied])
          have fd: "file_data d f c (sz - copied) = map_option ((@) (concat ss)) (file_data d f c' (sz - ?e))"
            using lc lt by (cases "those (map (file_read d f c') [0..<sectors_for (sz - ?e)])")
              (simp_all add: file_data_def split Some ss those_map_append [of "\<lambda>x. x", simplified])
          show ?thesis using ih unfolding st fd by (cases "file_data d f c' (sz - ?e)") (simp_all add: tb lb)
        qed
      qed
    qed
  qed
qed

section \<open>The volume's bounds\<close>

definition volume_sectors :: "disk \<Rightarrow> nat" where
  "volume_sectors d = (case d 0 of None \<Rightarrow> 0 | Some s \<Rightarrow> unat (from_le (take 4 (drop 32 s)) :: u32))"

definition within :: "fat32 \<Rightarrow> nat \<Rightarrow> bool" where
  "within f vol \<longleftrightarrow> sectors_per_cluster f \<noteq> 0 \<and> unat (f_clusters f) + 2 < 2 ^ 32 \<and>
     unat (f_reserved f) + unat (fat_size f) \<le> unat (first_data f) \<and>
     unat (first_data f) + unat (f_clusters f) * unat (sectors_per_cluster f) \<le> vol \<and> vol < 2 ^ 32"

lemma plus_two_wraps:
  fixes x :: u32
  assumes "2 ^ 32 \<le> unat x + 2"
  shows "unat (x + 2) < 2"
proof -
  have l: "unat x < 2 ^ 32" using unsigned_less [of x, where 'a = nat] by simp
  have "unat (x + 2) = (unat x + 2) mod 2 ^ 32" by (simp add: unat_word_ariths)
  also have "\<dots> = unat x + 2 - 2 ^ 32" using assms l by (simp only: le_mod_geq) simp
  also have "\<dots> < 2" using l by simp
  finally show ?thesis .
qed

lemma geometry_within:
  assumes "mount_geometry s = Some (Some f)"
  shows "within f (unat (from_le (take 4 (drop 32 s)) :: u32))"
proof -
  obtain res where e1: "file_le16 s 14 = Some res"
    using assms by (cases "file_le16 s 14") (simp_all add: mount_geometry_def)
  obtain sz where e2: "file_le32 s 36 = Some sz"
    using assms e1 by (cases "file_le32 s 36") (simp_all add: mount_geometry_def)
  obtain vol where tot: "file_le32 s 32 = Some vol"
    using assms e1 e2 by (cases "file_le32 s 32") (simp_all add: mount_geometry_def)
  obtain rt where e3: "file_le32 s 44 = Some rt"
    using assms e1 e2 tot by (cases "file_le32 s 44") (simp_all add: mount_geometry_def)
  have vol: "vol = from_le (take 4 (drop 32 s))" using tot by (simp add: file_le32_def split: if_splits)
  obtain fs where e4: "checked_mul (ucast (s ! 16)) sz = Some fs"
    using assms e1 e2 e3 tot by (cases "checked_mul (ucast (s ! 16)) sz") (simp_all add: mount_geometry_def Let_def)
  obtain first where e5: "checked_add (ucast res) fs = Some first"
    using assms e1 e2 e3 e4 tot by (cases "checked_add (ucast res) fs") (simp_all add: mount_geometry_def Let_def)
  note e = e1 e2 e3 e4 e5
  let ?spc = "ucast (s ! 13) :: u32" and ?fats = "ucast (s ! 16) :: u32"
  let ?rec = "\<lparr> f_reserved = ucast res, fat_size = sz, first_data = first,
                  sectors_per_cluster = ?spc, f_root = rt, f_clusters = (vol - first) div ?spc \<rparr>"
  have x: "(if ?spc = 0 \<or> \<not> is_power_of_two ?spc \<or> ?spc > 64 \<or> ?fats = 0 \<or> sz = 0 \<or> first \<ge> vol then None
      else if rt < 2 \<or> rt \<ge> (vol - first) div ?spc + 2 then None else Some ?rec) = Some f"
    using assms unfolding mount_geometry_def e tot Let_def bind.bind_lunit option.case option.inject .
  have g1: "\<not> (?spc = 0 \<or> \<not> is_power_of_two ?spc \<or> ?spc > 64 \<or> ?fats = 0 \<or> sz = 0 \<or> first \<ge> vol)"
    using x by (rule contrapos_pn) (simp only: if_True option.distinct not_False_eq_True)
  have g2: "\<not> (rt < 2 \<or> rt \<ge> (vol - first) div ?spc + 2)"
    using x unfolding if_not_P [OF g1] by (rule contrapos_pn) (simp only: if_True option.distinct not_False_eq_True)
  have f: "f = ?rec" using x unfolding if_not_P [OF g1] if_not_P [OF g2] by (simp only: option.inject)
  have g: "?spc \<noteq> 0" "?fats \<noteq> 0" "first < vol" "rt \<ge> 2" "rt < (vol - first) div ?spc + 2"
    using g1 g2 unfolding not_le [symmetric] by blast+
  let ?cl = "(vol - first) div ?spc"
  have cl: "unat ?cl * unat ?spc \<le> unat vol - unat first"
    using unat_sub [OF less_imp_le [OF g(3)]] by (simp add: unat_div)
  have fs: "unat fs = unat ?fats * unat sz" "unat first = unat (ucast res :: u32) + unat fs"
    using unat_checked_mul [OF e(4)] unat_checked_add [OF e(5)] by simp_all
  have "1 \<le> unat ?fats" using g(2) by (simp add: Suc_le_eq unat_gt_0)
  then have sz: "unat sz \<le> unat fs" unfolding fs by simp
  have u: "unat x < 2 ^ 32" for x :: u32 using unsigned_less [of x, where 'a = nat] by simp
  note l = u [of vol] u [of ?cl]
  have "\<not> unat ?cl + 2 \<ge> 2 ^ 32"
  proof
    assume "unat ?cl + 2 \<ge> 2 ^ 32"
    then have "unat (?cl + 2) < 2" by (rule plus_two_wraps)
    then show False using g(4,5) by (simp add: word_less_nat_alt word_le_nat_alt)
  qed
  then show ?thesis using g(1,3) cl fs(2) sz l(1) vol by (simp add: f within_def word_less_nat_alt)
qed

lemma mount_within: "mount d = Some (Some f) \<Longrightarrow> within f (volume_sectors d)"
  by (auto simp: mount_def read_sector_def volume_sectors_def geometry_within split: option.splits if_splits bind_splits)

lemma first_sector_bound:
  assumes "within f vol" "first_sector f c = Some l" "i < unat (sectors_per_cluster f)"
  shows "unat (l + of_nat i) < vol"
proof -
  let ?S = "unat (sectors_per_cluster f)"
  have w: "unat (f_clusters f) + 2 < 2 ^ 32" "unat (first_data f) + unat (f_clusters f) * ?S \<le> vol" "vol < 2 ^ 32"
    using assms(1) by (auto simp: within_def)
  have c: "2 \<le> unat c" "unat c < unat (f_clusters f) + 2" and l: "l = ucast (first_data f + (c - 2) * sectors_per_cluster f)"
    using assms(2) w(1) by (auto simp: first_sector_def not_le word_less_nat_alt unat_word_ariths split: if_splits)
  have m: "unat (c - 2) = unat c - 2" using c(1) by (simp add: unat_sub word_le_nat_alt)
  have "(unat c - 2 + 1) * ?S \<le> unat (f_clusters f) * ?S" using c by (intro mult_le_mono1) linarith
  then have b: "(unat c - 2) * ?S + ?S \<le> unat (f_clusters f) * ?S" by simp
  then have "unat (first_data f + (c - 2) * sectors_per_cluster f) = unat (first_data f) + (unat c - 2) * ?S"
    using w m by (simp add: unat_word_ariths)
  then have "unat l = unat (first_data f) + (unat c - 2) * ?S" using w b unfolding l by (simp add: unsigned_ucast_eq take_bit_nat_eq_self)
  then show ?thesis using b w assms(3) by (simp add: unat_word_ariths unat_of_nat)
qed

definition agree :: "disk \<Rightarrow> disk \<Rightarrow> nat \<Rightarrow> bool" where
  "agree d d' vol \<longleftrightarrow> (\<forall>l. unat l < vol \<longrightarrow> d' l = d l)"

lemma agree_read: "agree d d' vol \<Longrightarrow> unat l < vol \<Longrightarrow> read_sector d' l = read_sector d l"
  by (simp add: agree_def read_sector_def)

lemma fat_next_agree:
  assumes "within f vol" "agree d d' vol"
  shows "fat_next f d' c = fat_next f d c"
proof -
  have "read_sector d' (ucast (f_reserved f + b div 512)) = read_sector d (ucast (f_reserved f + b div 512))"
    if "\<not> b div 512 \<ge> fat_size f" for b :: u32
  proof (rule agree_read [OF assms(2)])
    have "unat (b div 512) < unat (fat_size f)" using that by (simp add: word_le_nat_alt)
    then have "unat (f_reserved f) + unat (b div 512) < vol" "vol < 2 ^ 32" using assms(1) by (auto simp: within_def)
    then show "unat (ucast (f_reserved f + b div 512) :: u64) < vol" by (simp add: unat_word_ariths unsigned_ucast_eq take_bit_nat_eq_self)
  qed
  then show ?thesis by (simp add: fat_next_def split: option.splits)
qed

lemma file_sector_bound:
  assumes "within f vol" "file_sector d f c i = Some l"
  shows "unat l < vol"
  using assms
proof (induction d f c i rule: file_sector.induct)
  case (1 d f c i)
  show ?case
  proof (cases "i < unat (sectors_per_cluster f)")
    case True
    then show ?thesis using 1 by (subst (asm) file_sector.simps) (auto split: if_splits intro: first_sector_bound)
  next
    case False
    then obtain c' where "fat_next f d c = Some (Some c')" "first_sector f c \<noteq> None" "sectors_per_cluster f \<noteq> 0"
      "file_sector d f c' (i - unat (sectors_per_cluster f)) = Some l"
      using "1.prems" by (subst (asm) file_sector.simps) (auto split: if_splits option.splits)
    then show ?thesis using "1.IH" "1.prems" False by blast
  qed
qed

lemma file_sector_agree:
  assumes "within f vol" "agree d d' vol"
  shows "file_sector d' f c i = file_sector d f c i"
proof (induction "i" arbitrary: c rule: less_induct)
  case (less i)
  have "0 < unat (sectors_per_cluster f)" using assms(1) by (simp add: within_def unat_gt_0)
  then show ?case using less
    by (simp add: file_sector.simps [of _ f c] fat_next_agree [OF assms] split: option.splits)
qed

lemma file_data_agree:
  assumes "within f vol" "agree d d' vol"
  shows "file_data d' f c n = file_data d f c n"
proof -
  have "file_read d' f c i = file_read d f c i" for i
    using file_sector_bound [OF assms(1), of d c i] agree_read [OF assms(2)]
    by (cases "file_sector d f c i") (simp_all add: file_read_def file_sector_agree [OF assms])
  then have "file_read d' f c = file_read d f c" by (rule ext)
  then show ?thesis unfolding file_data_def by simp
qed

lemma scan_sectors_agree:
  "within f vol \<Longrightarrow> agree d d' vol \<Longrightarrow> first_sector f c = Some first \<Longrightarrow> \<forall>i \<in> set is. i < unat (sectors_per_cluster f) \<Longrightarrow>
    scan_sectors d' first is = scan_sectors d first is"
proof (induction "is")
  case (Cons i "is")
  have "read_sector d' (first + of_nat i) = read_sector d (first + of_nat i)"
    using Cons.prems by (intro agree_read [OF Cons.prems(2)] first_sector_bound [OF Cons.prems(1,3)]) simp
  then show ?case using Cons by (simp cong: option.case_cong Option.bind_cong scan.case_cong)
qed simp

lemma scan_root_agree:
  assumes "within f vol" "agree d d' vol"
  shows "scan_root d' f n c = scan_root d f n c"
proof (induction n arbitrary: c)
  case (Suc n)
  have "scan_sectors d' first [0..<unat (sectors_per_cluster f)] = scan_sectors d first [0..<unat (sectors_per_cluster f)]"
    if "first_sector f c = Some first" for first
    by (rule scan_sectors_agree [OF assms that]) simp
  moreover have e: "scan_root d' f n = scan_root d f n" by (rule ext) (rule Suc)
  ultimately show ?case unfolding scan_root.simps fat_next_agree [OF assms] e by (simp cong: option.case_cong)
qed simp

section \<open>Properties\<close>

text \<open>The specification: the bytes of the file that the directory entry describes, along its cluster chain, parsed.\<close>

definition bundle_spec :: "disk \<Rightarrow> app_bundle option" where
  "bundle_spec d =
     (case mount d of
        Some (Some f) \<Rightarrow>
          (case scan_root d f 16 (f_root f) of
             Some (Hit start sz) \<Rightarrow>
               if sz = 0 \<or> sz > 4096 then None else Option.bind (file_data d f start sz) bundle_parse
           | _ \<Rightarrow> None)
      | _ \<Rightarrow> None)"

lemma file_data_length:
  assumes "disk_ok d" "file_data d f c n = Some data"
  shows "length data = n"
proof -
  obtain ss where ss: "those (map (file_read d f c) [0..<sectors_for n]) = Some ss" "data = take n (concat ss)"
    using assms(2) by (auto simp: file_data_def)
  have "\<forall>s \<in> set ss. length s = 512"
    using those_mem [OF ss(1)] read_sector_length [OF assms(1)] by (fastforce simp: file_read_def bind_eq_Some_conv)
  then have "length (concat ss) = 512 * length ss" by (rule length_concat_512)
  then show ?thesis using those_length [OF ss(1)] sectors_for_bounds(1) [of n] ss(2) by simp
qed

lemma fat_bundle_spec:
  assumes "disk_ok d" "length buf = 4096"
  shows "\<exists>buf'. fat_bundle d buf = Some (bundle_spec d, buf') \<and> length buf' = 4096"
proof -
  obtain m where m: "mount d = Some m" using mount_total [OF assms(1)] by blast
  show ?thesis
  proof (cases m)
    case None
    then show ?thesis using m assms(2) by (simp add: fat_bundle_def bundle_spec_def)
  next
    case (Some f)
    obtain r where r: "scan_root d f 16 (f_root f) = Some r" using scan_root_total [OF assms(1)] by blast
    show ?thesis
    proof (cases "\<exists>start sz. r = Hit start sz \<and> 0 < sz \<and> sz \<le> 4096")
      case True
      then obtain start sz where h: "r = Hit start sz" "0 < sz" "sz \<le> 4096" by blast
      have "sectors_per_cluster f \<noteq> 0" using mount_within [of d f] m Some by (simp add: within_def)
      from copy_file_spec [OF assms(1) this h(2), of buf start] show ?thesis
        using m Some r h assms(2) file_data_length [OF assms(1), of f start sz]
        by (cases "file_data d f start sz") (auto simp: fat_bundle_def bundle_spec_def)
    next
      case False
      then show ?thesis using m Some r assms(2) by (cases r) (auto simp: fat_bundle_def bundle_spec_def)
    qed
  qed
qed

text \<open>C29. Loading the bundle always ends, whatever bytes the disk holds (cyclic and truncated cluster chains,
  nonsensical geometry, unreadable sectors), never indexes outside a buffer, and gives exactly the
  specification: the bundle parsed from the bytes of \<^verbatim>\<open>HELLO.PIP\<close> in the order of its
  cluster chain, or nothing.\<close>

theorem fat_bundle_terminates:
  assumes "disk_ok d" "length buf = 4096"
  shows "\<exists>buf'. fat_bundle d buf = Some (bundle_spec d, buf') \<and> length buf' = 4096"
  by (rule fat_bundle_spec [OF assms])

text \<open>C30. The reader stays inside the volume: two disks with the same boot sector that agree on every sector below the volume's
  sector count give the same bundle, so no sector beyond the volume is ever looked at.\<close>

theorem fat_bundle_inside_volume:
  assumes "disk_ok d" "disk_ok d'" "d' 0 = d 0" "\<And>l. unat l < volume_sectors d \<Longrightarrow> d' l = d l" "length buf = 4096"
  shows "map_option fst (fat_bundle d' buf) = map_option fst (fat_bundle d buf)"
proof -
  have m: "mount d' = mount d" using assms(3) by (simp add: mount_def read_sector_def)
  have "bundle_spec d' = bundle_spec d"
  proof (cases "\<exists>f. mount d = Some (Some f)")
    case True
    then obtain f where f: "mount d = Some (Some f)" by blast
    have a: "agree d d' (volume_sectors d)" using assms(4) by (simp add: agree_def)
    note w = mount_within [OF f]
    show ?thesis unfolding bundle_spec_def m scan_root_agree [OF w a] file_data_agree [OF w a]
      by (simp add: f scan_root_agree [OF w a] file_data_agree [OF w a] cong: option.case_cong scan.case_cong if_cong)
  next
    case False
    then show ?thesis by (auto simp: bundle_spec_def m split: option.splits)
  qed
  then show ?thesis using fat_bundle_spec [OF assms(1,5)] fat_bundle_spec [OF assms(2,5)] by auto
qed

section \<open>A concrete volume\<close>

text \<open>Eight one-sector clusters; the root directory is in cluster 2 and the file in cluster 3.\<close>

definition put :: "nat \<Rightarrow> u8 list \<Rightarrow> u8 list \<Rightarrow> u8 list" where
  "put at bs xs = (if at + length bs \<le> length xs then take at xs @ bs @ drop (at + length bs) xs else xs)"

lemma length_put [simp]: "length (put at bs xs) = length xs"
  by (simp add: put_def)

lemma slice_put_other: "p + length bs \<le> at \<or> at + n \<le> p \<Longrightarrow> take n (drop at (put p bs xs)) = take n (drop at xs)"
  by (rule nth_equalityI) (auto simp: put_def nth_append)

lemma slice_put_same: "p + length bs \<le> length xs \<Longrightarrow> n = length bs \<Longrightarrow> take n (drop p (put p bs xs)) = bs"
  by (simp add: put_def)

lemma nth_put: "p + length bs \<le> length xs \<Longrightarrow> i < length xs \<Longrightarrow>
    put p bs xs ! i = (if p \<le> i \<and> i < p + length bs then bs ! (i - p) else xs ! i)"
  by (auto simp: put_def nth_append)

lemmas slice_put = slice_put_other slice_put_same nth_put

definition demo_boot :: "u8 list" where
  "demo_boot = put 510 [0x55, 0xaa] (put 44 [2, 0, 0, 0] (put 36 [1, 0, 0, 0] (put 32 [10, 0, 0, 0] (put 17 [0, 0] (put 16 [1]
     (put 14 [1, 0] (put 13 [1] (put 11 [0, 2] (replicate 512 0)))))))))"

definition demo_file :: "u8 list" where
  "demo_file = bytes_of ''PIPPIN-BUNDLE/1\<newline>name=hello\<newline>message=hi\<newline>''"

definition demo_row :: "u8 list" where
  "demo_row = HELLO_PIP @ [0, 0, 0, 0, 0, 0, 0, 0, 0, 0, 0, 0, 0, 0, 0, 3, 0, 38, 0, 0, 0]"

definition demo_dir :: "u8 list" where
  "demo_dir = put 0 demo_row (replicate 512 0)"

definition demo_sector :: "u8 list" where
  "demo_sector = put 0 demo_file (replicate 512 0)"

definition demo_disk :: disk where
  "demo_disk l =
     (if l = 0 then Some demo_boot
      else if l = 2 then Some demo_dir
      else if l = 3 then Some demo_sector
      else None)"

lemma demo_lengths: "length demo_boot = 512" "length demo_file = 38" "length demo_row = 32"
  "length demo_dir = 512" "length demo_sector = 512"
  by (simp_all add: demo_boot_def demo_file_def demo_row_def demo_dir_def demo_sector_def HELLO_PIP_def bytes_of_def)

lemma boot_fields: "file_le16 demo_boot 11 = Some 512" "file_le16 demo_boot 17 = Some 0" "file_le16 demo_boot 14 = Some 1"
  "file_le32 demo_boot 36 = Some 1" "file_le32 demo_boot 32 = Some 10" "file_le32 demo_boot 44 = Some 2"
  "demo_boot ! 13 = 1" "demo_boot ! 16 = 1"
  unfolding demo_boot_def file_le16_def file_le32_def by (simp_all add: slice_put from_le_def)

lemma boot_sig: "drop 510 demo_boot = [0x55, 0xaa]"
proof -
  have "drop 510 demo_boot = take 2 (drop 510 demo_boot)" by (simp add: demo_lengths)
  also have "\<dots> = [0x55, 0xaa]" unfolding demo_boot_def by (rule slice_put_same) simp_all
  finally show ?thesis .
qed

definition demo_fat :: fat32 where
  "demo_fat = \<lparr> f_reserved = 1, fat_size = 1, first_data = 2, sectors_per_cluster = 1, f_root = 2, f_clusters = 8 \<rparr>"

lemma demo_mount: "mount demo_disk = Some (Some demo_fat)"
  by (simp add: mount_def mount_geometry_def read_sector_def demo_disk_def boot_fields boot_sig Let_def
      checked_mul_def checked_add_def is_power_of_two_def demo_fat_def)

lemma demo_scan_row: "scan_rows (demo_row # rows) = Some (Hit 3 38)"
proof -
  have "take 11 demo_row = HELLO_PIP" "demo_row ! 0 = 72" "demo_row ! 11 = 0"
    by (simp_all add: demo_row_def HELLO_PIP_def bytes_of_def)
  moreover have "file_le16 demo_row 20 = Some 0" "file_le16 demo_row 26 = Some 3" "file_le32 demo_row 28 = Some 38"
    by (simp_all add: demo_row_def demo_lengths HELLO_PIP_def bytes_of_def file_le16_def file_le32_def from_le_def)
  ultimately show ?thesis by simp
qed

lemma demo_geometry: "sectors_per_cluster demo_fat = 1" "f_root demo_fat = 2" "first_sector demo_fat 2 = Some 2" "first_sector demo_fat 3 = Some 3"
  by (simp_all add: demo_fat_def first_sector_def)

lemma demo_reads: "read_sector demo_disk 2 = Some demo_dir" "read_sector demo_disk 3 = Some demo_sector"
  by (simp_all add: read_sector_def demo_disk_def)

lemma demo_scan: "scan_root demo_disk demo_fat 16 2 = Some (Hit 3 38)"
proof -
  have "take 32 (drop 0 demo_dir) = demo_row" unfolding demo_dir_def by (rule slice_put_same) (simp_all add: demo_lengths)
  then have c: "chunks_exact 32 demo_dir = demo_row # chunks_exact 32 (drop 32 demo_dir)"
    by (subst chunks_exact.simps) (simp add: demo_lengths)
  have "scan_sectors demo_disk 2 [0] = Some (Hit 3 38)"
    by (simp add: demo_reads c demo_scan_row del: scan_rows.simps)
  then have s: "scan_root demo_disk demo_fat (Suc 15) 2 = Some (Hit 3 38)"
    unfolding scan_root.simps by (simp add: demo_geometry)
  have "16 = Suc 15" by simp
  then show ?thesis using s by (rule ssubst)
qed

lemma demo_data: "file_data demo_disk demo_fat 3 38 = Some demo_file"
proof -
  have "sectors_for 38 = 1" by (simp add: sectors_for_def)
  moreover have "file_read demo_disk demo_fat 3 0 = Some demo_sector"
    using file_read_first [of demo_fat 3 3 0 demo_disk] demo_reads by (simp add: demo_geometry)
  moreover have "take 38 (drop 0 demo_sector) = demo_file"
    unfolding demo_sector_def by (rule slice_put_same) (simp_all add: demo_lengths)
  ultimately show ?thesis by (simp add: file_data_def)
qed

lemma demo_parse: "bundle_parse demo_file = Some \<lparr> bu_name = bytes_of ''hello'', bu_message = bytes_of ''hi'' \<rparr>"
  by (simp add: bundle_parse_def demo_file_def bytes_of_def str_lines_def strip_cr_def strip_suffix_def strip_prefix_def)

lemma demo_bundle: "bundle_spec demo_disk = Some \<lparr> bu_name = bytes_of ''hello'', bu_message = bytes_of ''hi'' \<rparr>"
  by (simp add: bundle_spec_def demo_mount demo_geometry demo_scan demo_data demo_parse)

lemma demo_disk_ok: "disk_ok demo_disk"
  by (auto simp: disk_ok_def demo_disk_def demo_lengths split: if_splits)

lemma demo_volume: "volume_sectors demo_disk = 10"
  using boot_fields(5) by (simp add: volume_sectors_def demo_disk_def file_le32_def demo_lengths)

theorem fat_bundle_terminates_witness:
  "disk_ok demo_disk \<and> (\<exists>buf'. fat_bundle demo_disk (replicate 4096 0) =
     Some (Some \<lparr> bu_name = bytes_of ''hello'', bu_message = bytes_of ''hi'' \<rparr>, buf') \<and> length buf' = 4096)"
  using fat_bundle_terminates [OF demo_disk_ok, of "replicate 4096 0"] demo_disk_ok by (simp add: demo_bundle)

theorem fat_bundle_inside_volume_witness:
  "volume_sectors demo_disk = 10 \<and> disk_ok (demo_disk(10 := Some (replicate 512 7))) \<and>
   map_option fst (fat_bundle (demo_disk(10 := Some (replicate 512 7))) (replicate 4096 0)) =
   map_option fst (fat_bundle demo_disk (replicate 4096 0))"
proof -
  have ok: "disk_ok (demo_disk(10 := Some (replicate 512 7)))" using demo_disk_ok by (simp add: disk_ok_def)
  have "unat l < volume_sectors demo_disk \<Longrightarrow> (demo_disk(10 := Some (replicate 512 7))) l = demo_disk l" for l
    by (auto simp: demo_volume)
  then show ?thesis
    using fat_bundle_inside_volume [OF demo_disk_ok ok, of "replicate 4096 0"] ok demo_volume by simp
qed

end
