(* ===== verification/Compositor_State.thy ===== *)
theory Compositor_State
  imports Window_Server
begin

text \<open>
  The compositor's state and the parts of \<^verbatim>\<open>compositor.rs\<close> that compute on it without drawing:
  search and layout of controls, text fields, scrolling, hit testing and keyboard focus. Each
  definition is one method; methods on \<^verbatim>\<open>&mut self\<close> return the updated state, \<open>None\<close> is a
  panic of \<^verbatim>\<open>String\<close> indexing. \<^verbatim>\<open>i32\<close> values are \<open>int\<close> with wrapping
  (\<open>add32\<close>, \<dots>) or saturating (\<open>sadd32\<close>, \<dots>) operations as the source has them.
\<close>

section \<open>Saturating arithmetic\<close>

definition sat32 :: "int \<Rightarrow> int" where "sat32 x = clamp (- 2147483648) 2147483647 x"
definition sadd32 :: "int \<Rightarrow> int \<Rightarrow> int" where "sadd32 a b = sat32 (a + b)"
definition ssub32 :: "int \<Rightarrow> int \<Rightarrow> int" where "ssub32 a b = sat32 (a - b)"
definition smul32 :: "int \<Rightarrow> int \<Rightarrow> int" where "smul32 a b = sat32 (a * b)"

definition i32_MAX :: int where "i32_MAX = 2147483647"
definition i32_MIN :: int where "i32_MIN = - 2147483648"

text \<open>A \<^verbatim>\<open>usize\<close> cast to \<^verbatim>\<open>i32\<close>.\<close>

definition as_i32 :: "nat \<Rightarrow> int" where "as_i32 n = i32_wrap (int n)"

section \<open>Data\<close>

definition C_MAX_WINDOWS :: nat where "C_MAX_WINDOWS = 16"
definition CONTROL_FLAG_FOCUSABLE :: u8 where "CONTROL_FLAG_FOCUSABLE = 1"
definition CONTROL_FLAG_DISABLED :: u8 where "CONTROL_FLAG_DISABLED = 2"
definition HEADER_HEIGHT :: int where "HEADER_HEIGHT = 44"
definition SCROLL_LINE :: int where "SCROLL_LINE = 32"
definition CONTENT_BOTTOM_PADDING :: int where "CONTENT_BOTTOM_PADDING = 20"
definition TEXT_INPUT_LIMIT :: nat where "TEXT_INPUT_LIMIT = 64"
definition ACTION_VALUE_SEPARATOR :: char where "ACTION_VALUE_SEPARATOR = char_of (31 :: nat)"

record crow =
  r_text :: string
  r_action :: string
  r_kind :: char
  r_style :: u8
  r_flags :: u8
  r_x :: int
  r_y :: int
  r_width :: int
  r_height :: int

record edit_state =
  e_window :: string
  e_row :: nat
  e_value :: string
  e_cursor :: nat

record clip_rect =
  cl_left :: int
  cl_top :: int
  cl_right :: int
  cl_bottom :: int

record cwindow =
  cw_id :: string
  cw_role :: char
  cw_x :: int
  cw_y :: int
  cw_width :: int
  cw_height :: int
  cw_title :: string
  cw_rows :: "crow list"
  cw_native :: bool
  cw_maximized :: bool
  cw_minimized :: bool
  cw_scroll_y :: int
  cw_restore :: "(int \<times> int \<times> int \<times> int) option"

datatype focus_scope = Desktop | Scope_Window string

type_synonym control = "string \<times> nat"

record compositor =
  c_pixels :: pixels
  c_clients :: server
  c_windows :: "cwindow list"
  c_next_id :: u32
  c_wallpaper_base :: u32
  c_cursor_x :: int
  c_cursor_y :: int
  c_left_down :: bool
  c_hovered :: "control option"
  c_pressed :: "control option"
  c_focused :: "control option"
  c_edits :: "edit_state list"
  c_scope :: focus_scope
  c_drag :: "(string \<times> int \<times> int) option"

definition clip_contains :: "clip_rect \<Rightarrow> int \<Rightarrow> int \<Rightarrow> bool" where
  "clip_contains c x y \<longleftrightarrow> x \<ge> cl_left c \<and> x < cl_right c \<and> y \<ge> cl_top c \<and> y < cl_bottom c"

definition clip_intersect :: "clip_rect \<Rightarrow> int \<Rightarrow> int \<Rightarrow> int \<Rightarrow> int \<Rightarrow> (int \<times> int \<times> int \<times> int) option" where
  "clip_intersect c x y width height =
     (if width \<le> 0 \<or> height \<le> 0 then None
      else
        let left = max x (cl_left c); top_edge = max y (cl_top c);
            right = min (sadd32 x width) (cl_right c); bottom = min (sadd32 y height) (cl_bottom c) in
        if right \<le> left \<or> bottom \<le> top_edge then None
        else Some (left, top_edge, sub32 right left, sub32 bottom top_edge))"

section \<open>Searching\<close>

definition to_ascii_lowercase :: "char \<Rightarrow> char" where
  "to_ascii_lowercase c = (let n = (of_char c :: nat) in if 65 \<le> n \<and> n \<le> 90 then char_of (n + 32) else c)"

definition ascii_contains_case_insensitive :: "string \<Rightarrow> string \<Rightarrow> bool" where
  "ascii_contains_case_insensitive hay need =
     (if need = [] then True
      else if length need > length hay then False
      else list_ex (\<lambda>start. list_all (\<lambda>offset. to_ascii_lowercase (hay ! (start + offset)) = to_ascii_lowercase (need ! offset))
                     [0..<length need])
             [0..<length hay - length need + 1])"

definition edit_index :: "compositor \<Rightarrow> string \<Rightarrow> nat \<Rightarrow> nat option" where
  "edit_index c i row = position (\<lambda>e. e_window e = i \<and> e_row e = row) (c_edits c)"

definition search_query :: "compositor \<Rightarrow> string \<Rightarrow> string option" where
  "search_query c i =
     (case find (\<lambda>w. cw_id w = i) (c_windows c) of None \<Rightarrow> None | Some w \<Rightarrow>
      case position (\<lambda>r. r_kind r = CHR ''s'') (cw_rows w) of None \<Rightarrow> None | Some search_row \<Rightarrow>
      map_option (\<lambda>k. e_value (c_edits c ! k)) (edit_index c i search_row))"

definition structural :: "crow \<Rightarrow> bool" where
  "structural r \<longleftrightarrow> r_kind r \<in> {CHR ''h'', CHR ''s'', CHR ''e'', CHR ''l'', CHR ''t''}"

definition searchable :: "cwindow \<Rightarrow> bool" where
  "searchable w \<longleftrightarrow> cw_id w \<in> {''launcher'', ''files''}"

definition row_matches_search :: "compositor \<Rightarrow> cwindow \<Rightarrow> crow \<Rightarrow> bool" where
  "row_matches_search c w row =
     (if \<not> searchable w \<or> structural row \<or> r_action row = [] then True
      else case search_query c (cw_id w) of None \<Rightarrow> True | Some query \<Rightarrow>
        if query = [] then True else ascii_contains_case_insensitive (r_text row) query)"

record frame_scan =
  fs_first :: int
  fs_right :: int
  fs_gap :: int
  fs_before :: nat
  fs_total :: nat
  fs_prev :: "int option"

definition frame_step :: "compositor \<Rightarrow> cwindow \<Rightarrow> nat \<Rightarrow> nat \<times> crow \<Rightarrow> frame_scan \<Rightarrow> frame_scan" where
  "frame_step c w index = (\<lambda>(k, r) s.
     if structural r \<or> r_action r = [] then s
     else
       let right = sadd32 (r_x r) (r_width r);
           s = s\<lparr>fs_first := min (fs_first s) (r_x r), fs_right := max (fs_right s) right,
                 fs_gap := (case fs_prev s of None \<Rightarrow> fs_gap s | Some p \<Rightarrow> max (sub32 (r_x r) p) 0),
                 fs_prev := Some right\<rparr> in
       if row_matches_search c w r
       then s\<lparr>fs_before := (if k < index then fs_before s + 1 else fs_before s), fs_total := fs_total s + 1\<rparr>
       else s)"

definition filtered_frame :: "compositor \<Rightarrow> cwindow \<Rightarrow> nat \<Rightarrow> crow \<Rightarrow> int \<times> int \<times> int \<times> int" where
  "filtered_frame c w index row =
     (let plain = (r_x row, r_y row, r_width row, r_height row) in
      if \<not> searchable w \<or> structural row \<or> r_action row = [] \<or>
         (case search_query c (cw_id w) of None \<Rightarrow> [] | Some q \<Rightarrow> q) = [] then plain
      else
        let s = fold (frame_step c w index) (enumerate 0 (cw_rows w))
                  \<lparr>fs_first = i32_MAX, fs_right = i32_MIN, fs_gap = 12, fs_before = 0, fs_total = 0, fs_prev = None\<rparr> in
        if fs_total s = 0 \<or> fs_first s = i32_MAX \<or> fs_right s \<le> fs_first s then plain
        else
          let span = sub32 (fs_right s) (fs_first s);
              gaps = smul32 (fs_gap s) (as_i32 (fs_total s - 1));
              width = max (div32 (sub32 span gaps) (as_i32 (fs_total s))) 1;
              x = add32 (fs_first s) (mul32 (as_i32 (fs_before s)) (add32 width (fs_gap s))) in
          (x, r_y row, width, r_height row))"

definition visible_result_count :: "compositor \<Rightarrow> cwindow \<Rightarrow> nat" where
  "visible_result_count c w =
     length (filter (\<lambda>r. \<not> structural r \<and> r_action r \<noteq> [] \<and> row_matches_search c w r) (cw_rows w))"

section \<open>Text fields\<close>

definition has_flag :: "crow \<Rightarrow> u8 \<Rightarrow> bool" where
  "has_flag r f \<longleftrightarrow> r_flags r AND f \<noteq> 0"

definition row_is_editable :: "crow \<Rightarrow> bool" where
  "row_is_editable r \<longleftrightarrow> r_kind r \<in> {CHR ''s'', CHR ''e''} \<and> \<not> has_flag r CONTROL_FLAG_DISABLED \<and> r_action r \<noteq> []"

definition get :: "nat \<Rightarrow> 'a list \<Rightarrow> 'a option" where
  "get k xs = (if k < length xs then Some (xs ! k) else None)"

definition editable_focus :: "compositor \<Rightarrow> control option" where
  "editable_focus c =
     (case c_focused c of None \<Rightarrow> None | Some (i, row_index) \<Rightarrow>
      case find (\<lambda>w. \<not> cw_minimized w \<and> cw_id w = i) (c_windows c) of None \<Rightarrow> None | Some w \<Rightarrow>
      case get row_index (cw_rows w) of None \<Rightarrow> None | Some row \<Rightarrow>
      if row_is_editable row then Some (i, row_index) else None)"

definition ensure_edit_state :: "string \<Rightarrow> nat \<Rightarrow> compositor \<Rightarrow> nat \<times> compositor" where
  "ensure_edit_state i row c =
     (case edit_index c i row of
        Some k \<Rightarrow> (k, c)
      | None \<Rightarrow>
          (length (c_edits c),
           c\<lparr>c_edits := c_edits c @ [\<lparr>e_window = i, e_row = row, e_value = [], e_cursor = 0\<rparr>]\<rparr>))"

definition edit_snapshot :: "compositor \<Rightarrow> string \<Rightarrow> nat \<Rightarrow> string \<times> nat" where
  "edit_snapshot c i row =
     (case edit_index c i row of None \<Rightarrow> ([], 0) | Some k \<Rightarrow> (e_value (c_edits c ! k), e_cursor (c_edits c ! k)))"

definition edit_visible_start :: "nat \<Rightarrow> nat \<Rightarrow> nat \<Rightarrow> nat" where
  "edit_visible_start len cursor max_chars =
     (if len \<le> max_chars then 0 else min (cursor - (max_chars - 1)) (len - max_chars))"

definition upd_edit :: "nat \<Rightarrow> (edit_state \<Rightarrow> edit_state) \<Rightarrow> compositor \<Rightarrow> compositor" where
  "upd_edit k f c = c\<lparr>c_edits := (c_edits c)[k := f (c_edits c ! k)]\<rparr>"

definition place_edit_cursor :: "string \<Rightarrow> nat \<Rightarrow> int \<Rightarrow> int \<Rightarrow> int \<Rightarrow> compositor \<Rightarrow> compositor" where
  "place_edit_cursor i row local_x width prefix_width c =
     (let (index, c) = ensure_edit_state i row c;
          e = c_edits c ! index;
          max_chars = nat (div32 (max (sub32 (sub32 width 28) prefix_width) 12) 12);
          len = length (e_value e);
          start = edit_visible_start len (e_cursor e) (max max_chars 1);
          column = nat (div32 (max (sub32 (sub32 local_x 14) prefix_width) 0) 12) in
      upd_edit index (\<lambda>e. e\<lparr>e_cursor := min (start + column) len\<rparr>) c)"

text \<open>\<^verbatim>\<open>String::remove\<close> and \<^verbatim>\<open>String::insert\<close> on ASCII text.\<close>

definition string_remove :: "nat \<Rightarrow> string \<Rightarrow> string option" where
  "string_remove k s = (if k < length s then Some (take k s @ drop (k + 1) s) else None)"

definition string_insert :: "nat \<Rightarrow> char \<Rightarrow> string \<Rightarrow> string option" where
  "string_insert k ch s = (if k \<le> length s then Some (take k s @ ch # drop k s) else None)"

datatype edit_result = Edit_Panic | Edit_Ignored | Edit_Done edit_state "string option"

definition edit_extended :: "u8 \<Rightarrow> edit_state \<Rightarrow> edit_result" where
  "edit_extended scan e =
     (if scan = 0x4b then Edit_Done (e\<lparr>e_cursor := e_cursor e - 1\<rparr>) None
      else if scan = 0x4d then Edit_Done (e\<lparr>e_cursor := min (e_cursor e + 1) (length (e_value e))\<rparr>) None
      else if scan = 0x47 then Edit_Done (e\<lparr>e_cursor := 0\<rparr>) None
      else if scan = 0x4f then Edit_Done (e\<lparr>e_cursor := length (e_value e)\<rparr>) None
      else if scan = 0x53 then
        (if e_cursor e < length (e_value e) then
           (case string_remove (e_cursor e) (e_value e) of
              None \<Rightarrow> Edit_Panic
            | Some v \<Rightarrow> Edit_Done (e\<lparr>e_value := v\<rparr>) None)
         else Edit_Done e None)
      else Edit_Ignored)"

definition edit_plain :: "string \<Rightarrow> char \<Rightarrow> u8 \<Rightarrow> u8 option \<Rightarrow> edit_state \<Rightarrow> edit_result" where
  "edit_plain action kind scan txt e =
     (if scan = 0x0e then
        (if e_cursor e > 0 then
           (case string_remove (e_cursor e - 1) (e_value e) of
              None \<Rightarrow> Edit_Panic
            | Some v \<Rightarrow> Edit_Done (e\<lparr>e_cursor := e_cursor e - 1, e_value := v\<rparr>) None)
         else Edit_Done e None)
      else if scan = 0x1c then
        Edit_Done (if kind = CHR ''e'' then e\<lparr>e_value := [], e_cursor := 0\<rparr> else e)
          (if action = [] then None else Some (action @ [ACTION_VALUE_SEPARATOR] @ e_value e))
      else
        (case txt of
           Some byte \<Rightarrow>
             if 0x20 \<le> byte \<and> byte \<le> 0x7e then
               (if length (e_value e) < TEXT_INPUT_LIMIT then
                  (case string_insert (e_cursor e) (char_of (unat byte)) (e_value e) of
                     None \<Rightarrow> Edit_Panic
                   | Some v \<Rightarrow> Edit_Done (e\<lparr>e_value := v, e_cursor := e_cursor e + 1\<rparr>) None)
                else Edit_Done e None)
             else Edit_Ignored
         | None \<Rightarrow> Edit_Ignored))"

definition edit_key :: "string \<Rightarrow> char \<Rightarrow> u8 \<Rightarrow> u8 option \<Rightarrow> bool \<Rightarrow> edit_state \<Rightarrow> edit_result" where
  "edit_key action kind scan txt extended e =
     (if extended then (case edit_extended scan e of Edit_Ignored \<Rightarrow> edit_plain action kind scan txt e | r \<Rightarrow> r)
      else edit_plain action kind scan txt e)"

definition handle_edit_key :: "u8 \<Rightarrow> u8 option \<Rightarrow> bool \<Rightarrow> compositor \<Rightarrow> (bool \<times> string option \<times> compositor) option" where
  "handle_edit_key scan txt extended c =
     (case editable_focus c of None \<Rightarrow> Some (False, None, c) | Some (i, row_index) \<Rightarrow>
      let (action, kind) =
            (case Option.bind (find (\<lambda>w. cw_id w = i) (c_windows c)) (\<lambda>w. get row_index (cw_rows w)) of
               None \<Rightarrow> ([], char_of (0 :: nat)) | Some row \<Rightarrow> (r_action row, r_kind row));
          (k, c) = ensure_edit_state i row_index c in
      case edit_key action kind scan txt extended (c_edits c ! k) of
        Edit_Panic \<Rightarrow> None
      | Edit_Ignored \<Rightarrow> Some (False, None, c)
      | Edit_Done e out \<Rightarrow> Some (True, out, upd_edit k (\<lambda>_. e) c))"

section \<open>Scrolling\<close>

definition is_scrollable :: "cwindow \<Rightarrow> bool" where
  "is_scrollable w \<longleftrightarrow> cw_role w \<in> {CHR ''W'', CHR ''L''}"

definition laid_out :: "crow \<Rightarrow> bool" where
  "laid_out r \<longleftrightarrow> r_width r > 0 \<and> r_height r > 0"

definition content_bottom :: "cwindow \<Rightarrow> int" where
  "content_bottom w =
     (case map (\<lambda>r. sadd32 (r_y r) (r_height r)) (filter laid_out (cw_rows w)) of
        [] \<Rightarrow> add32 HEADER_HEIGHT 1
      | b # bs \<Rightarrow> fold max bs b)"

definition max_scroll :: "cwindow \<Rightarrow> int" where
  "max_scroll w =
     (if \<not> is_scrollable w then 0
      else
        let viewport_bottom = max (sub32 (cw_height w) 1) (add32 HEADER_HEIGHT 1) in
        max (ssub32 (sadd32 (content_bottom w) CONTENT_BOTTOM_PADDING) viewport_bottom) 0)"

definition clamp_scroll :: "cwindow \<Rightarrow> cwindow" where
  "clamp_scroll w = w\<lparr>cw_scroll_y := clamp 0 (max_scroll w) (cw_scroll_y w)\<rparr>"

definition scroll_window :: "int \<Rightarrow> cwindow \<Rightarrow> bool \<times> cwindow" where
  "scroll_window delta w =
     (if \<not> is_scrollable w then (False, w)
      else
        let w' = clamp_scroll (w\<lparr>cw_scroll_y := sadd32 (cw_scroll_y w) delta\<rparr>) in
        (cw_scroll_y w' \<noteq> cw_scroll_y w, w'))"

definition content_clip :: "cwindow \<Rightarrow> clip_rect" where
  "content_clip w =
     (let framed = cw_role w \<in> {CHR ''W'', CHR ''L''}; edge = (if framed then 1 else 0) in
      \<lparr>cl_left = add32 (cw_x w) edge,
       cl_top = (if framed then add32 (add32 (cw_y w) HEADER_HEIGHT) 1 else cw_y w),
       cl_right = sub32 (add32 (cw_x w) (cw_width w)) edge,
       cl_bottom = sub32 (add32 (cw_y w) (cw_height w)) edge\<rparr>)"

definition cw_hit :: "cwindow \<Rightarrow> int \<Rightarrow> int \<Rightarrow> bool" where
  "cw_hit w x y \<longleftrightarrow> x \<ge> cw_x w \<and> x < add32 (cw_x w) (cw_width w) \<and> y \<ge> cw_y w \<and> y < add32 (cw_y w) (cw_height w)"

definition upd_cwindow :: "nat \<Rightarrow> (cwindow \<Rightarrow> cwindow) \<Rightarrow> compositor \<Rightarrow> compositor" where
  "upd_cwindow k f c = c\<lparr>c_windows := (c_windows c)[k := f (c_windows c ! k)]\<rparr>"

definition scroll_nth :: "nat \<Rightarrow> int \<Rightarrow> compositor \<Rightarrow> bool \<times> compositor" where
  "scroll_nth k delta c = (fst (scroll_window delta (c_windows c ! k)), upd_cwindow k (\<lambda>w. snd (scroll_window delta w)) c)"

definition under_pointer :: "compositor \<Rightarrow> nat option" where
  "under_pointer c = rposition (\<lambda>w. \<not> cw_minimized w \<and> cw_hit w (c_cursor_x c) (c_cursor_y c)) (c_windows c)"

definition scroll_under_pointer :: "int \<Rightarrow> compositor \<Rightarrow> bool \<times> compositor" where
  "scroll_under_pointer delta c =
     (case under_pointer c of None \<Rightarrow> (False, c) | Some k \<Rightarrow>
      let w = c_windows c ! k in
      if \<not> is_scrollable w \<or> \<not> clip_contains (content_clip w) (c_cursor_x c) (c_cursor_y c) then (False, c)
      else scroll_nth k delta c)"

definition scope_page_step :: "compositor \<Rightarrow> int" where
  "scope_page_step c =
     (case c_scope c of Desktop \<Rightarrow> mul32 SCROLL_LINE 4 | Scope_Window i \<Rightarrow>
      case find (\<lambda>w. \<not> cw_minimized w \<and> cw_id w = i) (c_windows c) of
        None \<Rightarrow> mul32 SCROLL_LINE 4
      | Some w \<Rightarrow> max (sub32 (sub32 (cw_height w) HEADER_HEIGHT) 48) SCROLL_LINE)"

definition scope_index :: "compositor \<Rightarrow> nat option" where
  "scope_index c =
     (case c_scope c of Desktop \<Rightarrow> None
      | Scope_Window i \<Rightarrow> position (\<lambda>w. \<not> cw_minimized w \<and> cw_id w = i) (c_windows c))"

definition scroll_scope_by :: "int \<Rightarrow> compositor \<Rightarrow> bool \<times> compositor" where
  "scroll_scope_by delta c = (case scope_index c of None \<Rightarrow> (False, c) | Some k \<Rightarrow> scroll_nth k delta c)"

definition scroll_scope_to :: "bool \<Rightarrow> compositor \<Rightarrow> bool \<times> compositor" where
  "scroll_scope_to to_end c =
     (case scope_index c of None \<Rightarrow> (False, c) | Some k \<Rightarrow>
      let w = c_windows c ! k; target = (if to_end then max_scroll w else 0) in
      (cw_scroll_y w \<noteq> target, upd_cwindow k (\<lambda>w. w\<lparr>cw_scroll_y := target\<rparr>) c))"

definition ensure_focused_visible :: "compositor \<Rightarrow> compositor" where
  "ensure_focused_visible c =
     (case c_focused c of None \<Rightarrow> c | Some (i, row_index) \<Rightarrow>
      case position (\<lambda>w. \<not> cw_minimized w \<and> cw_id w = i \<and> is_scrollable w) (c_windows c) of None \<Rightarrow> c | Some k \<Rightarrow>
      let w = c_windows c ! k in
      case get row_index (cw_rows w) of None \<Rightarrow> c | Some row \<Rightarrow>
      if r_width row \<le> 0 \<or> r_height row \<le> 0 then c
      else
        let viewport_top = add32 HEADER_HEIGHT 1; viewport_bottom = sub32 (cw_height w) 1;
            target = cw_scroll_y w;
            visible_top = sub32 (r_y row) target;
            visible_bottom = sub32 (add32 (r_y row) (r_height row)) target;
            target = (if visible_top < viewport_top then sub32 (r_y row) viewport_top
                      else if visible_bottom > viewport_bottom then sub32 (add32 (r_y row) (r_height row)) viewport_bottom
                      else target) in
        upd_cwindow k (\<lambda>w. clamp_scroll (w\<lparr>cw_scroll_y := target\<rparr>)) c)"

definition local_content_y :: "cwindow \<Rightarrow> int \<Rightarrow> int" where
  "local_content_y w screen_y =
     (let lcl = sub32 screen_y (cw_y w) in if is_scrollable w then sadd32 lcl (cw_scroll_y w) else lcl)"

section \<open>Hit testing and keyboard focus\<close>

definition frame_hit :: "int \<times> int \<times> int \<times> int \<Rightarrow> int \<Rightarrow> int \<Rightarrow> bool" where
  "frame_hit fr lx ly =
     (case fr of (x, y, w, h) \<Rightarrow> lx \<ge> x \<and> lx < add32 x w \<and> ly \<ge> y \<and> ly < add32 y h)"

definition control_hit :: "compositor \<Rightarrow> cwindow \<Rightarrow> int \<Rightarrow> int \<Rightarrow> nat \<times> crow \<Rightarrow> bool" where
  "control_hit c w lx ly = (\<lambda>(k, r).
     \<not> (r_width r \<le> 0 \<or> r_height r \<le> 0 \<or> r_action r = [] \<or> has_flag r CONTROL_FLAG_DISABLED \<or> \<not> row_matches_search c w r) \<and>
     frame_hit (filtered_frame c w k r) lx ly)"

fun control_at_in :: "compositor \<Rightarrow> int \<Rightarrow> int \<Rightarrow> cwindow list \<Rightarrow> control option" where
  "control_at_in c x y [] = None"
| "control_at_in c x y (w # ws) =
     (if cw_minimized w \<or> \<not> cw_hit w x y then control_at_in c x y ws
      else if \<not> clip_contains (content_clip w) x y then None
      else map_option (\<lambda>k. (cw_id w, k))
        (position (control_hit c w (sub32 x (cw_x w)) (local_content_y w y)) (enumerate 0 (cw_rows w))))"

definition control_at :: "compositor \<Rightarrow> int \<Rightarrow> int \<Rightarrow> control option" where
  "control_at c x y = control_at_in c x y (rev (c_windows c))"

definition scope_for_window :: "cwindow \<Rightarrow> focus_scope" where
  "scope_for_window w = (if cw_role w \<in> {CHR ''W'', CHR ''L''} then Scope_Window (cw_id w) else Desktop)"

definition focus_scope_accepts :: "compositor \<Rightarrow> cwindow \<Rightarrow> bool" where
  "focus_scope_accepts c w \<longleftrightarrow>
     (case c_scope c of Desktop \<Rightarrow> cw_role w \<in> {CHR ''P'', CHR ''D''} | Scope_Window i \<Rightarrow> cw_id w = i)"

definition set_focus_scope :: "focus_scope \<Rightarrow> compositor \<Rightarrow> compositor" where
  "set_focus_scope sc c = (if c_scope c \<noteq> sc then c\<lparr>c_scope := sc, c_focused := None\<rparr> else c)"

definition can_focus :: "compositor \<Rightarrow> cwindow \<Rightarrow> crow \<Rightarrow> bool" where
  "can_focus c w r \<longleftrightarrow> has_flag r CONTROL_FLAG_FOCUSABLE \<and> \<not> has_flag r CONTROL_FLAG_DISABLED \<and>
     r_action r \<noteq> [] \<and> row_matches_search c w r"

definition focus_kept :: "compositor \<Rightarrow> bool" where
  "focus_kept c \<longleftrightarrow>
     (case c_focused c of None \<Rightarrow> False | Some (i, index) \<Rightarrow>
      case find (\<lambda>w. \<not> cw_minimized w \<and> cw_id w = i) (c_windows c) of None \<Rightarrow> False | Some w \<Rightarrow>
      focus_scope_accepts c w \<and>
      (case get index (cw_rows w) of None \<Rightarrow> False | Some r \<Rightarrow> can_focus c w r))"

definition scope_valid :: "compositor \<Rightarrow> bool" where
  "scope_valid c \<longleftrightarrow>
     (case c_scope c of Desktop \<Rightarrow> True
      | Scope_Window i \<Rightarrow> list_ex (\<lambda>w. \<not> cw_minimized w \<and> cw_id w = i) (c_windows c))"

definition repair_focus_scope :: "compositor \<Rightarrow> compositor" where
  "repair_focus_scope c =
     (let c = (if scope_valid c then c
               else set_focus_scope
                 (case rfind (\<lambda>w. \<not> cw_minimized w \<and> cw_role w \<in> {CHR ''W'', CHR ''L''}) (c_windows c) of
                    None \<Rightarrow> Desktop | Some w \<Rightarrow> scope_for_window w) c) in
      if focus_kept c then c else c\<lparr>c_focused := None\<rparr>)"

definition focused_action :: "compositor \<Rightarrow> string option" where
  "focused_action c =
     (case c_focused c of None \<Rightarrow> None | Some (i, index) \<Rightarrow>
      case find (\<lambda>w. \<not> cw_minimized w \<and> cw_id w = i) (c_windows c) of None \<Rightarrow> None | Some w \<Rightarrow>
      if \<not> focus_scope_accepts c w then None
      else case get index (cw_rows w) of None \<Rightarrow> None | Some r \<Rightarrow>
        if has_flag r CONTROL_FLAG_DISABLED \<or> \<not> has_flag r CONTROL_FLAG_FOCUSABLE \<or> r_action r = [] \<or> \<not> row_matches_search c w r
        then None else Some (r_action r))"

definition window_controls :: "compositor \<Rightarrow> cwindow \<Rightarrow> control list" where
  "window_controls c w =
     (if cw_minimized w \<or> \<not> focus_scope_accepts c w then []
      else map (\<lambda>(k, r). (cw_id w, k)) (filter (\<lambda>(k, r). laid_out r \<and> can_focus c w r) (enumerate 0 (cw_rows w))))"

definition scope_controls :: "compositor \<Rightarrow> control list" where
  "scope_controls c = concat (map (window_controls c) (c_windows c))"

definition focus_next :: "bool \<Rightarrow> compositor \<Rightarrow> compositor" where
  "focus_next rvs c =
     (let c = repair_focus_scope c; controls = scope_controls c in
      if controls = [] then c\<lparr>c_focused := None\<rparr>
      else
        let current = (case c_focused c of None \<Rightarrow> None | Some f \<Rightarrow> position (\<lambda>k. k = f) controls);
            nxt = (if rvs
                   then (case current of None \<Rightarrow> length controls - 1
                         | Some k \<Rightarrow> if k = 0 then length controls - 1 else k - 1)
                   else (case current of None \<Rightarrow> 0 | Some k \<Rightarrow> (k + 1) mod length controls)) in
        c\<lparr>c_focused := Some (controls ! nxt)\<rparr>)"

definition control_state :: "compositor \<Rightarrow> string \<Rightarrow> nat \<Rightarrow> bool \<times> bool \<times> bool" where
  "control_state c i index =
     (c_hovered c = Some (i, index), c_pressed c = Some (i, index), c_focused c = Some (i, index))"

definition release_control :: "compositor \<Rightarrow> string option" where
  "release_control c =
     (case c_pressed c of None \<Rightarrow> None | Some pressed \<Rightarrow>
      case control_at c (c_cursor_x c) (c_cursor_y c) of None \<Rightarrow> None | Some hovered \<Rightarrow>
      if hovered \<noteq> pressed then None
      else case find (\<lambda>w. \<not> cw_minimized w \<and> cw_id w = fst pressed) (c_windows c) of None \<Rightarrow> None | Some w \<Rightarrow>
        case get (snd pressed) (cw_rows w) of None \<Rightarrow> None | Some r \<Rightarrow>
        if has_flag r CONTROL_FLAG_DISABLED \<or> r_action r = [] \<or> row_is_editable r then None
        else Some (r_action r))"

end
