(* ===== verification/Compositor_Draw.thy ===== *)
theory Compositor_Draw
  imports Compositor_State
begin

text \<open>
  The software renderer of \<^verbatim>\<open>compositor.rs\<close>: the drawing primitives with and without a clip rectangle,
  the wallpaper, the four kinds of surfaces, the pointer, and \<^verbatim>\<open>render\<close>. A picture is drawn as a sequence
  of steps on the pixel buffer; \<open>None\<close> is the slice panic of writing outside it.
\<close>

type_synonym step = "pixels \<Rightarrow> pixels option"

definition steps :: "step list \<Rightarrow> step" where
  "steps ds = for_each (\<lambda>d. d) ds"

section \<open>Primitives\<close>

definition fill_slice :: "nat \<Rightarrow> nat \<Rightarrow> u32 \<Rightarrow> step" where
  "fill_slice a b color px =
     (if a \<le> b \<and> b \<le> length px then Some (take a px @ replicate (b - a) color @ drop b px) else None)"

definition set_pixel :: "int \<Rightarrow> int \<Rightarrow> u32 \<Rightarrow> step" where
  "set_pixel x y color px =
     (if x \<ge> 0 \<and> y \<ge> 0 \<and> nat x < WIDTH \<and> nat y < HEIGHT then put_pixel (nat y * WIDTH + nat x) color px else Some px)"

definition fill_rect :: "int \<Rightarrow> int \<Rightarrow> int \<Rightarrow> int \<Rightarrow> u32 \<Rightarrow> step" where
  "fill_rect x y width height color px =
     (if width \<le> 0 \<or> height \<le> 0 then Some px
      else
        let left = nat (min (max x 0) (int WIDTH)); upper = nat (min (max y 0) (int HEIGHT));
            right = nat (min (max (sadd32 x width) 0) (int WIDTH)); lower = nat (min (max (sadd32 y height) 0) (int HEIGHT)) in
        for_each (\<lambda>row. fill_slice (row * WIDTH + left) (row * WIDTH + right) color) [upper..<lower] px)"

definition fill_rect_clipped :: "int \<Rightarrow> int \<Rightarrow> int \<Rightarrow> int \<Rightarrow> u32 \<Rightarrow> clip_rect \<Rightarrow> step" where
  "fill_rect_clipped x y width height color clip =
     (case clip_intersect clip x y width height of
        None \<Rightarrow> Some
      | Some (x, y, width, height) \<Rightarrow> fill_rect x y width height color)"

text \<open>The outlines, for any way of filling a rectangle: the source has each of them twice, clipped and not.\<close>

type_synonym filler = "int \<Rightarrow> int \<Rightarrow> int \<Rightarrow> int \<Rightarrow> u32 \<Rightarrow> step"

definition border_with :: "filler \<Rightarrow> filler" where
  "border_with fill x y width height color =
     steps [fill x y width 2 color, fill x (sub32 (add32 y height) 2) width 2 color,
            fill x y 2 height color, fill (sub32 (add32 x width) 2) y 2 height color]"

definition rounded_with :: "filler \<Rightarrow> int \<Rightarrow> int \<Rightarrow> int \<Rightarrow> int \<Rightarrow> u32 \<Rightarrow> u32 \<Rightarrow> step" where
  "rounded_with fill x y width height inner edge =
     (if width < 8 \<or> height < 8 then
        steps [fill x y width height inner, border_with fill x y width height edge]
      else
        steps [fill (add32 x 4) y (sub32 width 8) 1 edge,
               fill (add32 x 2) (add32 y 1) (sub32 width 4) 1 edge,
               fill (add32 x 1) (add32 y 2) (sub32 width 2) 1 edge,
               fill x (add32 y 3) width (sub32 height 6) edge,
               fill (add32 x 1) (sub32 (add32 y height) 3) (sub32 width 2) 1 edge,
               fill (add32 x 2) (sub32 (add32 y height) 2) (sub32 width 4) 1 edge,
               fill (add32 x 4) (sub32 (add32 y height) 1) (sub32 width 8) 1 edge,
               fill (add32 x 4) (add32 y 1) (sub32 width 8) (sub32 height 2) inner,
               fill (add32 x 2) (add32 y 2) (sub32 width 4) (sub32 height 4) inner,
               fill (add32 x 1) (add32 y 3) (sub32 width 2) (sub32 height 6) inner])"

definition text_with :: "filler \<Rightarrow> int \<Rightarrow> int \<Rightarrow> string \<Rightarrow> int \<Rightarrow> u32 \<Rightarrow> step" where
  "text_with fill x y label scale color =
     for_each (\<lambda>(index, byte). for_each (\<lambda>(row, bits). for_each (\<lambda>column px.
         if bit (bits :: nat) (4 - column) then
           fill (add32 (add32 x (mul32 (mul32 (as_i32 index) 6) scale)) (mul32 (int column) scale))
                (add32 y (mul32 (as_i32 row) scale)) scale scale color px
         else Some px) [0..<5])
       (enumerate 0 (glyph (to_ascii_uppercase byte))))
     (enumerate 0 label)"

definition c_border :: filler where "c_border = border_with fill_rect"

definition rounded_rect :: "int \<Rightarrow> int \<Rightarrow> int \<Rightarrow> int \<Rightarrow> u32 \<Rightarrow> u32 \<Rightarrow> step" where
  "rounded_rect = rounded_with fill_rect"

definition rounded_rect_clipped :: "int \<Rightarrow> int \<Rightarrow> int \<Rightarrow> int \<Rightarrow> u32 \<Rightarrow> u32 \<Rightarrow> clip_rect \<Rightarrow> step" where
  "rounded_rect_clipped x y width height inner edge clip =
     rounded_with (\<lambda>x y w h color. fill_rect_clipped x y w h color clip) x y width height inner edge"

definition border_clipped :: "int \<Rightarrow> int \<Rightarrow> int \<Rightarrow> int \<Rightarrow> u32 \<Rightarrow> clip_rect \<Rightarrow> step" where
  "border_clipped x y width height color clip =
     border_with (\<lambda>x y w h color. fill_rect_clipped x y w h color clip) x y width height color"

definition c_text :: "int \<Rightarrow> int \<Rightarrow> string \<Rightarrow> int \<Rightarrow> u32 \<Rightarrow> step" where
  "c_text = text_with fill_rect"

definition text_clipped :: "int \<Rightarrow> int \<Rightarrow> string \<Rightarrow> int \<Rightarrow> u32 \<Rightarrow> clip_rect \<Rightarrow> step" where
  "text_clipped x y label scale color clip =
     text_with (\<lambda>x y w h color. fill_rect_clipped x y w h color clip) x y label scale color"

section \<open>Colours\<close>

definition CHROME_INK :: u32 where "CHROME_INK = 0x00252b31"
definition CHROME_SURFACE :: u32 where "CHROME_SURFACE = 0x00f8fafc"
definition CHROME_HEADER :: u32 where "CHROME_HEADER = 0x00eef3f7"
definition CHROME_HEADER_INACTIVE :: u32 where "CHROME_HEADER_INACTIVE = 0x00e3e8ed"
definition CHROME_BORDER :: u32 where "CHROME_BORDER = 0x008b99a6"
definition CHROME_ACCENT :: u32 where "CHROME_ACCENT = 0x003b82c4"
definition CHROME_CLOSE :: u32 where "CHROME_CLOSE = 0x00d95d55"
definition CHROME_SHADOW :: u32 where "CHROME_SHADOW = 0x00151b22"
definition SHELL_DARK :: u32 where "SHELL_DARK = 0x0010161d"
definition SHELL_SURFACE :: u32 where "SHELL_SURFACE = 0x001d2833"
definition SHELL_SURFACE_HOVER :: u32 where "SHELL_SURFACE_HOVER = 0x002a3947"
definition SHELL_SURFACE_PRESSED :: u32 where "SHELL_SURFACE_PRESSED = 0x00364859"
definition SHELL_DISABLED :: u32 where "SHELL_DISABLED = 0x0020272e"
definition CONTROL_LIGHT_HOVER :: u32 where "CONTROL_LIGHT_HOVER = 0x00eef4f8"
definition CONTROL_LIGHT_PRESSED :: u32 where "CONTROL_LIGHT_PRESSED = 0x00dce8f2"
definition CONTROL_LIGHT_DISABLED :: u32 where "CONTROL_LIGHT_DISABLED = 0x00eef0f1"
definition SHELL_BORDER :: u32 where "SHELL_BORDER = 0x00414b57"
definition SHELL_TEXT :: u32 where "SHELL_TEXT = 0x00f3f5f7"
definition SHELL_MUTED :: u32 where "SHELL_MUTED = 0x00aeb8c2"
definition CONTROL_STYLE_SUBTLE :: u8 where "CONTROL_STYLE_SUBTLE = 1"
definition CONTROL_STYLE_ACCENT :: u8 where "CONTROL_STYLE_ACCENT = 3"
definition CONTROL_STYLE_SEARCH :: u8 where "CONTROL_STYLE_SEARCH = 4"
definition CONTROL_STYLE_STATUS :: u8 where "CONTROL_STYLE_STATUS = 5"

section \<open>The wallpaper and the shell's surfaces\<close>

definition wallpaper_color :: "u32 \<Rightarrow> u32 \<Rightarrow> u32" where
  "wallpaper_color base t =
     (let r = min ((drop_bit 16 base AND 0xff) * (760 - min t 600 div 4) div 760) 255;
          g = min ((drop_bit 8 base AND 0xff) * (820 - min t 600 div 5) div 820) 255;
          b = min ((base AND 0xff) + t div 18) 255 in
      push_bit 16 r OR push_bit 8 g OR b)"

definition wallpaper :: "compositor \<Rightarrow> step list" where
  "wallpaper c =
     map (\<lambda>y. fill_rect 0 (int y) (int WIDTH) 1 (wallpaper_color (c_wallpaper_base c) (of_nat y))) [0..<HEIGHT] @
     concat (map (\<lambda>k. let y = 84 + 72 * int k; offset = mul32 (div32 y 72) 41 in
         map (\<lambda>j. fill_rect (add32 (- 80 + 190 * int j) (offset mod 190)) y 96 1 0x002f739f) [0..<6]) [0..<10])"

definition shell_fill :: "crow \<Rightarrow> bool \<Rightarrow> bool \<Rightarrow> u32" where
  "shell_fill r hovered pressed =
     (if has_flag r CONTROL_FLAG_DISABLED then SHELL_DISABLED
      else if pressed then SHELL_SURFACE_PRESSED
      else if hovered then SHELL_SURFACE_HOVER
      else if r_style r = CONTROL_STYLE_ACCENT then CHROME_ACCENT else SHELL_SURFACE)"

definition panel_row :: "compositor \<Rightarrow> cwindow \<Rightarrow> nat \<times> crow \<Rightarrow> step list" where
  "panel_row c w = (\<lambda>(index, r).
     if r_width r \<le> 0 \<or> r_height r \<le> 0 then []
     else
       let (hovered, pressed, focused) = control_state c (cw_id w) index;
           disabled = has_flag r CONTROL_FLAG_DISABLED;
           x = add32 (cw_x w) (r_x r); y = add32 (cw_y w) (r_y r);
           edge = (if focused then CHROME_ACCENT else SHELL_BORDER);
           ink = (if disabled then 0x006f7983 else SHELL_TEXT);
           icon = (if disabled then 0x006f7983 else 0x00d5dae0) in
       rounded_rect x y (r_width r) (r_height r) (shell_fill r hovered pressed) edge #
       (if r_style r = CONTROL_STYLE_SEARCH then
          [fill_rect (add32 x 16) (add32 y 11) 10 10 (if disabled then 0x006f7983 else CHROME_ACCENT),
           c_text (add32 x 36) (add32 y 10) (r_text r) 1 ink]
        else if r_style r = CONTROL_STYLE_STATUS then
          [fill_rect (add32 x 16) (add32 y 11) 10 8 icon,
           fill_rect (add32 x 34) (add32 y 9) 6 12 icon,
           fill_rect (add32 x 48) (add32 y 10) 16 10 icon,
           c_text (add32 x 76) (add32 y 10) (r_text r) 1 (if disabled then 0x006f7983 else SHELL_MUTED)]
        else if r_style r = CONTROL_STYLE_SUBTLE then
          [c_text (add32 x (div32 (sub32 (r_width r) (mul32 (as_i32 (length (r_text r))) 6)) 2)) (add32 y 10) (r_text r) 1 ink]
        else [c_text (add32 x 16) (add32 y 10) (r_text r) 1 ink]))"

definition panel_compat :: "cwindow \<Rightarrow> step list" where
  "panel_compat w =
     (let x = cw_x w; y = cw_y w in
      [rounded_rect (add32 x 12) (add32 y 7) 198 34 SHELL_SURFACE SHELL_BORDER] @
      (case get 0 (cw_rows w) of None \<Rightarrow> [] | Some r \<Rightarrow> [c_text (add32 x 48) (add32 y 17) (r_text r) 1 SHELL_TEXT]) @
      [rounded_rect (add32 x 420) (add32 y 7) 184 34 SHELL_SURFACE SHELL_BORDER] @
      (case get 1 (cw_rows w) of None \<Rightarrow> [] | Some r \<Rightarrow>
        [c_text (sub32 (add32 x 512) (div32 (mul32 (as_i32 (length (r_text r))) 6) 2)) (add32 y 17) (r_text r) 1 SHELL_TEXT]) @
      [rounded_rect (add32 x 774) (add32 y 7) 238 34 SHELL_SURFACE SHELL_BORDER] @
      (case get 2 (cw_rows w) of None \<Rightarrow> [] | Some r \<Rightarrow> [c_text (add32 x 850) (add32 y 17) (r_text r) 1 SHELL_MUTED]))"

definition draw_panel :: "compositor \<Rightarrow> cwindow \<Rightarrow> step list" where
  "draw_panel c w =
     [fill_rect (cw_x w) (cw_y w) (cw_width w) (cw_height w) SHELL_DARK,
      fill_rect (cw_x w) (sub32 (add32 (cw_y w) (cw_height w)) 1) (cw_width w) 1 SHELL_BORDER] @
     (if list_ex laid_out (cw_rows w)
      then concat (map (panel_row c w) (enumerate 0 (take 8 (cw_rows w))))
      else panel_compat w)"

definition dock_tile :: "compositor \<Rightarrow> cwindow \<Rightarrow> nat \<times> crow \<Rightarrow> step list" where
  "dock_tile c w = (\<lambda>(index, r).
     let managed = laid_out r;
         tile_x = add32 (cw_x w) (if managed then r_x r else add32 12 (mul32 (as_i32 index) 120));
         tile_y = add32 (cw_y w) (if managed then r_y r else 8);
         tile_w = (if managed then r_width r else 104);
         tile_h = (if managed then r_height r else 52);
         (hovered, pressed, focused) = control_state c (cw_id w) index;
         disabled = has_flag r CONTROL_FLAG_DISABLED;
         edge = (if focused then CHROME_ACCENT else SHELL_BORDER);
         icon_x = add32 tile_x 10;
         icon_y = add32 tile_y (max (div32 (sub32 tile_h 30) 2) 0);
         icon_color = (if disabled then 0x00525b64 else if index = 0 then 0x004f8fdc else if index = 1 then 0x0057a773 else 0x00886bd8);
         letter = (if index = 0 then ''A'' else if index = 1 then ''F'' else ''S'') in
     [rounded_rect tile_x tile_y tile_w tile_h (shell_fill r hovered pressed) edge,
      rounded_rect icon_x icon_y 30 30 icon_color icon_color,
      c_text (add32 icon_x 9) (add32 icon_y 9) letter 1 (if disabled then 0x00929aa2 else 0x00ffffff),
      c_text (add32 tile_x 49) (add32 tile_y (max (div32 (sub32 tile_h 7) 2) 0)) (r_text r) 1
        (if disabled then 0x00717a83 else SHELL_TEXT)])"

definition draw_dock :: "compositor \<Rightarrow> cwindow \<Rightarrow> step list" where
  "draw_dock c w =
     [rounded_rect (add32 (cw_x w) 5) (add32 (cw_y w) 7) (cw_width w) (cw_height w) 0x0010151a 0x0010151a,
      rounded_rect (cw_x w) (cw_y w) (cw_width w) (cw_height w) SHELL_DARK SHELL_BORDER] @
     concat (map (dock_tile c w) (enumerate 0 (take 8 (cw_rows w))))"

definition draw_notice :: "cwindow \<Rightarrow> step list" where
  "draw_notice w =
     [rounded_rect (add32 (cw_x w) 4) (add32 (cw_y w) 5) (cw_width w) (cw_height w) CHROME_SHADOW CHROME_SHADOW,
      rounded_rect (cw_x w) (cw_y w) (cw_width w) (cw_height w) SHELL_DARK SHELL_BORDER] @
     map (\<lambda>(index, r). c_text (add32 (cw_x w) 18) (add32 (add32 (cw_y w) 18) (mul32 (as_i32 index) 18)) (r_text r) 1 SHELL_TEXT)
       (enumerate 0 (cw_rows w))"

section \<open>Framed windows\<close>

definition draw_frame :: "bool \<Rightarrow> cwindow \<Rightarrow> step list" where
  "draw_frame focused w =
     (let x = cw_x w; y = cw_y w; width = cw_width w; height = cw_height w;
          close_x = add32 x 15; control_y = add32 y 14; min_x = add32 close_x 29; max_x = add32 min_x 29;
          title_width = mul32 (as_i32 (length (cw_title w))) 12;
          title_x = add32 x (max (div32 (sub32 width title_width) 2) 92) in
      [rounded_rect (add32 x 9) (add32 y 11) width height CHROME_SHADOW CHROME_SHADOW,
       rounded_rect (add32 x 4) (add32 y 5) width height 0x00323a42 0x00323a42,
       rounded_rect x y width height CHROME_SURFACE CHROME_BORDER,
       fill_rect (add32 x 1) (add32 y 1) (sub32 width 2) HEADER_HEIGHT (if focused then CHROME_HEADER else CHROME_HEADER_INACTIVE),
       fill_rect (add32 x 1) (add32 y HEADER_HEIGHT) (sub32 width 2) 1 0x00c7cdd1,
       fill_rect (add32 close_x 3) control_y 12 18 CHROME_CLOSE,
       fill_rect close_x (add32 control_y 3) 18 12 CHROME_CLOSE,
       fill_rect (add32 close_x 5) (add32 control_y 5) 8 8 0x00f7d8d5,
       fill_rect (add32 min_x 3) control_y 12 18 0x00c6ccd0,
       fill_rect min_x (add32 control_y 3) 18 12 0x00c6ccd0,
       fill_rect (add32 min_x 5) (add32 control_y 8) 8 2 0x00656d73,
       fill_rect (add32 max_x 3) control_y 12 18 0x00c6ccd0,
       fill_rect max_x (add32 control_y 3) 18 12 0x00c6ccd0,
       c_border (add32 max_x 5) (add32 control_y 5) 8 8 0x00656d73,
       c_text title_x (add32 y 15) (cw_title w) 2 (if focused then CHROME_INK else 0x006f777d)])"

definition draw_scrollbar :: "cwindow \<Rightarrow> step list" where
  "draw_scrollbar w =
     (let clip = content_clip w; ms = max_scroll w in
      if ms > 0 then
        let track_top = add32 (cl_top clip) 6;
            track_height = max (sub32 (sub32 (cl_bottom clip) (cl_top clip)) 12) 24;
            viewport_height = max (sub32 (cl_bottom clip) (cl_top clip)) 1;
            content_height = sadd32 viewport_height ms;
            thumb_height = clamp 24 track_height (i32_wrap (div32 (track_height * viewport_height) content_height));
            travel = max (sub32 track_height thumb_height) 0;
            thumb_offset = i32_wrap (div32 (travel * cw_scroll_y w) ms);
            bar_x = sub32 (add32 (cw_x w) (cw_width w)) 8 in
        [rounded_rect_clipped bar_x (add32 track_top thumb_offset) 4 thumb_height 0x00aeb6bc 0x00aeb6bc clip]
      else [])"

definition row_box :: "compositor \<Rightarrow> cwindow \<Rightarrow> nat \<Rightarrow> crow \<Rightarrow> int \<times> int \<times> int \<times> int" where
  "row_box c w index r =
     (let managed = laid_out r;
          (lx, ly, width, height) =
            (if managed then filtered_frame c w index r
             else (24, add32 60 (mul32 (as_i32 index) 42), sub32 (cw_width w) 48, 34)) in
      (add32 (cw_x w) lx,
       sub32 (add32 (cw_y w) ly) (if managed \<and> is_scrollable w then cw_scroll_y w else 0), width, height))"

definition field_label :: "crow \<Rightarrow> bool \<Rightarrow> int \<Rightarrow> int \<Rightarrow> clip_rect \<Rightarrow> step list" where
  "field_label r is_empty text_x text_y clip =
     (let disabled = has_flag r CONTROL_FLAG_DISABLED in
      if r_kind r = CHR ''e'' then [text_clipped text_x text_y (r_text r) 2 (if disabled then 0x0090999f else 0x006f777d) clip]
      else if is_empty then [text_clipped text_x text_y (r_text r) 2 (if disabled then 0x0090999f else 0x00777f85) clip]
      else [])"

text \<open>The slice \<^verbatim>\<open>&value[start..end]\<close> panics when it is out of order or range.\<close>

definition field_value :: "string \<Rightarrow> nat \<Rightarrow> nat \<Rightarrow> int \<Rightarrow> int \<Rightarrow> u32 \<Rightarrow> clip_rect \<Rightarrow> step list" where
  "field_value value start max_chars x y color clip =
     (if value = [] then []
      else
        let end_at = min (start + max_chars) (length value) in
        [\<lambda>px. if start \<le> end_at then text_clipped x y (take (end_at - start) (drop start value)) 2 color clip px else None])"

definition field_caret :: "bool \<Rightarrow> int \<Rightarrow> int \<Rightarrow> int \<Rightarrow> clip_rect \<Rightarrow> step list" where
  "field_caret shown caret_x y height clip =
     (if shown then [fill_rect_clipped caret_x (add32 y 8) 2 (max (sub32 height 16) 10) CHROME_ACCENT clip] else [])"

definition draw_field :: "compositor \<Rightarrow> cwindow \<Rightarrow> nat \<Rightarrow> crow \<Rightarrow> int \<times> int \<times> int \<times> int \<Rightarrow> u32 \<Rightarrow> u32 \<Rightarrow> u32 \<Rightarrow> step list" where
  "draw_field c w index r box surface edge ink =
     (case box of (x, y, width, height) \<Rightarrow>
      let clip = content_clip w;
          disabled = has_flag r CONTROL_FLAG_DISABLED;
          value = fst (edit_snapshot c (cw_id w) index);
          cursor = snd (edit_snapshot c (cw_id w) index);
          text_x = add32 x 14;
          text_y = add32 y (max (div32 (sub32 height 14) 2) 0);
          prefix_width = (if r_kind r = CHR ''e'' then mul32 (as_i32 (length (r_text r))) 12 else 0);
          value_x = add32 text_x prefix_width;
          max_chars = nat (div32 (max (sub32 (sub32 width 32) prefix_width) 12) 12);
          start = edit_visible_start (length value) cursor (max max_chars 1) in
      [rounded_rect_clipped x y width height surface edge clip] @
      field_label r (value = []) text_x text_y clip @
      field_value value start max_chars value_x text_y (if disabled then 0x0090999f else ink) clip @
      field_caret (c_focused c = Some (cw_id w, index) \<and> \<not> disabled)
        (add32 value_x (mul32 (as_i32 (min (cursor - start) max_chars)) 12)) y height clip)"

definition draw_toggle :: "int \<times> int \<times> int \<times> int \<Rightarrow> bool \<Rightarrow> clip_rect \<Rightarrow> step list" where
  "draw_toggle box disabled clip =
     (case box of (x, y, width, height) \<Rightarrow>
      let tx = sub32 (sub32 (add32 x width) 38) 14; ty = add32 y (div32 (sub32 height 20) 2) in
      [rounded_rect_clipped tx ty 38 20 (if disabled then 0x00cfd4d7 else 0x00c8cdd1) 0x00adb5ba clip,
       rounded_rect_clipped (add32 tx 3) (add32 ty 3) 14 14 0x00ffffff 0x00ffffff clip])"

definition draw_plain :: "crow \<Rightarrow> int \<times> int \<times> int \<times> int \<Rightarrow> u32 \<Rightarrow> u32 \<Rightarrow> u32 \<Rightarrow> clip_rect \<Rightarrow> step list" where
  "draw_plain r box surface edge ink clip =
     (case box of (x, y, width, height) \<Rightarrow>
      let mid = add32 y (max (div32 (sub32 height 14) 2) 0) in
      if r_kind r = CHR ''h'' then
        [text_clipped (add32 x 4) mid (r_text r) 2 ink clip,
         fill_rect_clipped x (sub32 (add32 y height) 2) width 1 0x00d5d9dc clip]
      else
        (if r_action r \<noteq> [] then [rounded_rect_clipped x y width height surface edge clip] else []) @
        [text_clipped (add32 x 14) mid (r_text r) 2 ink clip] @
        (if r_kind r = CHR ''t'' then draw_toggle box (has_flag r CONTROL_FLAG_DISABLED) clip else []))"

definition row_surface :: "compositor \<Rightarrow> cwindow \<Rightarrow> nat \<Rightarrow> crow \<Rightarrow> u32" where
  "row_surface c w index r =
     (case control_state c (cw_id w) index of (hovered, pressed, _) \<Rightarrow>
      if has_flag r CONTROL_FLAG_DISABLED then CONTROL_LIGHT_DISABLED else if pressed then CONTROL_LIGHT_PRESSED
      else if hovered then CONTROL_LIGHT_HOVER else 0x00ffffff)"

definition draw_row :: "compositor \<Rightarrow> bool \<Rightarrow> cwindow \<Rightarrow> nat \<times> crow \<Rightarrow> step list" where
  "draw_row c focused w = (\<lambda>(index, r).
     if \<not> row_matches_search c w r then []
     else
       let box = row_box c w index r; clip = content_clip w in
       if (case box of (x, y, width, height) \<Rightarrow> clip_intersect clip x y width height) = None then []
       else
         let surface = row_surface c w index r;
             edge = (if c_focused c = Some (cw_id w, index) then CHROME_ACCENT else if focused then 0x00b7bec3 else 0x00c2c8cc);
             ink = (if has_flag r CONTROL_FLAG_DISABLED then 0x00828a90 else CHROME_INK) in
         if r_kind r = CHR ''s'' \<or> r_kind r = CHR ''e'' then draw_field c w index r box surface edge ink
         else draw_plain r box surface edge ink clip)"

definition draw_no_matches :: "compositor \<Rightarrow> cwindow \<Rightarrow> step list" where
  "draw_no_matches c w =
     (if searchable w \<and> (case search_query c (cw_id w) of None \<Rightarrow> [] | Some q \<Rightarrow> q) \<noteq> [] \<and> visible_result_count c w = 0 then
        (case find (\<lambda>r. r_kind r = CHR ''s'') (cw_rows w) of None \<Rightarrow> [] | Some search \<Rightarrow>
          let empty_y = add32 (add32 (sub32 (add32 (cw_y w) (r_y search)) (if is_scrollable w then cw_scroll_y w else 0))
                          (r_height search)) 18 in
          [text_clipped (add32 (add32 (cw_x w) (r_x search)) 8) empty_y ''NO MATCHES'' 1 0x00777f85 (content_clip w)])
      else [])"

text \<open>What a framed window shows below its header; all of it is clipped.\<close>

definition draw_content :: "compositor \<Rightarrow> bool \<Rightarrow> cwindow \<Rightarrow> step list" where
  "draw_content c focused w =
     draw_scrollbar w @ concat (map (draw_row c focused w) (enumerate 0 (cw_rows w))) @ draw_no_matches c w"

definition draw_cwindow :: "compositor \<Rightarrow> bool \<Rightarrow> cwindow \<Rightarrow> step list" where
  "draw_cwindow c focused w =
     (if cw_role w = CHR ''P'' then draw_panel c w
      else if cw_role w = CHR ''D'' then draw_dock c w
      else if cw_role w = CHR ''N'' then draw_notice w
      else draw_frame focused w @ draw_content c focused w)"

section \<open>The pointer and the whole picture\<close>

definition CURSOR :: "string list" where
  "CURSOR =
     [''##......................'', ''#W#.....................'', ''#WW#....................'', ''#WWW#...................'',
      ''#WWWW#..................'', ''#WWWWW#.................'', ''#WWWWWW#................'', ''#WWWWWWW#...............'',
      ''#WWWWWWWW#..............'', ''#WWWWWWWWW#.............'', ''#WWWWWWWWWW#............'', ''#WWWWWWWWWWW#...........'',
      ''#WWWWWW#######..........'', ''#WWW#WW#.................'', ''#WW#.#WW#................'', ''#W#..#WW#................'',
      ''##....#WW#...............'', ''......#WW#...............'', ''.......#WW#..............'', ''.......#WW#..............'',
      ''........##...............'', ''........................'', ''........................'', ''........................'']"

definition draw_arrow :: "int \<Rightarrow> int \<Rightarrow> step list" where
  "draw_arrow x y =
     concat (map (\<lambda>(dy, row). concat (map (\<lambda>(dx, pixel).
         if pixel = CHR ''#'' then [set_pixel (add32 x (as_i32 dx)) (add32 y (as_i32 dy)) 0x0019232d]
         else if pixel = CHR ''W'' then [set_pixel (add32 x (as_i32 dx)) (add32 y (as_i32 dy)) 0x00ffffff]
         else []) (enumerate 0 row))) (enumerate 0 CURSOR))"

definition draw_cursor :: "compositor \<Rightarrow> step list" where
  "draw_cursor c =
     (let x = c_cursor_x c; y = c_cursor_y c; shape = cursor_at (c_clients c) x y in
      if shape = 1 then
        [fill_rect (add32 x 5) (add32 y 2) 4 16 0x0019232d, fill_rect (add32 x 9) (add32 y 8) 11 11 0x0019232d,
         fill_rect (add32 x 7) (add32 y 4) 2 12 0x00ffffff, fill_rect (add32 x 10) (add32 y 10) 8 7 0x00ffffff]
      else if shape = 2 then
        [fill_rect (add32 x 5) y 3 22 0x0019232d, fill_rect x y 13 3 0x0019232d,
         fill_rect x (add32 y 19) 13 3 0x0019232d, fill_rect (add32 x 6) (add32 y 2) 1 18 0x00ffffff]
      else draw_arrow x y)"

definition draw_windows :: "compositor \<Rightarrow> step list" where
  "draw_windows c =
     (let focused = rposition (\<lambda>w. \<not> cw_minimized w) (c_windows c) in
      concat (map (\<lambda>(k, w). if cw_minimized w then [] else draw_cwindow c (focused = Some k) w) (enumerate 0 (c_windows c))))"

definition render :: "compositor \<Rightarrow> compositor option" where
  "render c =
     (case steps (wallpaper c @ draw_windows c @ [paint (c_clients c)] @ draw_cursor c) (c_pixels c) of
        None \<Rightarrow> None
      | Some px \<Rightarrow> Some (c\<lparr>c_pixels := px\<rparr>))"

text \<open>\<^verbatim>\<open>present\<close> copies the buffer to the framebuffer, one pixel after the other.\<close>

definition present :: "compositor \<Rightarrow> nat \<Rightarrow> (nat \<Rightarrow> u32) \<Rightarrow> nat \<Rightarrow> u32" where
  "present c framebuffer vram = fold (\<lambda>(offset, pixel) m. m(framebuffer + offset := pixel)) (enumerate 0 (c_pixels c)) vram"

end
