(* ===== verification/Compositor_Paint.thy ===== *)
theory Compositor_Paint
  imports Compositor_Draw
begin

text \<open>
  What the renderer of \<open>Compositor_Draw\<close> paints: no step writes outside the pixel buffer, clipped drawing
  stays inside its clip rectangle, and the whole picture is always completed.
\<close>

section \<open>What the primitives paint\<close>

definition is_i32 :: "int \<Rightarrow> bool" where
  "is_i32 x \<longleftrightarrow> - 2147483648 \<le> x \<and> x < 2147483648"

lemma is_i32_ops [simp]: "is_i32 (add32 a b)" "is_i32 (sub32 a b)" "is_i32 (mul32 a b)" "is_i32 (sadd32 a b)"
  using i32_wrap_range by (auto simp: is_i32_def add32_def sub32_def mul32_def sadd32_def sat32_def clamp_def)

lemma confined_steps: "\<forall>d \<in> set ds. confined R d \<Longrightarrow> confined R (steps ds)"
  unfolding steps_def by (rule confined_for_each)

lemma nth_filled:
  "l \<le> r \<Longrightarrow> r \<le> length px \<Longrightarrow> k < length px \<Longrightarrow>
    (take l px @ replicate (r - l) c @ drop r px) ! k = (if l \<le> k \<and> k < r then c else px ! k)"
  by (auto simp: nth_append)

lemma paints_slice:
  assumes "0 \<le> row" "row < int HEIGHT" "0 \<le> a" "a \<le> b" "b \<le> int WIDTH"
  shows "paints (\<lambda>u v. if v = row \<and> a \<le> u \<and> u < b then Some c else None)
    (fill_slice (nat row * WIDTH + nat a) (nat row * WIDTH + nat b) c)"
  unfolding paints_def
proof (intro allI impI)
  fix px assume s: "screen px"
  let ?l = "nat row * WIDTH + nat a" and ?r = "nat row * WIDTH + nat b"
  have "nat row + 1 \<le> HEIGHT" "nat b \<le> WIDTH" "nat a \<le> nat b" using assms by auto
  then have "(nat row + 1) * WIDTH \<le> HEIGHT * WIDTH" "?l \<le> ?r" "?r \<le> (nat row + 1) * WIDTH"
    by - (rule mult_le_mono1, assumption, simp_all)
  then have le: "?l \<le> ?r" "?r \<le> length px" using s by (auto simp: screen_def mult.commute)
  let ?px = "take ?l px @ replicate (?r - ?l) c @ drop ?r px"
  have "fill_slice ?l ?r c px = Some ?px" using le by (simp add: fill_slice_def)
  moreover have "screen ?px" using le s by (simp add: screen_def)
  moreover have "pixel_at ?px u v = (case if v = row \<and> a \<le> u \<and> u < b then Some c else None of None \<Rightarrow> pixel_at px u v | Some c \<Rightarrow> c)"
    if os: "on_screen u v" for u v
  proof -
    let ?k = "nat v * WIDTH + nat u"
    note nth = nth_filled [OF le]
    have u: "nat u < WIDTH" "nat v < HEIGHT" using os by (auto simp: on_screen_def)
    have k: "?k < length px"
    proof -
      have "(nat v + 1) * WIDTH \<le> HEIGHT * WIDTH" using u(2) by (intro mult_le_mono1) simp
      then show ?thesis using u(1) s by (simp add: screen_def mult.commute)
    qed
    have "?l \<le> ?k \<and> ?k < ?r \<longleftrightarrow> v = row \<and> a \<le> u \<and> u < b"
    proof
      assume h: "?l \<le> ?k \<and> ?k < ?r"
      have "nat v = nat row"
      proof (rule ccontr)
        assume "nat v \<noteq> nat row"
        then consider "nat v + 1 \<le> nat row" | "nat row + 1 \<le> nat v" by linarith
        then show False
        proof cases
          case 1
          then have "(nat v + 1) * WIDTH \<le> nat row * WIDTH" by (rule mult_le_mono1)
          then show False using h u(1) by simp
        next
          case 2
          then have "(nat row + 1) * WIDTH \<le> nat v * WIDTH" by (rule mult_le_mono1)
          then show False using h \<open>nat b \<le> WIDTH\<close> by simp
        qed
      qed
      then show "v = row \<and> a \<le> u \<and> u < b" using h assms os by (auto simp: on_screen_def)
    next
      assume "v = row \<and> a \<le> u \<and> u < b"
      then show "?l \<le> ?k \<and> ?k < ?r" using assms by auto
    qed
    then show ?thesis using nth [OF k] by (simp add: pixel_at_def)
  qed
  ultimately show "\<exists>px'. fill_slice ?l ?r c px = Some px' \<and> screen px' \<and> (\<forall>u v. on_screen u v \<longrightarrow>
      pixel_at px' u v = (case if v = row \<and> a \<le> u \<and> u < b then Some c else None of None \<Rightarrow> pixel_at px u v | Some c \<Rightarrow> c))"
    by blast
qed

lemma paints_fill_rect:
  "paints (\<lambda>u v. if width > 0 \<and> height > 0 \<and> x \<le> u \<and> u < sadd32 x width \<and> y \<le> v \<and> v < sadd32 y height then Some c else None)
    (fill_rect x y width height c)"
proof (cases "width \<le> 0 \<or> height \<le> 0")
  case True
  then have "fill_rect x y width height c = Some" by (auto simp: fill_rect_def)
  moreover have "\<not> (width > 0 \<and> height > 0 \<and> Q)" for Q using True by auto
  ultimately show ?thesis using paints_none by (auto simp: paints_def)
next
  case False
  let ?l = "min (max x 0) (int WIDTH)" and ?r = "min (max (sadd32 x width) 0) (int WIDTH)"
  let ?t = "min (max y 0) (int HEIGHT)" and ?b = "min (max (sadd32 y height) 0) (int HEIGHT)"
  have "x \<le> sadd32 x width \<or> sadd32 x width = 2147483647" using False by (simp add: sadd32_def sat32_def clamp_def)
  then have mono: "?l \<le> ?r" unfolding WIDTH_def by (elim disjE) simp_all
  let ?v = "\<lambda>row u v. if v = int row \<and> ?l \<le> u \<and> u < ?r then Some c else None"
  have f: "fill_rect x y width height c = for_each (\<lambda>row. fill_slice (row * WIDTH + nat ?l) (row * WIDTH + nat ?r) c) [nat ?t..<nat ?b]"
    using False by (auto simp: fill_rect_def Let_def)
  have p: "paints (?v row) (fill_slice (row * WIDTH + nat ?l) (row * WIDTH + nat ?r) c)" if "row \<in> set [nat ?t..<nat ?b]" for row
  proof -
    have "int row < int HEIGHT" using that by auto
    from paints_slice [OF _ this _ mono, of c] show ?thesis by simp
  qed
  then have all: "paints (last_of ?v [nat ?t..<nat ?b]) (fill_rect x y width height c)"
    unfolding f by (intro paints_for_each ballI)
  show ?thesis
  proof (rule paints_cong [OF all])
    fix u v assume os: "on_screen u v"
    have "last_of ?v [nat ?t..<nat ?b] u v = (if \<exists>row \<in> set [nat ?t..<nat ?b]. ?v row u v = Some c then Some c else None)"
      by (rule last_of_uniform) auto
    moreover have "(\<exists>row \<in> set [nat ?t..<nat ?b]. ?v row u v = Some c) \<longleftrightarrow>
        x \<le> u \<and> u < sadd32 x width \<and> y \<le> v \<and> v < sadd32 y height"
    proof
      assume "\<exists>row \<in> set [nat ?t..<nat ?b]. ?v row u v = Some c"
      then obtain row where "nat ?t \<le> row" "row < nat ?b" "v = int row" "?l \<le> u" "u < ?r" by (auto split: if_splits)
      then show "x \<le> u \<and> u < sadd32 x width \<and> y \<le> v \<and> v < sadd32 y height" using os by (simp add: on_screen_def) linarith
    next
      assume h: "x \<le> u \<and> u < sadd32 x width \<and> y \<le> v \<and> v < sadd32 y height"
      then have "nat v \<in> set [nat ?t..<nat ?b]" "?l \<le> u" "u < ?r" "v = int (nat v)"
        using os by (simp_all add: on_screen_def nat_less_eq_zless nat_le_eq_zle)
      then show "\<exists>row \<in> set [nat ?t..<nat ?b]. ?v row u v = Some c" by (intro bexI [of _ "nat v"]) simp_all
    qed
    ultimately show "last_of ?v [nat ?t..<nat ?b] u v =
        (if width > 0 \<and> height > 0 \<and> x \<le> u \<and> u < sadd32 x width \<and> y \<le> v \<and> v < sadd32 y height then Some c else None)"
      using False by simp
  qed
qed

lemma confined_fill_rect: "confined (\<lambda>_ _. True) (fill_rect x y w h c)"
  using paints_fill_rect unfolding confined_def by blast

definition clip_i32 :: "clip_rect \<Rightarrow> bool" where
  "clip_i32 c \<longleftrightarrow> is_i32 (cl_left c) \<and> is_i32 (cl_top c) \<and> is_i32 (cl_right c) \<and> is_i32 (cl_bottom c)"

lemma i32_wrap_once:
  assumes "2147483648 \<le> x" "x < 4294967296"
  shows "i32_wrap x = x - 4294967296"
proof -
  have "(x + 2147483648) mod 4294967296 = ((x - 2147483648) + 4294967296) mod 4294967296"
    by (simp add: add.commute)
  also have "\<dots> = (x - 2147483648) mod 4294967296" by (rule mod_add_self2)
  also have "\<dots> = x - 2147483648" using assms by (intro mod_pos_pos_trivial) simp_all
  finally show ?thesis by (simp add: i32_wrap_def)
qed

lemma is_i32_minmax [simp]: "is_i32 a \<Longrightarrow> is_i32 b \<Longrightarrow> is_i32 (max a b)" "is_i32 a \<Longrightarrow> is_i32 b \<Longrightarrow> is_i32 (min a b)"
  by (simp_all add: max_def min_def)

lemma wrapped_width:
  assumes "is_i32 l" "is_i32 r" "l < r" "0 < sub32 r l"
  shows "sadd32 l (sub32 r l) = r"
proof -
  have "sub32 r l = r - l"
  proof (cases "r - l < 2147483648")
    case True
    then show ?thesis using assms(3) by (simp add: sub32_def)
  next
    case False
    have "i32_wrap (r - l) = r - l - 4294967296"
      using False assms(1-3) by (intro i32_wrap_once) (simp_all add: is_i32_def)
    then show ?thesis using assms by (simp add: sub32_def is_i32_def)
  qed
  then show ?thesis using assms(2) by (simp add: sadd32_def sat32_def is_i32_def)
qed

text \<open>Clipped drawing stays inside the clip rectangle.\<close>

lemma confined_clipped:
  assumes "clip_i32 clip" "is_i32 x" "is_i32 y"
  shows "confined (clip_contains clip) (fill_rect_clipped x y w h c clip)"
proof (cases "clip_intersect clip x y w h")
  case None
  then show ?thesis using confined_Some by (simp add: fill_rect_clipped_def)
next
  case (Some b)
  let ?l = "max x (cl_left clip)" and ?t = "max y (cl_top clip)"
  let ?r = "min (sadd32 x w) (cl_right clip)" and ?b = "min (sadd32 y h) (cl_bottom clip)"
  have b: "b = (?l, ?t, sub32 ?r ?l, sub32 ?b ?t)" and lt: "?l < ?r" "?t < ?b"
    using Some by (auto simp: clip_intersect_def Let_def split: if_splits)
  have i: "is_i32 ?l" "is_i32 ?r" "is_i32 ?t" "is_i32 ?b"
    using assms by (simp_all add: clip_i32_def)
  note wx = wrapped_width [OF i(1,2) lt(1)] and wy = wrapped_width [OF i(3,4) lt(2)]
  have f: "fill_rect_clipped x y w h c clip = fill_rect ?l ?t (sub32 ?r ?l) (sub32 ?b ?t) c"
    by (simp add: fill_rect_clipped_def Some b)
  let ?v = "\<lambda>u v. if sub32 ?r ?l > 0 \<and> sub32 ?b ?t > 0 \<and> ?l \<le> u \<and> u < sadd32 ?l (sub32 ?r ?l) \<and> ?t \<le> v \<and>
      v < sadd32 ?t (sub32 ?b ?t) then Some c else None"
  have "clip_contains clip u v" if "?v u v \<noteq> None" for u v
  proof -
    have h: "sub32 ?r ?l > 0" "sub32 ?b ?t > 0" "?l \<le> u" "u < sadd32 ?l (sub32 ?r ?l)" "?t \<le> v" "v < sadd32 ?t (sub32 ?b ?t)"
      using that by (metis (no_types, lifting))+
    then have "?l \<le> u" "u < ?r" "?t \<le> v" "v < ?b" using wx [OF h(1)] wy [OF h(2)] by simp_all
    then show ?thesis by (simp add: clip_contains_def)
  qed
  then show ?thesis unfolding f confined_def using paints_fill_rect by blast
qed

text \<open>Outlines and text are confined as their filler is.\<close>

definition filler_ok :: "(int \<Rightarrow> int \<Rightarrow> bool) \<Rightarrow> filler \<Rightarrow> bool" where
  "filler_ok R fill \<longleftrightarrow> (\<forall>x y w h c. is_i32 x \<longrightarrow> is_i32 y \<longrightarrow> confined R (fill x y w h c))"

lemma filler_okD: "filler_ok R fill \<Longrightarrow> is_i32 x \<Longrightarrow> is_i32 y \<Longrightarrow> confined R (fill x y w h c)"
  by (simp add: filler_ok_def)

lemma confined_border: "filler_ok R fill \<Longrightarrow> is_i32 x \<Longrightarrow> is_i32 y \<Longrightarrow> confined R (border_with fill x y w h c)"
  unfolding border_with_def by (rule confined_steps) (simp add: filler_ok_def)

lemma confined_rounded: "filler_ok R fill \<Longrightarrow> is_i32 x \<Longrightarrow> is_i32 y \<Longrightarrow> confined R (rounded_with fill x y w h a b)"
  using confined_border [of R fill x y] by (simp add: rounded_with_def confined_steps filler_ok_def)

lemma confined_text_with:
  assumes "filler_ok R fill"
  shows "confined R (text_with fill x y label scale color)"
  unfolding text_with_def
proof (intro confined_for_each ballI)
  fix ib :: "nat \<times> char"
  obtain i b where ib: "ib = (i, b)" by fastforce
  show "confined R (case ib of (index, byte) \<Rightarrow> for_each (\<lambda>(row, bits). for_each (\<lambda>column px.
         if bit (bits :: nat) (4 - column) then
           fill (add32 (add32 x (mul32 (mul32 (as_i32 index) 6) scale)) (mul32 (int column) scale))
                (add32 y (mul32 (as_i32 row) scale)) scale scale color px
         else Some px) [0..<5]) (enumerate 0 (glyph (to_ascii_uppercase byte))))"
    unfolding ib prod.case
  proof (intro confined_for_each ballI)
    fix rb :: "nat \<times> nat"
    obtain r bs where rb: "rb = (r, bs)" by fastforce
    show "confined R (case rb of (row, bits) \<Rightarrow> for_each (\<lambda>column px.
         if bit (bits :: nat) (4 - column) then
           fill (add32 (add32 x (mul32 (mul32 (as_i32 i) 6) scale)) (mul32 (int column) scale))
                (add32 y (mul32 (as_i32 row) scale)) scale scale color px
         else Some px) [0..<5])"
      unfolding rb prod.case
    proof (intro confined_for_each ballI)
      fix col
      have f: "confined R (fill (add32 (add32 x (mul32 (mul32 (as_i32 i) 6) scale)) (mul32 (int col) scale))
          (add32 y (mul32 (as_i32 r) scale)) scale scale color)"
        using assms by (rule filler_okD) simp_all
      show "confined R (\<lambda>px. if bit bs (4 - col) then
           fill (add32 (add32 x (mul32 (mul32 (as_i32 i) 6) scale)) (mul32 (int col) scale))
                (add32 y (mul32 (as_i32 r) scale)) scale scale color px else Some px)"
        using f confined_Some by (cases "bit bs (4 - col)") simp_all
    qed
  qed
qed

lemma filler_fill_rect: "filler_ok (\<lambda>_ _. True) fill_rect"
  by (simp add: filler_ok_def confined_fill_rect)

lemma filler_clipped: "clip_i32 clip \<Longrightarrow> filler_ok (clip_contains clip) (\<lambda>x y w h color. fill_rect_clipped x y w h color clip)"
  by (simp add: filler_ok_def confined_clipped)

named_theorems confine "drawing steps and the regions they stay in"

lemma confined_unclipped [confine]:
  "confined (\<lambda>_ _. True) (fill_rect x y w h c)" "confined (\<lambda>_ _. True) (c_text x y label scale c)"
  "is_i32 x \<Longrightarrow> is_i32 y \<Longrightarrow> confined (\<lambda>_ _. True) (rounded_rect x y w h c e)"
  "is_i32 x \<Longrightarrow> is_i32 y \<Longrightarrow> confined (\<lambda>_ _. True) (c_border x y w h c)"
  using filler_fill_rect
  by (simp_all add: confined_fill_rect c_text_def confined_text_with rounded_rect_def confined_rounded c_border_def confined_border)

lemma confined_in_clip [confine]:
  "clip_i32 clip \<Longrightarrow> is_i32 x \<Longrightarrow> is_i32 y \<Longrightarrow> confined (clip_contains clip) (fill_rect_clipped x y w h c clip)"
  "clip_i32 clip \<Longrightarrow> confined (clip_contains clip) (text_clipped x y label scale c clip)"
  "clip_i32 clip \<Longrightarrow> is_i32 x \<Longrightarrow> is_i32 y \<Longrightarrow> confined (clip_contains clip) (rounded_rect_clipped x y w h c e clip)"
  by (simp_all add: confined_clipped text_clipped_def confined_text_with rounded_rect_clipped_def confined_rounded filler_clipped)

lemma clip_i32_content [simp]: "is_i32 (cw_y w) \<Longrightarrow> clip_i32 (content_clip w)"
  by (simp add: clip_i32_def content_clip_def Let_def)

section \<open>Windows\<close>

lemma edit_start_le: "edit_visible_start len cursor m \<le> len"
  by (auto simp: edit_visible_start_def)

lemma confined_field_parts:
  assumes "clip_i32 clip"
  shows "\<forall>d \<in> set (field_label r e x y clip). confined (clip_contains clip) d"
    "\<forall>d \<in> set (field_value v (edit_visible_start (length v) k m) n x y c clip). confined (clip_contains clip) d"
    "is_i32 x \<Longrightarrow> \<forall>d \<in> set (field_caret b x y h clip). confined (clip_contains clip) d"
  using assms edit_start_le [of "length v" k m]
  by (auto simp: field_label_def field_value_def field_caret_def Let_def intro!: confine)

lemma confined_field:
  assumes "is_i32 (cw_y w)" "is_i32 x" "is_i32 y"
  shows "\<forall>d \<in> set (draw_field c w k r (x, y, width, height) a b i). confined (clip_contains (content_clip w)) d"
  unfolding draw_field_def Let_def prod.case set_append ball_Un
  using assms by (intro conjI confined_field_parts) (simp_all add: confine)

lemma confined_plain:
  assumes "clip_i32 clip" "is_i32 x" "is_i32 y"
  shows "\<forall>d \<in> set (draw_plain r (x, y, width, height) a b i clip). confined (clip_contains clip) d"
  using assms by (auto simp: draw_plain_def draw_toggle_def Let_def confine)

lemma confined_row:
  assumes "is_i32 (cw_y w)"
  shows "\<forall>d \<in> set (draw_row c f w kr). confined (clip_contains (content_clip w)) d"
proof -
  obtain k r where kr: "kr = (k, r)" by fastforce
  obtain x y width height where box: "row_box c w k r = (x, y, width, height)" by (cases "row_box c w k r")
  have i: "is_i32 x" "is_i32 y" using box by (auto simp: row_box_def Let_def split_beta)
  show ?thesis
    using assms confined_field [OF assms i] confined_plain [OF _ i]
    by (simp add: kr draw_row_def box Let_def)
qed

lemma confined_scrollbar: "is_i32 (cw_y w) \<Longrightarrow> \<forall>d \<in> set (draw_scrollbar w). confined (clip_contains (content_clip w)) d"
  by (simp add: draw_scrollbar_def Let_def confine)

lemma all_if_list: "P d \<Longrightarrow> \<forall>x \<in> set (if b then [d] else []). P x"
  by simp

lemma confined_no_matches:
  assumes "is_i32 (cw_y w)"
  shows "\<forall>d \<in> set (draw_no_matches c w). confined (clip_contains (content_clip w)) d"
proof (cases "find (\<lambda>r. r_kind r = CHR ''s'') (cw_rows w)")
  case None
  then show ?thesis unfolding draw_no_matches_def by (simp only: option.case if_cancel list.set ball_empty)
next
  case (Some search)
  show ?thesis unfolding draw_no_matches_def Some option.case Let_def
    by (rule all_if_list, rule confined_in_clip) (simp add: assms)
qed

lemma confined_content:
  assumes "is_i32 (cw_y w)"
  shows "\<forall>d \<in> set (draw_content c f w). confined (clip_contains (content_clip w)) d"
  unfolding draw_content_def set_append ball_Un set_concat ball_UN set_map
  using confined_scrollbar [OF assms] confined_no_matches [OF assms] confined_row [OF assms] by blast

definition total_step :: "step \<Rightarrow> bool" where
  "total_step d \<longleftrightarrow> confined (\<lambda>_ _. True) d"

lemma total_steps: "\<forall>d \<in> set ds. total_step d \<Longrightarrow> total_step (steps ds)"
  unfolding total_step_def by (rule confined_steps)

lemma total_of_confined: "confined R d \<Longrightarrow> total_step d"
  unfolding total_step_def by (erule confined_mono) (rule TrueI)

lemma total_primitives [simp]:
  "total_step (fill_rect x y w h c)" "total_step (c_text x y label scale c)"
  "is_i32 x \<Longrightarrow> is_i32 y \<Longrightarrow> total_step (rounded_rect x y w h c e)"
  "is_i32 x \<Longrightarrow> is_i32 y \<Longrightarrow> total_step (c_border x y w h c)"
  by (simp_all add: total_step_def confine)

lemma total_panel:
  assumes "is_i32 (cw_x w)" "is_i32 (cw_y w)"
  shows "\<forall>d \<in> set (draw_panel c w). total_step d"
proof -
  have "\<forall>d \<in> set (panel_row c w kr). total_step d" for kr
    by (cases kr) (auto simp: panel_row_def Let_def split_beta)
  moreover have "\<forall>d \<in> set (panel_compat w). total_step d"
    by (auto simp: panel_compat_def Let_def split: option.splits)
  ultimately show ?thesis unfolding draw_panel_def by auto
qed

lemma total_dock:
  assumes "is_i32 (cw_x w)" "is_i32 (cw_y w)"
  shows "\<forall>d \<in> set (draw_dock c w). total_step d"
proof -
  have "\<forall>d \<in> set (dock_tile c w kr). total_step d" for kr
    by (cases kr) (auto simp: dock_tile_def Let_def split_beta)
  then show ?thesis using assms unfolding draw_dock_def by auto
qed

lemma total_notice: "is_i32 (cw_x w) \<Longrightarrow> is_i32 (cw_y w) \<Longrightarrow> \<forall>d \<in> set (draw_notice w). total_step d"
  by (auto simp: draw_notice_def)

lemma total_frame: "is_i32 (cw_x w) \<Longrightarrow> is_i32 (cw_y w) \<Longrightarrow> \<forall>d \<in> set (draw_frame f w). total_step d"
  by (simp add: draw_frame_def Let_def)

lemma total_cwindow:
  assumes "is_i32 (cw_x w)" "is_i32 (cw_y w)"
  shows "\<forall>d \<in> set (draw_cwindow c f w). total_step d"
proof -
  have "\<forall>d \<in> set (draw_content c f w). total_step d" using confined_content [OF assms(2)] total_of_confined by blast
  then show ?thesis
    using total_panel [OF assms] total_dock [OF assms] total_notice [OF assms] total_frame [OF assms]
    unfolding draw_cwindow_def by auto
qed

lemma total_cursor: "is_i32 (c_cursor_x c) \<Longrightarrow> is_i32 (c_cursor_y c) \<Longrightarrow> \<forall>d \<in> set (draw_cursor c). total_step d"
proof -
  have p: "total_step (set_pixel x y col)" for x y col
  proof (cases "on_screen x y")
    case True
    then have "set_pixel x y col = put_pixel (nat y * WIDTH + nat x) col"
      by (auto simp: set_pixel_def on_screen_def WIDTH_def HEIGHT_def nat_less_iff)
    then show ?thesis using paints_pixel [OF True] by (auto simp: total_step_def confined_def)
  next
    case False
    then have "set_pixel x y col = Some"
      by (auto simp: set_pixel_def on_screen_def WIDTH_def HEIGHT_def nat_less_iff)
    then show ?thesis using confined_Some by (simp add: total_step_def)
  qed
  then have "\<forall>d \<in> set (draw_arrow x y). total_step d" for x y by (auto simp: draw_arrow_def split: if_splits)
  then show ?thesis by (simp add: draw_cursor_def Let_def)
qed

lemma total_wallpaper: "\<forall>d \<in> set (wallpaper c). total_step d"
  by (auto simp: wallpaper_def Let_def)

definition windows_i32 :: "compositor \<Rightarrow> bool" where
  "windows_i32 c \<longleftrightarrow> (\<forall>w \<in> set (c_windows c). is_i32 (cw_x w) \<and> is_i32 (cw_y w)) \<and> is_i32 (c_cursor_x c) \<and> is_i32 (c_cursor_y c)"

lemma total_windows: "windows_i32 c \<Longrightarrow> \<forall>d \<in> set (draw_windows c). total_step d"
proof -
  assume a: "windows_i32 c"
  have "\<forall>d \<in> set (draw_cwindow c f (c_windows c ! k)). total_step d" if "k < length (c_windows c)" for f k
    using a nth_mem [OF that] by (intro total_cwindow) (auto simp: windows_i32_def)
  then show ?thesis by (auto simp: draw_windows_def Let_def in_set_enumerate_eq split: if_splits)
qed

lemma render_total:
  assumes "windows_i32 c" "ws_inv (c_clients c)" "screen (c_pixels c)"
  obtains px where "render c = Some (c\<lparr>c_pixels := px\<rparr>)" "screen px"
proof -
  have "total_step (paint (c_clients c))" using paint_paints [OF assms(2)] by (auto simp: total_step_def confined_def)
  then have "total_step (steps (wallpaper c @ draw_windows c @ [paint (c_clients c)] @ draw_cursor c))"
    using total_wallpaper total_windows [OF assms(1)] total_cursor [of c] assms(1)
    by (intro total_steps) (auto simp: windows_i32_def)
  then obtain v where "paints v (steps (wallpaper c @ draw_windows c @ [paint (c_clients c)] @ draw_cursor c))"
    by (auto simp: total_step_def confined_def)
  then obtain px where "steps (wallpaper c @ draw_windows c @ [paint (c_clients c)] @ draw_cursor c) (c_pixels c) = Some px" "screen px"
    using assms(3) unfolding paints_def by blast
  then show thesis by (intro that [of px]) (simp_all add: render_def)
qed

end
