(* ===== verification/Compositor.thy ===== *)
theory Compositor
  imports Compositor_Paint "HOL-Library.Monad_Syntax"
begin

text \<open>
  The compositor's entry points (\<^verbatim>\<open>compositor.rs\<close>): construction from the shell model of the C++ side, the
  host's surface protocol, client commands, keyboard and pointer packets. Every entry point ends with the renderer of
  \<open>Compositor_Draw\<close>; \<open>None\<close> is a panic. The surfaces that \<^verbatim>\<open>ffi::shell_surface\<close> returns are an argument.
\<close>

section \<open>Construction\<close>

record shell_surface =
  ss_id :: string
  ss_role :: char
  ss_visible :: bool
  ss_x :: int
  ss_y :: int
  ss_width :: int
  ss_height :: int
  ss_title :: string
  ss_items :: "crow list"

definition surface_role :: "char \<Rightarrow> bool" where
  "surface_role r \<longleftrightarrow> r \<in> {CHR ''P'', CHR ''D'', CHR ''L'', CHR ''N'', CHR ''W''}"

definition surface_size :: "int \<Rightarrow> int \<Rightarrow> bool" where
  "surface_size width height \<longleftrightarrow> \<not> (width < 40 \<or> height < 30 \<or> width > int WIDTH \<or> height > int HEIGHT)"

definition shell_windows :: "shell_surface option list \<Rightarrow> cwindow list" where
  "shell_windows surfaces =
     map (\<lambda>s. \<lparr>cw_id = ss_id s, cw_role = ss_role s, cw_x = ss_x s, cw_y = ss_y s, cw_width = ss_width s, cw_height = ss_height s,
               cw_title = ss_title s, cw_rows = take 16 (ss_items s), cw_native = False, cw_maximized = False,
               cw_minimized = \<not> ss_visible s, cw_scroll_y = 0, cw_restore = None\<rparr>)
       (filter (\<lambda>s. surface_role (ss_role s) \<and> surface_size (ss_width s) (ss_height s))
         (map the (filter (\<lambda>s. s \<noteq> None) (take C_MAX_WINDOWS surfaces))))"

definition empty_compositor :: compositor where
  "empty_compositor = \<lparr>c_pixels = replicate (WIDTH * HEIGHT) 0, c_clients = ws_new, c_windows = [], c_next_id = 1,
     c_wallpaper_base = 0x001c5f91, c_cursor_x = int (WIDTH div 2), c_cursor_y = int (HEIGHT div 2), c_left_down = False,
     c_hovered = None, c_pressed = None, c_focused = None, c_edits = [], c_scope = Desktop, c_drag = None\<rparr>"

definition comp_new :: "u32 \<Rightarrow> shell_surface option list \<Rightarrow> compositor option" where
  "comp_new abi surfaces =
     render (if abi = 3 then empty_compositor\<lparr>c_windows := shell_windows surfaces\<rparr> else empty_compositor)"

definition plain_row :: "string \<Rightarrow> string \<Rightarrow> char \<Rightarrow> crow" where
  "plain_row txt action kind = \<lparr>r_text = txt, r_action = action, r_kind = kind, r_style = 0, r_flags = 0,
     r_x = 0, r_y = 0, r_width = 0, r_height = 0\<rparr>"

definition open_test_window :: "compositor \<Rightarrow> compositor option" where
  "open_test_window c =
     (if length (c_windows c) = C_MAX_WINDOWS then Some c
      else
        let offset = mul32 (as_i32 (length (c_windows c))) 28 in
        render (c\<lparr>c_windows := c_windows c @ [\<lparr>cw_id = ''native'' @ show_nat (unat (c_next_id c)), cw_role = CHR ''W'',
            cw_x = add32 104 offset, cw_y = add32 88 offset, cw_width = 440, cw_height = 300, cw_title = ''WINDOW TEST'',
            cw_rows = [plain_row ''RUST COMPOSITOR'' [] (CHR ''l''), plain_row ''DRAG TITLE BAR'' [] (CHR ''l'')],
            cw_native = True, cw_maximized = False, cw_minimized = False, cw_scroll_y = 0, cw_restore = None\<rparr>],
          c_next_id := max (c_next_id c + 1) 1\<rparr>))"

section \<open>The surface protocol\<close>

fun splitn :: "nat \<Rightarrow> char \<Rightarrow> string \<Rightarrow> string list" where
  "splitn 0 ch s = []"
| "splitn (Suc 0) ch s = [s]"
| "splitn (Suc (Suc n)) ch s = (case split_once ch s of None \<Rightarrow> [s] | Some (a, b) \<Rightarrow> a # splitn (Suc n) ch b)"

fun parse_rows :: "string list \<Rightarrow> crow list option" where
  "parse_rows [] = Some []"
| "parse_rows (part # parts) =
     (if part = [] then parse_rows parts
      else
        let (txt, action) = (case split_once (CHR ''@'') part of None \<Rightarrow> (part, []) | Some ta \<Rightarrow> ta) in
        if length txt > 96 \<or> length action > 64 then None
        else
          let (kind, txt) = (case split_once (CHR '':'') txt of
                None \<Rightarrow> (CHR ''l'', txt)
              | Some (k, v) \<Rightarrow> ((case k of [] \<Rightarrow> CHR ''l'' | ch # _ \<Rightarrow> ch), v)) in
          map_option ((#) (plain_row txt action kind)) (parse_rows parts))"

definition place_surface :: "string \<Rightarrow> char \<Rightarrow> int \<Rightarrow> int \<Rightarrow> int \<Rightarrow> int \<Rightarrow> string \<Rightarrow> crow list \<Rightarrow> compositor \<Rightarrow> compositor option" where
  "place_surface i role x y width height title rows c =
     (case position (\<lambda>w. cw_id w = i) (c_windows c) of
        Some k \<Rightarrow>
          let w = (c_windows c ! k)\<lparr>cw_role := role, cw_x := x, cw_y := y, cw_width := width, cw_height := height,
                cw_title := title, cw_rows := rows, cw_minimized := False\<rparr> in
          Some (c\<lparr>c_edits := filter (\<lambda>e. e_window e \<noteq> i) (c_edits c),
                  c_windows := remove_nth k (c_windows c) @ [clamp_scroll w]\<rparr>)
      | None \<Rightarrow>
          if length (c_windows c) \<ge> C_MAX_WINDOWS then None
          else Some (c\<lparr>c_windows := c_windows c @ [\<lparr>cw_id = i, cw_role = role, cw_x = x, cw_y = y, cw_width = width,
                 cw_height = height, cw_title = title, cw_rows = rows, cw_native = False, cw_maximized = False,
                 cw_minimized = False, cw_scroll_y = 0, cw_restore = None\<rparr>]\<rparr>))"

text \<open>The result is the state before rendering, or \<open>None\<close> for a line that is rejected.\<close>

definition show_command :: "string \<Rightarrow> compositor \<Rightarrow> compositor option" where
  "show_command payload c =
     (case splitn 8 (CHR ''|'') payload of
        [i, role, x, y, width, height, title, rows] \<Rightarrow>
          if i = [] \<or> length i > 32 \<or> length title > 40 \<or> length rows > 320 then None
          else if role = ''B'' then
            (case title of
               ch # hex \<Rightarrow>
                 if ch \<noteq> CHR ''#'' then None
                 else map_option (\<lambda>color. c\<lparr>c_wallpaper_base := color AND 0x00ffffff\<rparr>) (parse_hex32 hex)
             | [] \<Rightarrow> None)
          else
            (case role of [] \<Rightarrow> None | role # _ \<Rightarrow>
             if \<not> surface_role role then None
             else case (parse_i32_str x, parse_i32_str y, parse_i32_str width, parse_i32_str height) of
               (Some x, Some y, Some width, Some height) \<Rightarrow>
                 if \<not> surface_size width height then None
                 else (case parse_rows (take 8 (split_on (CHR '';'') rows)) of None \<Rightarrow> None | Some parsed \<Rightarrow>
                   map_option repair_focus_scope (place_surface i role x y width height title parsed c))
             | _ \<Rightarrow> None)
      | _ \<Rightarrow> None)"

definition raise_command :: "string \<Rightarrow> compositor \<Rightarrow> compositor option" where
  "raise_command i c =
     (case position (\<lambda>w. cw_id w = i) (c_windows c) of
        None \<Rightarrow> Some c
      | Some k \<Rightarrow>
          let w = (c_windows c ! k)\<lparr>cw_minimized := False\<rparr> in
          render (set_focus_scope (scope_for_window w) (c\<lparr>c_windows := remove_nth k (c_windows c) @ [w]\<rparr>)))"

definition minimize_command :: "string \<Rightarrow> compositor \<Rightarrow> compositor option" where
  "minimize_command i c =
     (case position (\<lambda>w. cw_id w = i) (c_windows c) of
        None \<Rightarrow> Some c
      | Some k \<Rightarrow> render (repair_focus_scope (upd_cwindow k (\<lambda>w. w\<lparr>cw_minimized := True\<rparr>) c)))"

definition close_command :: "string \<Rightarrow> compositor \<Rightarrow> compositor option" where
  "close_command i c =
     render (repair_focus_scope (c\<lparr>c_windows := filter (\<lambda>w. cw_id w \<noteq> i) (c_windows c),
       c_edits := filter (\<lambda>e. e_window e \<noteq> i) (c_edits c),
       c_wallpaper_base := (if i = ''wallpaper'' then 0x001c5f91 else c_wallpaper_base c)\<rparr>))"

definition comp_command :: "string \<Rightarrow> compositor \<Rightarrow> (bool \<times> compositor) option" where
  "comp_command line c =
     (case strip_prefix ''R|'' line of Some i \<Rightarrow> map_option (Pair True) (raise_command i c) | None \<Rightarrow>
      case strip_prefix ''M|'' line of Some i \<Rightarrow> map_option (Pair True) (minimize_command i c) | None \<Rightarrow>
      case strip_prefix ''X|'' line of Some i \<Rightarrow> map_option (Pair True) (close_command i c) | None \<Rightarrow>
      case strip_prefix ''S|'' line of None \<Rightarrow> Some (False, c) | Some payload \<Rightarrow>
      case show_command payload c of
        None \<Rightarrow> Some (False, c)
      | Some c' \<Rightarrow> map_option (Pair True) (render c'))"

definition starts_with :: "string \<Rightarrow> string \<Rightarrow> bool" where
  "starts_with p s \<longleftrightarrow> strip_prefix p s \<noteq> None"

definition client_command :: "string \<Rightarrow> compositor \<Rightarrow> (bool \<times> wevent list \<times> compositor) option" where
  "client_command line c =
     (if \<not> validate (c_clients c) line then Some (False, [], c)
      else
        let (s, events) = command line (c_clients c); c = c\<lparr>c_clients := s\<rparr> in
        if \<not> starts_with ''WB|'' line \<and> \<not> starts_with ''WP|'' line
        then map_option (\<lambda>c. (True, events, c)) (render c)
        else Some (True, events, c))"

section \<open>The keyboard\<close>

definition rehover :: "compositor \<Rightarrow> compositor" where
  "rehover c = c\<lparr>c_hovered := control_at c (c_cursor_x c) (c_cursor_y c)\<rparr>"

definition scroll_key :: "u8 \<Rightarrow> compositor \<Rightarrow> bool \<times> compositor" where
  "scroll_key scan c =
     (if scan = 0x48 then scroll_scope_by (- SCROLL_LINE) c
      else if scan = 0x50 then scroll_scope_by SCROLL_LINE c
      else if scan = 0x49 then scroll_scope_by (sub32 0 (scope_page_step c)) c
      else if scan = 0x51 then scroll_scope_by (scope_page_step c) c
      else if scan = 0x47 then scroll_scope_to False c
      else if scan = 0x4f then scroll_scope_to True c
      else (False, c))"

definition key_tail :: "u8 \<Rightarrow> u8 option \<Rightarrow> bool \<Rightarrow> compositor \<Rightarrow> (string option \<times> wevent list \<times> compositor) option" where
  "key_tail scan txt reverse_focus c =
     (if scan = 0x0f then
        map_option (\<lambda>c. (None, [], c)) (render (rehover (ensure_focused_visible (focus_next reverse_focus c))))
      else if scan = 0x1c \<or> scan = 0x39 then
        (let c = repair_focus_scope c in
         case focused_action c of
           Some action \<Rightarrow> map_option (\<lambda>c. (Some action, [], c)) (render c)
         | None \<Rightarrow> Some (None, key (c_clients c) scan txt, c))
      else Some (None, key (c_clients c) scan txt, c))"

definition comp_key :: "u8 \<Rightarrow> u8 option \<Rightarrow> bool \<Rightarrow> bool \<Rightarrow> compositor \<Rightarrow> (string option \<times> wevent list \<times> compositor) option" where
  "comp_key scan txt reverse_focus extended c =
     (if is_active (c_clients c) then Some (None, key (c_clients c) scan txt, c)
      else if scan AND 0x80 \<noteq> 0 then Some (None, key (c_clients c) scan txt, c)
      else
        case handle_edit_key scan txt extended c of None \<Rightarrow> None | Some (edited, action, c) \<Rightarrow>
        if edited then map_option (\<lambda>c. (action, [], c)) (render (rehover (repair_focus_scope c)))
        else
          let (handled, c) = (if extended then scroll_key scan c else (False, c)) in
          if handled then map_option (\<lambda>c. (None, [], c)) (render (rehover c))
          else key_tail scan txt reverse_focus c)"

section \<open>The pointer\<close>

definition toggle_maximized :: "cwindow \<Rightarrow> cwindow" where
  "toggle_maximized w =
     clamp_scroll
       (if cw_maximized w then
          (case cw_restore w of
             Some (x, y, width, height) \<Rightarrow> w\<lparr>cw_x := x, cw_y := y, cw_width := width, cw_height := height,
               cw_restore := None, cw_maximized := False\<rparr>
           | None \<Rightarrow> w\<lparr>cw_maximized := False\<rparr>)
        else w\<lparr>cw_restore := Some (cw_x w, cw_y w, cw_width w, cw_height w), cw_x := 8, cw_y := 58,
               cw_width := int WIDTH - 16, cw_height := int HEIGHT - 116, cw_maximized := True\<rparr>)"

text \<open>The row under the pointer: its index (\<^verbatim>\<open>usize::MAX\<close> for none) and whether the press is in the rows at all.\<close>

definition no_row :: nat where "no_row = 2 ^ 64 - 1"

definition row_at :: "compositor \<Rightarrow> cwindow \<Rightarrow> nat \<times> bool" where
  "row_at c w =
     (let lx = sub32 (c_cursor_x c) (cw_x w); ly = local_content_y w (c_cursor_y c) in
      if list_ex laid_out (cw_rows w) then
        (case position (\<lambda>(k, r). \<not> (r_width r \<le> 0 \<or> r_height r \<le> 0 \<or> \<not> row_matches_search c w r) \<and>
                          frame_hit (filtered_frame c w k r) lx ly) (enumerate 0 (cw_rows w)) of
           None \<Rightarrow> (no_row, False) | Some k \<Rightarrow> (k, k \<noteq> no_row))
      else if cw_role w = CHR ''D'' then
        (if 12 \<le> lx \<and> lx \<le> 116 then 0 else if 132 \<le> lx \<and> lx \<le> 236 then 1 else if 252 \<le> lx \<and> lx \<le> 356 then 2 else no_row,
         8 \<le> ly \<and> ly < 60)
      else if cw_role w = CHR ''P'' then
        (if 12 \<le> lx \<and> lx \<le> 210 then 0 else if 420 \<le> lx \<and> lx \<le> 604 then 1 else if 774 \<le> lx \<and> lx \<le> 1012 then 2 else no_row,
         6 \<le> ly \<and> ly < 42)
      else
        (unat (word_of_int (div32 (sub32 (sub32 (c_cursor_y c) (cw_y w)) 62) 42) :: u64),
         c_cursor_y c \<ge> add32 (cw_y w) 62))"

definition focus_row :: "cwindow \<Rightarrow> nat \<times> bool \<Rightarrow> compositor \<Rightarrow> compositor" where
  "focus_row w hit c =
     (case hit of (row, in_rows) \<Rightarrow>
      if \<not> in_rows then c\<lparr>c_focused := None\<rparr>
      else case get row (cw_rows w) of None \<Rightarrow> c | Some r \<Rightarrow>
        if \<not> has_flag r CONTROL_FLAG_DISABLED \<and> has_flag r CONTROL_FLAG_FOCUSABLE then
          let c' = c\<lparr>c_focused := Some (cw_id w, row)\<rparr> in
          if row_is_editable r then
            (case filtered_frame c w row r of (cx, _, cwidth, _) \<Rightarrow>
             place_edit_cursor (cw_id w) row (sub32 (sub32 (c_cursor_x c) (cw_x w)) cx) cwidth
               (if r_kind r = CHR ''e'' then mul32 (as_i32 (length (r_text r))) 12 else 0) c')
          else c'
        else c\<lparr>c_focused := None\<rparr>)"

definition press_content :: "cwindow \<Rightarrow> compositor \<Rightarrow> compositor" where
  "press_content w c =
     (let c' = focus_row w (row_at c w) c;
          c'' = (if cw_role w \<in> {CHR ''W'', CHR ''L''} \<and> \<not> cw_maximized w \<and> c_cursor_y c < add32 (cw_y w) HEADER_HEIGHT
                 then c'\<lparr>c_drag := Some (cw_id w, sub32 (c_cursor_x c) (cw_x w), sub32 (c_cursor_y c) (cw_y w))\<rparr> else c') in
      c''\<lparr>c_windows := c_windows c'' @ [w]\<rparr>)"

definition pointer_down :: "compositor \<Rightarrow> string option \<times> compositor" where
  "pointer_down c =
     (case under_pointer c of None \<Rightarrow> (None, set_focus_scope Desktop c) | Some k \<Rightarrow>
      let w = c_windows c ! k;
          c = set_focus_scope (scope_for_window w) (c\<lparr>c_windows := remove_nth k (c_windows c)\<rparr>);
          ctl = sub32 (c_cursor_x c) (add32 (cw_x w) 15);
          in_buttons = (cw_role w \<in> {CHR ''W'', CHR ''L''} \<and> c_cursor_y c \<ge> add32 (cw_y w) 14 \<and> c_cursor_y c < add32 (cw_y w) 32);
          pushed = (\<lambda>v. c\<lparr>c_windows := c_windows c @ [v]\<rparr>) in
      if in_buttons \<and> 0 \<le> ctl \<and> ctl < 18 then
        (if cw_native w then (None, repair_focus_scope c)
         else (Some (cw_id w @ ''.close''), repair_focus_scope (pushed (w\<lparr>cw_minimized := True\<rparr>))))
      else if in_buttons \<and> 29 \<le> ctl \<and> ctl < 47 then (None, repair_focus_scope (pushed (w\<lparr>cw_minimized := True\<rparr>)))
      else if in_buttons \<and> 58 \<le> ctl \<and> ctl < 76 then (None, pushed (toggle_maximized w))
      else (None, press_content w c))"

definition packet_byte :: "nat \<Rightarrow> u32 \<Rightarrow> int" where
  "packet_byte k packet = sint (ucast (drop_bit k packet) :: u8)"

definition drag_window :: "bool \<Rightarrow> compositor \<Rightarrow> compositor" where
  "drag_window dragging c =
     (if dragging then
        (case c_drag c of None \<Rightarrow> c | Some (i, ox, oy) \<Rightarrow>
         case position (\<lambda>w. cw_id w = i) (c_windows c) of None \<Rightarrow> c | Some k \<Rightarrow>
         upd_cwindow k (\<lambda>w. w\<lparr>cw_x := clamp 0 (int WIDTH - 40) (sub32 (c_cursor_x c) ox),
                               cw_y := clamp 0 (int HEIGHT - 36) (sub32 (c_cursor_y c) oy)\<rparr>) c)
      else c\<lparr>c_drag := None\<rparr>)"

definition press_or_release :: "bool \<Rightarrow> bool \<Rightarrow> compositor \<Rightarrow> string option \<times> compositor" where
  "press_or_release handled left c =
     (if \<not> handled \<and> left \<and> \<not> c_left_down c then pointer_down (c\<lparr>c_pressed := c_hovered c\<rparr>)
      else if \<not> left \<and> c_left_down c then
        (if handled then None else release_control c, c\<lparr>c_pressed := None\<rparr>)
      else (None, c))"

definition move_pointer :: "u32 \<Rightarrow> compositor \<Rightarrow> compositor" where
  "move_pointer packet c =
     c\<lparr>c_cursor_x := clamp 0 (int WIDTH - 1) (add32 (c_cursor_x c) (packet_byte 8 packet)),
       c_cursor_y := clamp 0 (int HEIGHT - 1) (sub32 (c_cursor_y c) (packet_byte 16 packet))\<rparr>"

definition pointer_packet :: "u32 \<Rightarrow> compositor \<Rightarrow> (string option \<times> wevent list \<times> compositor) option" where
  "pointer_packet packet c =
     (let c = move_pointer packet c;
          wheel = packet_byte 24 packet;
          left = (ucast packet AND (1 :: u8) \<noteq> 0);
          (handled, s, events) = pointer (c_cursor_x c) (c_cursor_y c) left (c_left_down c) (c_clients c);
          c = c\<lparr>c_clients := s\<rparr>;
          c = (if \<not> handled \<and> wheel \<noteq> 0 then snd (scroll_under_pointer (sub32 0 (smul32 wheel SCROLL_LINE)) c) else c);
          c = (if handled then c\<lparr>c_hovered := None\<rparr> else rehover c);
          (action, c) = press_or_release handled left c;
          c = (drag_window (left \<and> \<not> handled) c)\<lparr>c_left_down := left\<rparr> in
      map_option (\<lambda>c. (action, events, c)) (render c))"

definition has_client_windows :: "compositor \<Rightarrow> bool" where
  "has_client_windows c = is_active (c_clients c)"

end
