(* ===== verification/Compositor_Edit.thy ===== *)
theory Compositor_Edit
  imports Compositor_State
begin

text \<open>
  The text fields of the compositor against a specification: a field is the text before the caret and the text after
  it, and every key is one of a few editing commands on that pair (\<open>edit_step\<close>). The refinement is
  stated for \<open>edit_key\<close>, the part of \<^verbatim>\<open>handle_edit_key\<close> that works on one field.
\<close>

section \<open>Well-formed fields\<close>

definition printable :: "char \<Rightarrow> bool" where
  "printable ch \<longleftrightarrow> 32 \<le> (of_char ch :: nat) \<and> (of_char ch :: nat) \<le> 126"

definition edit_ok :: "edit_state \<Rightarrow> bool" where
  "edit_ok e \<longleftrightarrow> e_cursor e \<le> length (e_value e) \<and> length (e_value e) \<le> TEXT_INPUT_LIMIT \<and> list_all printable (e_value e)"

lemma printable_byte: "0x20 \<le> byte \<Longrightarrow> byte \<le> (0x7e :: u8) \<Longrightarrow> printable (char_of (unat byte))"
  by (simp add: printable_def word_le_nat_alt)

section \<open>The specification\<close>

type_synonym field = "string \<times> string"

datatype edit_cmd = Caret_Left | Caret_Right | Caret_Home | Caret_End | Del_After | Del_Before | Submit | Insert char

fun edit_step :: "edit_cmd \<Rightarrow> field \<Rightarrow> field" where
  "edit_step Caret_Left (l, r) = (if l = [] then (l, r) else (butlast l, last l # r))"
| "edit_step Caret_Right (l, r) = (if r = [] then (l, r) else (l @ [hd r], tl r))"
| "edit_step Caret_Home (l, r) = ([], l @ r)"
| "edit_step Caret_End (l, r) = (l @ r, [])"
| "edit_step Del_After (l, r) = (l, tl r)"
| "edit_step Del_Before (l, r) = (butlast l, r)"
| "edit_step Submit (l, r) = (l, r)"
| "edit_step (Insert ch) (l, r) = (if length l + length r < 64 then (l @ [ch], r) else (l, r))"

definition field_of :: "edit_state \<Rightarrow> field" where
  "field_of e = (take (e_cursor e) (e_value e), drop (e_cursor e) (e_value e))"

text \<open>Scancodes: the extended cursor keys first, then Backspace, Enter and printable text.\<close>

definition extended_cmd :: "u8 \<Rightarrow> edit_cmd option" where
  "extended_cmd scan = map_of [(0x4b, Caret_Left), (0x4d, Caret_Right), (0x47, Caret_Home), (0x4f, Caret_End), (0x53, Del_After)] scan"

definition plain_cmd :: "u8 \<Rightarrow> u8 option \<Rightarrow> edit_cmd option" where
  "plain_cmd scan txt =
     (if scan = 0x0e then Some Del_Before else if scan = 0x1c then Some Submit
      else case txt of None \<Rightarrow> None | Some b \<Rightarrow> if 0x20 \<le> b \<and> b \<le> 0x7e then Some (Insert (char_of (unat b))) else None)"

definition edit_cmd_of :: "u8 \<Rightarrow> u8 option \<Rightarrow> bool \<Rightarrow> edit_cmd option" where
  "edit_cmd_of scan txt extended =
     (case (if extended then extended_cmd scan else None) of Some cmd \<Rightarrow> Some cmd | None \<Rightarrow> plain_cmd scan txt)"

text \<open>An entry line (kind \<^verbatim>\<open>e\<close>) is emptied when it is submitted; a search line keeps its text.\<close>

definition edit_spec :: "char \<Rightarrow> edit_cmd \<Rightarrow> field \<Rightarrow> field" where
  "edit_spec kind cmd f = (if cmd = Submit \<and> kind = CHR ''e'' then ([], []) else edit_step cmd f)"

definition submitted :: "string \<Rightarrow> edit_cmd \<Rightarrow> field \<Rightarrow> string option" where
  "submitted action cmd f =
     (if cmd = Submit \<and> action \<noteq> [] then Some (action @ [ACTION_VALUE_SEPARATOR] @ fst f @ snd f) else None)"

definition field_ok :: "field \<Rightarrow> bool" where
  "field_ok f \<longleftrightarrow> length (fst f) + length (snd f) \<le> 64 \<and> list_all printable (fst f @ snd f)"

text \<open>The result of a key refines a command: same field, same submission, and the field stays the same one.\<close>

definition edit_refines :: "string \<Rightarrow> char \<Rightarrow> edit_cmd option \<Rightarrow> edit_state \<Rightarrow> edit_result \<Rightarrow> bool" where
  "edit_refines action kind cmd e res \<longleftrightarrow>
     (case cmd of None \<Rightarrow> res = Edit_Ignored | Some cmd \<Rightarrow>
      (case res of Edit_Done e' out \<Rightarrow>
         field_of e' = edit_spec kind cmd (field_of e) \<and> out = submitted action cmd (field_of e) \<and>
         edit_ok e' \<and> e_window e' = e_window e \<and> e_row e' = e_row e
       | _ \<Rightarrow> False))"

section \<open>The refinement\<close>

lemma caret_left: "0 < k \<Longrightarrow> k \<le> length s \<Longrightarrow>
    take k s \<noteq> [] \<and> butlast (take k s) = take (k - 1) s \<and> last (take k s) # drop k s = drop (k - 1) s"
  by (cases k) (auto simp: butlast_take take_Suc_conv_app_nth Cons_nth_drop_Suc)

lemma caret_right: "k < length s \<Longrightarrow> take k s @ [hd (drop k s)] = take (Suc k) s \<and> tl (drop k s) = drop (Suc k) s \<and> drop k s \<noteq> []"
  by (auto simp: take_Suc_conv_app_nth hd_drop_conv_nth drop_Suc tl_drop)

lemma list_all_split: "list_all P (take k s @ drop k' s) \<longleftrightarrow> list_all P (take k s) \<and> list_all P (drop k' s)"
  by simp

lemma list_all_take: "list_all P s \<Longrightarrow> list_all P (take k s)" "list_all P s \<Longrightarrow> list_all P (drop k s)"
  by (auto simp: list_all_iff dest: in_set_takeD in_set_dropD)

lemma extended_refines:
  assumes e: "edit_ok e" and c: "extended_cmd scan = Some cmd"
  shows "edit_refines action kind (Some cmd) e (edit_extended scan e)"
proof -
  have k: "e_cursor e \<le> length (e_value e)" and v: "list_all printable (e_value e)" using e by (auto simp: edit_ok_def)
  consider (left) "scan = 0x4b" "cmd = Caret_Left" | (right) "scan = 0x4d" "cmd = Caret_Right" | (home) "scan = 0x47" "cmd = Caret_Home"
    | (end_key) "scan = 0x4f" "cmd = Caret_End" | (del) "scan = 0x53" "cmd = Del_After"
    using c by (auto simp: extended_cmd_def split: if_splits)
  then show ?thesis
  proof cases
    case left
    show ?thesis
    proof (cases "e_cursor e = 0")
      case True
      then show ?thesis using e left by (simp add: edit_refines_def edit_extended_def field_of_def edit_spec_def submitted_def edit_ok_def)
    next
      case False
      then show ?thesis using caret_left [of "e_cursor e" "e_value e"] e k left
        by (auto simp: edit_refines_def edit_extended_def field_of_def edit_spec_def submitted_def edit_ok_def)
    qed
  next
    case right
    show ?thesis
    proof (cases "e_cursor e = length (e_value e)")
      case True
      then show ?thesis using e right by (simp add: edit_refines_def edit_extended_def field_of_def edit_spec_def submitted_def edit_ok_def)
    next
      case False
      then show ?thesis using caret_right [of "e_cursor e" "e_value e"] e k right
        by (auto simp: edit_refines_def edit_extended_def field_of_def edit_spec_def submitted_def edit_ok_def min_def)
    qed
  next
    case home
    then show ?thesis using e by (simp add: edit_refines_def edit_extended_def field_of_def edit_spec_def submitted_def edit_ok_def)
  next
    case end_key
    then show ?thesis using e by (simp add: edit_refines_def edit_extended_def field_of_def edit_spec_def submitted_def edit_ok_def)
  next
    case del
    then show ?thesis using e k list_all_take [OF v] caret_right [of "e_cursor e" "e_value e"]
      by (auto simp: edit_refines_def edit_extended_def field_of_def edit_spec_def submitted_def edit_ok_def string_remove_def
          min_def)
  qed
qed

lemma plain_refines:
  assumes e: "edit_ok e"
  shows "edit_refines action kind (plain_cmd scan txt) e (edit_plain action kind scan txt e)"
proof -
  have k: "e_cursor e \<le> length (e_value e)" and v: "list_all printable (e_value e)" using e by (auto simp: edit_ok_def)
  consider (back_space) "scan = 0x0e" | (enter) "scan = 0x1c" | (other) "scan \<noteq> 0x0e" "scan \<noteq> 0x1c" by blast
  then show ?thesis
  proof cases
    case back_space
    show ?thesis
    proof (cases "e_cursor e = 0")
      case True
      then show ?thesis using e back_space
        by (simp add: edit_refines_def plain_cmd_def edit_plain_def field_of_def edit_spec_def submitted_def)
    next
      case False
      then show ?thesis using back_space e k list_all_take [OF v] caret_left [of "e_cursor e" "e_value e"]
        by (auto simp: edit_refines_def plain_cmd_def edit_plain_def field_of_def edit_spec_def submitted_def edit_ok_def
            string_remove_def min_def)
    qed
  next
    case enter
    then show ?thesis using e
      by (simp add: edit_refines_def plain_cmd_def edit_plain_def field_of_def edit_spec_def submitted_def edit_ok_def)
  next
    case other
    show ?thesis
    proof (cases "\<exists>b. txt = Some b \<and> 0x20 \<le> b \<and> b \<le> 0x7e")
      case True
      then obtain b where b: "txt = Some b" "0x20 \<le> b" "b \<le> 0x7e" by blast
      show ?thesis using other b e k list_all_take [OF v] printable_byte [OF b(2,3)]
        by (auto simp: edit_refines_def plain_cmd_def edit_plain_def field_of_def edit_spec_def submitted_def edit_ok_def
            string_insert_def TEXT_INPUT_LIMIT_def min_def)
    next
      case False
      then show ?thesis using other by (auto simp: edit_refines_def plain_cmd_def edit_plain_def split: option.splits)
    qed
  qed
qed

lemma edit_extended_ignored: "extended_cmd scan = None \<Longrightarrow> edit_extended scan e = Edit_Ignored"
  by (auto simp: extended_cmd_def edit_extended_def split: if_splits)

lemma refines_not_ignored: "edit_refines action kind (Some cmd) e res \<Longrightarrow> res \<noteq> Edit_Ignored"
  by (auto simp: edit_refines_def)

lemma edit_key_refines:
  assumes "edit_ok e"
  shows "edit_refines action kind (edit_cmd_of scan txt extended) e (edit_key action kind scan txt extended e)"
proof (cases "if extended then extended_cmd scan else None")
  case None
  then show ?thesis using plain_refines [OF assms, of action kind scan "txt"]
    by (auto simp: edit_cmd_of_def edit_key_def edit_extended_ignored split: if_splits)
next
  case (Some cmd)
  then have c: "extended" "extended_cmd scan = Some cmd" by (auto split: if_splits)
  note r = extended_refines [OF assms c(2), of action kind]
  have "edit_key action kind scan txt extended e = edit_extended scan e"
    using refines_not_ignored [OF r] c(1) by (auto simp: edit_key_def split: edit_result.splits)
  then show ?thesis using r Some by (simp add: edit_cmd_of_def)
qed

lemma edit_key_ok:
  assumes "edit_ok e"
  shows "edit_key action kind scan txt extended e \<noteq> Edit_Panic"
    and "edit_key action kind scan txt extended e = Edit_Done e' out \<Longrightarrow> edit_ok e' \<and> e_window e' = e_window e \<and> e_row e' = e_row e"
  using edit_key_refines [OF assms, of action kind scan "txt" extended]
  by (auto simp: edit_refines_def split: option.splits)

section \<open>The focused field of the compositor\<close>

definition field_at :: "compositor \<Rightarrow> string \<Rightarrow> nat \<Rightarrow> field" where
  "field_at c i row = (case edit_snapshot c i row of (v, k) \<Rightarrow> (take k v, drop k v))"

text \<open>The keyboard is on row \<open>row\<close> of window \<open>i\<close>, which is the text field \<open>r\<close>.\<close>

definition editing :: "string \<Rightarrow> nat \<Rightarrow> crow \<Rightarrow> compositor \<Rightarrow> bool" where
  "editing i row r c \<longleftrightarrow> c_focused c = Some (i, row) \<and> list_all edit_ok (c_edits c) \<and>
     (case find (\<lambda>w. cw_id w = i) (c_windows c) of None \<Rightarrow> False
      | Some w \<Rightarrow> \<not> cw_minimized w \<and> get row (cw_rows w) = Some r \<and> row_is_editable r)"

lemma find_stronger: "find P xs = Some x \<Longrightarrow> Q x \<Longrightarrow> find (\<lambda>x. Q x \<and> P x) xs = Some x"
  by (induction xs) (auto split: if_splits)

lemma editing_focus:
  assumes "editing i row r c"
  shows "editable_focus c = Some (i, row)"
    "Option.bind (find (\<lambda>w. cw_id w = i) (c_windows c)) (\<lambda>w. get row (cw_rows w)) = Some r"
proof -
  obtain w where w: "find (\<lambda>w. cw_id w = i) (c_windows c) = Some w" "\<not> cw_minimized w"
      "get row (cw_rows w) = Some r" "row_is_editable r" "c_focused c = Some (i, row)"
    using assms by (auto simp: editing_def split: option.splits)
  show "editable_focus c = Some (i, row)"
    using find_stronger [of "\<lambda>w. cw_id w = i" "c_windows c" w "\<lambda>w. \<not> cw_minimized w"] w by (simp add: editable_focus_def)
  show "Option.bind (find (\<lambda>w. cw_id w = i) (c_windows c)) (\<lambda>w. get row (cw_rows w)) = Some r"
    using w by simp
qed

lemma field_at_index: "edit_index c i row = Some k \<Longrightarrow> field_at c i row = field_of (c_edits c ! k)"
  by (simp add: field_at_def edit_snapshot_def field_of_def)

lemma position_append: "position P (xs @ ys) = (case position P xs of Some k \<Rightarrow> Some k | None \<Rightarrow> map_option (\<lambda>k. k + length xs) (position P ys))"
  by (induction xs) (auto simp: option.map_comp o_def option.map_ident split: option.splits)

lemma ensure_edit_state_spec:
  assumes "ensure_edit_state i row c = (k, c')" "list_all edit_ok (c_edits c)"
  shows "edit_index c' i row = Some k" "k < length (c_edits c')" "field_at c' j q = field_at c j q"
    "list_all edit_ok (c_edits c')" "c_windows c' = c_windows c" "c_focused c' = c_focused c"
proof -
  show a: "edit_index c' i row = Some k" "k < length (c_edits c')" "list_all edit_ok (c_edits c')"
    "c_windows c' = c_windows c" "c_focused c' = c_focused c"
    using assms by (auto simp: ensure_edit_state_def edit_index_def position_append edit_ok_def dest: position_SomeD split: option.splits)
  show "field_at c' j q = field_at c j q"
  proof (cases "edit_index c i row")
    case None
    then have c': "c' = c\<lparr>c_edits := c_edits c @ [\<lparr>e_window = i, e_row = row, e_value = [], e_cursor = 0\<rparr>]\<rparr>"
      using assms(1) by (simp add: ensure_edit_state_def)
    show ?thesis
    proof (cases "edit_index c j q")
      case None
      then show ?thesis by (auto simp: c' field_at_def edit_snapshot_def edit_index_def position_append)
    next
      case (Some m)
      then have "m < length (c_edits c)" using position_SomeD by (fastforce simp: edit_index_def)
      then show ?thesis using Some by (simp add: c' field_at_def edit_snapshot_def edit_index_def position_append nth_append)
    qed
  qed (use assms(1) in \<open>simp add: ensure_edit_state_def\<close>)
qed

lemma position_update:
  assumes "\<And>x. x = xs ! k \<Longrightarrow> P y = P x"
  shows "position P (xs[k := y]) = position P xs"
  using assms
proof (induction xs arbitrary: k)
  case (Cons x xs)
  then show ?case by (cases k) auto
qed simp

lemma upd_edit_fields:
  assumes k: "edit_index c i row = Some k" and e: "e_window e = i" "e_row e = row" "edit_ok e" and ok: "list_all edit_ok (c_edits c)"
  shows "field_at (upd_edit k (\<lambda>_. e) c) i row = field_of e"
    and "(j, q) \<noteq> (i, row) \<Longrightarrow> field_at (upd_edit k (\<lambda>_. e) c) j q = field_at c j q"
    and "list_all edit_ok (c_edits (upd_edit k (\<lambda>_. e) c))"
proof -
  note p = position_SomeD [OF k [unfolded edit_index_def]]
  have idx: "edit_index (upd_edit k (\<lambda>_. e) c) j q = edit_index c j q" for j q
    unfolding edit_index_def upd_edit_def by (simp, rule position_update) (use p e in auto)
  show "field_at (upd_edit k (\<lambda>_. e) c) i row = field_of e"
    using p k idx [of i row] by (simp add: field_at_index) (simp add: upd_edit_def)
  show "field_at (upd_edit k (\<lambda>_. e) c) j q = field_at c j q" if "(j, q) \<noteq> (i, row)"
  proof (cases "edit_index c j q")
    case None
    then show ?thesis using idx [of j q] by (simp add: field_at_def edit_snapshot_def)
  next
    case (Some m)
    then have "m \<noteq> k" using that p by (auto simp: edit_index_def dest: position_SomeD)
    then show ?thesis using Some idx [of j q] by (simp add: field_at_index) (simp add: upd_edit_def)
  qed
  show "list_all edit_ok (c_edits (upd_edit k (\<lambda>_. e) c))"
    using ok e(3) p by (auto simp: upd_edit_def list_all_length nth_list_update)
qed

text \<open>One key: the field follows the specification and nothing else of the compositor changes.\<close>

lemma handle_edit_key_spec:
  assumes ed: "editing i row r c"
  obtains c' where
    "handle_edit_key scan txt extended c =
       Some (edit_cmd_of scan txt extended \<noteq> None, Option.bind (edit_cmd_of scan txt extended) (\<lambda>cmd. submitted (r_action r) cmd (field_at c i row)), c')"
    "field_at c' i row = (case edit_cmd_of scan txt extended of None \<Rightarrow> field_at c i row | Some cmd \<Rightarrow> edit_spec (r_kind r) cmd (field_at c i row))"
    "\<And>j q. (j, q) \<noteq> (i, row) \<Longrightarrow> field_at c' j q = field_at c j q"
    "editing i row r c'" "c_windows c' = c_windows c" "c_focused c' = c_focused c"
proof -
  obtain k c1 where c1: "ensure_edit_state i row c = (k, c1)" by force
  have ok: "list_all edit_ok (c_edits c)" using ed by (simp add: editing_def)
  note s = ensure_edit_state_spec [OF c1 ok]
  let ?e = "c_edits c1 ! k" and ?cmd = "edit_cmd_of scan txt extended"
  have e: "edit_ok ?e" "e_window ?e = i" "e_row ?e = row" "field_of ?e = field_at c i row"
    using s field_at_index [OF s(1)] position_SomeD [OF s(1) [unfolded edit_index_def]] by (auto simp: list_all_length)
  have h: "handle_edit_key scan txt extended c =
      (case edit_key (r_action r) (r_kind r) scan txt extended ?e of
        Edit_Panic \<Rightarrow> None | Edit_Ignored \<Rightarrow> Some (False, None, c1) | Edit_Done e out \<Rightarrow> Some (True, out, upd_edit k (\<lambda>_. e) c1))"
    unfolding handle_edit_key_def editing_focus [OF ed] option.case prod.case Let_def c1 by simp
  note ref = edit_key_refines [OF e(1), of "r_action r" "r_kind r" scan "txt" extended, unfolded edit_refines_def]
  show thesis
  proof (cases ?cmd)
    case None
    then have "handle_edit_key scan txt extended c = Some (False, None, c1)" using h ref by simp
    moreover have "editing i row r c1" using ed s(4-6) by (simp add: editing_def)
    ultimately show thesis using None s by (intro that [of c1]) auto
  next
    case (Some cmd)
    then obtain e' out where k': "edit_key (r_action r) (r_kind r) scan txt extended ?e = Edit_Done e' out"
      and e': "field_of e' = edit_spec (r_kind r) cmd (field_at c i row)" "out = submitted (r_action r) cmd (field_at c i row)"
        "edit_ok e'" "e_window e' = i" "e_row e' = row"
      using ref e by (auto split: edit_result.splits)
    note u = upd_edit_fields [OF s(1) e'(4,5,3) s(4)]
    let ?c = "upd_edit k (\<lambda>_. e') c1"
    have w: "c_windows ?c = c_windows c" "c_focused ?c = c_focused c" using s by (simp_all add: upd_edit_def)
    then have "editing i row r ?c" using ed u(3) by (simp add: editing_def)
    moreover have "handle_edit_key scan txt extended c = Some (True, out, ?c)" using h k' by simp
    ultimately show thesis using Some u s(3) e'(1,2) w by (intro that [of ?c]) auto
  qed
qed

section \<open>Typing\<close>

text \<open>A sequence of keys on the focused field, with what it submits.\<close>

fun type_keys :: "(u8 \<times> u8 option \<times> bool) list \<Rightarrow> compositor \<Rightarrow> (string list \<times> compositor) option" where
  "type_keys [] c = Some ([], c)"
| "type_keys ((scan, txt, extended) # ks) c =
     (case handle_edit_key scan txt extended c of None \<Rightarrow> None | Some (_, out, c') \<Rightarrow>
      map_option (\<lambda>(outs, c'). ((case out of None \<Rightarrow> outs | Some s \<Rightarrow> s # outs), c')) (type_keys ks c'))"

fun spec_keys :: "string \<Rightarrow> char \<Rightarrow> (u8 \<times> u8 option \<times> bool) list \<Rightarrow> field \<Rightarrow> string list \<times> field" where
  "spec_keys action kind [] f = ([], f)"
| "spec_keys action kind ((scan, txt, extended) # ks) f =
     (case edit_cmd_of scan txt extended of None \<Rightarrow> spec_keys action kind ks f | Some cmd \<Rightarrow>
      case spec_keys action kind ks (edit_spec kind cmd f) of (outs, f') \<Rightarrow>
      ((case submitted action cmd f of None \<Rightarrow> outs | Some s \<Rightarrow> s # outs), f'))"

lemma type_keys_refines:
  assumes "editing i row r c"
  shows "\<exists>c'. type_keys ks c = Some (fst (spec_keys (r_action r) (r_kind r) ks (field_at c i row)), c') \<and>
    field_at c' i row = snd (spec_keys (r_action r) (r_kind r) ks (field_at c i row)) \<and>
    (\<forall>j q. (j, q) \<noteq> (i, row) \<longrightarrow> field_at c' j q = field_at c j q) \<and> editing i row r c' \<and> c_windows c' = c_windows c"
  using assms
proof (induction ks arbitrary: c)
  case (Cons key ks)
  obtain scan t ext where key: "key = (scan, t, ext)" by (cases key)
  obtain c1 where c1: "handle_edit_key scan t ext c =
       Some (edit_cmd_of scan t ext \<noteq> None, Option.bind (edit_cmd_of scan t ext) (\<lambda>cmd. submitted (r_action r) cmd (field_at c i row)), c1)"
    "field_at c1 i row = (case edit_cmd_of scan t ext of None \<Rightarrow> field_at c i row | Some cmd \<Rightarrow> edit_spec (r_kind r) cmd (field_at c i row))"
    "\<And>j q. (j, q) \<noteq> (i, row) \<Longrightarrow> field_at c1 j q = field_at c j q"
    "editing i row r c1" "c_windows c1 = c_windows c"
    using handle_edit_key_spec [OF Cons.prems, of scan t ext] by metis
  then show ?case using Cons.IH [OF c1(4)] by (cases "edit_cmd_of scan t ext") (auto simp: key split_beta split: option.splits)
qed auto

text \<open>The keys of a text: each byte with a scancode that is neither Backspace nor Enter.\<close>

definition letter_key :: "char \<Rightarrow> u8 \<times> u8 option \<times> bool" where
  "letter_key ch = (0x1e, Some (of_nat (of_char ch)), False)"

definition enter_key :: "u8 \<times> u8 option \<times> bool" where "enter_key = (0x1c, None, False)"

lemma letter_cmd: "printable ch \<Longrightarrow> edit_cmd_of 0x1e (Some (of_nat (of_char ch))) False = Some (Insert ch)"
proof -
  assume p: "printable ch"
  have "unat (of_nat (of_char ch) :: u8) = of_char ch" by (simp add: unat_of_nat)
  then show ?thesis using p by (simp add: edit_cmd_of_def plain_cmd_def printable_def word_le_nat_alt)
qed

lemma spec_letters:
  assumes "list_all printable s" "length l + length r + length s \<le> 64"
  shows "spec_keys action kind (map letter_key s @ ks) (l, r) = spec_keys action kind ks (l @ s, r)"
  using assms
proof (induction s arbitrary: l)
  case (Cons ch s)
  then show ?case by (simp add: letter_key_def letter_cmd edit_spec_def submitted_def split_beta)
qed simp

lemma spec_enter: "action \<noteq> [] \<Longrightarrow> spec_keys action kind [enter_key] f =
    ([action @ [ACTION_VALUE_SEPARATOR] @ fst f @ snd f], if kind = CHR ''e'' then ([], []) else f)"
  by (cases f) (simp add: enter_key_def edit_cmd_of_def plain_cmd_def submitted_def edit_spec_def)

lemma editing_row: "editing i row r c \<Longrightarrow> r_action r \<noteq> []" "editing i row r c \<Longrightarrow> field_ok (field_at c i row)"
proof -
  assume e: "editing i row r c"
  then show "r_action r \<noteq> []" by (auto simp: editing_def row_is_editable_def split: option.splits)
  show "field_ok (field_at c i row)"
  proof (cases "edit_index c i row")
    case None
    then show ?thesis by (simp add: field_at_def edit_snapshot_def field_ok_def)
  next
    case (Some k)
    then have "k < length (c_edits c)" using position_SomeD unfolding edit_index_def by blast
    then have "edit_ok (c_edits c ! k)" using e by (simp add: editing_def list_all_length)
    then show ?thesis unfolding field_at_index [OF Some]
      by (simp add: field_of_def field_ok_def edit_ok_def TEXT_INPUT_LIMIT_def list_all_take)
  qed
qed

text \<open>C32. While a text field has the keyboard, any sequence of keys acts on it as the sequence of editing commands acts on
  the pair of texts before and after the caret: the code never panics, the field stays within 64 printable characters, Enter
  submits the action with the field's text, and no other field and no window changes. In particular, a printable
  text typed into an empty field is submitted unchanged.\<close>

theorem edit_field_refines:
  assumes "editing i row r c"
  shows "(\<exists>c'. type_keys ks c = Some (fst (spec_keys (r_action r) (r_kind r) ks (field_at c i row)), c') \<and>
        field_at c' i row = snd (spec_keys (r_action r) (r_kind r) ks (field_at c i row)) \<and> field_ok (field_at c' i row) \<and>
        (\<forall>j q. (j, q) \<noteq> (i, row) \<longrightarrow> field_at c' j q = field_at c j q) \<and> c_windows c' = c_windows c) \<and>
     (field_at c i row = ([], []) \<and> list_all printable s \<and> length s \<le> 64 \<longrightarrow>
        map_option fst (type_keys (map letter_key s @ [enter_key]) c) = Some [r_action r @ [ACTION_VALUE_SEPARATOR] @ s])"
proof (rule conjI)
  show "\<exists>c'. type_keys ks c = Some (fst (spec_keys (r_action r) (r_kind r) ks (field_at c i row)), c') \<and>
      field_at c' i row = snd (spec_keys (r_action r) (r_kind r) ks (field_at c i row)) \<and> field_ok (field_at c' i row) \<and>
      (\<forall>j q. (j, q) \<noteq> (i, row) \<longrightarrow> field_at c' j q = field_at c j q) \<and> c_windows c' = c_windows c"
    using type_keys_refines [OF assms, of ks] editing_row(2) by blast
  show "field_at c i row = ([], []) \<and> list_all printable s \<and> length s \<le> 64 \<longrightarrow>
      map_option fst (type_keys (map letter_key s @ [enter_key]) c) = Some [r_action r @ [ACTION_VALUE_SEPARATOR] @ s]"
    using type_keys_refines [OF assms, of "map letter_key s @ [enter_key]"] spec_letters [of s "[]" "[]"] spec_enter editing_row(1) [OF assms]
    by auto
qed

text \<open>A launcher with a search line, focused.\<close>

definition demo_search_row :: crow where
  "demo_search_row = \<lparr>r_text = ''Search'', r_action = ''find'', r_kind = CHR ''s'', r_style = 4, r_flags = 1,
     r_x = 10, r_y = 50, r_width = 200, r_height = 30\<rparr>"

definition demo_launcher :: cwindow where
  "demo_launcher = \<lparr>cw_id = ''launcher'', cw_role = CHR ''W'', cw_x = 100, cw_y = 80, cw_width = 400, cw_height = 300,
     cw_title = ''Apps'', cw_rows = [demo_search_row], cw_native = False, cw_maximized = False, cw_minimized = False,
     cw_scroll_y = 0, cw_restore = None\<rparr>"

definition demo_editing :: compositor where
  "demo_editing = \<lparr>c_pixels = [], c_clients = ws_new, c_windows = [demo_launcher], c_next_id = 1, c_wallpaper_base = 0,
     c_cursor_x = 0, c_cursor_y = 0, c_left_down = False, c_hovered = None, c_pressed = None, c_focused = Some (''launcher'', 0),
     c_edits = [], c_scope = Scope_Window ''launcher'', c_drag = None\<rparr>"

theorem edit_field_refines_witness:
  "map_option fst (type_keys (map letter_key ''hi'' @ [enter_key]) demo_editing) = Some [''find'' @ [ACTION_VALUE_SEPARATOR] @ ''hi'']"
proof -
  have "editing ''launcher'' 0 demo_search_row demo_editing" "field_at demo_editing ''launcher'' 0 = ([], [])"
    by (simp_all add: editing_def demo_editing_def demo_launcher_def demo_search_row_def get_def row_is_editable_def has_flag_def
        CONTROL_FLAG_DISABLED_def field_at_def edit_snapshot_def edit_index_def)
  then show ?thesis using edit_field_refines [of "''launcher''" 0 demo_search_row demo_editing "[]" "''hi''"]
    by (simp add: printable_def demo_search_row_def)
qed

end
