(* ===== verification/Step_Machine.thy ===== *)
theory Step_Machine
  imports Main
begin

text \<open>
  Programs that react to a sequence of inputs, where a step may panic (\<open>None\<close>). What every such component of the kernel
  promises to the one that drives it is the locale \<open>safe_machine\<close>: from a state that satisfies the invariant, no input
  panics and the invariant holds again. A client then knows the same of whole runs.
\<close>

fun run_steps :: "('e \<Rightarrow> 's \<Rightarrow> 's option) \<Rightarrow> 'e list \<Rightarrow> 's \<Rightarrow> 's option" where
  "run_steps step [] s = Some s"
| "run_steps step (x # xs) s = Option.bind (step x s) (run_steps step xs)"

lemma run_steps_append: "run_steps step (xs @ ys) s = Option.bind (run_steps step xs s) (run_steps step ys)"
  by (induction xs arbitrary: s) (auto simp: bind_eq_None_conv split: bind_splits)

locale safe_machine =
  fixes step :: "'e \<Rightarrow> 's \<Rightarrow> 's option"
    and allowed :: "'e \<Rightarrow> bool"
    and inv :: "'s \<Rightarrow> bool"
  assumes step_safe: "allowed x \<Longrightarrow> inv s \<Longrightarrow> \<exists>s'. step x s = Some s' \<and> inv s'"
begin

lemma run_safe: "list_all allowed xs \<Longrightarrow> inv s \<Longrightarrow> \<exists>s'. run_steps step xs s = Some s' \<and> inv s'"
proof (induction xs arbitrary: s)
  case (Cons x xs)
  then obtain s1 where "step x s = Some s1" "inv s1" using step_safe [of x s] by auto
  then show ?case using Cons by auto
qed simp

text \<open>Every prefix of a run is a run too, so the invariant holds at every moment.\<close>

lemma always_inv: "list_all allowed (xs @ ys) \<Longrightarrow> inv s \<Longrightarrow> \<exists>s'. run_steps step xs s = Some s' \<and> inv s'"
  by (rule run_safe) simp_all

end

end
