(* ===== verification/Compositor_Safe.thy ===== *)
theory Compositor_Safe
  imports Compositor Compositor_Edit Step_Machine
begin

text \<open>
  The compositor stays well formed and never panics: an invariant of its state, kept by every entry point of
  \<open>Compositor\<close>, each of which returns.
\<close>

section \<open>Well-formed states\<close>

definition cwindow_ok :: "cwindow \<Rightarrow> bool" where
  "cwindow_ok w \<longleftrightarrow> is_i32 (cw_x w) \<and> is_i32 (cw_y w) \<and> surface_role (cw_role w) \<and> surface_size (cw_width w) (cw_height w) \<and>
     length (cw_rows w) \<le> 16 \<and> 0 \<le> cw_scroll_y w \<and> cw_scroll_y w \<le> max_scroll w \<and>
     (case cw_restore w of None \<Rightarrow> True | Some (x, y, width, height) \<Rightarrow> is_i32 x \<and> is_i32 y \<and> surface_size width height)"

definition edit_keys :: "compositor \<Rightarrow> control list" where
  "edit_keys c = map (\<lambda>e. (e_window e, e_row e)) (c_edits c)"

definition comp_inv :: "compositor \<Rightarrow> bool" where
  "comp_inv c \<longleftrightarrow> screen (c_pixels c) \<and> ws_inv (c_clients c) \<and>
     length (c_windows c) \<le> C_MAX_WINDOWS \<and> list_all cwindow_ok (c_windows c) \<and>
     list_all edit_ok (c_edits c) \<and> distinct (edit_keys c) \<and>
     0 \<le> c_cursor_x c \<and> c_cursor_x c < int WIDTH \<and> 0 \<le> c_cursor_y c \<and> c_cursor_y c < int HEIGHT"

lemma comp_inv_irrelevant [simp]:
  "comp_inv (c\<lparr>c_scope := a\<rparr>) = comp_inv c" "comp_inv (c\<lparr>c_focused := f\<rparr>) = comp_inv c"
  "comp_inv (c\<lparr>c_hovered := f\<rparr>) = comp_inv c" "comp_inv (c\<lparr>c_pressed := f\<rparr>) = comp_inv c"
  "comp_inv (c\<lparr>c_drag := d\<rparr>) = comp_inv c" "comp_inv (c\<lparr>c_left_down := b\<rparr>) = comp_inv c"
  "comp_inv (c\<lparr>c_next_id := n\<rparr>) = comp_inv c" "comp_inv (c\<lparr>c_wallpaper_base := v\<rparr>) = comp_inv c"
  by (simp_all add: comp_inv_def edit_keys_def)

lemma comp_inv_focus [simp]:
  "comp_inv (set_focus_scope a c) = comp_inv c" "comp_inv (repair_focus_scope c) = comp_inv c"
  "comp_inv (focus_next b c) = comp_inv c" "comp_inv (rehover c) = comp_inv c"
  by (simp_all add: set_focus_scope_def repair_focus_scope_def focus_next_def rehover_def Let_def)

lemma focus_windows [simp]:
  "c_windows (set_focus_scope a c) = c_windows c" "c_windows (repair_focus_scope c) = c_windows c"
  "c_cursor_x (set_focus_scope a c) = c_cursor_x c" "c_cursor_y (set_focus_scope a c) = c_cursor_y c"
  by (simp_all add: set_focus_scope_def repair_focus_scope_def Let_def)

text \<open>An operation is safe when it returns and the state it returns is well formed.\<close>

definition safe :: "('a \<Rightarrow> compositor) \<Rightarrow> 'a option \<Rightarrow> bool" where
  "safe sel res \<longleftrightarrow> (case res of None \<Rightarrow> False | Some r \<Rightarrow> comp_inv (sel r))"

lemma safe_simps [simp]:
  "safe sel (Some r) = comp_inv (sel r)" "\<not> safe sel None" "safe sel (map_option f x) = safe (\<lambda>r. sel (f r)) x"
  by (cases x; simp add: safe_def)+

lemma safe_render [simp]:
  assumes "comp_inv c"
  shows "safe (\<lambda>c. c) (render c)"
proof -
  have "windows_i32 c" "ws_inv (c_clients c)" "screen (c_pixels c)"
    using assms by (auto simp: comp_inv_def windows_i32_def cwindow_ok_def list_all_iff is_i32_def WIDTH_def HEIGHT_def)
  then obtain px where "render c = Some (c\<lparr>c_pixels := px\<rparr>)" "screen px" by (rule render_total)
  then show ?thesis using assms by (simp add: comp_inv_def edit_keys_def)
qed

section \<open>Windows\<close>

lemma max_scroll_nonneg [simp]: "0 \<le> max_scroll w"
  by (simp add: max_scroll_def Let_def)

lemma clamp_between [simp]: "lo \<le> hi \<Longrightarrow> lo \<le> clamp lo hi x" "lo \<le> hi \<Longrightarrow> clamp lo hi x \<le> hi"
  using clamp_range by auto

lemma max_scroll_update [simp]:
  "max_scroll (w\<lparr>cw_scroll_y := s\<rparr>) = max_scroll w" "max_scroll (w\<lparr>cw_minimized := m\<rparr>) = max_scroll w"
  "max_scroll (w\<lparr>cw_x := x\<rparr>) = max_scroll w" "max_scroll (w\<lparr>cw_y := x\<rparr>) = max_scroll w"
  by (simp_all add: max_scroll_def is_scrollable_def content_bottom_def)

lemma cwindow_ok_scroll [simp]:
  "cwindow_ok w \<Longrightarrow> 0 \<le> s \<Longrightarrow> s \<le> max_scroll w \<Longrightarrow> cwindow_ok (w\<lparr>cw_scroll_y := s\<rparr>)"
  by (auto simp: cwindow_ok_def)

text \<open>Whatever the scroll position was, clamping makes the window well formed if the rest of it is.\<close>

lemma cwindow_ok_clamp:
  assumes "cwindow_ok (w\<lparr>cw_scroll_y := 0\<rparr>)"
  shows "cwindow_ok (clamp_scroll w)"
  using assms by (simp add: cwindow_ok_def clamp_scroll_def)

lemma cwindow_ok_zero: "cwindow_ok w \<Longrightarrow> cwindow_ok (w\<lparr>cw_scroll_y := 0\<rparr>)"
  by simp

lemma cwindow_ok_minimize [simp]: "cwindow_ok (w\<lparr>cw_minimized := m\<rparr>) = cwindow_ok w"
  by (simp add: cwindow_ok_def)

lemma cwindow_ok_scroll_window: "cwindow_ok w \<Longrightarrow> cwindow_ok (snd (scroll_window d w))"
  by (auto simp: scroll_window_def Let_def intro: cwindow_ok_clamp)

lemma cwindow_ok_toggle:
  assumes "cwindow_ok w"
  shows "cwindow_ok (toggle_maximized w)"
proof -
  have s: "surface_size (int WIDTH - 16) (int HEIGHT - 116)" "is_i32 8" "is_i32 58"
    by (simp_all add: surface_size_def WIDTH_def HEIGHT_def is_i32_def)
  show ?thesis
    unfolding toggle_maximized_def by (rule cwindow_ok_clamp) (use assms s in \<open>auto simp: cwindow_ok_def split: option.splits\<close>)
qed

lemma cwindow_ok_move: "cwindow_ok w \<Longrightarrow> is_i32 x \<Longrightarrow> is_i32 y \<Longrightarrow> cwindow_ok (w\<lparr>cw_x := x, cw_y := y\<rparr>)"
  by (simp add: cwindow_ok_def)

lemma upd_cwindow_beyond: "\<not> k < length (c_windows c) \<Longrightarrow> upd_cwindow k f c = c"
  by (simp add: upd_cwindow_def list_update_beyond)

lemma comp_inv_upd_cwindow:
  assumes "comp_inv c" "\<And>w. cwindow_ok w \<Longrightarrow> cwindow_ok (f w)"
  shows "comp_inv (upd_cwindow k f c)"
proof (cases "k < length (c_windows c)")
  case True
  have w: "\<forall>w \<in> set (c_windows c). cwindow_ok w" using assms(1) by (simp add: comp_inv_def list_all_iff)
  have "set ((c_windows c)[k := f (c_windows c ! k)]) \<subseteq> insert (f (c_windows c ! k)) (set (c_windows c))"
    by (rule set_update_subset_insert)
  moreover have "cwindow_ok (f (c_windows c ! k))" using w nth_mem [OF True] assms(2) by blast
  ultimately have "list_all cwindow_ok ((c_windows c)[k := f (c_windows c ! k)])" using w by (auto simp: list_all_iff)
  then show ?thesis using assms(1) by (simp add: comp_inv_def upd_cwindow_def edit_keys_def)
next
  case False
  then show ?thesis using assms(1) by (simp add: upd_cwindow_beyond)
qed

lemma comp_inv_windows:
  "comp_inv c \<Longrightarrow> length ws \<le> C_MAX_WINDOWS \<Longrightarrow> list_all cwindow_ok ws \<Longrightarrow> comp_inv (c\<lparr>c_windows := ws\<rparr>)"
  by (simp add: comp_inv_def edit_keys_def)

lemma comp_invD:
  assumes "comp_inv c"
  shows "list_all cwindow_ok (c_windows c)" "length (c_windows c) \<le> C_MAX_WINDOWS"
    "k < length (c_windows c) \<Longrightarrow> cwindow_ok (c_windows c ! k)"
    "is_i32 (c_cursor_x c)" "is_i32 (c_cursor_y c)"
  using assms by (auto simp: comp_inv_def list_all_length is_i32_def WIDTH_def HEIGHT_def)

lemma remove_nth_ok:
  assumes "list_all P ws" "k < length ws"
  shows "list_all P (remove_nth k ws)" "length (remove_nth k ws) < length ws"
  using assms by (auto simp: remove_nth_def list_all_iff dest: in_set_takeD in_set_dropD)

text \<open>Taking a window out of the stack and putting it on top.\<close>

lemma comp_inv_raise:
  assumes "comp_inv c" "k < length (c_windows c)" "cwindow_ok w"
  shows "comp_inv (c\<lparr>c_windows := remove_nth k (c_windows c) @ [w]\<rparr>)"
  using comp_invD [OF assms(1)] remove_nth_ok [OF _ assms(2), of cwindow_ok] assms
  by (intro comp_inv_windows) auto

section \<open>Text fields\<close>

lemma edit_index_SomeD: "edit_index c i row = Some k \<Longrightarrow> k < length (c_edits c)"
  by (auto simp: edit_index_def dest: position_SomeD)

lemma edit_index_None: "edit_index c i row = None \<longleftrightarrow> (i, row) \<notin> set (edit_keys c)"
  by (auto simp: edit_index_def position_None edit_keys_def)

lemma ensure_edit_state_ok:
  assumes "comp_inv c" "ensure_edit_state i row c = (k, c')"
  shows "comp_inv c'" "k < length (c_edits c')" "c_windows c' = c_windows c" "edit_ok (c_edits c' ! k)"
proof -
  show a: "comp_inv c'" "k < length (c_edits c')" "c_windows c' = c_windows c"
    using assms edit_index_None [of c i row]
    by (auto simp: ensure_edit_state_def comp_inv_def edit_keys_def edit_ok_def dest: edit_index_SomeD split: option.splits)
  then show "edit_ok (c_edits c' ! k)" by (auto simp: comp_inv_def list_all_length)
qed

lemma comp_inv_upd_edit:
  assumes "comp_inv c" "k < length (c_edits c)" "edit_ok (f (c_edits c ! k))"
    "e_window (f (c_edits c ! k)) = e_window (c_edits c ! k)" "e_row (f (c_edits c ! k)) = e_row (c_edits c ! k)"
  shows "comp_inv (upd_edit k f c)"
proof -
  have "set ((c_edits c)[k := f (c_edits c ! k)]) \<subseteq> insert (f (c_edits c ! k)) (set (c_edits c))"
    by (rule set_update_subset_insert)
  then have "list_all edit_ok ((c_edits c)[k := f (c_edits c ! k)])" using assms by (auto simp: comp_inv_def list_all_iff)
  moreover have "map (\<lambda>e. (e_window e, e_row e)) ((c_edits c)[k := f (c_edits c ! k)]) = edit_keys c"
    using assms(2,4,5) by (simp add: map_update edit_keys_def list_update_same_conv)
  ultimately show ?thesis using assms(1) by (simp add: comp_inv_def upd_edit_def edit_keys_def)
qed

lemma place_edit_cursor_ok:
  assumes "comp_inv c"
  shows "comp_inv (place_edit_cursor i row lx width prefix c)" "c_windows (place_edit_cursor i row lx width prefix c) = c_windows c"
proof -
  obtain k c' where e: "ensure_edit_state i row c = (k, c')" by force
  note ok = ensure_edit_state_ok [OF assms e]
  show "comp_inv (place_edit_cursor i row lx width prefix c)"
    unfolding place_edit_cursor_def Let_def e split
    by (rule comp_inv_upd_edit) (use ok in \<open>auto simp: edit_ok_def\<close>)
  show "c_windows (place_edit_cursor i row lx width prefix c) = c_windows c"
    using ok(3) by (simp add: place_edit_cursor_def Let_def e upd_edit_def)
qed

lemma handle_edit_key_ok:
  assumes "comp_inv c"
  obtains b out c' where "handle_edit_key scan txt extended c = Some (b, out, c')" "comp_inv c'"
proof (cases "editable_focus c")
  case None
  then show thesis using that [of False None c] assms by (simp add: handle_edit_key_def)
next
  case (Some f)
  obtain i row where f: "f = (i, row)" by force
  obtain k c1 where c1: "ensure_edit_state i row c = (k, c1)" by force
  note ok = ensure_edit_state_ok [OF assms c1]
  obtain action kind where ak: "(case Option.bind (find (\<lambda>w. cw_id w = i) (c_windows c)) (\<lambda>w. get row (cw_rows w)) of
      None \<Rightarrow> ([], char_of (0 :: nat)) | Some row \<Rightarrow> (r_action row, r_kind row)) = (action, kind)" by force
  have h: "handle_edit_key scan txt extended c =
      (case edit_key action kind scan txt extended (c_edits c1 ! k) of
        Edit_Panic \<Rightarrow> None | Edit_Ignored \<Rightarrow> Some (False, None, c1) | Edit_Done e out \<Rightarrow> Some (True, out, upd_edit k (\<lambda>_. e) c1))"
    unfolding handle_edit_key_def Some f option.case prod.case ak Let_def c1 by simp
  show thesis
  proof (cases "edit_key action kind scan txt extended (c_edits c1 ! k)")
    case Edit_Panic
    then show thesis using edit_key_ok(1) [OF ok(4)] by blast
  next
    case Edit_Ignored
    then show thesis using h ok(1) that [of False None c1] by simp
  next
    case (Edit_Done e out)
    then have "comp_inv (upd_edit k (\<lambda>_. e) c1)" using edit_key_ok(2) [OF ok(4) Edit_Done] ok by (intro comp_inv_upd_edit) auto
    then show thesis using h Edit_Done that [of True out "upd_edit k (\<lambda>_. e) c1"] by simp
  qed
qed

section \<open>Scrolling\<close>

lemma scroll_ok:
  assumes "comp_inv c"
  shows "comp_inv (snd (scroll_nth k d c))" "comp_inv (snd (scroll_under_pointer d c))" "comp_inv (snd (scroll_scope_by d c))"
    "comp_inv (snd (scroll_scope_to b c))" "comp_inv (ensure_focused_visible c)" "comp_inv (snd (scroll_key scan c))"
proof -
  have nth: "comp_inv (snd (scroll_nth k d c))" for k d
    unfolding scroll_nth_def snd_conv by (rule comp_inv_upd_cwindow [OF assms cwindow_ok_scroll_window])
  then show "comp_inv (snd (scroll_nth k d c))" "comp_inv (snd (scroll_under_pointer d c))"
    using assms by (simp_all add: scroll_under_pointer_def Let_def split: option.split)
  have by_delta: "comp_inv (snd (scroll_scope_by d c))" for d
    using nth assms by (simp add: scroll_scope_by_def split: option.split)
  have to_end: "comp_inv (snd (scroll_scope_to b c))" for b
  proof (cases "scope_index c")
    case (Some k)
    let ?t = "if b then max_scroll (c_windows c ! k) else 0"
    show ?thesis
    proof (cases "k < length (c_windows c)")
      case True
      then have "cwindow_ok ((c_windows c ! k)\<lparr>cw_scroll_y := ?t\<rparr>)" using comp_invD(3) [OF assms True] by simp
      then have "comp_inv (upd_cwindow k (\<lambda>_. (c_windows c ! k)\<lparr>cw_scroll_y := ?t\<rparr>) c)" by (intro comp_inv_upd_cwindow assms)
      then show ?thesis using Some by (simp add: scroll_scope_to_def Let_def upd_cwindow_def)
    next
      case False
      then show ?thesis using Some assms by (simp add: scroll_scope_to_def Let_def upd_cwindow_beyond)
    qed
  qed (simp add: scroll_scope_to_def assms)
  show "comp_inv (snd (scroll_scope_by d c))" by (rule by_delta)
  show "comp_inv (snd (scroll_scope_to b c))" by (rule to_end)
  show "comp_inv (ensure_focused_visible c)"
    unfolding ensure_focused_visible_def
    by (auto simp: Let_def assms split: option.split intro!: comp_inv_upd_cwindow cwindow_ok_clamp)
  show "comp_inv (snd (scroll_key scan c))" by (simp add: scroll_key_def by_delta to_end assms)
qed

section \<open>The surface protocol\<close>

lemma parse_rows_length: "parse_rows parts = Some rows \<Longrightarrow> length rows \<le> length parts"
  by (induction parts arbitrary: rows) (auto simp: Let_def split: if_splits option.splits prod.splits)

lemma is_i32_parse: "parse_i32_str s = Some n \<Longrightarrow> is_i32 n"
  using parse_i32_bound [of s n] by (simp add: is_i32_def)

lemma comp_inv_edits: "comp_inv c \<Longrightarrow> comp_inv (c\<lparr>c_edits := filter P (c_edits c)\<rparr>)"
  by (auto simp: comp_inv_def edit_keys_def list_all_iff distinct_map inj_on_def)

lemma place_surface_ok:
  assumes c: "comp_inv c" and p: "place_surface i role x y width height title rows c = Some c'"
    and w: "is_i32 x" "is_i32 y" "surface_role role" "surface_size width height" "length rows \<le> 16"
  shows "comp_inv c'"
proof (cases "position (\<lambda>w. cw_id w = i) (c_windows c)")
  case None
  then show ?thesis using p w comp_invD(1,2) [OF c]
    by (auto simp: place_surface_def cwindow_ok_def split: if_splits intro!: comp_inv_windows [OF c])
next
  case (Some k)
  then have k: "k < length (c_windows c)" using position_SomeD by blast
  let ?w = "(c_windows c ! k)\<lparr>cw_role := role, cw_x := x, cw_y := y, cw_width := width, cw_height := height,
      cw_title := title, cw_rows := rows, cw_minimized := False\<rparr>"
  let ?c = "c\<lparr>c_edits := filter (\<lambda>e. e_window e \<noteq> i) (c_edits c)\<rparr>"
  have "cwindow_ok (clamp_scroll ?w)"
    using comp_invD(3) [OF c k] w by (intro cwindow_ok_clamp) (auto simp: cwindow_ok_def)
  then have "comp_inv (?c\<lparr>c_windows := remove_nth k (c_windows ?c) @ [clamp_scroll ?w]\<rparr>)"
    using comp_inv_edits [OF c] k by (intro comp_inv_raise) auto
  then show ?thesis using p Some by (simp add: place_surface_def Let_def)
qed

lemma place_parsed_ok:
  assumes "place_surface i role x y width height title rows c = Some c'" "comp_inv c"
    "parse_i32_str xs = Some x" "parse_i32_str ys = Some y" "surface_role role" "surface_size width height"
    "parse_rows (take 8 parts) = Some rows"
  shows "comp_inv c'"
  using place_surface_ok [OF assms(2,1)] assms parse_rows_length [OF assms(7)] by (simp add: is_i32_parse)

lemma show_command_ok:
  assumes c: "comp_inv c" and s: "show_command payload c = Some c'"
  shows "comp_inv c'"
  using s c unfolding show_command_def by (auto split: list.splits if_splits option.splits dest: place_parsed_ok)

lemma raise_command_ok:
  assumes c: "comp_inv c"
  shows "safe (\<lambda>c. c) (raise_command i c)"
proof (cases "position (\<lambda>w. cw_id w = i) (c_windows c)")
  case (Some k)
  then have k: "k < length (c_windows c)" using position_SomeD by blast
  have "comp_inv (c\<lparr>c_windows := remove_nth k (c_windows c) @ [(c_windows c ! k)\<lparr>cw_minimized := False\<rparr>]\<rparr>)"
    using comp_invD(3) [OF c k] by (intro comp_inv_raise [OF c k]) simp
  then show ?thesis using Some by (simp add: raise_command_def Let_def)
qed (simp add: raise_command_def c)

lemma minimize_command_ok: "comp_inv c \<Longrightarrow> safe (\<lambda>c. c) (minimize_command i c)"
  by (auto simp: minimize_command_def comp_inv_upd_cwindow split: option.split)

lemma close_command_ok:
  assumes c: "comp_inv c"
  shows "safe (\<lambda>c. c) (close_command i c)"
proof -
  let ?c = "c\<lparr>c_windows := filter (\<lambda>w. cw_id w \<noteq> i) (c_windows c)\<rparr>"
  have "length (filter (\<lambda>w. cw_id w \<noteq> i) (c_windows c)) \<le> C_MAX_WINDOWS"
    using comp_invD(2) [OF c] length_filter_le order_trans by blast
  then have "comp_inv ?c"
    using comp_invD(1) [OF c] by (intro comp_inv_windows c) (auto simp: list_all_iff)
  from comp_inv_edits [OF this, of "\<lambda>e. e_window e \<noteq> i"] show ?thesis unfolding close_command_def by simp
qed

lemma comp_command_ok:
  assumes "comp_inv c"
  shows "safe snd (comp_command line c)"
  using raise_command_ok [OF assms] minimize_command_ok [OF assms] close_command_ok [OF assms] show_command_ok [OF assms] assms
  by (simp add: comp_command_def split: option.split)

lemma client_command_ok:
  assumes c: "comp_inv c"
  shows "safe (snd \<circ> snd) (client_command line c)"
proof -
  obtain s evs where cmd: "command line (c_clients c) = (s, evs)" by force
  have "ws_inv s" using command_inv [of "c_clients c" line] c by (simp add: comp_inv_def cmd)
  then have "comp_inv (c\<lparr>c_clients := s\<rparr>)" using c by (simp add: comp_inv_def edit_keys_def)
  then show ?thesis using c by (simp add: client_command_def cmd Let_def)
qed

section \<open>The keyboard\<close>

lemma comp_key_ok:
  assumes c: "comp_inv c"
  shows "safe (snd \<circ> snd) (comp_key scan txt rvs extended c)"
proof -
  obtain b out c1 where h: "handle_edit_key scan txt extended c = Some (b, out, c1)" "comp_inv c1"
    using handle_edit_key_ok [OF c] .
  have tail: "safe (snd \<circ> snd) (key_tail scan txt rvs c2)" if "comp_inv c2" for c2
    using that by (simp add: key_tail_def Let_def scroll_ok split: option.split)
  obtain b2 c2 where k: "scroll_key scan c1 = (b2, c2)" by force
  have "comp_inv c2" using scroll_ok(6) [OF h(2), of scan] k by simp
  then show ?thesis using c h tail by (simp add: comp_key_def Let_def k)
qed

section \<open>The pointer\<close>

lemma focus_row_ok:
  assumes "comp_inv c"
  shows "comp_inv (focus_row w hit c)" "c_windows (focus_row w hit c) = c_windows c"
  using assms place_edit_cursor_ok [of "c\<lparr>c_focused := Some (cw_id w, fst hit)\<rparr>"]
  by (auto simp: focus_row_def Let_def split: option.split prod.split)

lemma press_content_ok:
  assumes c: "comp_inv c" "length (c_windows c) < C_MAX_WINDOWS" and w: "cwindow_ok w"
  shows "comp_inv (press_content w c)"
proof -
  have "comp_inv (d\<lparr>c_windows := c_windows d @ [w]\<rparr>)" if "comp_inv d" "c_windows d = c_windows c" for d
    using that comp_invD [OF c(1)] c(2) w by (intro comp_inv_windows) auto
  then show ?thesis using focus_row_ok [OF c(1)] by (simp add: press_content_def Let_def)
qed

lemma pointer_down_ok:
  assumes c: "comp_inv c"
  shows "comp_inv (snd (pointer_down c))"
proof (cases "under_pointer c")
  case (Some k)
  then have k: "k < length (c_windows c)" using rposition_SomeD(1) by (auto simp: under_pointer_def)
  let ?w = "c_windows c ! k"
  let ?c = "set_focus_scope (scope_for_window ?w) (c\<lparr>c_windows := remove_nth k (c_windows c)\<rparr>)"
  note w = comp_invD(3) [OF c k]
  have rem: "length (remove_nth k (c_windows c)) < C_MAX_WINDOWS" "list_all cwindow_ok (remove_nth k (c_windows c))"
    using remove_nth_ok [OF _ k, of cwindow_ok] comp_invD(1,2) [OF c] by auto
  then have c': "comp_inv ?c" "length (c_windows ?c) < C_MAX_WINDOWS" "list_all cwindow_ok (c_windows ?c)"
    using comp_inv_windows [OF c] by auto
  have pushed: "comp_inv (?c\<lparr>c_windows := c_windows ?c @ [v]\<rparr>)" if "cwindow_ok v" for v
    using c' that by (intro comp_inv_windows) auto
  show ?thesis using press_content_ok [OF c'(1,2) w] pushed w c'(1) cwindow_ok_toggle
    unfolding pointer_down_def Some option.case Let_def by simp
qed (simp add: pointer_down_def c)

lemma drag_window_ok:
  assumes c: "comp_inv c"
  shows "comp_inv (drag_window b c)"
proof -
  have "is_i32 (clamp 0 (int WIDTH - 40) x)" "is_i32 (clamp 0 (int HEIGHT - 36) x)" for x
    by (auto simp: is_i32_def clamp_def WIDTH_def HEIGHT_def)
  then show ?thesis using c
    by (auto simp: drag_window_def split: option.split intro!: comp_inv_upd_cwindow cwindow_ok_move)
qed

lemma move_pointer_ok: "comp_inv c \<Longrightarrow> comp_inv (move_pointer packet c)"
  by (auto simp: comp_inv_def edit_keys_def move_pointer_def clamp_def WIDTH_def HEIGHT_def)

lemma press_or_release_ok: "comp_inv c \<Longrightarrow> comp_inv (snd (press_or_release handled left c))"
  by (simp add: press_or_release_def pointer_down_ok)

lemma pointer_packet_ok:
  assumes c: "comp_inv c"
  shows "safe (snd \<circ> snd) (pointer_packet packet c)"
proof -
  let ?m = "move_pointer packet c" and ?left = "ucast packet AND (1 :: u8) \<noteq> 0"
  have m: "comp_inv ?m" by (rule move_pointer_ok [OF c])
  obtain handled s events where p: "pointer (c_cursor_x ?m) (c_cursor_y ?m) ?left (c_left_down ?m) (c_clients ?m) = (handled, s, events)"
    by (rule prod_cases3)
  have "ws_inv s" using pointer_inv [of "c_clients ?m" "c_cursor_x ?m" "c_cursor_y ?m" ?left "c_left_down ?m"] m p by (simp add: comp_inv_def)
  then have c1: "comp_inv (?m\<lparr>c_clients := s\<rparr>)" using m by (simp add: comp_inv_def edit_keys_def)
  define c2 where "c2 = (if \<not> handled \<and> packet_byte 24 packet \<noteq> 0
     then snd (scroll_under_pointer (sub32 0 (smul32 (packet_byte 24 packet) SCROLL_LINE)) (?m\<lparr>c_clients := s\<rparr>)) else ?m\<lparr>c_clients := s\<rparr>)"
  define c3 where "c3 = (if handled then c2\<lparr>c_hovered := None\<rparr> else rehover c2)"
  have "comp_inv c3" using c1 scroll_ok(2) [OF c1] by (simp add: c2_def c3_def)
  moreover obtain action c4 where c4: "press_or_release handled ?left c3 = (action, c4)" by force
  ultimately have "comp_inv c4" using press_or_release_ok [of c3 handled ?left] by simp
  then have "comp_inv ((drag_window (?left \<and> \<not> handled) c4)\<lparr>c_left_down := ?left\<rparr>)" using drag_window_ok by simp
  then show ?thesis
    unfolding pointer_packet_def Let_def p prod.case c2_def [symmetric] c3_def [symmetric] c4 by simp
qed

section \<open>Every run of the compositor\<close>

text \<open>What reaches the compositor after construction: the test-window command, lines of the surface protocol, client
  commands, scancodes and pointer packets.\<close>

datatype comp_event = Test_Window | Surface_Line string | Client_Line string | Scancode u8 "u8 option" bool bool | Packet u32

definition comp_handle :: "comp_event \<Rightarrow> compositor \<Rightarrow> compositor option" where
  "comp_handle ev c =
     (case ev of
        Test_Window \<Rightarrow> open_test_window c
      | Surface_Line line \<Rightarrow> map_option snd (comp_command line c)
      | Client_Line line \<Rightarrow> map_option (snd \<circ> snd) (client_command line c)
      | Scancode scan txt rvs extended \<Rightarrow> map_option (snd \<circ> snd) (comp_key scan txt rvs extended c)
      | Packet packet \<Rightarrow> map_option (snd \<circ> snd) (pointer_packet packet c))"

text \<open>A surface's coordinates are \<^verbatim>\<open>i32\<close> values of the C ABI.\<close>

definition surface_i32 :: "shell_surface option \<Rightarrow> bool" where
  "surface_i32 s \<longleftrightarrow> (case s of None \<Rightarrow> True | Some s \<Rightarrow> is_i32 (ss_x s) \<and> is_i32 (ss_y s))"

lemma open_test_window_ok:
  assumes c: "comp_inv c"
  shows "safe (\<lambda>c. c) (open_test_window c)"
proof (cases "length (c_windows c) = C_MAX_WINDOWS")
  case False
  define w where "w = \<lparr>cw_id = ''native'' @ show_nat (unat (c_next_id c)), cw_role = CHR ''W'',
    cw_x = add32 104 (mul32 (as_i32 (length (c_windows c))) 28), cw_y = add32 88 (mul32 (as_i32 (length (c_windows c))) 28),
    cw_width = 440, cw_height = 300, cw_title = ''WINDOW TEST'',
    cw_rows = [plain_row ''RUST COMPOSITOR'' [] (CHR ''l''), plain_row ''DRAG TITLE BAR'' [] (CHR ''l'')],
    cw_native = True, cw_maximized = False, cw_minimized = False, cw_scroll_y = 0, cw_restore = None\<rparr>"
  have "cwindow_ok w" by (simp add: cwindow_ok_def w_def surface_role_def surface_size_def WIDTH_def HEIGHT_def)
  then have "comp_inv (c\<lparr>c_windows := c_windows c @ [w]\<rparr>)" using comp_invD(1,2) [OF c] False by (intro comp_inv_windows c) auto
  then show ?thesis using False unfolding open_test_window_def Let_def w_def [symmetric] by simp
qed (simp add: open_test_window_def c)

lemma comp_new_ok:
  assumes "list_all surface_i32 surfaces"
  shows "safe (\<lambda>c. c) (comp_new abi surfaces)"
proof -
  have e: "comp_inv empty_compositor"
    by (simp add: comp_inv_def empty_compositor_def edit_keys_def screen_def ws_new_inv C_MAX_WINDOWS_def WIDTH_def HEIGHT_def)
  have "length (shell_windows surfaces) \<le> length (filter (\<lambda>s. s \<noteq> None) (take C_MAX_WINDOWS surfaces))"
    unfolding shell_windows_def length_map by (rule order_trans [OF length_filter_le]) simp
  also have "\<dots> \<le> C_MAX_WINDOWS" by (rule order_trans [OF length_filter_le]) simp
  finally have "length (shell_windows surfaces) \<le> C_MAX_WINDOWS" .
  moreover have "list_all cwindow_ok (shell_windows surfaces)"
    using assms in_set_takeD [of _ C_MAX_WINDOWS surfaces]
    by (fastforce simp: shell_windows_def list_all_iff cwindow_ok_def surface_i32_def)
  ultimately have "comp_inv (empty_compositor\<lparr>c_windows := shell_windows surfaces\<rparr>)" by (intro comp_inv_windows e)
  then show ?thesis using e by (simp add: comp_new_def)
qed

lemma comp_handle_ok: "comp_inv c \<Longrightarrow> safe (\<lambda>c. c) (comp_handle ev c)"
  using open_test_window_ok comp_command_ok client_command_ok comp_key_ok pointer_packet_ok
  by (cases ev) (simp_all add: comp_handle_def o_def)

interpretation cm: safe_machine comp_handle "\<lambda>_. True" comp_inv
proof
  fix ev c assume "comp_inv c"
  then show "\<exists>c'. comp_handle ev c = Some c' \<and> comp_inv c'"
    using comp_handle_ok [of c ev] by (cases "comp_handle ev c") auto
qed


definition demo_surface :: shell_surface where
  "demo_surface = \<lparr>ss_id = ''launcher'', ss_role = CHR ''W'', ss_visible = True, ss_x = 100, ss_y = 80, ss_width = 400,
     ss_height = 300, ss_title = ''Apps'', ss_items = [demo_search_row]\<rparr>"


end
