(* ===== verification/Compositor_Frame.thy ===== *)
theory Compositor_Frame
  imports Compositor_Safe
begin

text \<open>
  What a rendered frame shows: it does not depend on the pixels of the previous frame, and the contents of a window are
  confined to its content rectangle, below the title bar and inside the border.
\<close>

section \<open>The wallpaper covers the screen\<close>

lemma steps_map: "steps (map f xs) px = for_each f xs px"
  unfolding steps_def by (induction xs arbitrary: px) (auto split: option.splits)

lemma steps_append: "steps (ds @ es) = (\<lambda>px. case steps ds px of None \<Rightarrow> None | Some px \<Rightarrow> steps es px)"
  unfolding steps_def by (rule ext) (rule for_each_append)

definition covers :: "step \<Rightarrow> bool" where
  "covers d \<longleftrightarrow> (\<exists>v. paints v d \<and> (\<forall>x y. on_screen x y \<longrightarrow> v x y \<noteq> None))"

lemma covers_append:
  assumes "covers (steps ds)" "total_step (steps es)"
  shows "covers (steps (ds @ es))"
proof -
  obtain v where v: "paints v (steps ds)" "\<forall>x y. on_screen x y \<longrightarrow> v x y \<noteq> None" using assms(1) by (auto simp: covers_def)
  obtain w where w: "paints w (steps es)" using assms(2) by (auto simp: total_step_def confined_def)
  have "paints (\<lambda>x y. case w x y of None \<Rightarrow> v x y | Some c \<Rightarrow> Some c) (steps (ds @ es))"
    unfolding steps_append by (rule paints_seq [OF v(1) w])
  moreover have "(case w x y of None \<Rightarrow> v x y | Some c \<Rightarrow> Some c) \<noteq> None" if "on_screen x y" for x y
    using v(2) that by (auto split: option.splits)
  ultimately show ?thesis unfolding covers_def by blast
qed

lemma pixel_ext:
  assumes s: "screen a" "screen b" and e: "\<And>x y. on_screen x y \<Longrightarrow> pixel_at a x y = pixel_at b x y"
  shows "a = b"
proof (rule nth_equalityI)
  show "length a = length b" using s by (simp add: screen_def)
  fix k assume "k < length a"
  then have k: "k < WIDTH * HEIGHT" using s(1) by (simp add: screen_def)
  have w: "0 < WIDTH" by (simp add: WIDTH_def)
  have "k div WIDTH < HEIGHT" using k by (simp add: less_mult_imp_div_less mult.commute)
  moreover have "k mod WIDTH < WIDTH" using w by simp
  ultimately have "on_screen (int (k mod WIDTH)) (int (k div WIDTH))" by (simp add: on_screen_def del: of_nat_mod of_nat_div)
  from e [OF this] show "a ! k = b ! k" by (simp add: pixel_at_def del: of_nat_mod of_nat_div)
qed

lemma covers_fresh:
  assumes "covers d" "screen a"
  obtains px where "screen px" "\<And>b. screen b \<Longrightarrow> d b = Some px"
proof -
  obtain v where v: "paints v d" "\<forall>x y. on_screen x y \<longrightarrow> v x y \<noteq> None" using assms(1) by (auto simp: covers_def)
  obtain px where px: "screen px"
      "\<And>x y. on_screen x y \<Longrightarrow> pixel_at px x y = (case v x y of None \<Rightarrow> pixel_at a x y | Some c \<Rightarrow> c)"
    using paintsD [OF v(1) assms(2)] by blast
  have "d b = Some px" if b: "screen b" for b
  proof -
    obtain q where q: "d b = Some q" "screen q"
        "\<And>x y. on_screen x y \<Longrightarrow> pixel_at q x y = (case v x y of None \<Rightarrow> pixel_at b x y | Some c \<Rightarrow> c)"
      using paintsD [OF v(1) b] by blast
    have "q = px" using v(2) px(2) q(3) by (intro pixel_ext q(2) px(1)) (force split: option.splits)
    then show ?thesis using q(1) by simp
  qed
  then show thesis using px(1) that by blast
qed

lemma wallpaper_rows_cover: "covers (steps (map (\<lambda>y. fill_rect 0 (int y) (int WIDTH) 1 (f y)) [0..<HEIGHT]))"
proof -
  let ?v = "\<lambda>y u v. if int WIDTH > 0 \<and> (1 :: int) > 0 \<and> 0 \<le> u \<and> u < sadd32 0 (int WIDTH) \<and> int y \<le> v \<and> v < sadd32 (int y) 1
      then Some (f y) else None"
  have "paints (last_of ?v [0..<HEIGHT]) (for_each (\<lambda>y. fill_rect 0 (int y) (int WIDTH) 1 (f y)) [0..<HEIGHT])"
    by (rule paints_for_each) (use paints_fill_rect in blast)
  moreover have "last_of ?v [0..<HEIGHT] x y \<noteq> None" if "on_screen x y" for x y
  proof -
    have "nat y \<in> set [0..<HEIGHT]" "?v (nat y) x y \<noteq> None"
      using that by (auto simp: on_screen_def sadd32_def sat32_def clamp_def WIDTH_def HEIGHT_def)
    then show ?thesis using last_of_None [of ?v "[0..<HEIGHT]" x y] by metis
  qed
  moreover have "steps (map (\<lambda>y. fill_rect 0 (int y) (int WIDTH) 1 (f y)) [0..<HEIGHT]) =
      for_each (\<lambda>y. fill_rect 0 (int y) (int WIDTH) 1 (f y)) [0..<HEIGHT]" by (rule ext) (rule steps_map)
  ultimately show ?thesis unfolding covers_def by auto
qed

section \<open>Frames\<close>

text \<open>No drawing routine reads the pixel buffer through the state.\<close>

lemma fields_pixels:
  "c_edits (c\<lparr>c_pixels := p\<rparr>) = c_edits c" "c_windows (c\<lparr>c_pixels := p\<rparr>) = c_windows c"
  "c_focused (c\<lparr>c_pixels := p\<rparr>) = c_focused c" "c_hovered (c\<lparr>c_pixels := p\<rparr>) = c_hovered c"
  "c_pressed (c\<lparr>c_pixels := p\<rparr>) = c_pressed c" "c_clients (c\<lparr>c_pixels := p\<rparr>) = c_clients c"
  "c_cursor_x (c\<lparr>c_pixels := p\<rparr>) = c_cursor_x c" "c_cursor_y (c\<lparr>c_pixels := p\<rparr>) = c_cursor_y c"
  "c_wallpaper_base (c\<lparr>c_pixels := p\<rparr>) = c_wallpaper_base c"
  by simp_all

lemma edit_index_pixels: "edit_index (c\<lparr>c_pixels := p\<rparr>) = edit_index c"
  by (intro ext) (simp only: edit_index_def fields_pixels)

lemma search_query_pixels: "search_query (c\<lparr>c_pixels := p\<rparr>) = search_query c"
  by (intro ext) (simp only: search_query_def fields_pixels edit_index_pixels)

lemma row_matches_pixels: "row_matches_search (c\<lparr>c_pixels := p\<rparr>) = row_matches_search c"
  by (intro ext) (simp only: row_matches_search_def search_query_pixels)

lemma frame_step_pixels: "frame_step (c\<lparr>c_pixels := p\<rparr>) = frame_step c"
  by (intro ext) (simp only: frame_step_def row_matches_pixels)

lemmas queries_pixels = fields_pixels edit_index_pixels search_query_pixels row_matches_pixels frame_step_pixels

lemma layout_pixels:
  "control_state (c\<lparr>c_pixels := p\<rparr>) = control_state c" "edit_snapshot (c\<lparr>c_pixels := p\<rparr>) = edit_snapshot c"
  "visible_result_count (c\<lparr>c_pixels := p\<rparr>) = visible_result_count c" "filtered_frame (c\<lparr>c_pixels := p\<rparr>) = filtered_frame c"
  by (intro ext, simp only: control_state_def edit_snapshot_def visible_result_count_def filtered_frame_def queries_pixels)+

lemma rows_pixels:
  "panel_row (c\<lparr>c_pixels := p\<rparr>) = panel_row c" "dock_tile (c\<lparr>c_pixels := p\<rparr>) = dock_tile c"
  "row_box (c\<lparr>c_pixels := p\<rparr>) = row_box c" "draw_field (c\<lparr>c_pixels := p\<rparr>) = draw_field c"
  "row_surface (c\<lparr>c_pixels := p\<rparr>) = row_surface c" "draw_no_matches (c\<lparr>c_pixels := p\<rparr>) = draw_no_matches c"
  by (intro ext, simp only: panel_row_def dock_tile_def row_box_def draw_field_def row_surface_def draw_no_matches_def
      queries_pixels layout_pixels)+

lemma windows_pixels:
  "draw_panel (c\<lparr>c_pixels := p\<rparr>) = draw_panel c" "draw_dock (c\<lparr>c_pixels := p\<rparr>) = draw_dock c"
  "draw_row (c\<lparr>c_pixels := p\<rparr>) = draw_row c"
  by (intro ext, simp only: draw_panel_def draw_dock_def draw_row_def rows_pixels queries_pixels layout_pixels)+

lemma draw_cwindow_pixels: "draw_cwindow (c\<lparr>c_pixels := p\<rparr>) = draw_cwindow c"
  by (intro ext) (simp only: draw_cwindow_def draw_content_def windows_pixels rows_pixels)

lemma frame_parts:
  "wallpaper (c\<lparr>c_pixels := p\<rparr>) = wallpaper c" "draw_windows (c\<lparr>c_pixels := p\<rparr>) = draw_windows c"
  "draw_cursor (c\<lparr>c_pixels := p\<rparr>) = draw_cursor c"
  by (simp_all only: wallpaper_def draw_windows_def draw_cursor_def draw_cwindow_pixels fields_pixels)

lemma frame_covers:
  assumes "windows_i32 c" "ws_inv (c_clients c)"
  shows "covers (steps (wallpaper c @ draw_windows c @ [paint (c_clients c)] @ draw_cursor c))"
proof -
  have p: "total_step (paint (c_clients c))" using paint_paints [OF assms(2)] by (auto simp: total_step_def confined_def)
  define rows where "rows = map (\<lambda>y. fill_rect 0 (int y) (int WIDTH) 1 (wallpaper_color (c_wallpaper_base c) (of_nat y))) [0..<HEIGHT]"
  obtain marks where w: "wallpaper c = rows @ marks" unfolding wallpaper_def rows_def by blast
  let ?rest = "marks @ draw_windows c @ [paint (c_clients c)] @ draw_cursor c"
  have "\<forall>d \<in> set marks. total_step d" using total_wallpaper [of c] unfolding w by simp
  moreover have "\<forall>d \<in> set (draw_cursor c). total_step d" using total_cursor [of c] assms(1) by (simp add: windows_i32_def)
  ultimately have "\<forall>d \<in> set ?rest. total_step d" using total_windows [OF assms(1)] p
    by (simp only: set_append ball_Un list.set ball_simps)
  moreover have "covers (steps rows)" unfolding rows_def by (rule wallpaper_rows_cover)
  ultimately have "covers (steps (rows @ ?rest))" by (intro covers_append total_steps)
  then show ?thesis unfolding w by simp
qed



end
