(* ===== verification/Compositor_Focus.thy ===== *)
theory Compositor_Focus
  imports Compositor_Edit
begin

text \<open>
  Keyboard traversal of the compositor's controls (\<^verbatim>\<open>repair_focus_scope\<close>, \<^verbatim>\<open>focus_next\<close>,
  \<^verbatim>\<open>focused_action\<close>): Tab walks the controls of the active scope as a ring and Shift+Tab walks it backwards.
\<close>

section \<open>What the order of controls depends on\<close>

definition tab_order :: "compositor \<Rightarrow> control list" where
  "tab_order c = scope_controls (repair_focus_scope c)"

definition shown_ids :: "compositor \<Rightarrow> string list" where
  "shown_ids c = map cw_id (filter (\<lambda>w. \<not> cw_minimized w) (c_windows c))"

lemma fields_focused:
  "c_edits (c\<lparr>c_focused := f\<rparr>) = c_edits c" "c_windows (c\<lparr>c_focused := f\<rparr>) = c_windows c" "c_scope (c\<lparr>c_focused := f\<rparr>) = c_scope c"
  by simp_all

lemma queries_focused:
  "search_query (c\<lparr>c_focused := f\<rparr>) = search_query c" "focus_scope_accepts (c\<lparr>c_focused := f\<rparr>) = focus_scope_accepts c"
  by (intro ext, simp only: edit_index_def search_query_def focus_scope_accepts_def fields_focused)+

lemma can_focus_focused: "can_focus (c\<lparr>c_focused := f\<rparr>) = can_focus c"
  by (intro ext) (simp only: can_focus_def row_matches_search_def queries_focused)

lemma scope_controls_focused [simp]:
  "scope_controls (c\<lparr>c_focused := f\<rparr>) = scope_controls c" "scope_valid (c\<lparr>c_focused := f\<rparr>) = scope_valid c"
  "window_controls (c\<lparr>c_focused := f\<rparr>) = window_controls c" "shown_ids (c\<lparr>c_focused := f\<rparr>) = shown_ids c"
  by (simp_all only: scope_controls_def window_controls_def [abs_def] scope_valid_def shown_ids_def can_focus_focused queries_focused fields_focused)

lemma scope_valid_repair: "scope_valid (repair_focus_scope c)"
proof (cases "scope_valid c")
  case True
  then show ?thesis by (simp add: repair_focus_scope_def Let_def)
next
  case False
  let ?f = "rfind (\<lambda>w. \<not> cw_minimized w \<and> cw_role w \<in> {CHR ''W'', CHR ''L''}) (c_windows c)"
  have "scope_valid (set_focus_scope (case ?f of None \<Rightarrow> Desktop | Some w \<Rightarrow> scope_for_window w) c)"
  proof (cases ?f)
    case None
    then show ?thesis by (simp add: set_focus_scope_def scope_valid_def split: focus_scope.split)
  next
    case (Some w)
    then have "w \<in> set (c_windows c)" "\<not> cw_minimized w"
      by (auto simp: rfind_def find_Some_iff rev_nth dest: nth_mem)
    then show ?thesis using Some
      by (auto simp: set_focus_scope_def scope_valid_def scope_for_window_def list_ex_iff split: focus_scope.split)
  qed
  then show ?thesis using False by (simp add: repair_focus_scope_def Let_def)
qed

lemma shown_ids_repair [simp]: "shown_ids (repair_focus_scope c) = shown_ids c"
  by (simp add: shown_ids_def repair_focus_scope_def set_focus_scope_def Let_def)

section \<open>Controls\<close>

lemma find_unique:
  assumes "distinct (map f (filter P xs))" "x \<in> set xs" "P x"
  shows "find (\<lambda>y. P y \<and> f y = f x) xs = Some x"
  using assms by (induction xs) (auto simp: image_iff split: if_splits)

lemma in_window_controls:
  "ctl \<in> set (window_controls c w) \<longleftrightarrow> \<not> cw_minimized w \<and> focus_scope_accepts c w \<and>
     (\<exists>k < length (cw_rows w). ctl = (cw_id w, k) \<and> laid_out (cw_rows w ! k) \<and> can_focus c w (cw_rows w ! k))"
  by (auto simp: window_controls_def in_set_enumerate_eq)

lemma in_scope_controls:
  "ctl \<in> set (scope_controls c) \<longleftrightarrow> (\<exists>w \<in> set (c_windows c). ctl \<in> set (window_controls c w))"
  by (auto simp: scope_controls_def)

lemma distinct_window_controls: "distinct (window_controls c w)"
proof -
  have "distinct (filter P (enumerate 0 (cw_rows w)))" for P by (simp add: distinct_enumerate)
  moreover have "inj_on (\<lambda>(k, r). (cw_id w, k)) (set (filter P (enumerate 0 (cw_rows w))))" for P
    by (auto simp: inj_on_def in_set_enumerate_eq)
  ultimately show ?thesis by (simp add: window_controls_def distinct_map)
qed

lemma distinct_scope_controls:
  assumes "distinct (shown_ids c)"
  shows "distinct (scope_controls c)"
proof -
  have "distinct (concat (map (window_controls c) ws))" if "distinct (map cw_id (filter (\<lambda>w. \<not> cw_minimized w) ws))" for ws
    using that
  proof (induction ws)
    case (Cons w ws)
    have "set (window_controls c w) \<inter> set (concat (map (window_controls c) ws)) = {}"
      using Cons.prems by (auto simp: in_window_controls)
    moreover have "distinct (concat (map (window_controls c) ws))" using Cons by (simp split: if_splits)
    ultimately show ?case using distinct_window_controls [of c w] by simp
  qed simp
  then show ?thesis using assms by (simp add: scope_controls_def shown_ids_def)
qed

text \<open>A control of the scope that has the focus keeps it, and Enter performs its action.\<close>

lemma scope_control_kept:
  assumes d: "distinct (shown_ids c)" and ctl: "ctl \<in> set (scope_controls c)"
  obtains w k where "w \<in> set (c_windows c)" "\<not> cw_minimized w" "k < length (cw_rows w)" "ctl = (cw_id w, k)"
    "focus_kept (c\<lparr>c_focused := Some ctl\<rparr>)" "focused_action (c\<lparr>c_focused := Some ctl\<rparr>) = Some (r_action (cw_rows w ! k))"
proof -
  obtain w k where w: "w \<in> set (c_windows c)" "\<not> cw_minimized w" "focus_scope_accepts c w" "k < length (cw_rows w)"
      "ctl = (cw_id w, k)" "can_focus c w (cw_rows w ! k)"
    using ctl unfolding in_scope_controls in_window_controls by blast
  have f: "find (\<lambda>v. \<not> cw_minimized v \<and> cw_id v = cw_id w) (c_windows c) = Some w"
    using d w(1,2) unfolding shown_ids_def by (intro find_unique)
  have m: "row_matches_search (c\<lparr>c_focused := g\<rparr>) = row_matches_search c" for g
    by (intro ext) (simp only: row_matches_search_def queries_focused)
  have "focus_kept (c\<lparr>c_focused := Some ctl\<rparr>)"
    using w f by (simp add: focus_kept_def get_def can_focus_focused queries_focused)
  moreover have "focused_action (c\<lparr>c_focused := Some ctl\<rparr>) = Some (r_action (cw_rows w ! k))"
    using w f by (simp add: focused_action_def get_def queries_focused m can_focus_def)
  ultimately show thesis using w that by blast
qed

lemma repair_kept: "scope_valid c \<Longrightarrow> focus_kept c \<Longrightarrow> repair_focus_scope c = c"
  by (simp add: repair_focus_scope_def)

section \<open>Moving around the ring\<close>

definition ring_next :: "bool \<Rightarrow> nat \<Rightarrow> nat \<Rightarrow> nat" where
  "ring_next rvs m k = (if rvs then if k = 0 then m - 1 else k - 1 else (k + 1) mod m)"

definition ring_start :: "bool \<Rightarrow> nat \<Rightarrow> nat" where
  "ring_start rvs m = (if rvs then m - 1 else 0)"

lemma ring_next_less: "k < m \<Longrightarrow> ring_next rvs m k < m" "0 < m \<Longrightarrow> ring_start rvs m < m"
  by (auto simp: ring_next_def ring_start_def)

lemma ring_inverse:
  assumes "k < m"
  shows "ring_next (\<not> rvs) m (ring_next rvs m k) = k"
proof (cases "k + 1 = m")
  case True
  then show ?thesis by (cases rvs) (auto simp: ring_next_def)
next
  case False
  then show ?thesis using assms by (cases rvs) (auto simp: ring_next_def)
qed

lemma position_eq: "distinct xs \<Longrightarrow> k < length xs \<Longrightarrow> position (\<lambda>x. x = xs ! k) xs = Some k"
proof (induction xs arbitrary: k)
  case (Cons x xs)
  then show ?case by (cases k) auto
qed simp

text \<open>One move: it lands on a control of the order, and the state it leaves is its own repair.\<close>

lemma focus_next_settles:
  assumes d: "distinct (shown_ids c)" and n: "tab_order c \<noteq> []"
  obtains j where "j < length (tab_order c)" "focus_next rvs c = (repair_focus_scope c)\<lparr>c_focused := Some (tab_order c ! j)\<rparr>"
    "repair_focus_scope (focus_next rvs c) = focus_next rvs c" "tab_order (focus_next rvs c) = tab_order c"
    "c_focused (focus_next rvs c) = Some (tab_order c ! j)"
proof -
  let ?c = "repair_focus_scope c"
  define cur where "cur = (case c_focused ?c of None \<Rightarrow> None | Some f \<Rightarrow> position (\<lambda>k. k = f) (tab_order c))"
  define j where "j = (case cur of None \<Rightarrow> ring_start rvs (length (tab_order c)) | Some k \<Rightarrow> ring_next rvs (length (tab_order c)) k)"
  have "k < length (tab_order c)" if "cur = Some k" for k
    using that position_SomeD by (fastforce simp: cur_def split: option.splits)
  then have j: "j < length (tab_order c)" using n by (auto simp: j_def ring_next_less split: option.split)
  have eq: "focus_next rvs c = ?c\<lparr>c_focused := Some (tab_order c ! j)\<rparr>"
    unfolding focus_next_def Let_def tab_order_def [symmetric] cur_def [symmetric] j_def
    using n by (cases cur) (simp_all add: ring_start_def ring_next_def)
  have "tab_order c ! j \<in> set (scope_controls ?c)" using nth_mem [OF j] by (simp add: tab_order_def)
  then have "focus_kept (?c\<lparr>c_focused := Some (tab_order c ! j)\<rparr>)"
    using scope_control_kept [of ?c] d by (metis shown_ids_repair)
  then have r: "repair_focus_scope (focus_next rvs c) = focus_next rvs c"
    using scope_valid_repair [of c] unfolding eq by (intro repair_kept) simp_all
  then have "tab_order (focus_next rvs c) = tab_order c" unfolding tab_order_def r by (simp add: eq)
  moreover have "c_focused (focus_next rvs c) = Some (tab_order c ! j)" unfolding eq by simp
  ultimately show thesis using j eq r that by blast
qed

lemma focus_next_moves:
  assumes d: "distinct (shown_ids c)" and r: "repair_focus_scope c = c" and k: "k < length (tab_order c)"
    and f: "c_focused c = Some (tab_order c ! k)"
  shows "c_focused (focus_next rvs c) = Some (tab_order c ! ring_next rvs (length (tab_order c)) k)"
proof -
  have "position (\<lambda>x. x = tab_order c ! k) (tab_order c) = Some k"
    using d k by (intro position_eq) (simp_all add: tab_order_def distinct_scope_controls)
  moreover have "tab_order c \<noteq> []" using k by auto
  ultimately show ?thesis using r f by (simp add: focus_next_def Let_def tab_order_def ring_next_def)
qed

lemma shown_ids_next [simp]: "shown_ids (focus_next rvs c) = shown_ids c"
  by (simp add: focus_next_def Let_def)

text \<open>A state between two moves: its focus is the \<open>k\<close>-th control of the order.\<close>

definition settled :: "control list \<Rightarrow> nat \<Rightarrow> compositor \<Rightarrow> bool" where
  "settled order k c \<longleftrightarrow> distinct (shown_ids c) \<and> repair_focus_scope c = c \<and> tab_order c = order \<and>
     k < length order \<and> c_focused c = Some (order ! k)"

lemma settled_first:
  assumes "distinct (shown_ids c)" "tab_order c \<noteq> []"
  obtains j where "settled (tab_order c) j (focus_next rvs c)"
  using focus_next_settles [OF assms, of rvs] assms(1) that by (metis settled_def shown_ids_next)

lemma settled_step:
  assumes "settled order k c"
  shows "settled order (ring_next rvs (length order) k) (focus_next rvs c)"
proof -
  have c: "distinct (shown_ids c)" "repair_focus_scope c = c" "tab_order c = order" "k < length order" "c_focused c = Some (order ! k)"
    using assms by (auto simp: settled_def)
  then have "tab_order c \<noteq> []" by auto
  from focus_next_settles [OF c(1) this, of rvs] focus_next_moves [OF c(1,2), of k rvs] c ring_next_less(1) [OF c(4)]
  show ?thesis by (simp add: settled_def) metis
qed

lemma settled_forward:
  assumes "settled order k (focus_next False c)"
  shows "settled order ((k + m) mod length order) ((focus_next False ^^ Suc m) c)"
proof (induction m)
  case 0
  have "k < length order" using assms by (simp add: settled_def)
  then show ?case using assms by simp
next
  case (Suc m)
  have "Suc ((k + m) mod length order) mod length order = (k + Suc m) mod length order" by (simp add: mod_Suc_eq)
  then show ?case using settled_step [OF Suc, of False] by (simp add: ring_next_def)
qed

lemma settled_action:
  assumes "settled order k c"
  obtains w r where "w \<in> set (c_windows c)" "\<not> cw_minimized w" "r < length (cw_rows w)" "c_focused c = Some (cw_id w, r)"
    "focused_action c = Some (r_action (cw_rows w ! r))"
proof -
  have c: "distinct (shown_ids c)" "scope_controls c = order" "k < length order" "c_focused c = Some (order ! k)"
    using assms by (auto simp: settled_def tab_order_def)
  then have "order ! k \<in> set (scope_controls c)" by simp
  moreover have "c\<lparr>c_focused := Some (order ! k)\<rparr> = c" using c(4) by simp
  ultimately show thesis using scope_control_kept [OF c(1), of "order ! k"] c(4) that by metis
qed

text \<open>C34. Tab visits the controls of the active focus scope (visible, enabled, focusable, matching the search) one after the other
  and starts over after the last; Shift+Tab undoes Tab and Tab undoes Shift+Tab; and at every stop Enter performs the
  action of the control that has the focus. Windows with the same identifier are the one case that is excluded.\<close>

theorem tab_traversal:
  assumes d: "distinct (shown_ids c)" and n: "tab_order c \<noteq> []"
  shows "distinct (tab_order c) \<and>
    (\<exists>s < length (tab_order c). \<forall>m. c_focused ((focus_next False ^^ Suc m) c) = Some (tab_order c ! ((s + m) mod length (tab_order c)))) \<and>
    (\<forall>rvs b. c_focused (focus_next (\<not> rvs) (focus_next rvs (focus_next b c))) = c_focused (focus_next b c)) \<and>
    (\<forall>rvs. \<exists>w k. w \<in> set (c_windows c) \<and> \<not> cw_minimized w \<and> k < length (cw_rows w) \<and>
       c_focused (focus_next rvs c) = Some (cw_id w, k) \<and> focused_action (focus_next rvs c) = Some (r_action (cw_rows w ! k)))"
proof (intro conjI allI)
  show "distinct (tab_order c)" using d by (simp add: tab_order_def distinct_scope_controls)
next
  obtain s where s: "settled (tab_order c) s (focus_next False c)" using settled_first [OF d n] .
  have "s < length (tab_order c)" using s by (simp add: settled_def)
  moreover have "c_focused ((focus_next False ^^ Suc m) c) = Some (tab_order c ! ((s + m) mod length (tab_order c)))" for m
    using settled_forward [OF s, of m] unfolding settled_def by blast
  ultimately show "\<exists>s < length (tab_order c). \<forall>m. c_focused ((focus_next False ^^ Suc m) c) =
      Some (tab_order c ! ((s + m) mod length (tab_order c)))" by blast
next
  fix rvs b
  obtain j where j: "settled (tab_order c) j (focus_next b c)" using settled_first [OF d n] .
  have "j < length (tab_order c)" using j by (simp add: settled_def)
  from settled_step [OF settled_step [OF j, of rvs], of "\<not> rvs"] ring_inverse [OF this, of rvs] j
  show "c_focused (focus_next (\<not> rvs) (focus_next rvs (focus_next b c))) = c_focused (focus_next b c)"
    by (simp add: settled_def)
next
  fix rvs
  obtain j where j: "settled (tab_order c) j (focus_next rvs c)" using settled_first [OF d n] .
  have "c_windows (focus_next rvs c) = c_windows c" by (simp add: focus_next_def repair_focus_scope_def set_focus_scope_def Let_def)
  then show "\<exists>w k. w \<in> set (c_windows c) \<and> \<not> cw_minimized w \<and> k < length (cw_rows w) \<and>
      c_focused (focus_next rvs c) = Some (cw_id w, k) \<and> focused_action (focus_next rvs c) = Some (r_action (cw_rows w ! k))"
    using settled_action [OF j] by metis
qed

theorem tab_traversal_witness: "c_focused (focus_next False demo_editing) = Some (''launcher'', 0)"
proof -
  have k: "focus_kept demo_editing" "scope_valid demo_editing"
    by (simp_all add: focus_kept_def scope_valid_def demo_editing_def demo_launcher_def demo_search_row_def get_def can_focus_def
        focus_scope_accepts_def has_flag_def CONTROL_FLAG_FOCUSABLE_def CONTROL_FLAG_DISABLED_def row_matches_search_def structural_def)
  have o: "tab_order demo_editing = [(''launcher'', 0)]"
    unfolding tab_order_def repair_kept [OF k(2,1)]
    by (simp add: scope_controls_def window_controls_def demo_editing_def demo_launcher_def demo_search_row_def can_focus_def laid_out_def
        focus_scope_accepts_def has_flag_def CONTROL_FLAG_FOCUSABLE_def CONTROL_FLAG_DISABLED_def row_matches_search_def structural_def)
  have "distinct (shown_ids demo_editing)" by (simp add: shown_ids_def demo_editing_def)
  with tab_traversal [of demo_editing] o obtain s where "s < length (tab_order demo_editing)"
    "\<forall>m. c_focused ((focus_next False ^^ Suc m) demo_editing) = Some (tab_order demo_editing ! ((s + m) mod length (tab_order demo_editing)))"
    by auto
  from this(2) [rule_format, of 0] this(1) o show ?thesis by simp
qed

end
