(* ===== verification/Compositor_Press.thy ===== *)
theory Compositor_Press
  imports Compositor Compositor_Focus
begin

text \<open>
  Pressing and releasing the button over the compositor's controls (\<^verbatim>\<open>pointer_down\<close>,
  \<^verbatim>\<open>release_control\<close>): which control fires, and how a press is tested against the rows of a window that is being searched.
\<close>

section \<open>The press is tested against the unfiltered layout\<close>

lemma remove_nth_in: "x \<in> set (remove_nth k xs) \<Longrightarrow> \<exists>j < length xs. j \<noteq> k \<and> x = xs ! j"
proof -
  assume "x \<in> set (remove_nth k xs)"
  then consider "x \<in> set (take k xs)" | "x \<in> set (drop (k + 1) xs)" by (auto simp: remove_nth_def)
  then show ?thesis
  proof cases
    case 1
    then obtain j where "j < length (take k xs)" "x = take k xs ! j" by (auto simp: in_set_conv_nth)
    then show ?thesis by (intro exI [of _ j]) simp
  next
    case 2
    then obtain j where "j < length (drop (k + 1) xs)" "x = drop (k + 1) xs ! j" by (auto simp: in_set_conv_nth)
    then show ?thesis by (intro exI [of _ "k + 1 + j"]) simp
  qed
qed

lemma search_query_absent:
  assumes "\<forall>v \<in> set (c_windows c). cw_id v \<noteq> i"
  shows "search_query c i = None"
proof -
  have "find (\<lambda>w. cw_id w = i) (c_windows c) = None" using assms by (simp add: find_None_iff)
  then show ?thesis by (simp add: search_query_def)
qed


text \<open>A launcher with two entries in which \<open>b\<close> has been searched, and the pointer over the only entry that is shown.\<close>

definition demo_entry :: "string \<Rightarrow> int \<Rightarrow> crow" where
  "demo_entry name x = \<lparr>r_text = name, r_action = ''open '' @ name, r_kind = CHR ''b'', r_style = 0, r_flags = 1,
     r_x = x, r_y = 100, r_width = 100, r_height = 30\<rparr>"

definition demo_searched :: compositor where
  "demo_searched = demo_editing\<lparr>
     c_windows := [demo_launcher\<lparr>cw_rows := [demo_search_row, demo_entry ''alpha'' 10, demo_entry ''beta'' 122]\<rparr>],
     c_edits := [\<lparr>e_window = ''launcher'', e_row = 0, e_value = ''t'', e_cursor = 1\<rparr>], c_cursor_x := 120, c_cursor_y := 190\<rparr>"

lemma demo_fields_searched:
  "c_windows demo_searched = [demo_launcher\<lparr>cw_rows := [demo_search_row, demo_entry ''alpha'' 10, demo_entry ''beta'' 122]\<rparr>]"
  "c_edits demo_searched = [\<lparr>e_window = ''launcher'', e_row = 0, e_value = ''t'', e_cursor = 1\<rparr>]"
  "c_cursor_x demo_searched = 120" "c_cursor_y demo_searched = 190"
  by (simp_all add: demo_searched_def)

lemma demo_query: "search_query demo_searched ''launcher'' = Some ''t''"
  by (simp add: search_query_def demo_fields_searched demo_launcher_def demo_search_row_def edit_index_def)

lemma demo_filter: "\<not> row_matches_search demo_searched (c_windows demo_searched ! 0) (demo_entry ''alpha'' 10)"
  "row_matches_search demo_searched (c_windows demo_searched ! 0) (demo_entry ''beta'' 122)"
  by (simp_all add: row_matches_search_def demo_fields_searched demo_launcher_def demo_query demo_entry_def searchable_def structural_def
      ascii_contains_case_insensitive_def to_ascii_lowercase_def upt_rec)


end
