(* ===== verification/Ps2.thy ===== *)
theory Ps2
  imports Ipc Compositor
begin

text \<open>
  The PS/2 byte stream (\<^verbatim>\<open>ps2.rs\<close>): \<^verbatim>\<open>poll\<close> reads up to 32 pending bytes from
  the controller, posts keyboard bytes as they come and assembles mouse bytes into packets. The controller's output is
  a list of pairs: whether the byte is from the mouse (status bit 5) and the byte. \<open>None\<close> is the panic of an
  index outside \<^verbatim>\<open>MOUSE_BYTES\<close>. The port commands that set the mouse up are register I/O
  and leave only the packet size behind.
\<close>

section \<open>State and operations\<close>

definition KEY_EVENT :: u16 where "KEY_EVENT = 0x100"
definition MOUSE_EVENT :: u16 where "MOUSE_EVENT = 0x101"

record ps2 =
  MOUSE_BYTES :: "u8 list"
  MOUSE_INDEX :: usize
  MOUSE_PACKET_SIZE :: usize

text \<open>The statics, and what \<^verbatim>\<open>init_mouse\<close> leaves in them.\<close>

definition ps2_statics :: ps2 where
  "ps2_statics = \<lparr>MOUSE_BYTES = [0, 0, 0, 0], MOUSE_INDEX = 0, MOUSE_PACKET_SIZE = 3\<rparr>"

definition set_wheel_mode :: "bool \<Rightarrow> ps2 \<Rightarrow> ps2" where
  "set_wheel_mode wheel_mode m = m\<lparr>MOUSE_PACKET_SIZE := (if wheel_mode then 4 else 3), MOUSE_INDEX := 0\<rparr>"

definition wheel_byte :: "ps2 \<Rightarrow> u8" where
  "wheel_byte m =
     (if MOUSE_PACKET_SIZE m = 4 then
        let nibble = MOUSE_BYTES m ! 3 AND 0x0f in if nibble AND 0x08 \<noteq> 0 then nibble OR 0xf0 else nibble
      else 0)"

definition mouse_packet :: "ps2 \<Rightarrow> u32" where
  "mouse_packet m =
     ucast (MOUSE_BYTES m ! 0) OR push_bit 8 (ucast (MOUSE_BYTES m ! 1)) OR push_bit 16 (ucast (MOUSE_BYTES m ! 2)) OR
     push_bit 24 (ucast (wheel_byte m))"

text \<open>One mouse byte: the packet that it completes, if any.\<close>

definition mouse_byte :: "u8 \<Rightarrow> ps2 \<Rightarrow> (u32 option \<times> ps2) option" where
  "mouse_byte byte m =
     (if MOUSE_INDEX m = 0 \<and> byte AND 8 = 0 then Some (None, m)
      else if MOUSE_INDEX m \<ge> length (MOUSE_BYTES m) then None
      else
        let m = m\<lparr>MOUSE_BYTES := (MOUSE_BYTES m)[MOUSE_INDEX m := byte], MOUSE_INDEX := MOUSE_INDEX m + 1\<rparr> in
        if MOUSE_INDEX m = MOUSE_PACKET_SIZE m then let m = m\<lparr>MOUSE_INDEX := 0\<rparr> in Some (Some (mouse_packet m), m)
        else Some (None, m))"

fun poll_loop :: "nat \<Rightarrow> u16 \<Rightarrow> (bool \<times> u8) list \<Rightarrow> nat \<times> ps2 \<times> ports \<Rightarrow> (nat \<times> (bool \<times> u8) list \<times> ps2 \<times> ports) option" where
  "poll_loop 0 port pending (events, m, ps) = Some (events, pending, m, ps)"
| "poll_loop (Suc n) port [] (events, m, ps) = Some (events, [], m, ps)"
| "poll_loop (Suc n) port ((aux, byte) # pending) (events, m, ps) =
     (if \<not> aux then
        case send_system port KEY_EVENT (ucast byte) ps of
          (ok, ps) \<Rightarrow> poll_loop n port pending (if ok then events + 1 else events, m, ps)
      else
        case mouse_byte byte m of
          None \<Rightarrow> None
        | Some (None, m) \<Rightarrow> poll_loop n port pending (events, m, ps)
        | Some (Some packet, m) \<Rightarrow>
            (case send_system port MOUSE_EVENT (ucast packet) ps of
               (ok, ps) \<Rightarrow> poll_loop n port pending (if ok then events + 1 else events, m, ps)))"

definition ps2_poll :: "u16 \<Rightarrow> (bool \<times> u8) list \<Rightarrow> ps2 \<Rightarrow> ports \<Rightarrow> (nat \<times> (bool \<times> u8) list \<times> ps2 \<times> ports) option" where
  "ps2_poll port pending m ps = poll_loop 32 port pending (0, m, ps)"

section \<open>Mouse reports\<close>

text \<open>A movement report as the mouse encodes it: buttons in the low three bits of the first byte, whose bit 3 is set, then the
  two movements and, for a wheel mouse, the wheel in the low nibble of the fourth.\<close>

record report =
  rp_first :: u8
  rp_dx :: int
  rp_dy :: int
  rp_wheel :: int

definition report_ok :: "nat \<Rightarrow> report \<Rightarrow> bool" where
  "report_ok n r \<longleftrightarrow> rp_first r AND 8 \<noteq> 0 \<and> - 128 \<le> rp_dx r \<and> rp_dx r < 128 \<and> - 128 \<le> rp_dy r \<and> rp_dy r < 128 \<and>
     (if n = 4 then - 8 \<le> rp_wheel r \<and> rp_wheel r < 8 else rp_wheel r = 0)"

definition encode_report :: "nat \<Rightarrow> report \<Rightarrow> u8 list" where
  "encode_report n r =
     [rp_first r, word_of_int (rp_dx r), word_of_int (rp_dy r)] @ (if n = 4 then [word_of_int (rp_wheel r mod 16)] else [])"

text \<open>What the compositor reads out of a packet.\<close>

definition decode_packet :: "u32 \<Rightarrow> report" where
  "decode_packet packet = \<lparr>rp_first = ucast packet, rp_dx = packet_byte 8 packet, rp_dy = packet_byte 16 packet,
     rp_wheel = packet_byte 24 packet\<rparr>"

lemma sint_byte: "- 128 \<le> x \<Longrightarrow> x < 128 \<Longrightarrow> sint (word_of_int x :: u8) = x"
  by (simp add: signed_of_int signed_take_bit_int_eq_self)

lemma packet_bytes:
  fixes a b c d :: u8
  defines "p \<equiv> ucast a OR push_bit 8 (ucast b) OR push_bit 16 (ucast c) OR push_bit 24 (ucast d) :: u32"
  shows "(ucast p :: u8) = a" "(ucast (drop_bit 8 p) :: u8) = b" "(ucast (drop_bit 16 p) :: u8) = c" "(ucast (drop_bit 24 p) :: u8) = d"
  unfolding p_def
  by (rule bit_word_eqI, auto simp: bit_simps dest: bit_imp_le_length)+

text \<open>The wheel nibble, sign-extended.\<close>

lemma wheel_nibble:
  assumes "- 8 \<le> w" "w < 8"
  shows "(let nibble = word_of_int (w mod 16) AND (0x0f :: u8) in if nibble AND 0x08 \<noteq> 0 then nibble OR 0xf0 else nibble) = (word_of_int w :: u8)"
proof -
  have "w \<in> {-8, -7, -6, -5, -4, -3, -2, -1, 0, 1, 2, 3, 4, 5, 6, 7}" using assms by (simp only: insert_iff empty_iff) presburger
  then show ?thesis by (auto simp: Let_def)
qed

section \<open>Assembling packets\<close>

text \<open>The bytes of the current packet, without what earlier packets left in the array.\<close>

definition holds_bytes :: "nat \<Rightarrow> u8 list \<Rightarrow> ps2 \<Rightarrow> bool" where
  "holds_bytes n cur m \<longleftrightarrow> (n = 3 \<or> n = 4) \<and> length (MOUSE_BYTES m) = 4 \<and> MOUSE_PACKET_SIZE m = n \<and> length cur < n \<and>
     MOUSE_INDEX m = length cur \<and> take (length cur) (MOUSE_BYTES m) = cur"

lemma mouse_byte_more:
  assumes "holds_bytes n cur m" "cur \<noteq> [] \<or> b AND 8 \<noteq> 0" "length cur + 1 < n"
  obtains m' where "mouse_byte b m = Some (None, m')" "holds_bytes n (cur @ [b]) m'"
  using assms that by (auto simp: holds_bytes_def mouse_byte_def Let_def take_Suc_conv_app_nth)

lemma mouse_byte_last:
  assumes "holds_bytes n cur m" "length cur + 1 = n" "report_ok n r" "cur @ [b] = encode_report n r"
  obtains packet m' where "mouse_byte b m = Some (Some packet, m')" "decode_packet packet = r" "holds_bytes n [] m'"
proof -
  let ?m = "m\<lparr>MOUSE_BYTES := (MOUSE_BYTES m)[length cur := b], MOUSE_INDEX := 0\<rparr>"
  have n: "n = 3 \<or> n = 4" "cur \<noteq> []" using assms by (auto simp: holds_bytes_def)
  have "take (Suc (length cur)) ((MOUSE_BYTES m)[length cur := b]) = cur @ [b]"
    using assms(1) take_Suc_conv_app_nth [of "length cur" "(MOUSE_BYTES m)[length cur := b]"] by (auto simp: holds_bytes_def)
  then have bytes: "take n (MOUSE_BYTES ?m) = encode_report n r" using assms(2,4) by simp
  have at: "MOUSE_BYTES ?m ! k = encode_report n r ! k" if "k < n" for k
    using bytes that by (metis nth_take)
  have w: "wheel_byte ?m = word_of_int (rp_wheel r)"
    using at [of 3] wheel_nibble [of "rp_wheel r"] assms(1,3) n(1)
    by (auto simp: wheel_byte_def holds_bytes_def report_ok_def encode_report_def)
  have p: "mouse_packet ?m = ucast (rp_first r) OR push_bit 8 (ucast (word_of_int (rp_dx r) :: u8)) OR
      push_bit 16 (ucast (word_of_int (rp_dy r) :: u8)) OR push_bit 24 (ucast (word_of_int (rp_wheel r) :: u8))"
    unfolding mouse_packet_def w using at [of 0] at [of 1] at [of 2] n(1) by (auto simp: encode_report_def)
  have "- 8 \<le> rp_wheel r \<and> rp_wheel r < 8" using assms(3) by (auto simp: report_ok_def split: if_splits)
  then have "decode_packet (mouse_packet ?m) = r"
    using assms(3) unfolding p decode_packet_def packet_byte_def packet_bytes by (simp add: sint_byte report_ok_def)
  moreover have "mouse_byte b m = Some (Some (mouse_packet ?m), ?m)"
    using assms(1,2) n by (auto simp: holds_bytes_def mouse_byte_def Let_def)
  moreover have "holds_bytes n [] ?m" using assms(1) by (auto simp: holds_bytes_def)
  ultimately show thesis using that by blast
qed

section \<open>Posting\<close>

definition port_ready :: "u16 \<Rightarrow> ports \<Rightarrow> bool" where
  "port_ready i ps \<longleftrightarrow> wf_ports ps \<and> i \<noteq> 0 \<and> unat i \<le> MAX_PORTS \<and> p_owner (ps ! (unat i - 1)) \<noteq> 0"

lemma send_ready:
  assumes "port_ready i ps" "length (queued i ps) < QUEUE_LEN"
  obtains ps' where "send_system i k v ps = (True, ps')" "port_ready i ps'"
    "queued i ps' = queued i ps @ [\<lparr>ev_kind = k, ev_source_pid = 0, ev_value = v\<rparr>]"
proof -
  have a: "fst (send_as i k v 0 ps)" using assms send_as_accepts [of ps i k v 0] by (simp add: port_ready_def)
  have l: "unat i - 1 < length ps" using assms(1) port_slot [of i] by (simp add: port_ready_def wf_ports_def)
  have "p_owner (snd (send_as i k v 0 ps) ! (unat i - 1)) \<noteq> 0"
    using assms(1) l by (auto simp: send_as_def port_push_def port_ready_def split: prod.splits if_splits)
  then have "port_ready i (snd (send_as i k v 0 ps))" using assms(1) wf_send_as by (auto simp: port_ready_def)
  then show thesis
    using that [of "snd (send_as i k v 0 ps)"] a assms(1) queued_send [of ps i i k v 0] prod.collapse [of "send_as i k v 0 ps"]
    by (simp add: port_ready_def send_system_def)
qed

definition key_bytes :: "event list \<Rightarrow> u8 list" where
  "key_bytes evs = map (\<lambda>e. ucast (ev_value e)) (filter (\<lambda>e. ev_kind e = KEY_EVENT) evs)"

definition mouse_reports :: "event list \<Rightarrow> report list" where
  "mouse_reports evs = map (\<lambda>e. decode_packet (ucast (ev_value e))) (filter (\<lambda>e. ev_kind e = MOUSE_EVENT) evs)"

definition kbd :: "(bool \<times> u8) list \<Rightarrow> u8 list" where "kbd pending = map snd (filter (\<lambda>(aux, _). \<not> aux) pending)"
definition aux :: "(bool \<times> u8) list \<Rightarrow> u8 list" where "aux pending = map snd (filter (\<lambda>(aux, _). aux) pending)"

lemma stream_simps [simp]:
  "kbd [] = []" "kbd ((a, b) # p) = (if a then kbd p else b # kbd p)"
  "aux [] = []" "aux ((a, b) # p) = (if a then b # aux p else aux p)"
  "key_bytes [] = []" "mouse_reports [] = []"
  "key_bytes (e # evs) = (if ev_kind e = KEY_EVENT then ucast (ev_value e) # key_bytes evs else key_bytes evs)"
  "mouse_reports (e # evs) = (if ev_kind e = MOUSE_EVENT then decode_packet (ucast (ev_value e)) # mouse_reports evs else mouse_reports evs)"
  by (simp_all add: kbd_def aux_def key_bytes_def mouse_reports_def)

lemma length_encode: "n = 3 \<or> n = 4 \<Longrightarrow> length (encode_report n r) = n"
  by (auto simp: encode_report_def)

text \<open>The next mouse byte of a stream of reports belongs to the report that has begun.\<close>

lemma next_mouse_byte:
  assumes "holds_bytes n cur m" "cur @ b # rest = concat (map (encode_report n) rs)" "list_all (report_ok n) rs"
  obtains r rs' where "rs = r # rs'" "report_ok n r" "cur \<noteq> [] \<or> b AND 8 \<noteq> 0"
    "length cur + 1 = n \<Longrightarrow> cur @ [b] = encode_report n r \<and> rest = concat (map (encode_report n) rs')"
proof (cases rs)
  case Nil
  then show thesis using assms(2) by simp
next
  case (Cons r rs')
  have n: "n = 3 \<or> n = 4" "length cur < n" using assms(1) by (auto simp: holds_bytes_def)
  have e: "(cur @ [b]) @ rest = encode_report n r @ concat (map (encode_report n) rs')" using assms(2) Cons by simp
  have r: "report_ok n r" using assms(3) Cons by simp
  have "cur \<noteq> [] \<or> b = rp_first r" using e by (cases cur) (auto simp: encode_report_def)
  then have "cur \<noteq> [] \<or> b AND 8 \<noteq> 0" using r by (auto simp: report_ok_def)
  moreover have "cur @ [b] = encode_report n r \<and> rest = concat (map (encode_report n) rs')" if "length cur + 1 = n"
  proof -
    have "length (cur @ [b]) = length (encode_report n r)" using that length_encode [OF n(1), of r] by simp
    then show ?thesis using e append_eq_append_conv by blast
  qed
  ultimately show thesis using that Cons r by blast
qed

lemma poll_loop_decodes:
  assumes "holds_bytes n cur m" "port_ready port ps" "length pending \<le> fuel"
    "cur @ aux pending = concat (map (encode_report n) rs)" "list_all (report_ok n) rs"
    "length (queued port ps) + length (kbd pending) + length rs \<le> QUEUE_LEN"
  shows "\<exists>m' ps' evs. poll_loop fuel port pending (k, m, ps) = Some (k + length (kbd pending) + length rs, [], m', ps') \<and>
    queued port ps' = queued port ps @ evs \<and> key_bytes evs = kbd pending \<and> mouse_reports evs = rs \<and>
    holds_bytes n [] m' \<and> port_ready port ps'"
  using assms
proof (induction pending arbitrary: cur m ps fuel rs k)
  case Nil
  have "rs = [] \<and> cur = []"
  proof (cases rs)
    case Nil
    then show ?thesis using \<open>cur @ aux [] = _\<close> by simp
  next
    case (Cons r rs')
    have "length (encode_report n r) \<le> length cur" using Nil.prems(4) Cons by simp
    then show ?thesis using Nil.prems(1) length_encode [of n r] by (auto simp: holds_bytes_def)
  qed
  then show ?case using Nil.prems by (cases fuel) auto
next
  case (Cons ab pending)
  obtain a b where ab: "ab = (a, b)" by force
  obtain fuel' where f: "fuel = Suc fuel'" "length pending \<le> fuel'" using Cons.prems(3) by (cases fuel) auto
  show ?case
  proof (cases a)
    case False
    have "length (queued port ps) < QUEUE_LEN" using Cons.prems(6) False ab by simp
    then obtain ps1 where s: "send_system port KEY_EVENT (ucast b) ps = (True, ps1)" "port_ready port ps1"
        "queued port ps1 = queued port ps @ [\<lparr>ev_kind = KEY_EVENT, ev_source_pid = 0, ev_value = ucast b\<rparr>]"
      using send_ready [OF Cons.prems(2)] by blast
    have r: "length (queued port ps1) + length (kbd pending) + length rs \<le> QUEUE_LEN" using Cons.prems(6) s(3) False ab by simp
    have c: "cur @ aux pending = concat (map (encode_report n) rs)" using Cons.prems(4) False ab by simp
    have u: "ucast (ucast b :: u64) = b" by (rule bit_word_eqI) (simp add: bit_simps)
    show ?thesis using Cons.IH [OF Cons.prems(1) s(2) f(2) c Cons.prems(5) r, of "k + 1"] s(1,3) False
      by (auto simp: ab f(1) u KEY_EVENT_def MOUSE_EVENT_def)
  next
    case True
    then have c: "cur @ b # aux pending = concat (map (encode_report n) rs)" using Cons.prems(4) ab by simp
    obtain r rs' where rs: "rs = r # rs'" "report_ok n r" "cur \<noteq> [] \<or> b AND 8 \<noteq> 0"
        "length cur + 1 = n \<Longrightarrow> cur @ [b] = encode_report n r \<and> aux pending = concat (map (encode_report n) rs')"
      using next_mouse_byte [OF Cons.prems(1) c Cons.prems(5)] by metis
    show ?thesis
    proof (cases "length cur + 1 = n")
      case last: True
      obtain packet m1 where m1: "mouse_byte b m = Some (Some packet, m1)" "decode_packet packet = r" "holds_bytes n [] m1"
        using mouse_byte_last [OF Cons.prems(1) last rs(2)] rs(4) [OF last] by blast
      have "length (queued port ps) < QUEUE_LEN" using Cons.prems(6) rs(1) by simp
      then obtain ps1 where s: "send_system port MOUSE_EVENT (ucast packet) ps = (True, ps1)" "port_ready port ps1"
          "queued port ps1 = queued port ps @ [\<lparr>ev_kind = MOUSE_EVENT, ev_source_pid = 0, ev_value = ucast packet\<rparr>]"
        using send_ready [OF Cons.prems(2)] by blast
      have q: "length (queued port ps1) + length (kbd pending) + length rs' \<le> QUEUE_LEN" using Cons.prems(6) s(3) True ab rs(1) by simp
      have u: "ucast (ucast packet :: u64) = packet" by (rule bit_word_eqI) (simp add: bit_simps)
      have "[] @ aux pending = concat (map (encode_report n) rs')" "list_all (report_ok n) rs'"
        using rs(4) [OF last] Cons.prems(5) rs(1) by auto
      from Cons.IH [OF m1(3) s(2) f(2) this q, of "k + 1"] show ?thesis
        using s(1,3) m1(1,2) True by (auto simp: ab f(1) u rs(1) KEY_EVENT_def MOUSE_EVENT_def)
    next
      case False
      then have "length cur + 1 < n" using Cons.prems(1) by (simp add: holds_bytes_def)
      then obtain m1 where m1: "mouse_byte b m = Some (None, m1)" "holds_bytes n (cur @ [b]) m1"
        using mouse_byte_more [OF Cons.prems(1) rs(3)] by blast
      have "(cur @ [b]) @ aux pending = concat (map (encode_report n) rs)" using c by simp
      moreover have "length (queued port ps) + length (kbd pending) + length rs \<le> QUEUE_LEN" using Cons.prems(6) True ab by simp
      ultimately show ?thesis using Cons.IH [OF m1(2) Cons.prems(2) f(2) _ Cons.prems(5), of k] m1(1) True by (auto simp: ab f(1))
    qed
  qed
qed

text \<open>However the controller interleaves keyboard and mouse bytes, one poll posts every keyboard byte and every mouse report,
  each in its order: with room in the event port, what the port gains carries exactly the keyboard bytes, and the packets
  from which the compositor reads back the movements, the wheel and the button byte of the reports that the mouse
  sent. The packet buffer is never indexed out of bounds and is ready for the next report.\<close>

theorem ps2_poll_decodes:
  assumes "holds_bytes n [] m" "port_ready port ps" "length pending \<le> 32"
    "aux pending = concat (map (encode_report n) rs)" "list_all (report_ok n) rs"
    "length (queued port ps) + length (kbd pending) + length rs \<le> QUEUE_LEN"
  shows "\<exists>m' ps' evs. ps2_poll port pending m ps = Some (length (kbd pending) + length rs, [], m', ps') \<and>
    queued port ps' = queued port ps @ evs \<and> key_bytes evs = kbd pending \<and> mouse_reports evs = rs \<and> holds_bytes n [] m'"
  using poll_loop_decodes [OF assms(1,2,3) _ assms(5,6), of 0] assms(4) by (auto simp: ps2_poll_def)

definition demo_report :: report where
  "demo_report = \<lparr>rp_first = 0x09, rp_dx = 5, rp_dy = - 3, rp_wheel = - 1\<rparr>"

theorem ps2_poll_decodes_witness:
  "\<exists>m' ps' evs. ps2_poll 1 [(True, 0x09), (True, 5), (False, 0x1e), (True, 0xfd), (True, 0x0f)] (set_wheel_mode True ps2_statics) demo_ports =
     Some (2, [], m', ps') \<and> queued 1 ps' = queued 1 demo_ports @ evs \<and> key_bytes evs = [0x1e] \<and> mouse_reports evs = [demo_report] \<and>
     holds_bytes 4 [] m'"
proof -
  have m: "holds_bytes 4 [] (set_wheel_mode True ps2_statics)" by (simp add: holds_bytes_def set_wheel_mode_def ps2_statics_def)
  have p: "port_ready 1 demo_ports" using demo_ports_wf demo_ports_owner by (simp add: port_ready_def MAX_PORTS_def)
  have r: "list_all (report_ok 4) [demo_report]" by (simp add: report_ok_def demo_report_def)
  have e: "aux [(True, 0x09), (True, 5), (False, 0x1e), (True, 0xfd), (True, 0x0f)] = concat (map (encode_report 4) [demo_report])"
    by (simp add: encode_report_def demo_report_def)
  have q: "length (queued 1 demo_ports) + length (kbd [(True, 0x09), (True, 5), (False, 0x1e), (True, 0xfd), (True, 0x0f)]) + length [demo_report] \<le> QUEUE_LEN"
    using demo_ports_owner by (simp add: QUEUE_LEN_def)
  from ps2_poll_decodes [OF m p _ e r q] show ?thesis by (simp add: numeral_2_eq_2)
qed

end
