(* ===== verification/Interrupts.thy ===== *)
theory Interrupts
  imports Ipc Rust_Text
begin

text \<open>
  Interrupt dispatch (\<^verbatim>\<open>interrupts.rs\<close>), where the clock, the Event Manager and the scheduler meet. The
  state collects the statics of the handlers; acknowledgements go to the controllers in the order of \<open>irq_eois\<close>. A
  handler that never returns (a fault, an unknown vector) is the result \<open>Halted\<close>.
\<close>

section \<open>State\<close>

datatype eoi = Pic1_Eoi | Pic2_Eoi | Apic_Eoi

record irq =
  irq_sched :: sched
  irq_ports :: ports
  TICKS :: u64
  apic_active :: bool
  BOOT_PORT :: u16
  irq_serial_ready :: bool
  irq_log :: string
  irq_eois :: "eoi list"

definition irq_write :: "string \<Rightarrow> irq \<Rightarrow> irq" where
  "irq_write txt s = (if irq_serial_ready s then s\<lparr>irq_log := irq_log s @ txt\<rparr> else s)"

definition pic_eoi :: "u8 \<Rightarrow> irq \<Rightarrow> irq" where
  "pic_eoi n s = s\<lparr>irq_eois := irq_eois s @ (if n \<ge> 8 then [Pic2_Eoi] else []) @ [Pic1_Eoi]\<rparr>"

definition apic_eoi :: "irq \<Rightarrow> irq" where
  "apic_eoi s = s\<lparr>irq_eois := irq_eois s @ [Apic_Eoi]\<rparr>"

section \<open>Reports\<close>

fun show_hex :: "nat \<Rightarrow> string" where
  "show_hex n =
     (let d = n mod 16; c = char_of (if d < 10 then 48 + d else 87 + d) in
      if n < 16 then [c] else show_hex (n div 16) @ [c])"

declare show_hex.simps [simp del]

definition fault_names :: "string list" where
  "fault_names = [''#DE divide by zero'', ''#DB debug'', ''#NMI non-maskable'', ''#BP breakpoint'', ''#OF overflow'',
     ''#BR bound range'', ''#UD invalid opcode'', ''#NM device not avail'', ''#DF double fault'', ''#CO coproc overrun'',
     ''#TS invalid TSS'', ''#NP segment missing'', ''#SS stack fault'', ''#GP general protection'', ''#PF page fault'',
     ''#15 reserved'', ''#MF fpu error'', ''#AC alignment check'', ''#MC machine check'', ''#XF simd'']"

definition log_fatal :: "int_frame \<Rightarrow> u8 \<Rightarrow> string \<Rightarrow> irq \<Rightarrow> irq" where
  "log_fatal fr vector what s =
     irq_write (''FATAL '' @ what @ '' (vector '' @ show_nat (unat vector) @ ''): rip=0x'' @ show_hex (unat (fr_rip fr)) @
       '' cs=0x'' @ show_hex (unat (fr_cs fr)) @ '' rflags=0x'' @ show_hex (unat (fr_rflags fr)) @
       '' err=0x'' @ show_hex (unat (fr_err fr)) @ ''\<newline>'') s"

definition fault :: "u8 \<Rightarrow> int_frame \<Rightarrow> irq \<Rightarrow> irq" where
  "fault vector fr s =
     log_fatal fr vector (if unat vector < length fault_names then fault_names ! unat vector else ''exception'') s"

section \<open>Dispatch\<close>

definition timer_tick :: "irq \<Rightarrow> irq" where
  "timer_tick s =
     (let tick = TICKS s + 1 in s\<lparr>TICKS := tick, irq_ports := event_on_tick (BOOT_PORT s) tick (irq_ports s)\<rparr>)"

definition preempt :: "layout \<Rightarrow> u64 \<Rightarrow> (layout \<Rightarrow> u64 \<Rightarrow> sched \<Rightarrow> resume \<times> sched) \<Rightarrow> irq \<Rightarrow> resume \<times> irq" where
  "preempt L frame f s = (case f L frame (irq_sched s) of (r, sc) \<Rightarrow> (r, s\<lparr>irq_sched := sc\<rparr>))"

definition pippin_int_dispatch :: "layout \<Rightarrow> u64 \<Rightarrow> irq \<Rightarrow> resume \<times> irq" where
  "pippin_int_dispatch L frame s =
     (let fr = frame_store (irq_sched s) frame; vector = (ucast (fr_vector fr) :: u8) in
      if vector = 3 then (Resume frame, irq_write ''  int: #BP breakpoint caught\<newline>'' s)
      else if vector \<le> 31 then (Halted, fault vector fr s)
      else if vector = 32 then
        (if \<not> apic_active s then (case preempt L frame sched_on_tick (timer_tick s) of (r, s) \<Rightarrow> (r, pic_eoi 0 s))
         else (Resume frame, pic_eoi 0 s))
      else if vector = 0x30 then preempt L frame sched_on_tick (apic_eoi (timer_tick s))
      else if vector = 0x40 then preempt L frame on_yield s
      else if vector = 0x41 then preempt L frame on_exit s
      else if vector = 0xff then (Resume frame, s)
      else if 33 \<le> vector \<and> vector \<le> 47 then
        (let n = vector - 32 in (Resume frame, pic_eoi n (irq_write (''IRQ '' @ show_nat (unat n) @ '' unhandled\<newline>'') s)))
      else (Halted, log_fatal fr vector ''unhandled interrupt'' s))"

section \<open>Runs of interrupts\<close>

text \<open>A run: at each interrupt the CPU has stored a frame at some address and enters the dispatcher with it.\<close>

definition take_interrupt :: "layout \<Rightarrow> u64 \<times> int_frame \<Rightarrow> irq \<Rightarrow> resume \<times> irq" where
  "take_interrupt L = (\<lambda>(frame, fr) s.
     pippin_int_dispatch L frame (s\<lparr>irq_sched := (irq_sched s)\<lparr>frame_store := (frame_store (irq_sched s))(frame := fr)\<rparr>\<rparr>))"

fun irq_run :: "layout \<Rightarrow> (u64 \<times> int_frame) list \<Rightarrow> irq \<Rightarrow> irq option" where
  "irq_run L [] s = Some s"
| "irq_run L (i # is) s = (case take_interrupt L i s of (Resume _, s) \<Rightarrow> irq_run L is s | _ \<Rightarrow> None)"

definition vector_of :: "u64 \<times> int_frame \<Rightarrow> u8" where "vector_of i = ucast (fr_vector (snd i))"

text \<open>Which interrupts count as clock ticks, given the clock in use.\<close>

definition counts :: "bool \<Rightarrow> u64 \<times> int_frame \<Rightarrow> bool" where
  "counts apic i \<longleftrightarrow> vector_of i = 0x30 \<or> (vector_of i = 32 \<and> \<not> apic)"

text \<open>The acknowledgements an interrupt calls for.\<close>

definition acks :: "u64 \<times> int_frame \<Rightarrow> eoi list" where
  "acks i = (let v = vector_of i in
     if v = 0x30 then [Apic_Eoi] else if 32 \<le> v \<and> v < 40 then [Pic1_Eoi] else if 40 \<le> v \<and> v \<le> 47 then [Pic2_Eoi, Pic1_Eoi] else [])"

definition irq_inv :: "irq \<Rightarrow> bool" where
  "irq_inv s \<longleftrightarrow> sched_inv (irq_sched s) \<and> wf_ports (irq_ports s)"

lemma sched_inv_store [simp]: "sched_inv (s\<lparr>frame_store := f\<rparr>) = sched_inv s"
  by (simp add: sched_inv_def wf_sched_def tstate_def [abs_def])

lemma vector_cases:
  fixes v :: u8
  obtains "v = 3" | "v \<noteq> 3" "v \<le> 31" | "v = 32" | "v = 0x30" | "v = 0x40" | "v = 0x41" | "v = 0xff"
    | "33 \<le> v" "v \<le> 47" | "v \<noteq> 3" "\<not> v \<le> 31" "v \<noteq> 32" "v \<noteq> 0x30" "v \<noteq> 0x40" "v \<noteq> 0x41" "v \<noteq> 0xff" "\<not> (33 \<le> v \<and> v \<le> 47)"
  by blast

lemma word_order_facts:
  fixes v :: u8
  assumes "33 \<le> v" "v \<le> 47"
  shows "v \<noteq> 3" "\<not> v \<le> 31" "v \<noteq> 32" "v \<noteq> 0x30" "v \<noteq> 0x40" "v \<noteq> 0x41" "v \<noteq> 0xff" "32 \<le> v" "8 \<le> v - 32 \<longleftrightarrow> 40 \<le> v"
proof -
  have n: "33 \<le> unat v" "unat v \<le> 47" using assms by (simp_all add: word_le_nat_alt)
  have "unat (v - 32) = unat v - 32" using n by (simp add: unat_sub_if_size word_size)
  then show "8 \<le> v - 32 \<longleftrightarrow> 40 \<le> v" using n by (auto simp: word_le_nat_alt)
  show "v \<noteq> 3" "\<not> v \<le> 31" "v \<noteq> 32" "v \<noteq> 0x30" "v \<noteq> 0x40" "v \<noteq> 0x41" "v \<noteq> 0xff" "32 \<le> v"
    using n by (auto simp: word_le_nat_alt)
qed

lemma irq_write_fields [simp]:
  "irq_sched (irq_write x s) = irq_sched s" "irq_ports (irq_write x s) = irq_ports s" "TICKS (irq_write x s) = TICKS s"
  "apic_active (irq_write x s) = apic_active s" "BOOT_PORT (irq_write x s) = BOOT_PORT s" "irq_eois (irq_write x s) = irq_eois s"
  by (simp_all add: irq_write_def)

text \<open>One interrupt that returns.\<close>

definition irq_next :: "u64 \<times> int_frame \<Rightarrow> irq \<Rightarrow> irq \<Rightarrow> bool" where
  "irq_next i s s' \<longleftrightarrow> irq_inv s' \<and> apic_active s' = apic_active s \<and> BOOT_PORT s' = BOOT_PORT s \<and>
     irq_eois s' = irq_eois s @ acks i \<and>
     (if counts (apic_active s) i
      then TICKS s' = TICKS s + 1 \<and> irq_ports s' = event_on_tick (BOOT_PORT s) (TICKS s + 1) (irq_ports s)
      else TICKS s' = TICKS s \<and> irq_ports s' = irq_ports s)"

lemma wf_event_on_tick: "wf_ports ps \<Longrightarrow> wf_ports (event_on_tick bp t ps)"
  by (simp add: event_on_tick_def send_system_def wf_send_as)

lemma preempt_inv:
  assumes "preempt L frame f s = (Resume g, s')" "irq_inv s"
    "\<And>sc sc'. sched_inv sc \<Longrightarrow> f L frame sc = (Resume g, sc') \<Longrightarrow> sched_inv sc'"
  shows "irq_inv s'" "irq_ports s' = irq_ports s" "TICKS s' = TICKS s" "irq_eois s' = irq_eois s" "apic_active s' = apic_active s"
    "BOOT_PORT s' = BOOT_PORT s"
  using assms by (auto simp: preempt_def irq_inv_def split: prod.splits)

lemma take_interrupt_step:
  assumes t: "take_interrupt L i s = (Resume g, s')" and inv: "irq_inv s"
  shows "irq_next i s s'"
proof -
  obtain frame fr where i: "i = (frame, fr)" by force
  define s0 where "s0 = s\<lparr>irq_sched := (irq_sched s)\<lparr>frame_store := (frame_store (irq_sched s))(frame := fr)\<rparr>\<rparr>"
  have s0: "irq_inv s0" "irq_ports s0 = irq_ports s" "TICKS s0 = TICKS s" "irq_eois s0 = irq_eois s" "apic_active s0 = apic_active s"
      "BOOT_PORT s0 = BOOT_PORT s" "frame_store (irq_sched s0) frame = fr"
    using inv by (simp_all add: s0_def irq_inv_def)
  have d: "pippin_int_dispatch L frame s0 = (Resume g, s')" using t by (simp add: take_interrupt_def i s0_def)
  have tick: "irq_inv (timer_tick s0)" using s0(1) by (simp add: timer_tick_def irq_inv_def Let_def wf_event_on_tick)
  note defs = irq_next_def counts_def acks_def vector_of_def Let_def i
  let ?v = "ucast (fr_vector fr) :: u8"
  show ?thesis
  proof (cases rule: vector_cases [of ?v])
    case 1
    then show ?thesis using d s0 by (auto simp: pippin_int_dispatch_def irq_inv_def defs)
  next
    case 2
    then show ?thesis using d s0 by (simp add: pippin_int_dispatch_def Let_def)
  next
    case 3
    show ?thesis
    proof (cases "apic_active s")
      case True
      then show ?thesis using d s0 3 by (auto simp: pippin_int_dispatch_def pic_eoi_def irq_inv_def defs)
    next
      case False
      obtain s1 where p: "preempt L frame sched_on_tick (timer_tick s0) = (Resume g, s1)" "s' = pic_eoi 0 s1"
        using d s0 3 False by (auto simp: pippin_int_dispatch_def Let_def split: prod.splits)
      from preempt_inv [OF p(1) tick sched_on_tick_inv] show ?thesis
        using p(2) s0 3 False by (auto simp: pic_eoi_def irq_inv_def timer_tick_def defs)
    qed
  next
    case 4
    then have p: "preempt L frame sched_on_tick (apic_eoi (timer_tick s0)) = (Resume g, s')"
      using d s0 by (simp add: pippin_int_dispatch_def Let_def)
    have "irq_inv (apic_eoi (timer_tick s0))" using tick by (simp add: apic_eoi_def irq_inv_def)
    from preempt_inv [OF p this sched_on_tick_inv] show ?thesis
      using s0 4 by (auto simp: apic_eoi_def timer_tick_def defs)
  next
    case 5
    then have p: "preempt L frame on_yield s0 = (Resume g, s')" using d s0 by (simp add: pippin_int_dispatch_def Let_def)
    from preempt_inv [OF p s0(1) on_yield_inv] show ?thesis using s0 5 by (auto simp: defs)
  next
    case 6
    then have p: "preempt L frame on_exit s0 = (Resume g, s')" using d s0 by (simp add: pippin_int_dispatch_def Let_def)
    from preempt_inv [OF p s0(1) on_exit_inv] show ?thesis using s0 6 by (auto simp: defs)
  next
    case 7
    then show ?thesis using d s0 by (auto simp: pippin_int_dispatch_def defs)
  next
    case 8
    note w = word_order_facts [OF 8]
    have "?v < 40 \<or> 40 \<le> ?v" by (simp add: not_less [symmetric])
    then show ?thesis using d s0 w 8 by (auto simp: pippin_int_dispatch_def pic_eoi_def irq_inv_def defs)
  next
    case 9
    then show ?thesis using d s0 by (auto simp: pippin_int_dispatch_def Let_def)
  qed
qed

text \<open>The interrupts that never return: exceptions, unknown vectors, and the exit of the last task.\<close>

definition stops :: "u64 \<times> int_frame \<Rightarrow> irq \<Rightarrow> bool" where
  "stops i s \<longleftrightarrow> (let v = vector_of i in
     v \<noteq> 3 \<and> v \<le> 31 \<or> 48 < v \<and> v \<noteq> 0x40 \<and> v \<noteq> 0x41 \<and> v \<noteq> 0xff \<or> v = 0x41 \<and> runq (irq_sched s) = [])"

lemma tick_returns:
  assumes "sched_inv s"
  shows "\<exists>g. fst (sched_on_tick L frame s) = Resume g" "\<exists>g. fst (on_yield L frame s) = Resume g"
    "fst (on_exit L frame s) \<noteq> Panicked" "fst (on_exit L frame s) = Halted \<longleftrightarrow> runq s = []"
proof -
  have sch: "fst (schedule L frame b t) \<noteq> Panicked \<and> (fst (schedule L frame b t) = Halted \<longleftrightarrow> \<not> b \<and> runq t = [])" if "sched_inv t" for b t
  proof (cases "runq t")
    case Nil
    then have "Q_LEN t = 0" by (metis length_runq list.size(3))
    then show ?thesis using Nil by (simp add: schedule_def)
  next
    case Cons
    then show ?thesis using schedule_cases [OF that, of L frame b] by (cases "schedule L frame b t") auto
  qed
  show "\<exists>g. fst (on_yield L frame s) = Resume g"
    using sch [OF assms, of True] by (cases "fst (schedule L frame True s)") (auto simp: on_yield_def)
  show "fst (on_exit L frame s) \<noteq> Panicked" "fst (on_exit L frame s) = Halted \<longleftrightarrow> runq s = []"
    using sch [OF assms, of False] by (simp_all add: on_exit_def)
  show "\<exists>g. fst (sched_on_tick L frame s) = Resume g"
  proof (cases "current_fx_area s = 0")
    case True
    then show ?thesis by (simp add: sched_on_tick_def)
  next
    case fx: False
    show ?thesis
    proof (cases "REMAINING s = 1")
      case True
      have "fst (sched_on_tick L frame s) = fst (schedule L frame True ((charge_tick s)\<lparr>REMAINING := QUANTUM_TICKS\<rparr>))"
        using fx True by (simp add: sched_on_tick_unfold schedule_remaining)
      then show ?thesis using sch [OF charge_tick_inv(1) [OF assms], of True]
        by (cases "fst (schedule L frame True ((charge_tick s)\<lparr>REMAINING := QUANTUM_TICKS\<rparr>))") auto
    next
      case False
      then show ?thesis using fx sched_invD(9) [OF assms] by (auto simp: sched_on_tick_unfold)
    qed
  qed
qed

lemma preempt_result: "fst (preempt L frame f s) = fst (f L frame (irq_sched s))"
  by (simp add: preempt_def split: prod.split)

lemma take_interrupt_stops:
  assumes "irq_inv s"
  shows "fst (take_interrupt L i s) \<noteq> Panicked \<and> (fst (take_interrupt L i s) = Halted \<longleftrightarrow> stops i s)"
proof -
  obtain frame fr where i: "i = (frame, fr)" by force
  define s0 where "s0 = s\<lparr>irq_sched := (irq_sched s)\<lparr>frame_store := (frame_store (irq_sched s))(frame := fr)\<rparr>\<rparr>"
  have inv: "sched_inv (irq_sched s0)" "sched_inv (irq_sched (timer_tick s0))" "sched_inv (irq_sched (apic_eoi (timer_tick s0)))"
    using assms by (simp_all add: s0_def irq_inv_def timer_tick_def apic_eoi_def Let_def)
  have fr: "frame_store (irq_sched s0) frame = fr" and q: "runq (irq_sched s0) = runq (irq_sched s)" by (simp_all add: s0_def)
  have t: "take_interrupt L (frame, fr) s = pippin_int_dispatch L frame s0" by (simp add: take_interrupt_def s0_def)
  let ?v = "ucast (fr_vector fr) :: u8"
  note d = t pippin_int_dispatch_def Let_def fr preempt_result stops_def vector_of_def i
  show ?thesis
  proof (cases rule: vector_cases [of ?v])
    case 3
    obtain g where "fst (sched_on_tick L frame (irq_sched (timer_tick s0))) = Resume g" using tick_returns(1) [OF inv(2)] by blast
    then show ?thesis using 3 by (simp add: d split_beta)
  next
    case 4
    obtain g where "fst (sched_on_tick L frame (irq_sched (apic_eoi (timer_tick s0)))) = Resume g" using tick_returns(1) [OF inv(3)] by blast
    then show ?thesis using 4 by (simp add: d)
  next
    case 5
    obtain g where "fst (on_yield L frame (irq_sched s0)) = Resume g" using tick_returns(2) [OF inv(1)] by blast
    then show ?thesis using 5 by (simp add: d)
  next
    case 6
    then show ?thesis using tick_returns(3,4) [OF inv(1), of L frame] q by (simp add: d)
  next
    case 8
    have "\<not> 48 < ?v" using 8(2) by (simp add: word_less_nat_alt word_le_nat_alt)
    then show ?thesis using word_order_facts [OF 8] 8 by (simp add: d)
  next
    case 9
    have "48 < ?v" using 9 by (auto simp: word_less_nat_alt word_le_nat_alt word_unat_eq_iff)
    then show ?thesis using 9 by (auto simp: d)
  qed (auto simp: d)
qed

text \<open>The ticks that a run counts, and the timer events they publish.\<close>

definition tick_events :: "u64 \<Rightarrow> nat \<Rightarrow> event list" where
  "tick_events t n = map (\<lambda>tick. \<lparr>ev_kind = TIMER, ev_source_pid = 0, ev_value = tick\<rparr>)
     (filter (\<lambda>tick. tick mod 100 = 0) (map (\<lambda>k. t + of_nat k + 1) [0..<n]))"

lemma tick_events_Suc:
  "tick_events t (Suc n) = (if (t + 1) mod 100 = 0 then [\<lparr>ev_kind = TIMER, ev_source_pid = 0, ev_value = t + 1\<rparr>] else []) @ tick_events (t + 1) n"
  by (simp add: tick_events_def upt_conv_Cons map_Suc_upt [symmetric] o_def ac_simps del: upt_Suc map_Suc_upt)

definition boot_port_open :: "irq \<Rightarrow> bool" where
  "boot_port_open s \<longleftrightarrow> BOOT_PORT s \<noteq> 0 \<and> unat (BOOT_PORT s) \<le> MAX_PORTS \<and> p_owner (irq_ports s ! (unat (BOOT_PORT s) - 1)) \<noteq> 0"

lemma event_on_tick_queue:
  assumes "wf_ports ps" "bp \<noteq> 0" "unat bp \<le> MAX_PORTS" "p_owner (ps ! (unat bp - 1)) \<noteq> 0"
  shows "queued bp (event_on_tick bp t ps) =
      take QUEUE_LEN (queued bp ps @ (if t mod 100 = 0 then [\<lparr>ev_kind = TIMER, ev_source_pid = 0, ev_value = t\<rparr>] else []))"
    "p_owner (event_on_tick bp t ps ! (unat bp - 1)) \<noteq> 0"
proof -
  have l: "unat bp - 1 < length ps" using assms(1-3) port_slot [of bp] by (simp add: wf_ports_def)
  have "wf_port (ps ! (unat bp - 1))" using wf_ports_nth [OF assms(1)] l assms(1) by (simp add: wf_ports_def)
  then have len: "length (queued bp ps) \<le> QUEUE_LEN" by (simp add: queued_def wf_port_def)
  show "queued bp (event_on_tick bp t ps) =
      take QUEUE_LEN (queued bp ps @ (if t mod 100 = 0 then [\<lparr>ev_kind = TIMER, ev_source_pid = 0, ev_value = t\<rparr>] else []))"
    using assms len queued_send [OF assms(1-3), of bp TIMER t 0] send_as_accepts [OF assms(1), of bp TIMER t 0]
    by (auto simp: event_on_tick_def send_system_def)
  show "p_owner (event_on_tick bp t ps ! (unat bp - 1)) \<noteq> 0"
    using assms(4) l by (auto simp: event_on_tick_def send_system_def send_as_def port_push_def split: prod.splits if_splits)
qed

lemma irq_run_spec:
  assumes "irq_run L is s = Some s'" "irq_inv s" "boot_port_open s"
  shows "irq_inv s' \<and> TICKS s' = TICKS s + of_nat (length (filter (counts (apic_active s)) is)) \<and>
    irq_eois s' = irq_eois s @ concat (map acks is) \<and>
    queued (BOOT_PORT s) (irq_ports s') =
      take QUEUE_LEN (queued (BOOT_PORT s) (irq_ports s) @ tick_events (TICKS s) (length (filter (counts (apic_active s)) is)))"
  using assms
proof (induction "is" arbitrary: s)
  case Nil
  have "unat (BOOT_PORT s) - 1 < length (irq_ports s)" using Nil.prems(2,3) port_slot [of "BOOT_PORT s"]
    by (simp add: boot_port_open_def irq_inv_def wf_ports_def)
  then have "wf_port (irq_ports s ! (unat (BOOT_PORT s) - 1))" using Nil.prems(2) by (simp add: irq_inv_def wf_ports_def)
  then show ?case using Nil.prems by (simp add: tick_events_def queued_def wf_port_def)
next
  case (Cons i "is")
  obtain g s1 where t: "take_interrupt L i s = (Resume g, s1)" and run: "irq_run L is s1 = Some s'"
    using Cons.prems(1) by (auto split: prod.splits resume.splits)
  note n = take_interrupt_step [OF t Cons.prems(2), unfolded irq_next_def]
  have wf: "wf_ports (irq_ports s)" using Cons.prems(2) by (simp add: irq_inv_def)
  note b = Cons.prems(3) [unfolded boot_port_open_def]
  have open1: "boot_port_open s1"
    using n b event_on_tick_queue(2) [OF wf, of "BOOT_PORT s" "TICKS s + 1"] by (auto simp: boot_port_open_def split: if_splits)
  note ih = Cons.IH [OF run conjunct1 [OF n] open1]
  show ?case
  proof (cases "counts (apic_active s) i")
    case True
    have q: "queued (BOOT_PORT s) (irq_ports s1) = take QUEUE_LEN (queued (BOOT_PORT s) (irq_ports s) @
        (if (TICKS s + 1) mod 100 = 0 then [\<lparr>ev_kind = TIMER, ev_source_pid = 0, ev_value = TICKS s + 1\<rparr>] else []))"
      using n True event_on_tick_queue(1) [OF wf, of "BOOT_PORT s" "TICKS s + 1"] b by simp
    have e: "take QUEUE_LEN (take QUEUE_LEN xs @ ys) = take QUEUE_LEN (xs @ ys)" for xs ys :: "event list"
      by (auto simp: min_def)
    let ?n = "length (filter (counts (apic_active s)) is)"
    have "queued (BOOT_PORT s) (irq_ports s') = take QUEUE_LEN (queued (BOOT_PORT s) (irq_ports s1) @ tick_events (TICKS s + 1) ?n)"
      using ih n True by (simp del: take_append)
    also have "\<dots> = take QUEUE_LEN (queued (BOOT_PORT s) (irq_ports s) @ tick_events (TICKS s) (Suc ?n))"
      unfolding q e tick_events_Suc append_assoc ..
    finally show ?thesis using ih n True by (simp del: take_append add: add.assoc)
  next
    case False
    then show ?thesis using ih n by simp
  qed
qed

text \<open>C36. Any run of interrupts keeps the scheduler and the ports in order: the clock advances by the number of timer
  interrupts of the clock in use (the PIT until the APIC timer takes over, and never both), every hundredth tick publishes one timer
  event until the boot port is full, every hardware interrupt is acknowledged exactly once at the controllers it came
  through, and no interrupt panics; the CPU stops exactly for an exception other than a breakpoint, an unknown vector, or
  the exit of the last task.\<close>

theorem interrupt_run_correct:
  assumes "irq_inv s" "boot_port_open s" "irq_run L is s = Some s'"
  shows "irq_inv s' \<and> TICKS s' = TICKS s + of_nat (length (filter (counts (apic_active s)) is)) \<and>
    irq_eois s' = irq_eois s @ concat (map acks is) \<and>
    queued (BOOT_PORT s) (irq_ports s') =
      take QUEUE_LEN (queued (BOOT_PORT s) (irq_ports s) @ tick_events (TICKS s) (length (filter (counts (apic_active s)) is))) \<and>
    (\<forall>i. fst (take_interrupt L i s') \<noteq> Panicked \<and> (fst (take_interrupt L i s') = Halted \<longleftrightarrow> stops i s'))"
proof -
  note r = irq_run_spec [OF assms(3,1,2)]
  then show ?thesis using take_interrupt_stops [OF conjunct1 [OF r]] by blast
qed

definition demo_irq :: irq where
  "demo_irq = \<lparr>irq_sched = demo_sched, irq_ports = demo_ports, TICKS = 99, apic_active = False, BOOT_PORT = 1,
     irq_serial_ready = False, irq_log = [], irq_eois = []\<rparr>"

definition demo_timer :: "u64 \<times> int_frame" where
  "demo_timer = (0x777, zero_frame\<lparr>fr_vector := 32\<rparr>)"

theorem interrupt_run_witness:
  "\<exists>s'. irq_run demo_layout [demo_timer] demo_irq = Some s' \<and> TICKS s' = 100 \<and> irq_eois s' = [Pic1_Eoi] \<and>
     queued 1 (irq_ports s') = [\<lparr>ev_kind = TIMER, ev_source_pid = 0, ev_value = 100\<rparr>]"
proof -
  have inv: "irq_inv demo_irq" "boot_port_open demo_irq"
    using demo_sched_inv demo_ports_wf demo_ports_owner by (simp_all add: irq_inv_def demo_irq_def boot_port_open_def MAX_PORTS_def)
  have v: "vector_of demo_timer = 32" by (simp add: vector_of_def demo_timer_def)
  have "fst (take_interrupt demo_layout demo_timer demo_irq) \<noteq> Panicked" "fst (take_interrupt demo_layout demo_timer demo_irq) \<noteq> Halted"
    using take_interrupt_stops [OF inv(1), of demo_layout demo_timer] by (simp_all add: stops_def v)
  then obtain g s' where r: "take_interrupt demo_layout demo_timer demo_irq = (Resume g, s')"
    by (cases "take_interrupt demo_layout demo_timer demo_irq"; cases "fst (take_interrupt demo_layout demo_timer demo_irq)") auto
  then have "irq_run demo_layout [demo_timer] demo_irq = Some s'" by simp
  with interrupt_run_correct [OF inv this] show ?thesis
    using demo_ports_owner by (simp add: counts_def acks_def v demo_irq_def tick_events_def QUEUE_LEN_def)
qed

end
