(* ===== verification/Shell.thy ===== *)
theory Shell
  imports Compositor Bridge Console File_Fat Interrupts Elf_Loader
begin

text \<open>
  The command shell (\<^verbatim>\<open>cli.rs\<close>) with the desktop it routes input to (\<^verbatim>\<open>desktop.rs\<close>). Output to the
  first serial port and to the second one are logs, the text screen is the console of \<open>Console\<close>, the desktop holds the
  compositor of \<open>Compositor\<close>. What the shell asks the clock, the devices and the C++ side for (ticks, PCI devices,
  the VGA adapter, the surfaces of the shell model, the embedded application) is the record \<open>env\<close>, an argument. The
  mode registers of the VGA adapter are not modelled, only whether the adapter took the mode.
\<close>

section \<open>The desktop\<close>

text \<open>The linear framebuffer is counted in pixels. Besides the compositor, the desktop keeps what its closing puts back: the
  text cells, when there is a text screen, and the first 256 KiB of video memory.\<close>

definition FRAME_BYTES :: nat where "FRAME_BYTES = WIDTH * HEIGHT * 4"
definition LEGACY_VRAM_BYTES :: nat where "LEGACY_VRAM_BYTES = 256 * 1024"

record desktop =
  d_compositor :: compositor
  d_text :: "u16 list option"
  d_legacy :: "u32 list"
  d_framebuffer :: nat
  d_vram :: "nat \<Rightarrow> u32"

definition d_present :: "desktop \<Rightarrow> desktop" where
  "d_present d = d\<lparr>d_vram := present (d_compositor d) (d_framebuffer d) (d_vram d)\<rparr>"

definition desktop_test_window :: "desktop \<Rightarrow> desktop option" where
  "desktop_test_window d = map_option (\<lambda>c. d_present (d\<lparr>d_compositor := c\<rparr>)) (open_test_window (d_compositor d))"

definition desktop_command :: "string \<Rightarrow> desktop \<Rightarrow> (bool \<times> wevent list \<times> desktop) option" where
  "desktop_command line d =
     (if starts_with ''W'' line then
        (case client_command line (d_compositor d) of
           None \<Rightarrow> None
         | Some (accepted, events, c) \<Rightarrow>
             let d = d\<lparr>d_compositor := c\<rparr> in
             Some (accepted, events, if \<not> starts_with ''WB|'' line \<and> \<not> starts_with ''WP|'' line then d_present d else d))
      else
        (case comp_command line (d_compositor d) of
           None \<Rightarrow> None
         | Some (accepted, c) \<Rightarrow>
             let d = d\<lparr>d_compositor := c\<rparr> in Some (accepted, [], if accepted then d_present d else d)))"

definition desktop_key :: "u8 \<Rightarrow> u8 option \<Rightarrow> bool \<Rightarrow> bool \<Rightarrow> desktop \<Rightarrow> (string option \<times> wevent list \<times> desktop) option" where
  "desktop_key scan txt reverse_focus extended d =
     map_option (\<lambda>(action, events, c). (action, events, d_present (d\<lparr>d_compositor := c\<rparr>)))
       (comp_key scan txt reverse_focus extended (d_compositor d))"

definition desktop_pointer :: "u32 \<Rightarrow> desktop \<Rightarrow> (string option \<times> wevent list \<times> desktop) option" where
  "desktop_pointer packet d =
     map_option (\<lambda>(action, events, c). (action, events, d_present (d\<lparr>d_compositor := c\<rparr>)))
       (pointer_packet packet (d_compositor d))"

definition desktop_has_clients :: "desktop \<Rightarrow> bool" where
  "desktop_has_clients d = has_client_windows (d_compositor d)"

section \<open>Themes\<close>

datatype theme = Classic | Amber | Green | Ice | Mono

fun theme_name :: "theme \<Rightarrow> string" where
  "theme_name Classic = ''classic''"
| "theme_name Amber = ''amber''"
| "theme_name Green = ''green''"
| "theme_name Ice = ''ice''"
| "theme_name Mono = ''mono''"

definition ESC :: char where "ESC = char_of (27 :: nat)"

fun theme_ansi :: "theme \<Rightarrow> string" where
  "theme_ansi Classic = ESC # ''[0m''"
| "theme_ansi Mono = ESC # ''[0m''"
| "theme_ansi Amber = ESC # ''[33m''"
| "theme_ansi Green = ESC # ''[32m''"
| "theme_ansi Ice = ESC # ''[36m''"

fun vga_attribute :: "theme \<Rightarrow> u8" where
  "vga_attribute Classic = 0x1f"
| "vga_attribute Amber = 0x06"
| "vga_attribute Green = 0x0a"
| "vga_attribute Ice = 0x0b"
| "vga_attribute Mono = 0x07"

section \<open>The terminal\<close>

record terminal =
  screen_console :: "text_console option"
  screen_enabled :: bool
  serial_ready :: bool
  serial_out :: "u8 list"

definition terminal_new :: "text_console option \<Rightarrow> bool \<Rightarrow> u8 list \<Rightarrow> terminal" where
  "terminal_new console ready out = \<lparr>screen_console = console, screen_enabled = True, serial_ready = ready, serial_out = out\<rparr>"

definition set_screen_enabled :: "bool \<Rightarrow> terminal \<Rightarrow> terminal" where
  "set_screen_enabled b t = t\<lparr>screen_enabled := b\<rparr>"

definition set_vga_attribute :: "u8 \<Rightarrow> terminal \<Rightarrow> terminal" where
  "set_vga_attribute a t = t\<lparr>screen_console := map_option (set_attribute a) (screen_console t)\<rparr>"

definition write_serial_ansi :: "string \<Rightarrow> terminal \<Rightarrow> terminal" where
  "write_serial_ansi ansi t = (if serial_ready t then t\<lparr>serial_out := serial_out t @ bytes_of ansi\<rparr> else t)"

text \<open>Writing to the screen if there is one and it is enabled; \<open>None\<close> is a write outside text memory.\<close>

definition on_screen_console :: "(text_console \<Rightarrow> text_console option) \<Rightarrow> terminal \<Rightarrow> terminal option" where
  "on_screen_console f t =
     (if screen_enabled t then
        (case screen_console t of
           None \<Rightarrow> Some t
         | Some c \<Rightarrow> map_option (\<lambda>c. t\<lparr>screen_console := Some c\<rparr>) (f c))
      else Some t)"

definition term_write :: "string \<Rightarrow> terminal \<Rightarrow> terminal option" where
  "term_write txt t = on_screen_console (tc_write_str (bytes_of txt)) (write_serial_ansi txt t)"

definition term_clear :: "terminal \<Rightarrow> terminal option" where
  "term_clear t = map_option (write_serial_ansi (ESC # ''[2J'' @ ESC # ''[H'')) (on_screen_console (\<lambda>c. Some (tc_clear c)) t)"

definition BS :: char where "BS = char_of (8 :: nat)"

definition term_backspace :: "terminal \<Rightarrow> terminal option" where
  "term_backspace t = map_option (write_serial_ansi [BS, CHR '' '', BS]) (on_screen_console (tc_write_str [8]) t)"

section \<open>The shell\<close>

definition LINE_CAPACITY :: usize where "LINE_CAPACITY = 128"

record shell =
  sh_terminal :: terminal
  sh_line :: "u8 list"
  sh_len :: usize
  sh_shift :: bool
  sh_alt :: bool
  terminal_capture :: bool
  sh_caps :: bool
  sh_extended :: bool
  last_was_cr :: bool
  sh_bundle :: "app_bundle option"
  sh_event_port :: u16
  sh_desktop :: "desktop option"
  sh_bridge :: bridge
  sh_theme :: theme
  sh_kernel :: kernel
  sh_vram :: "nat \<Rightarrow> u32"
  com2_out :: "u8 list"

record env =
  env_ticks :: u64
  env_pci_count :: u32
  env_pci :: "u32 \<Rightarrow> (u16 \<times> u16 \<times> u8 \<times> u8) option"
  env_pci_parent :: "u32 \<Rightarrow> int"
  env_bar :: u64
  env_vbe_version :: u16
  env_mode_set :: bool
  env_abi :: u32
  env_surfaces :: "shell_surface option list"
  env_hello :: "u8 list"
  env_layout :: layout

text \<open>An operation goes on, has turned the machine off or reset it, or has panicked.\<close>

datatype shell_outcome = Runs shell | Stops shell | Panics

fun and_then :: "shell_outcome \<Rightarrow> (shell \<Rightarrow> shell_outcome) \<Rightarrow> shell_outcome" where
  "and_then (Runs s) f = f s"
| "and_then (Stops s) f = Stops s"
| "and_then Panics f = Panics"

lemma and_then_assoc: "and_then (and_then r f) g = and_then r (\<lambda>s. and_then (f s) g)"
  by (cases r) simp_all

definition on_terminal :: "(terminal \<Rightarrow> terminal option) \<Rightarrow> shell \<Rightarrow> shell_outcome" where
  "on_terminal f s = (case f (sh_terminal s) of None \<Rightarrow> Panics | Some t \<Rightarrow> Runs (s\<lparr>sh_terminal := t\<rparr>))"

definition say :: "string \<Rightarrow> shell \<Rightarrow> shell_outcome" where
  "say txt s = on_terminal (term_write txt) s"

definition sayln :: "string \<Rightarrow> shell \<Rightarrow> shell_outcome" where
  "sayln txt s = say (txt @ ''\<newline>'') s"

definition ansi :: "string \<Rightarrow> shell \<Rightarrow> shell_outcome" where
  "ansi a s = Runs (s\<lparr>sh_terminal := write_serial_ansi a (sh_terminal s)\<rparr>)"

definition prompt :: "shell \<Rightarrow> shell_outcome" where
  "prompt s = and_then (ansi (theme_ansi (sh_theme s)) s) (say ''pippin> '')"

definition shell_new :: "terminal \<Rightarrow> app_bundle option \<Rightarrow> u16 \<Rightarrow> kernel \<Rightarrow> (nat \<Rightarrow> u32) \<Rightarrow> shell_outcome" where
  "shell_new t bundle port k vram =
     and_then (sayln ''Pippin command shell''
       \<lparr>sh_terminal = t, sh_line = replicate LINE_CAPACITY 0, sh_len = 0, sh_shift = False, sh_alt = False, terminal_capture = False,
        sh_caps = False, sh_extended = False, last_was_cr = False, sh_bundle = bundle, sh_event_port = port, sh_desktop = None,
        sh_bridge = bridge_new, sh_theme = Classic, sh_kernel = k, sh_vram = vram, com2_out = []\<rparr>) (\<lambda>s.
     and_then (sayln ''Type 'help' for commands or 'desktop' to start the graphical desktop.'' s) prompt)"

definition bridge_send :: "u8 list \<Rightarrow> shell \<Rightarrow> shell_outcome" where
  "bridge_send bs s = Runs (s\<lparr>com2_out := com2_out s @ bs\<rparr>)"

definition send_action :: "string \<Rightarrow> shell \<Rightarrow> shell_outcome" where
  "send_action action s = bridge_send (bridge_action (bytes_of action)) s"

definition send_events :: "wevent list \<Rightarrow> shell \<Rightarrow> shell_outcome" where
  "send_events events s = bridge_send (concat (map bridge_event events)) s"

section \<open>Text\<close>

text \<open>\<^verbatim>\<open>str::trim\<close> removes the characters of Unicode's White\_Space, here in UTF-8.\<close>

definition white_space :: "string list" where
  "white_space = map (map char_of)
     ([[9], [10], [11], [12], [13], [32], [0xC2, 0x85], [0xC2, 0xA0], [0xE1, 0x9A, 0x80]] @ map (\<lambda>b. [0xE2, 0x80, b]) [0x80..<0x8B] @
      [[0xE2, 0x80, 0xA8], [0xE2, 0x80, 0xA9], [0xE2, 0x80, 0xAF], [0xE2, 0x81, 0x9F], [0xE3, 0x80, 0x80 :: nat]])"

function trim_front :: "string list \<Rightarrow> string \<Rightarrow> string" where
  "trim_front ws s =
     (case find (\<lambda>w. w \<noteq> [] \<and> starts_with w s) ws of None \<Rightarrow> s | Some w \<Rightarrow> trim_front ws (drop (length w) s))"
  by pat_completeness auto
termination
proof (relation "measure (length \<circ> snd)")
  fix ws s w assume "find (\<lambda>w. w \<noteq> [] \<and> starts_with w s) ws = Some w"
  then have "w \<noteq> [] \<and> take (length w) s = w"
    by (auto simp: find_Some_iff starts_with_def strip_prefix_def split: if_splits)
  then have "0 < length w" "s \<noteq> []" by auto
  then show "((ws, drop (length w) s), ws, s) \<in> measure (length \<circ> snd)" by simp
qed simp

declare trim_front.simps [simp del]

definition trim :: "string \<Rightarrow> string" where
  "trim s = rev (trim_front (map rev white_space) (rev (trim_front white_space s)))"

definition pad0 :: "nat \<Rightarrow> string \<Rightarrow> string" where
  "pad0 n s = replicate (n - length s) (CHR ''0'') @ s"

fun load_error_name :: "load_error \<Rightarrow> string" where
  "load_error_name Truncated = ''Truncated''"
| "load_error_name BadMagic = ''BadMagic''"
| "load_error_name UnsupportedClass = ''UnsupportedClass''"
| "load_error_name UnsupportedEndian = ''UnsupportedEndian''"
| "load_error_name UnsupportedType = ''UnsupportedType''"
| "load_error_name UnsupportedMachine = ''UnsupportedMachine''"
| "load_error_name BadHeader = ''BadHeader''"
| "load_error_name TooManyHeaders = ''TooManyHeaders''"
| "load_error_name BadSegment = ''BadSegment''"
| "load_error_name AddressOutOfRange = ''AddressOutOfRange''"
| "load_error_name OutOfMemory = ''OutOfMemory''"
| "load_error_name MapFailed = ''MapFailed''"
| "load_error_name NoLoadSegments = ''NoLoadSegments''"
| "load_error_name BadEntry = ''BadEntry''"
| "load_error_name SchedulerBusy = ''SchedulerBusy''"

section \<open>Opening and closing the desktop\<close>

text \<open>The pages of the framebuffer outside the initial map are mapped one by one.\<close>

fun map_framebuffer :: "nat list \<Rightarrow> u64 \<Rightarrow> machine \<Rightarrow> bool \<times> machine" where
  "map_framebuffer [] bar mc = (True, mc)"
| "map_framebuffer (off # offs) bar mc =
     (case checked_add bar (of_nat off) of
        None \<Rightarrow> (False, mc)
      | Some page \<Rightarrow>
          if page \<ge> INITIAL_MAP_SIZE then
            (case map_mmio_page page mc of
               (None, mc) \<Rightarrow> (False, mc)
             | (Some _, mc) \<Rightarrow> map_framebuffer offs bar mc)
          else map_framebuffer offs bar mc)"

definition desktop_open :: "env \<Rightarrow> u16 list option \<Rightarrow> (nat \<Rightarrow> u32) \<Rightarrow> machine \<Rightarrow> (desktop option \<times> machine) option" where
  "desktop_open e cells vram mc =
     (let bar = env_bar e in
      if bar = 0 \<or> bar AND 0xfff \<noteq> 0 \<or> bar > 0xFFFFFFFF \<or> \<not> (0xb0c0 \<le> env_vbe_version e \<and> env_vbe_version e \<le> 0xb0c5)
      then Some (None, mc)
      else
        case map_framebuffer (map (\<lambda>k. k * 4096) [0..<(FRAME_BYTES + 4095) div 4096]) bar mc of
          (False, mc) \<Rightarrow> Some (None, mc)
        | (True, mc) \<Rightarrow>
            (case comp_new (env_abi e) (env_surfaces e) of
               None \<Rightarrow> None
             | Some c \<Rightarrow>
                 if \<not> env_mode_set e then Some (None, mc)
                 else
                   let fb = unat bar div 4 in
                   Some (Some (d_present \<lparr>d_compositor = c, d_text = cells,
                     d_legacy = map (\<lambda>i. vram (fb + i)) [0..<LEGACY_VRAM_BYTES div 4], d_framebuffer = fb, d_vram = vram\<rparr>), mc)))"

definition open_desktop :: "env \<Rightarrow> shell \<Rightarrow> shell option" where
  "open_desktop e s =
     map_option (\<lambda>(d, mc). s\<lparr>sh_desktop := d, sh_kernel := (sh_kernel s)\<lparr>k_machine := mc\<rparr>\<rparr>)
       (desktop_open e (map_option vga (screen_console (sh_terminal s))) (sh_vram s) (k_machine (sh_kernel s)))"

definition restore_cells :: "u16 list option \<Rightarrow> terminal \<Rightarrow> terminal" where
  "restore_cells cells t =
     (case cells of None \<Rightarrow> t | Some v \<Rightarrow> t\<lparr>screen_console := map_option (\<lambda>c. c\<lparr>vga := v\<rparr>) (screen_console t)\<rparr>)"

definition desktop_drop :: "desktop \<Rightarrow> shell \<Rightarrow> shell" where
  "desktop_drop d s =
     s\<lparr>sh_desktop := None,
       sh_vram := fold (\<lambda>(k, word) m. m(d_framebuffer d + k := word)) (enumerate 0 (d_legacy d)) (d_vram d),
       sh_terminal := restore_cells (d_text d) (sh_terminal s)\<rparr>"

definition close_desktop :: "shell \<Rightarrow> shell" where
  "close_desktop s =
     (let s = (case sh_desktop s of None \<Rightarrow> s | Some d \<Rightarrow> desktop_drop d s) in
      s\<lparr>sh_terminal := set_screen_enabled True (sh_terminal s)\<rparr>)"

section \<open>Commands\<close>

fun says :: "string list \<Rightarrow> shell \<Rightarrow> shell_outcome" where
  "says [] s = Runs s"
| "says (l # ls) s = and_then (sayln l s) (says ls)"

text \<open>The logo, with \<^verbatim>\<open>~\<close> for a backslash.\<close>

definition PIPPIN_LOGO :: string where
  "PIPPIN_LOGO = map (\<lambda>c. if c = CHR ''~'' then CHR 0x5C else c)
    (''/$$$$$$$  /$$                     /$$\<newline>'' @
     ''| $$__  $$|__/                    |__/\<newline>'' @
     ''| $$  ~ $$ /$$  /$$$$$$   /$$$$$$  /$$ /$$$$$$$\<newline>'' @
     ''| $$$$$$$/| $$ /$$__  $$ /$$__  $$| $$| $$__  $$\<newline>'' @
     ''| $$____/ | $$| $$  ~ $$| $$  ~ $$| $$| $$  ~ $$\<newline>'' @
     ''| $$      | $$| $$  | $$| $$  | $$| $$| $$  | $$\<newline>'' @
     ''| $$      | $$| $$$$$$$/| $$$$$$$/| $$| $$  | $$\<newline>'' @
     ''|__/      |__/| $$____/ | $$____/ |__/|__/  |__/\<newline>'' @
     ''              | $$      | $$\<newline>'' @
     ''              | $$      | $$\<newline>'' @
     ''              |__/      |__/'')"

definition print_logo :: "shell \<Rightarrow> shell_outcome" where
  "print_logo s =
     and_then (ansi (theme_ansi (sh_theme s)) s) (\<lambda>s.
     and_then (sayln PIPPIN_LOGO s) (ansi (ESC # ''[0m'')))"

definition GLYPHS :: string where
  "GLYPHS = ''01PIPIN<>[]{}:/'' @ [CHR 0x5C] @ ''|*+#$''"

definition matrix_byte :: "usize \<Rightarrow> usize \<Rightarrow> usize \<Rightarrow> char" where
  "matrix_byte seed row column =
     (let stream = (column * 17 + seed div 37) mod 23;
          head = (seed div 71 + column * 5) mod 24;
          distance = (row + 24 - head) mod 24 in
      if stream < 10 \<and> distance < 7 then GLYPHS ! ((seed + row * 13 + column * 7) mod 2 ^ 64 mod length GLYPHS)
      else if (row * 11 + column * 19 + seed div 101) mod 37 = 0 then CHR ''.''
      else CHR '' '')"

definition matrix :: "env \<Rightarrow> shell \<Rightarrow> shell_outcome" where
  "matrix e s =
     (let seed = unat (env_ticks e) in
      says (''Pippin Matrix'' # map (\<lambda>row. map (matrix_byte seed row) [0..<78]) [0..<18]) s)"

definition print_help :: "shell \<Rightarrow> shell_outcome" where
  "print_help s = says
     [''Pippin CLI'',
      ''  System:     fetch  uname  uptime  mem  pci  about  shutdown  poweroff  reboot'',
      ''  Files:      ls  cat  echo'',
      ''  Apps:       apps  run'',
      ''  Desktop:    desktop  console'',
      ''  Appearance: logo  theme  matrix  clear'',
      ''  General:    help''] s"

definition theme_of :: "string \<Rightarrow> theme option" where
  "theme_of name =
     (if name = ''classic'' then Some Classic else if name = ''amber'' then Some Amber else if name = ''green'' then Some Green
      else if name = ''ice'' then Some Ice else if name = ''mono'' then Some Mono else None)"

definition set_theme :: "string \<Rightarrow> shell \<Rightarrow> shell_outcome" where
  "set_theme name s =
     (case theme_of name of
        Some theme \<Rightarrow>
          let s = s\<lparr>sh_theme := theme, sh_terminal := set_vga_attribute (vga_attribute theme) (sh_terminal s)\<rparr> in
          and_then (ansi (theme_ansi theme) s) (\<lambda>s.
          and_then (sayln (''Theme set to '' @ theme_name (sh_theme s) @ ''.'') s) (ansi (ESC # ''[0m'')))
      | None \<Rightarrow> sayln (''theme: unknown theme '' @ [CHR 0x27] @ name @ [CHR 0x27]) s)"

definition seconds :: "u64 \<Rightarrow> string" where
  "seconds ticks = show_nat (unat (ticks div 1000)) @ ''.'' @ pad0 3 (show_nat (unat (ticks mod 1000)))"

definition free_frames_of :: "shell \<Rightarrow> usize" where
  "free_frames_of s = free_frame_count (m_frames (k_machine (sh_kernel s)))"

definition free_kib :: "shell \<Rightarrow> usize" where
  "free_kib s = free_frames_of s * 4 mod 2 ^ 64"

definition fetch :: "env \<Rightarrow> shell \<Rightarrow> shell_outcome" where
  "fetch e s =
     (let name = (case sh_bundle s of None \<Rightarrow> ''none'' | Some b \<Rightarrow> str_of (bu_name b)); kib = free_kib s in
      and_then (print_logo s) (says
        [''Pippin OS 0.1.0'', ''Architecture: x86_64'', ''Uptime: '' @ seconds (env_ticks e) @ '' s'',
         ''Free memory: '' @ show_nat kib @ '' KiB'', ''PCI devices: '' @ show_nat (unat (env_pci_count e)),
         ''App bundle: '' @ name, ''Theme: '' @ theme_name (sh_theme s)]))"

definition hex :: "nat \<Rightarrow> 'a::len word \<Rightarrow> string" where
  "hex n w = pad0 n (show_hex (unat w))"

definition pci_line :: "env \<Rightarrow> u32 \<Rightarrow> string list" where
  "pci_line e index =
     (case env_pci e index of
        None \<Rightarrow> []
      | Some (vendor, product, cls, subclass) \<Rightarrow>
          [''  '' @ pad0 2 (show_nat (unat index)) @ '' '' @ hex 4 vendor @ '':'' @ hex 4 product @ '' class '' @ hex 2 cls @ '':'' @
           hex 2 subclass @ '' parent '' @ show_int (env_pci_parent e index)])"

definition pci :: "env \<Rightarrow> shell \<Rightarrow> shell_outcome" where
  "pci e s =
     says ((show_nat (unat (env_pci_count e)) @ '' PCI devices:'') #
       concat (map (\<lambda>k. pci_line e (of_nat k)) [0..<min (unat (env_pci_count e)) 16])) s"

definition run_hello :: "env \<Rightarrow> shell \<Rightarrow> shell_outcome" where
  "run_hello e s =
     (case load_and_spawn (env_layout e) (env_hello e) (sh_event_port s) (sh_kernel s) of
        None \<Rightarrow> Panics
      | Some (Inr report, k) \<Rightarrow>
          sayln (''started hello: entry=0x'' @ show_hex (unat (lr_entry report)) @ '', pages='' @ show_nat (lr_mapped_pages report) @
            '', image='' @ show_nat (lr_image_bytes report) @ '' bytes'') (s\<lparr>sh_kernel := k\<rparr>)
      | Some (Inl err, k) \<Rightarrow> sayln (''run: hello: '' @ load_error_name err) (s\<lparr>sh_kernel := k\<rparr>))"

definition start_desktop :: "env \<Rightarrow> shell \<Rightarrow> shell_outcome" where
  "start_desktop e s =
     (if sh_desktop s \<noteq> None then sayln ''Desktop preview is already open.'' s
      else
        and_then (sayln ''Opening desktop preview; press Esc to return.'' s) (\<lambda>s.
        case open_desktop e s of
          None \<Rightarrow> Panics
        | Some s \<Rightarrow>
            if sh_desktop s = None then sayln ''QEMU standard VGA framebuffer unavailable.'' s
            else Runs (s\<lparr>sh_terminal := set_screen_enabled False (sh_terminal s)\<rparr>)))"

definition halt_with :: "string \<Rightarrow> shell \<Rightarrow> shell_outcome" where
  "halt_with txt s = and_then (sayln txt s) Stops"

definition execute :: "env \<Rightarrow> string \<Rightarrow> shell \<Rightarrow> shell_outcome" where
  "execute e cmd s =
     (if cmd = '''' then Runs s
      else if cmd = ''help'' then print_help s
      else if cmd = ''logo'' \<or> cmd = ''pippin'' then print_logo s
      else if cmd = ''matrix'' then matrix e s
      else if cmd = ''about'' then
        says [''Pippin OS 0.1.0'', ''Native desktop operating system'', ''Architecture: x86_64'', ''CLI: bootstrap shell''] s
      else if cmd = ''theme'' \<or> cmd = ''theme list'' then
        says [''Themes: classic  amber  green  ice  mono'', ''Current: '' @ theme_name (sh_theme s)] s
      else if cmd = ''desktop'' then start_desktop e s
      else if cmd = ''console'' then sayln ''Command shell active.'' (close_desktop s)
      else if cmd = ''fetch'' \<or> cmd = ''neofetch'' then fetch e s
      else if cmd = ''clear'' then on_terminal term_clear s
      else if cmd = ''shutdown'' \<or> cmd = ''poweroff'' then halt_with ''Powering off Pippin...'' s
      else if cmd = ''reboot'' then halt_with ''Rebooting Pippin...'' s
      else if cmd = ''uname'' then sayln ''Pippin OS 0.1.0 x86_64'' s
      else if cmd = ''uptime'' then sayln (seconds (env_ticks e) @ '' seconds'') s
      else if cmd = ''mem'' then
        sayln (show_nat (free_frames_of s) @ '' free frames ('' @ show_nat (free_kib s) @ '' KiB)'') s
      else if cmd = ''pci'' then pci e s
      else if cmd = ''apps'' then sayln ''hello    native ELF64 C++ app'' s
      else if cmd = ''run hello'' \<or> cmd = ''run /apps/hello'' then run_hello e s
      else if cmd = ''ls'' \<or> cmd = ''ls /apps'' then
        sayln (if sh_bundle s \<noteq> None then ''hello.pipb'' else ''No app bundle loaded.'') s
      else if cmd = ''cat hello.pipb'' \<or> cmd = ''cat /apps/hello.pipb'' then
        sayln (case sh_bundle s of
            Some b \<Rightarrow> ''PIPPIN-BUNDLE/1\<newline>name='' @ str_of (bu_name b) @ ''\<newline>message='' @ str_of (bu_message b)
          | None \<Rightarrow> ''cat: hello.pipb: not found'') s
      else if starts_with ''theme '' cmd then set_theme (trim (drop 6 cmd)) s
      else if starts_with ''echo '' cmd then sayln (drop 5 cmd) s
      else sayln (cmd @ '': command not found'') s)"

section \<open>Input\<close>

text \<open>The PS/2 set-1 US keyboard map, by runs of consecutive scancodes: the plain and the shifted bytes.\<close>

definition key_row :: "nat \<Rightarrow> string \<Rightarrow> string \<Rightarrow> (u8 \<times> u8 \<times> u8) list" where
  "key_row first plain shifted =
     zip (map of_nat [first..<first + length plain]) (zip (bytes_of plain) (bytes_of shifted))"

definition keymap :: "(u8 \<times> u8 \<times> u8) list" where
  "keymap =
     key_row 0x02 ''1234567890-='' ''!@#$%^&*()_+'' @
     key_row 0x0e [BS] [BS] @
     key_row 0x10 ''qwertyuiop[]'' ''QWERTYUIOP{}'' @
     key_row 0x1c ''\<newline>'' ''\<newline>'' @
     key_row 0x1e (''asdfghjkl;'' @ [CHR 0x27, CHR 0x60]) (''ASDFGHJKL:'' @ [CHR 0x22, CHR ''~'']) @
     key_row 0x2b (CHR 0x5C # ''zxcvbnm,./'') ''|ZXCVBNM<>?'' @
     key_row 0x39 '' '' '' ''"

definition key_pair :: "u8 \<Rightarrow> (u8 \<times> u8) option" where
  "key_pair scan = map_of keymap scan"

definition key_text :: "shell \<Rightarrow> u8 \<times> u8 \<Rightarrow> u8" where
  "key_text s = (\<lambda>(plain, shifted).
     if (97 \<le> plain \<and> plain \<le> 122) \<or> (65 \<le> plain \<and> plain \<le> 90) then
       (if sh_shift s \<noteq> sh_caps s then (if 97 \<le> plain \<and> plain \<le> 122 then plain - 32 else plain) else plain)
     else if sh_shift s then shifted else plain)"

text \<open>One byte of the command line. The line is copied before it is executed; a length past the buffer
  would panic.\<close>

definition input :: "env \<Rightarrow> u8 \<Rightarrow> shell \<Rightarrow> shell_outcome" where
  "input e byte s =
     (if byte = 13 \<or> byte = 10 then
        and_then (say ''\<newline>'' s) (\<lambda>s.
        if sh_len s > length (sh_line s) then Panics
        else
          let line = take (sh_len s) (sh_line s); cmd = trim (if utf8_ok line then str_of line else '''') in
          and_then (execute e cmd s) (\<lambda>s. prompt (s\<lparr>sh_len := 0\<rparr>)))
      else if (byte = 8 \<or> byte = 127) \<and> sh_len s > 0 then on_terminal term_backspace (s\<lparr>sh_len := sh_len s - 1\<rparr>)
      else if 0x20 \<le> byte \<and> byte \<le> 0x7e \<and> sh_len s < LINE_CAPACITY - 1 then
        (if sh_len s < length (sh_line s)
         then say (str_of [byte]) (s\<lparr>sh_line := (sh_line s)[sh_len s := byte], sh_len := sh_len s + 1\<rparr>)
         else Panics)
      else Runs s)"

definition serial_byte :: "env \<Rightarrow> u8 \<Rightarrow> shell \<Rightarrow> shell_outcome" where
  "serial_byte e byte s =
     (if byte = 10 \<and> last_was_cr s then Runs (s\<lparr>last_was_cr := False\<rparr>)
      else input e byte (s\<lparr>last_was_cr := (byte = 13)\<rparr>))"

text \<open>The bytes waiting at the first serial port, and what a poll leaves of them. The port's readiness is never taken back, so it is
  read once.\<close>

fun poll_serial_loop :: "nat \<Rightarrow> env \<Rightarrow> u8 list \<Rightarrow> shell \<Rightarrow> shell_outcome \<times> u8 list" where
  "poll_serial_loop 0 e pending s = (Runs s, pending)"
| "poll_serial_loop (Suc n) e [] s = (Runs s, [])"
| "poll_serial_loop (Suc n) e (byte # rest) s =
     (case serial_byte e byte s of
        Runs s \<Rightarrow> poll_serial_loop n e rest s
      | stopped \<Rightarrow> (stopped, rest))"

definition poll_serial :: "env \<Rightarrow> u8 list \<Rightarrow> shell \<Rightarrow> shell_outcome \<times> u8 list" where
  "poll_serial e pending s = (if serial_ready (sh_terminal s) then poll_serial_loop 32 e pending s else (Runs s, pending))"

section \<open>The desktop's input and output\<close>

definition SHELL_SURFACES :: "string list" where
  "SHELL_SURFACES = [''launcher'', ''files'', ''settings'', ''terminal'']"

definition surface_command :: "string \<Rightarrow> string option" where
  "surface_command action =
     (case (case strip_suffix ''.open'' action of None \<Rightarrow> strip_suffix ''.restore'' action | r \<Rightarrow> r) of
        Some i \<Rightarrow> if i \<in> set SHELL_SURFACES then Some (''R|'' @ i) else None
      | None \<Rightarrow>
          (case strip_suffix ''.close'' action of
             Some i \<Rightarrow> if i \<in> set SHELL_SURFACES then Some (''M|'' @ i) else None
           | None \<Rightarrow> None))"

definition perform_action :: "string \<Rightarrow> shell \<Rightarrow> shell_outcome" where
  "perform_action action s =
     (case (surface_command action, sh_desktop s) of
        (Some cmd, Some d) \<Rightarrow>
          (case desktop_command cmd d of None \<Rightarrow> Panics | Some (_, _, d) \<Rightarrow> Runs (s\<lparr>sh_desktop := Some d\<rparr>))
      | _ \<Rightarrow> send_action action s)"

definition handle_desktop_action :: "env \<Rightarrow> string \<Rightarrow> shell \<Rightarrow> shell_outcome" where
  "handle_desktop_action e action s =
     (case split_once ACTION_VALUE_SEPARATOR action of
        None \<Rightarrow> perform_action action s
      | Some (name, val) \<Rightarrow>
          if name = ''terminal.input'' then
            (let cmd = trim val in
             if cmd \<noteq> '''' then
               and_then (sayln (''\<newline>[gui terminal] '' @ cmd) s) (\<lambda>s. and_then (execute e cmd s) prompt)
             else Runs s)
          else if name = ''launcher.search'' \<or> name = ''files.search'' then sayln (''['' @ name @ ''] query: '' @ val) s
          else perform_action action s)"

definition deliver :: "env \<Rightarrow> string option \<Rightarrow> wevent list \<Rightarrow> shell \<Rightarrow> shell_outcome" where
  "deliver e action events s =
     and_then (case action of None \<Rightarrow> Runs s | Some a \<Rightarrow> handle_desktop_action e a s) (send_events events)"

definition shell_mouse_packet :: "env \<Rightarrow> u32 \<Rightarrow> shell \<Rightarrow> shell_outcome" where
  "shell_mouse_packet e packet s =
     (case sh_desktop s of
        None \<Rightarrow> Runs s
      | Some d \<Rightarrow>
          (case desktop_pointer packet d of
             None \<Rightarrow> Panics
           | Some (action, events, d) \<Rightarrow> deliver e action events (s\<lparr>sh_desktop := Some d\<rparr>)))"

text \<open>The action that a captured key is sent to the host as.\<close>

definition captured :: "u8 \<Rightarrow> shell \<Rightarrow> string option" where
  "captured scan s =
     (if terminal_capture s \<and> scan AND 0x80 = 0 then
        if scan = 0x1c then Some ''terminal.run''
        else if scan = 0x0e then Some ''terminal.backspace''
        else
          (case key_pair scan of
             None \<Rightarrow> None
           | Some pair \<Rightarrow>
               let byte = key_text s pair in
               if 0x20 \<le> byte \<and> byte \<le> 0x7e then Some (''terminal.key.'' @ hex 2 byte) else None)
      else None)"

definition escape_or_test :: "u8 \<Rightarrow> shell \<Rightarrow> shell_outcome" where
  "escape_or_test scan s =
     (let client_active = (case sh_desktop s of None \<Rightarrow> False | Some d \<Rightarrow> desktop_has_clients d) in
      if scan = 0x01 \<and> \<not> client_active then and_then (sayln ''\<newline>Returned to the command shell.'' (close_desktop s)) prompt
      else if scan = 0x31 \<and> \<not> client_active then
        (case sh_desktop s of
           None \<Rightarrow> Runs s
         | Some d \<Rightarrow> (case desktop_test_window d of None \<Rightarrow> Panics | Some d \<Rightarrow> Runs (s\<lparr>sh_desktop := Some d\<rparr>)))
      else Runs s)"

definition track_modifiers :: "u8 \<Rightarrow> shell \<Rightarrow> shell" where
  "track_modifiers scan s =
     (let s = (if scan = 0x2a \<or> scan = 0x36 then s\<lparr>sh_shift := True\<rparr> else s);
          s = (if scan = 0xaa \<or> scan = 0xb6 then s\<lparr>sh_shift := False\<rparr> else s) in
      if scan = 0x3a then s\<lparr>sh_caps := \<not> sh_caps s\<rparr> else s)"

definition forward_key :: "env \<Rightarrow> u8 \<Rightarrow> bool \<Rightarrow> shell \<Rightarrow> shell_outcome" where
  "forward_key e scan was_extended s =
     (case sh_desktop s of
        None \<Rightarrow> Runs s
      | Some d \<Rightarrow>
          (case desktop_key scan (if scan AND 0x80 = 0 then map_option (key_text s) (key_pair scan) else None)
                  (sh_shift s) was_extended d of
             None \<Rightarrow> Panics
           | Some (action, events, d) \<Rightarrow> deliver e action events (s\<lparr>sh_desktop := Some d\<rparr>)))"

definition desktop_scancode :: "env \<Rightarrow> u8 \<Rightarrow> shell \<Rightarrow> shell_outcome" where
  "desktop_scancode e scan s =
     (if scan = 0xe0 then Runs (s\<lparr>sh_extended := True\<rparr>)
      else
        let was_extended = sh_extended s; s = s\<lparr>sh_extended := False\<rparr> in
        if scan = 0x38 then Runs (s\<lparr>sh_alt := True\<rparr>)
        else if scan = 0xb8 then Runs (s\<lparr>sh_alt := False\<rparr>)
        else if sh_alt s \<and> scan = 0x14 then handle_desktop_action e ''terminal.open'' s
        else if scan AND 0x80 \<noteq> 0 \<and> scan AND 0x7f = 0x14 then Runs s
        else
          (case captured scan s of
             Some action \<Rightarrow> send_action action s
           | None \<Rightarrow>
               and_then (escape_or_test scan s) (\<lambda>s. forward_key e scan was_extended (track_modifiers scan s))))"

definition key_scancode :: "env \<Rightarrow> u8 \<Rightarrow> shell \<Rightarrow> shell_outcome" where
  "key_scancode e scan s =
     (if sh_desktop s \<noteq> None then desktop_scancode e scan s
      else if scan = 0xe0 then Runs (s\<lparr>sh_extended := True\<rparr>)
      else if sh_extended s then Runs (s\<lparr>sh_extended := False\<rparr>)
      else if scan \<in> {0x2a, 0x36, 0xaa, 0xb6, 0x3a} then Runs (track_modifiers scan s)
      else if scan AND 0x80 \<noteq> 0 then Runs s
      else (case key_pair scan of None \<Rightarrow> Runs s | Some pair \<Rightarrow> input e (key_text s pair) s))"

text \<open>The lines of the host. The callback of the bridge works on the shell, whether it has opened the desktop, and the events
  to send afterwards; \<open>None\<close> is a panic inside it.\<close>

definition bridge_command :: "env \<Rightarrow> string \<Rightarrow> (shell \<times> bool \<times> wevent list) option \<Rightarrow> bool \<times> (shell \<times> bool \<times> wevent list) option" where
  "bridge_command e line st =
     (case st of
        None \<Rightarrow> (False, None)
      | Some (s, opened, events) \<Rightarrow>
          let s = (if starts_with ''S|terminal|'' line then s\<lparr>terminal_capture := True\<rparr> else s);
              s = (if line = ''X|terminal'' then s\<lparr>terminal_capture := False\<rparr> else s) in
          (case (if (starts_with ''S|'' line \<or> starts_with ''WC|'' line) \<and> sh_desktop s = None
                 then map_option (\<lambda>s. (s, sh_desktop s \<noteq> None)) (open_desktop e s) else Some (s, opened)) of
             None \<Rightarrow> (False, None)
           | Some (s, opened) \<Rightarrow>
               (case sh_desktop s of
                  None \<Rightarrow> (False, Some (s, opened, events))
                | Some d \<Rightarrow>
                    (case desktop_command line d of
                       None \<Rightarrow> (False, None)
                     | Some (accepted, output, d) \<Rightarrow> (accepted, Some (s\<lparr>sh_desktop := Some d\<rparr>, opened, events @ output))))))"

definition poll_bridge :: "env \<Rightarrow> u8 list \<Rightarrow> shell \<Rightarrow> shell_outcome \<times> u8 list" where
  "poll_bridge e pending s =
     (case bridge_poll (bridge_command e) pending (sh_bridge s, Some (s, False, [])) of
        Some (out, rest, b, Some (s, opened, events)) \<Rightarrow>
          let s = s\<lparr>sh_bridge := b, com2_out := com2_out s @ out\<rparr>;
              s = (if opened then s\<lparr>sh_terminal := set_screen_enabled False (sh_terminal s)\<rparr> else s) in
          (send_events events s, rest)
      | _ \<Rightarrow> (Panics, []))"

end
