(* ===== verification/Shell_Safe.thy ===== *)
theory Shell_Safe
  imports Shell Compositor_Safe Elf_Correct Step_Machine
begin

text \<open>
  The shell never panics and keeps its parts in order, whatever is typed, sent by the host or moved with the mouse; its
  command line behaves as a line editor; and closing the desktop puts back the screen and video memory that opening it
  had covered.
\<close>

section \<open>The invariant\<close>

definition terminal_ok :: "terminal \<Rightarrow> bool" where
  "terminal_ok t \<longleftrightarrow> (case screen_console t of None \<Rightarrow> True | Some c \<Rightarrow> console_ok c)"

definition cells :: "terminal \<Rightarrow> u16 list option" where
  "cells t = map_option vga (screen_console t)"

definition line_byte :: "u8 \<Rightarrow> bool" where
  "line_byte b \<longleftrightarrow> 0x20 \<le> b \<and> b \<le> 0x7e"

definition line_ok :: "shell \<Rightarrow> bool" where
  "line_ok s \<longleftrightarrow> length (sh_line s) = LINE_CAPACITY \<and> sh_len s < LINE_CAPACITY \<and> list_all line_byte (take (sh_len s) (sh_line s))"

text \<open>What an open desktop has kept aside is what the screen and video memory outside it still hold.\<close>

definition desktop_ok :: "shell \<Rightarrow> desktop \<Rightarrow> bool" where
  "desktop_ok s d \<longleftrightarrow> comp_inv (d_compositor d) \<and> d_text d = cells (sh_terminal s) \<and>
     d_legacy d = map (\<lambda>i. sh_vram s (d_framebuffer d + i)) [0..<LEGACY_VRAM_BYTES div 4] \<and>
     (\<forall>p. p < d_framebuffer d \<or> d_framebuffer d + WIDTH * HEIGHT \<le> p \<longrightarrow> d_vram d p = sh_vram s p)"

definition parts_ok :: "shell \<Rightarrow> bool" where
  "parts_ok s \<longleftrightarrow> line_ok s \<and> terminal_ok (sh_terminal s) \<and> (\<exists>cur. holds (sh_bridge s) cur) \<and>
     (case sh_desktop s of None \<Rightarrow> True | Some d \<Rightarrow> desktop_ok s d)"

definition shell_inv :: "shell \<Rightarrow> bool" where
  "shell_inv s \<longleftrightarrow> parts_ok s \<and> (sh_desktop s \<noteq> None \<longrightarrow> \<not> screen_enabled (sh_terminal s))"

lemma shell_inv_fields [simp]:
  "shell_inv (s\<lparr>sh_shift := b\<rparr>) = shell_inv s" "shell_inv (s\<lparr>sh_alt := b\<rparr>) = shell_inv s"
  "shell_inv (s\<lparr>sh_caps := b\<rparr>) = shell_inv s" "shell_inv (s\<lparr>sh_extended := b\<rparr>) = shell_inv s"
  "shell_inv (s\<lparr>last_was_cr := b\<rparr>) = shell_inv s" "shell_inv (s\<lparr>sh_theme := t\<rparr>) = shell_inv s"
  "shell_inv (s\<lparr>sh_kernel := k\<rparr>) = shell_inv s" "shell_inv (s\<lparr>com2_out := bs\<rparr>) = shell_inv s"
  "shell_inv (s\<lparr>terminal_capture := b\<rparr>) = shell_inv s"
  by (simp_all add: shell_inv_def parts_ok_def line_ok_def desktop_ok_def split: option.split)

text \<open>A result is good when it is no panic, the invariant holds again, and the flag for a pending line feed and the state of the
  serial port have not moved.\<close>

definition flags :: "shell \<Rightarrow> bool \<times> bool" where
  "flags s = (last_was_cr s, serial_ready (sh_terminal s))"

lemma flags_fields [simp]:
  "flags (s\<lparr>sh_shift := b\<rparr>) = flags s" "flags (s\<lparr>sh_alt := b\<rparr>) = flags s" "flags (s\<lparr>sh_caps := b\<rparr>) = flags s"
  "flags (s\<lparr>sh_extended := b\<rparr>) = flags s" "flags (s\<lparr>sh_theme := th\<rparr>) = flags s" "flags (s\<lparr>sh_kernel := k\<rparr>) = flags s"
  "flags (s\<lparr>com2_out := bs\<rparr>) = flags s" "flags (s\<lparr>terminal_capture := b\<rparr>) = flags s" "flags (s\<lparr>sh_desktop := d\<rparr>) = flags s"
  "flags (s\<lparr>sh_line := l\<rparr>) = flags s" "flags (s\<lparr>sh_len := n\<rparr>) = flags s" "flags (s\<lparr>sh_bridge := br\<rparr>) = flags s"
  "flags (s\<lparr>last_was_cr := b\<rparr>) = (b, serial_ready (sh_terminal s))"
  by (simp_all add: flags_def)

lemma flags_terminal [simp]: "serial_ready t = serial_ready (sh_terminal s) \<Longrightarrow> flags (s\<lparr>sh_terminal := t\<rparr>) = flags s"
  by (simp add: flags_def)

definition good :: "bool \<times> bool \<Rightarrow> shell_outcome \<Rightarrow> bool" where
  "good fl r \<longleftrightarrow> (case r of Runs s \<Rightarrow> shell_inv s \<and> flags s = fl | Stops _ \<Rightarrow> True | Panics \<Rightarrow> False)"

lemma good_simps [simp]:
  "good fl (Runs s) \<longleftrightarrow> shell_inv s \<and> flags s = fl" "good fl (Stops s)" "\<not> good fl Panics"
  by (simp_all add: good_def)

lemma good_and_then:
  assumes "good fl r" "\<And>s. shell_inv s \<Longrightarrow> flags s = fl \<Longrightarrow> good fl (f s)"
  shows "good fl (and_then r f)"
  using assms by (cases r) simp_all

lemma serial_ready_kept [simp]:
  "serial_ready (set_vga_attribute a t) = serial_ready t" "serial_ready (set_screen_enabled b t) = serial_ready t"
  by (simp_all add: set_vga_attribute_def set_screen_enabled_def)

section \<open>The terminal\<close>

text \<open>What an operation on the terminal may do: it leaves a disabled screen alone.\<close>

definition term_op :: "(terminal \<Rightarrow> terminal option) \<Rightarrow> bool" where
  "term_op f \<longleftrightarrow> (\<forall>t. terminal_ok t \<longrightarrow> (\<exists>t'. f t = Some t' \<and> terminal_ok t' \<and> screen_enabled t' = screen_enabled t \<and>
     serial_ready t' = serial_ready t \<and> (\<not> screen_enabled t \<longrightarrow> cells t' = cells t)))"

lemma write_serial_fields [simp]:
  "screen_console (write_serial_ansi a t) = screen_console t" "screen_enabled (write_serial_ansi a t) = screen_enabled t"
  "serial_ready (write_serial_ansi a t) = serial_ready t"
  "terminal_ok (write_serial_ansi a t) = terminal_ok t" "cells (write_serial_ansi a t) = cells t"
  by (simp_all add: write_serial_ansi_def terminal_ok_def cells_def)

lemma write_str_ok: "console_ok c \<Longrightarrow> \<exists>c'. tc_write_str bs c = Some c' \<and> console_ok c'"
proof (induction bs arbitrary: c)
  case (Cons b bs)
  then obtain u where "tc_put b c = Some u" "console_ok u" using put_refines [OF Cons.prems, of b] by blast
  then show ?case using Cons.IH by simp
qed simp

lemma on_screen_op:
  assumes "\<And>c. console_ok c \<Longrightarrow> \<exists>c'. f c = Some c' \<and> console_ok c'"
  shows "term_op (on_screen_console f)"
  unfolding term_op_def
proof (intro allI impI)
  fix t assume ok: "terminal_ok t"
  show "\<exists>t'. on_screen_console f t = Some t' \<and> terminal_ok t' \<and> screen_enabled t' = screen_enabled t \<and>
     serial_ready t' = serial_ready t \<and> (\<not> screen_enabled t \<longrightarrow> cells t' = cells t)"
  proof (cases "screen_enabled t \<and> screen_console t \<noteq> None")
    case True
    then obtain c where c: "screen_console t = Some c" "console_ok c" using ok by (auto simp: terminal_ok_def)
    then obtain c' where "f c = Some c'" "console_ok c'" using assms by blast
    then show ?thesis using True c by (auto simp: on_screen_console_def terminal_ok_def)
  next
    case False
    then show ?thesis using ok by (auto simp: on_screen_console_def)
  qed
qed

lemma term_op_then_serial: "term_op f \<Longrightarrow> term_op (\<lambda>t. map_option (write_serial_ansi a) (f t))"
  by (fastforce simp: term_op_def)

lemma term_write_op: "term_op (term_write txt)"
proof -
  have "term_op (on_screen_console (tc_write_str (bytes_of txt)))" by (rule on_screen_op) (rule write_str_ok)
  then show ?thesis
    unfolding term_op_def term_write_def by (metis write_serial_fields(2-5))
qed

lemma term_clear_op: "term_op term_clear"
  unfolding term_clear_def [abs_def]
  by (intro term_op_then_serial on_screen_op) (metis clear_ok(1) console_ok_def)

lemma term_backspace_op: "term_op term_backspace"
  unfolding term_backspace_def [abs_def] by (intro term_op_then_serial on_screen_op write_str_ok)

lemma on_terminal_ok:
  assumes "term_op f" "shell_inv s"
  obtains t where "on_terminal f s = Runs (s\<lparr>sh_terminal := t\<rparr>)" "shell_inv (s\<lparr>sh_terminal := t\<rparr>)"
    "serial_ready t = serial_ready (sh_terminal s)" "f (sh_terminal s) = Some t"
proof -
  have "terminal_ok (sh_terminal s)" using assms(2) by (simp add: shell_inv_def parts_ok_def)
  then obtain t where t: "f (sh_terminal s) = Some t" "terminal_ok t" "screen_enabled t = screen_enabled (sh_terminal s)"
      "serial_ready t = serial_ready (sh_terminal s)" "\<not> screen_enabled (sh_terminal s) \<longrightarrow> cells t = cells (sh_terminal s)"
    using assms(1) unfolding term_op_def by blast
  then have "shell_inv (s\<lparr>sh_terminal := t\<rparr>)"
    using assms(2) by (auto simp: shell_inv_def parts_ok_def line_ok_def desktop_ok_def split: option.splits)
  then show thesis using that t(1,4) by (simp add: on_terminal_def)
qed

lemma good_on_terminal:
  assumes "term_op f" "shell_inv s" "flags s = fl"
  shows "good fl (on_terminal f s)"
proof -
  obtain t where "on_terminal f s = Runs (s\<lparr>sh_terminal := t\<rparr>)" "shell_inv (s\<lparr>sh_terminal := t\<rparr>)"
      "serial_ready t = serial_ready (sh_terminal s)"
    using on_terminal_ok [OF assms(1,2)] .
  then show ?thesis using assms(3) by simp
qed

lemma good_say: "shell_inv s \<Longrightarrow> flags s = fl \<Longrightarrow> good fl (say txt s)"
  unfolding say_def by (rule good_on_terminal [OF term_write_op])

lemma good_sayln: "shell_inv s \<Longrightarrow> flags s = fl \<Longrightarrow> good fl (sayln txt s)"
  unfolding sayln_def by (rule good_say)

lemma good_says: "shell_inv s \<Longrightarrow> flags s = fl \<Longrightarrow> good fl (says ls s)"
  by (induction ls arbitrary: s) (auto intro: good_and_then good_sayln)

lemma good_ansi: "shell_inv s \<Longrightarrow> flags s = fl \<Longrightarrow> good fl (ansi a s)"
  by (auto simp: ansi_def shell_inv_def parts_ok_def line_ok_def desktop_ok_def split: option.splits)

lemma good_prompt: "shell_inv s \<Longrightarrow> flags s = fl \<Longrightarrow> good fl (prompt s)"
  unfolding prompt_def by (intro good_and_then good_ansi good_say)

lemma good_print_logo: "shell_inv s \<Longrightarrow> flags s = fl \<Longrightarrow> good fl (print_logo s)"
  unfolding print_logo_def by (intro good_and_then good_ansi good_sayln)

lemmas good_output = good_say good_sayln good_says good_ansi good_prompt good_print_logo

section \<open>The desktop\<close>

lemma fold_enumerate:
  "fold (\<lambda>(k, x) m. m(b + k := x)) (enumerate n xs) m p =
    (if b + n \<le> p \<and> p < b + n + length xs then xs ! (p - b - n) else m p)"
proof (induction xs arbitrary: n m)
  case (Cons x xs)
  show ?case using Cons.IH [of "Suc n" "m(b + n := x)"]
    by (auto simp: nth_Cons' intro!: arg_cong [where f = "(!) xs"])
qed auto

lemma desktop_ok_update:
  assumes "desktop_ok s d" "comp_inv c"
  shows "desktop_ok s (d\<lparr>d_compositor := c\<rparr>)" "desktop_ok s (d_present (d\<lparr>d_compositor := c\<rparr>))"
  using assms fold_enumerate [of "d_framebuffer d" 0 "c_pixels c" "d_vram d"]
  by (auto simp: desktop_ok_def d_present_def present_def comp_inv_def screen_def)

lemma shell_inv_desktop:
  "shell_inv s \<Longrightarrow> sh_desktop s = Some d0 \<Longrightarrow> desktop_ok s d \<Longrightarrow> shell_inv (s\<lparr>sh_desktop := Some d\<rparr>)"
  by (auto simp: shell_inv_def parts_ok_def line_ok_def desktop_ok_def)

lemma shell_inv_desktop_ok: "shell_inv s \<Longrightarrow> sh_desktop s = Some d \<Longrightarrow> desktop_ok s d"
  by (simp add: shell_inv_def parts_ok_def)

lemma desktop_ok_comp: "desktop_ok s d \<Longrightarrow> comp_inv (d_compositor d)"
  by (simp add: desktop_ok_def)

lemma desktop_command_ok:
  assumes "desktop_ok s d"
  obtains b evs d' where "desktop_command line d = Some (b, evs, d')" "desktop_ok s d'"
proof (cases "starts_with ''W'' line")
  case True
  obtain a evs c where c: "client_command line (d_compositor d) = Some (a, evs, c)" "comp_inv c"
    using client_command_ok [OF desktop_ok_comp [OF assms], of line] by (cases "client_command line (d_compositor d)") auto
  then show thesis using that desktop_ok_update [OF assms c(2)] True by (simp add: desktop_command_def Let_def split: if_splits)
next
  case False
  obtain a c where c: "comp_command line (d_compositor d) = Some (a, c)" "comp_inv c"
    using comp_command_ok [OF desktop_ok_comp [OF assms], of line] by (cases "comp_command line (d_compositor d)") auto
  then show thesis using that desktop_ok_update [OF assms c(2)] False by (simp add: desktop_command_def Let_def split: if_splits)
qed

lemma desktop_key_ok:
  assumes "desktop_ok s d"
  obtains a evs d' where "desktop_key scan txt' r x d = Some (a, evs, d')" "desktop_ok s d'"
proof -
  obtain a evs c where "comp_key scan txt' r x (d_compositor d) = Some (a, evs, c)" "comp_inv c"
    using comp_key_ok [OF desktop_ok_comp [OF assms], of scan txt' r x] by (cases "comp_key scan txt' r x (d_compositor d)") auto
  then show thesis using that desktop_ok_update(2) [OF assms] by (simp add: desktop_key_def)
qed

lemma desktop_pointer_ok:
  assumes "desktop_ok s d"
  obtains a evs d' where "desktop_pointer packet d = Some (a, evs, d')" "desktop_ok s d'"
proof -
  obtain a evs c where "pointer_packet packet (d_compositor d) = Some (a, evs, c)" "comp_inv c"
    using pointer_packet_ok [OF desktop_ok_comp [OF assms], of packet] by (cases "pointer_packet packet (d_compositor d)") auto
  then show thesis using that desktop_ok_update(2) [OF assms] by (simp add: desktop_pointer_def)
qed

lemma desktop_test_window_ok:
  assumes "desktop_ok s d"
  obtains d' where "desktop_test_window d = Some d'" "desktop_ok s d'"
proof -
  obtain c where "open_test_window (d_compositor d) = Some c" "comp_inv c"
    using open_test_window_ok [OF desktop_ok_comp [OF assms]] by (cases "open_test_window (d_compositor d)") auto
  then show thesis using that desktop_ok_update(2) [OF assms] by (simp add: desktop_test_window_def)
qed

text \<open>What the shell relies on in its surroundings: the surfaces of the C++ side have 32-bit positions, and the
  embedded application has a length.\<close>

definition env_ok :: "env \<Rightarrow> bool" where
  "env_ok e \<longleftrightarrow> list_all surface_i32 (env_surfaces e) \<and> length (env_hello e) < 2 ^ 64"

lemma open_desktop_ok:
  assumes "env_ok e" "parts_ok s" "sh_desktop s = None"
  obtains d k where "open_desktop e s = Some (s\<lparr>sh_desktop := d, sh_kernel := k\<rparr>)" "parts_ok (s\<lparr>sh_desktop := d, sh_kernel := k\<rparr>)"
proof -
  obtain c where c: "comp_new (env_abi e) (env_surfaces e) = Some c" "comp_inv c"
    using comp_new_ok [of "env_surfaces e" "env_abi e"] assms(1) by (cases "comp_new (env_abi e) (env_surfaces e)") (auto simp: env_ok_def)
  define d0 where "d0 = \<lparr>d_compositor = c, d_text = cells (sh_terminal s),
    d_legacy = map (\<lambda>i. sh_vram s (unat (env_bar e) div 4 + i)) [0..<LEGACY_VRAM_BYTES div 4],
    d_framebuffer = unat (env_bar e) div 4, d_vram = sh_vram s\<rparr>"
  have "desktop_ok s d0" using c(2) by (simp add: desktop_ok_def d0_def)
  from desktop_ok_update(2) [OF this c(2)] have d: "desktop_ok s (d_present d0)" by (simp add: d0_def)
  have "desktop_open e (cells (sh_terminal s)) (sh_vram s) (k_machine (sh_kernel s)) \<in>
      Some ` ({None, Some (d_present d0)} \<times> UNIV)"
    using c(1) by (auto simp: desktop_open_def Let_def d0_def split: prod.split bool.split)
  then obtain od mc where o: "desktop_open e (cells (sh_terminal s)) (sh_vram s) (k_machine (sh_kernel s)) = Some (od, mc)"
      "od = None \<or> od = Some (d_present d0)"
    by auto
  have "parts_ok (s\<lparr>sh_desktop := od, sh_kernel := k\<rparr>)" for k
    using assms(2) o(2) d by (auto simp: parts_ok_def line_ok_def desktop_ok_def)
  then show thesis using that o(1) by (simp add: open_desktop_def cells_def)
qed

lemma restore_cells_same: "restore_cells (cells t) t = t"
  by (cases "screen_console t") (simp_all add: restore_cells_def cells_def)

lemma close_desktop_ok:
  assumes "shell_inv s"
  shows "shell_inv (close_desktop s)" "flags (close_desktop s) = flags s" "sh_kernel (close_desktop s) = sh_kernel s"
    "sh_desktop (close_desktop s) = None"
proof -
  have "d_text d = cells (sh_terminal s)" if "sh_desktop s = Some d" for d
    using shell_inv_desktop_ok [OF assms that] by (simp add: desktop_ok_def)
  then show "shell_inv (close_desktop s)" "flags (close_desktop s) = flags s" "sh_kernel (close_desktop s) = sh_kernel s"
      "sh_desktop (close_desktop s) = None"
    using assms by (auto simp: close_desktop_def desktop_drop_def restore_cells_same Let_def flags_def shell_inv_def parts_ok_def line_ok_def
      terminal_ok_def set_screen_enabled_def split: option.split)
qed

section \<open>Commands\<close>

lemma good_matrix: "shell_inv s \<Longrightarrow> flags s = fl \<Longrightarrow> good fl (matrix e s)"
  unfolding matrix_def Let_def by (rule good_says)

lemma good_set_theme: "shell_inv s \<Longrightarrow> flags s = fl \<Longrightarrow> good fl (set_theme name s)"
proof -
  assume s: "shell_inv s" "flags s = fl"
  have "shell_inv (s\<lparr>sh_theme := th, sh_terminal := set_vga_attribute a (sh_terminal s)\<rparr>)" for th a
    using s(1) by (auto simp: shell_inv_def parts_ok_def line_ok_def desktop_ok_def set_vga_attribute_def terminal_ok_def cells_def
      set_attribute_def console_ok_def option.map_comp o_def split: option.splits)
  then show ?thesis unfolding set_theme_def Let_def using s
    by (auto split: option.split intro!: good_and_then good_output)
qed

lemma good_fetch: "shell_inv s \<Longrightarrow> flags s = fl \<Longrightarrow> good fl (fetch e s)"
  unfolding fetch_def Let_def by (intro good_and_then good_output)

lemma good_run_hello:
  assumes "env_ok e" "kernel_ok (sh_kernel s)" "shell_inv s" "flags s = fl"
  shows "good fl (run_hello e s)"
proof -
  have "length (env_hello e) < 2 ^ 64" using assms(1) by (simp add: env_ok_def)
  from load_and_spawn_cases [OF assms(2) this, of "env_layout e" "sh_event_port s"]
  obtain r k where "load_and_spawn (env_layout e) (env_hello e) (sh_event_port s) (sh_kernel s) = Some (r, k)" by metis
  then show ?thesis unfolding run_hello_def using assms(3,4) by (auto split: sum.split intro!: good_sayln)
qed

lemma good_start_desktop:
  assumes "env_ok e" "shell_inv s" "flags s = fl"
  shows "good fl (start_desktop e s)"
proof (cases "sh_desktop s")
  case None
  obtain t where t: "sayln ''Opening desktop preview; press Esc to return.'' s = Runs (s\<lparr>sh_terminal := t\<rparr>)" "shell_inv (s\<lparr>sh_terminal := t\<rparr>)"
      "serial_ready t = serial_ready (sh_terminal s)"
    using on_terminal_ok [OF term_write_op assms(2)] unfolding sayln_def say_def by metis
  let ?s = "s\<lparr>sh_terminal := t\<rparr>"
  have "parts_ok ?s" "sh_desktop ?s = None" using t(2) None by (simp_all add: shell_inv_def)
  from open_desktop_ok [OF assms(1) this] obtain d k where o: "open_desktop e ?s = Some (?s\<lparr>sh_desktop := d, sh_kernel := k\<rparr>)"
      "parts_ok (?s\<lparr>sh_desktop := d, sh_kernel := k\<rparr>)" by metis
  show ?thesis
  proof (cases d)
    case [simp]: None
    have "shell_inv (?s\<lparr>sh_desktop := d, sh_kernel := k\<rparr>)" using o(2) by (simp add: shell_inv_def)
    then show ?thesis using \<open>sh_desktop s = None\<close> t(1,3) o(1) assms(3) by (simp add: start_desktop_def good_sayln)
  next
    case (Some d')
    have "shell_inv (s\<lparr>sh_desktop := d, sh_kernel := k, sh_terminal := set_screen_enabled False t\<rparr>)"
      using o(2) by (auto simp: shell_inv_def parts_ok_def line_ok_def desktop_ok_def terminal_ok_def cells_def set_screen_enabled_def
        split: option.splits)
    then show ?thesis using None t(1,3) o(1) assms(3) Some by (simp add: start_desktop_def)
  qed
next
  case (Some d)
  then show ?thesis using assms by (simp add: start_desktop_def good_sayln)
qed

lemma good_execute:
  assumes "env_ok e" "kernel_ok (sh_kernel s)" "shell_inv s" "flags s = fl"
  shows "good fl (execute e cmd s)"
proof -
  have close: "good fl (sayln l (close_desktop s))" for l using close_desktop_ok [OF assms(3)] assms(4) by (simp add: good_sayln)
  have halt: "good fl (halt_with l s)" for l unfolding halt_with_def using assms(3,4) by (intro good_and_then good_sayln) simp_all
  note outs = good_output [OF assms(3,4)] good_matrix [OF assms(3,4)] good_set_theme [OF assms(3,4)] good_fetch [OF assms(3,4)]
    good_run_hello [OF assms] good_start_desktop [OF assms(1,3,4)] good_on_terminal [OF term_clear_op assms(3,4)] close halt
  show ?thesis unfolding execute_def print_help_def pci_def using assms(3,4) by (simp add: outs del: says.simps)
qed

section \<open>Input\<close>

text \<open>Saying something changes the terminal only.\<close>

lemma say_runs:
  assumes "shell_inv s"
  obtains t where "say txt s = Runs (s\<lparr>sh_terminal := t\<rparr>)" "shell_inv (s\<lparr>sh_terminal := t\<rparr>)"
    "serial_ready t = serial_ready (sh_terminal s)" "term_write txt (sh_terminal s) = Some t"
  using on_terminal_ok [OF term_write_op assms, of "txt"] unfolding say_def by metis

lemma shell_inv_line:
  assumes "shell_inv s" "length l = LINE_CAPACITY" "n < LINE_CAPACITY" "list_all line_byte (take n l)"
  shows "shell_inv (s\<lparr>sh_line := l, sh_len := n\<rparr>)"
  using assms by (auto simp: shell_inv_def parts_ok_def line_ok_def desktop_ok_def split: option.split)

lemma shell_inv_len: "shell_inv s \<Longrightarrow> n \<le> sh_len s \<Longrightarrow> shell_inv (s\<lparr>sh_len := n\<rparr>)"
proof -
  assume a: "shell_inv s" "n \<le> sh_len s"
  then have l: "line_ok s" by (simp add: shell_inv_def parts_ok_def)
  have "take n (sh_line s) = take n (take (sh_len s) (sh_line s))" using a(2) by (simp add: min_def)
  then have "list_all line_byte (take n (sh_line s))" using l by (metis line_ok_def list_all_iff in_set_takeD)
  then show "shell_inv (s\<lparr>sh_len := n\<rparr>)" using shell_inv_line [OF a(1), of "sh_line s" n] l a(2) by (simp add: line_ok_def)
qed

lemma shell_inv_type:
  assumes "shell_inv s" "line_byte b" "sh_len s < LINE_CAPACITY - 1"
  shows "shell_inv (s\<lparr>sh_line := (sh_line s)[sh_len s := b], sh_len := Suc (sh_len s)\<rparr>)"
proof -
  have l: "line_ok s" using assms(1) by (simp add: shell_inv_def parts_ok_def)
  then have "take (Suc (sh_len s)) ((sh_line s)[sh_len s := b]) = take (sh_len s) (sh_line s) @ [b]"
    by (simp add: line_ok_def take_Suc_conv_app_nth)
  then show ?thesis using shell_inv_line [OF assms(1), of "(sh_line s)[sh_len s := b]" "Suc (sh_len s)"] l assms(2,3)
    by (simp add: line_ok_def)
qed

lemma good_input:
  assumes "env_ok e" "kernel_ok (sh_kernel s)" "shell_inv s" "flags s = fl"
  shows "good fl (input e byte s)"
proof -
  have l: "line_ok s" using assms(3) by (simp add: shell_inv_def parts_ok_def)
  consider "byte = 13 \<or> byte = 10" | "\<not> (byte = 13 \<or> byte = 10)" "(byte = 8 \<or> byte = 127) \<and> sh_len s > 0"
    | "\<not> (byte = 13 \<or> byte = 10)" "\<not> ((byte = 8 \<or> byte = 127) \<and> sh_len s > 0)" by blast
  then show ?thesis
  proof cases
    case 1
    obtain t where t: "say ''\<newline>'' s = Runs (s\<lparr>sh_terminal := t\<rparr>)" "shell_inv (s\<lparr>sh_terminal := t\<rparr>)"
      "serial_ready t = serial_ready (sh_terminal s)" using say_runs [OF assms(3)] .
    have "good fl (execute e cmd (s\<lparr>sh_terminal := t\<rparr>))" for cmd
      using good_execute [OF assms(1) _ t(2)] t(3) assms(2,4) by simp
    then show ?thesis using 1 t(1) l
      by (auto simp: input_def Let_def line_ok_def intro!: good_and_then good_prompt shell_inv_len)
  next
    case 2
    have "shell_inv (s\<lparr>sh_len := sh_len s - 1\<rparr>)" using assms(3) by (rule shell_inv_len) simp
    then have "good fl (on_terminal term_backspace (s\<lparr>sh_len := sh_len s - 1\<rparr>))"
      using good_on_terminal [OF term_backspace_op] assms(4) by simp
    then show ?thesis unfolding input_def using 2 by simp
  next
    case 3
    have "good fl (say txt' (s\<lparr>sh_line := (sh_line s)[sh_len s := byte], sh_len := sh_len s + 1\<rparr>))"
      if "line_byte byte" "sh_len s < LINE_CAPACITY - 1" for txt'
      using good_say [OF shell_inv_type [OF assms(3) that]] assms(4) by simp
    then show ?thesis unfolding input_def using 3 l assms(3,4) by (auto simp: line_byte_def line_ok_def)
  qed
qed

lemma good_serial_byte:
  assumes "env_ok e" "kernel_ok (sh_kernel s)" "shell_inv s"
  shows "good (byte = 13, serial_ready (sh_terminal s)) (serial_byte e byte s)"
  using good_input [OF assms(1), of "s\<lparr>last_was_cr := (byte = 13)\<rparr>"] assms(2,3) by (simp add: serial_byte_def)

lemma good_send: "shell_inv s \<Longrightarrow> flags s = fl \<Longrightarrow> good fl (bridge_send bs s)"
  by (simp add: bridge_send_def)

lemma good_perform_action:
  assumes "shell_inv s" "flags s = fl"
  shows "good fl (perform_action action s)"
proof (cases "sh_desktop s")
  case (Some d)
  show ?thesis
  proof (cases "surface_command action")
    case (Some cmd)
    obtain b evs d' where "desktop_command cmd d = Some (b, evs, d')" "desktop_ok s d'"
      using desktop_command_ok [OF shell_inv_desktop_ok [OF assms(1) \<open>sh_desktop s = Some d\<close>]] .
    then show ?thesis using Some \<open>sh_desktop s = Some d\<close> shell_inv_desktop [OF assms(1)] assms(2) by (simp add: perform_action_def)
  qed (use assms in \<open>simp add: perform_action_def send_action_def good_send\<close>)
qed (use assms in \<open>simp add: perform_action_def send_action_def good_send split: option.split\<close>)

lemma good_handle_desktop_action:
  assumes "env_ok e" "kernel_ok (sh_kernel s)" "shell_inv s" "flags s = fl"
  shows "good fl (handle_desktop_action e action s)"
proof -
  have run: "good fl (and_then (sayln l s) (\<lambda>s. and_then (execute e cmd s) prompt))" for l cmd
  proof -
    obtain t where t: "sayln l s = Runs (s\<lparr>sh_terminal := t\<rparr>)" "shell_inv (s\<lparr>sh_terminal := t\<rparr>)"
        "serial_ready t = serial_ready (sh_terminal s)"
      using say_runs [OF assms(3)] unfolding sayln_def .
    have "good fl (execute e cmd (s\<lparr>sh_terminal := t\<rparr>))" using good_execute [OF assms(1) _ t(2)] t(3) assms(2,4) by simp
    then show ?thesis using t(1) by (auto intro: good_and_then good_prompt)
  qed
  show ?thesis unfolding handle_desktop_action_def Let_def
    using run good_perform_action [OF assms(3,4)] good_sayln [OF assms(3,4)] assms(3,4) by (simp split: option.split prod.split)
qed

lemma good_deliver:
  assumes "env_ok e" "kernel_ok (sh_kernel s)" "shell_inv s" "flags s = fl"
  shows "good fl (deliver e action events s)"
  unfolding deliver_def send_events_def
  using good_handle_desktop_action [OF assms] assms(3,4) by (intro good_and_then) (simp_all add: good_send split: option.split)

lemma good_mouse:
  assumes "env_ok e" "kernel_ok (sh_kernel s)" "shell_inv s" "flags s = fl"
  shows "good fl (shell_mouse_packet e packet s)"
proof (cases "sh_desktop s")
  case (Some d)
  obtain a evs d' where "desktop_pointer packet d = Some (a, evs, d')" "desktop_ok s d'"
    using desktop_pointer_ok [OF shell_inv_desktop_ok [OF assms(3) Some]] .
  then show ?thesis using Some good_deliver [OF assms(1) _ shell_inv_desktop [OF assms(3) Some]] assms(2,4)
    by (simp add: shell_mouse_packet_def)
qed (use assms in \<open>simp add: shell_mouse_packet_def\<close>)

lemma good_forward_key:
  assumes "env_ok e" "kernel_ok (sh_kernel s)" "shell_inv s" "flags s = fl"
  shows "good fl (forward_key e scan x s)"
proof (cases "sh_desktop s")
  case (Some d)
  let ?t = "if scan AND 0x80 = 0 then map_option (key_text s) (key_pair scan) else None"
  obtain a evs d' where "desktop_key scan ?t (sh_shift s) x d = Some (a, evs, d')" "desktop_ok s d'"
    using desktop_key_ok [OF shell_inv_desktop_ok [OF assms(3) Some]] .
  then show ?thesis using Some good_deliver [OF assms(1) _ shell_inv_desktop [OF assms(3) Some]] assms(2,4)
    by (simp add: forward_key_def)
qed (use assms in \<open>simp add: forward_key_def\<close>)

lemma prompt_runs:
  assumes "shell_inv s"
  obtains t where "prompt s = Runs (s\<lparr>sh_terminal := t\<rparr>)" "shell_inv (s\<lparr>sh_terminal := t\<rparr>)" "serial_ready t = serial_ready (sh_terminal s)"
proof -
  let ?s = "s\<lparr>sh_terminal := write_serial_ansi (theme_ansi (sh_theme s)) (sh_terminal s)\<rparr>"
  have i: "shell_inv ?s" using good_ansi [OF assms refl] by (simp add: ansi_def)
  obtain u where "say ''pippin> '' ?s = Runs (?s\<lparr>sh_terminal := u\<rparr>)" "shell_inv (?s\<lparr>sh_terminal := u\<rparr>)" "serial_ready u = serial_ready (sh_terminal ?s)"
    using say_runs [OF i] .
  then show thesis using that by (simp add: prompt_def ansi_def)
qed

text \<open>Escape and the test window leave the kernel alone.\<close>

lemma escape_or_test_ok:
  assumes "shell_inv s"
  obtains s' where "escape_or_test scan s = Runs s'" "shell_inv s'" "sh_kernel s' = sh_kernel s" "flags s' = flags s"
proof -
  note c = close_desktop_ok [OF assms]
  obtain t where t: "say (''\<newline>Returned to the command shell.'' @ ''\<newline>'') (close_desktop s) = Runs ((close_desktop s)\<lparr>sh_terminal := t\<rparr>)"
      "shell_inv ((close_desktop s)\<lparr>sh_terminal := t\<rparr>)" "serial_ready t = serial_ready (sh_terminal (close_desktop s))"
    using say_runs [OF c(1)] .
  let ?s = "(close_desktop s)\<lparr>sh_terminal := t\<rparr>"
  obtain u where u: "prompt ?s = Runs (?s\<lparr>sh_terminal := u\<rparr>)" "shell_inv (?s\<lparr>sh_terminal := u\<rparr>)" "serial_ready u = serial_ready (sh_terminal ?s)"
    using prompt_runs [OF t(2)] .
  have esc: "and_then (sayln ''\<newline>Returned to the command shell.'' (close_desktop s)) prompt = Runs (?s\<lparr>sh_terminal := u\<rparr>)"
    using t(1) u(1) by (simp add: sayln_def)
  show thesis
  proof (cases "escape_or_test scan s = Runs s \<or> escape_or_test scan s = and_then (sayln ''\<newline>Returned to the command shell.'' (close_desktop s)) prompt")
    case True
    then show thesis using that esc u(2,3) t(3) c assms by (auto simp: flags_def)
  next
    case False
    then obtain d where d: "sh_desktop s = Some d" "escape_or_test scan s =
        (case desktop_test_window d of None \<Rightarrow> Panics | Some d \<Rightarrow> Runs (s\<lparr>sh_desktop := Some d\<rparr>))"
      by (auto simp: escape_or_test_def Let_def split: option.splits if_splits)
    obtain d' where "desktop_test_window d = Some d'" "desktop_ok s d'" using desktop_test_window_ok [OF shell_inv_desktop_ok [OF assms d(1)]] .
    then show thesis using that d shell_inv_desktop [OF assms d(1)] by simp
  qed
qed

lemma track_modifiers_fields [simp]:
  "shell_inv (track_modifiers scan s) = shell_inv s" "sh_kernel (track_modifiers scan s) = sh_kernel s"
  "flags (track_modifiers scan s) = flags s"
  by (simp_all add: track_modifiers_def Let_def)

lemma good_desktop_scancode:
  assumes "env_ok e" "kernel_ok (sh_kernel s)" "shell_inv s" "flags s = fl"
  shows "good fl (desktop_scancode e scan s)"
proof -
  let ?s = "s\<lparr>sh_extended := False\<rparr>"
  have s: "shell_inv ?s" "kernel_ok (sh_kernel ?s)" "flags ?s = fl" using assms by simp_all
  obtain s' where e: "escape_or_test scan ?s = Runs s'" "shell_inv s'" "sh_kernel s' = sh_kernel ?s" "flags s' = flags ?s"
    using escape_or_test_ok [OF s(1)] .
  have "good fl (forward_key e scan (sh_extended s) (track_modifiers scan s'))"
    using good_forward_key [OF assms(1)] e s by simp
  then show ?thesis unfolding desktop_scancode_def Let_def
    using good_handle_desktop_action [OF assms(1) s(2,1,3)] good_send [OF s(1,3)] assms(3,4) e(1)
    by (simp add: send_action_def split: option.split)
qed

lemma good_key_scancode:
  assumes "env_ok e" "kernel_ok (sh_kernel s)" "shell_inv s" "flags s = fl"
  shows "good fl (key_scancode e scan s)"
  unfolding key_scancode_def using good_desktop_scancode [OF assms] good_input [OF assms] assms(3,4) by (simp split: option.split)

section \<open>The host bridge\<close>

text \<open>Whatever the handler of lines keeps, a poll keeps.\<close>

lemma ref_line_keeps:
  assumes "P s" "\<And>l s. P s \<Longrightarrow> P (snd (cmd l s))"
  shows "P (snd (ref_line cmd l (out, s)))"
proof -
  have "P (snd (answer cmd l s))" for l
    using assms(2) [OF assms(1), of "str_of l"] assms(1) by (auto simp: answer_def split: prod.splits bool.splits)
  then show ?thesis using assms(1) by (auto simp: ref_line_def split: prod.splits) (metis snd_conv)
qed

lemma poll_bytes_keeps:
  assumes "holds b cur" "P s" "\<And>l s. P s \<Longrightarrow> P (snd (cmd l s))"
  shows "\<exists>out rest b' s' cur'. poll_bytes cmd n pending (b, s) = Some (out, rest, b', s') \<and> holds b' cur' \<and> P s'"
  using assms(1,2)
proof (induction n arbitrary: pending b cur s)
  case (Suc n)
  show ?case
  proof (cases pending)
    case Nil
    then show ?thesis using Suc.prems by auto
  next
    case (Cons byte rest)
    have "\<exists>out b1 s1 cur1. poll_byte cmd byte (b, s) = Some (out, b1, s1) \<and> holds b1 cur1 \<and> P s1"
    proof (cases "byte = 10")
      case True
      obtain out s1 where r: "ref_line cmd cur ([], s) = (out, s1)" by force
      then have "P s1" using ref_line_keeps [of P s cmd cur "[]", OF Suc.prems(2) assms(3)] by simp
      then show ?thesis using poll_byte_line [OF Suc.prems(1), of cmd s] r True by auto
    next
      case False
      then show ?thesis using poll_byte_more [OF Suc.prems(1) False, of cmd s] Suc.prems(2) by blast
    qed
    then obtain out b1 s1 cur1 where 1: "poll_byte cmd byte (b, s) = Some (out, b1, s1)" "holds b1 cur1" "P s1" by blast
    then show ?thesis using Suc.IH [OF 1(2,3), of rest] Cons by fastforce
  qed
qed auto

definition calling :: "bool \<times> bool \<Rightarrow> (shell \<times> bool \<times> wevent list) option \<Rightarrow> bool" where
  "calling fl st \<longleftrightarrow> (case st of None \<Rightarrow> False | Some (s, opened, events) \<Rightarrow>
     parts_ok s \<and> flags s = fl \<and> (sh_desktop s \<noteq> None \<longrightarrow> opened \<or> \<not> screen_enabled (sh_terminal s)))"

lemma parts_ok_fields [simp]:
  "parts_ok (s\<lparr>terminal_capture := b\<rparr>) = parts_ok s" "parts_ok (s\<lparr>com2_out := bs\<rparr>) = parts_ok s"
  by (simp_all add: parts_ok_def line_ok_def desktop_ok_def split: option.split)

lemma bridge_command_keeps:
  assumes "env_ok e" "calling fl st"
  shows "calling fl (snd (bridge_command e line st))"
proof -
  obtain s opened events where st: "st = Some (s, opened, events)" "parts_ok s" "flags s = fl"
      "sh_desktop s \<noteq> None \<longrightarrow> opened \<or> \<not> screen_enabled (sh_terminal s)"
    using assms(2) by (auto simp: calling_def split: option.splits)
  define s1 where "s1 = (let s = (if starts_with ''S|terminal|'' line then s\<lparr>terminal_capture := True\<rparr> else s) in
    if line = ''X|terminal'' then s\<lparr>terminal_capture := False\<rparr> else s)"
  have s1: "parts_ok s1" "flags s1 = fl" "sh_desktop s1 = sh_desktop s" "sh_terminal s1 = sh_terminal s"
    using st(2,3) by (simp_all add: s1_def Let_def)
  define r where "r = (if (starts_with ''S|'' line \<or> starts_with ''WC|'' line) \<and> sh_desktop s1 = None
    then map_option (\<lambda>s. (s, sh_desktop s \<noteq> None)) (open_desktop e s1) else Some (s1, opened))"
  have "\<exists>s2 o2. r = Some (s2, o2) \<and> parts_ok s2 \<and> flags s2 = fl \<and> (sh_desktop s2 \<noteq> None \<longrightarrow> o2 \<or> \<not> screen_enabled (sh_terminal s2))"
  proof (cases "(starts_with ''S|'' line \<or> starts_with ''WC|'' line) \<and> sh_desktop s1 = None")
    case True
    obtain d k where "open_desktop e s1 = Some (s1\<lparr>sh_desktop := d, sh_kernel := k\<rparr>)" "parts_ok (s1\<lparr>sh_desktop := d, sh_kernel := k\<rparr>)"
      using open_desktop_ok [OF assms(1) s1(1)] True by blast
    then show ?thesis unfolding r_def if_P [OF True] using s1(2) by simp
  next
    case False
    then show ?thesis unfolding r_def if_not_P [OF False] using s1 st(4) by simp
  qed
  then obtain s2 o2 where r: "r = Some (s2, o2)" "parts_ok s2" "flags s2 = fl"
      "sh_desktop s2 \<noteq> None \<longrightarrow> o2 \<or> \<not> screen_enabled (sh_terminal s2)" by blast
  have "bridge_command e line st = (case r of None \<Rightarrow> (False, None) | Some (s, opened) \<Rightarrow>
      (case sh_desktop s of
         None \<Rightarrow> (False, Some (s, opened, events))
       | Some d \<Rightarrow> (case desktop_command line d of
            None \<Rightarrow> (False, None)
          | Some (accepted, output, d) \<Rightarrow> (accepted, Some (s\<lparr>sh_desktop := Some d\<rparr>, opened, events @ output)))))"
    unfolding bridge_command_def st(1) r_def s1_def Let_def option.case prod.case ..
  note b = this [unfolded r(1) option.case prod.case]
  show ?thesis
  proof (cases "sh_desktop s2")
    case None
    then show ?thesis using b r by (simp add: calling_def)
  next
    case (Some d)
    then have "desktop_ok s2 d" using r(2) by (simp add: parts_ok_def)
    then obtain a out d' where d: "desktop_command line d = Some (a, out, d')" "desktop_ok s2 d'" using desktop_command_ok by metis
    then have "parts_ok (s2\<lparr>sh_desktop := Some d'\<rparr>)" using r(2) by (simp add: parts_ok_def line_ok_def desktop_ok_def)
    then show ?thesis using b Some d(1) r by (simp add: calling_def)
  qed
qed

lemma good_poll_bridge:
  assumes "env_ok e" "shell_inv s" "flags s = fl"
  shows "good fl (fst (poll_bridge e pending s))"
proof -
  obtain cur where h: "holds (sh_bridge s) cur" using assms(2) by (auto simp: shell_inv_def parts_ok_def)
  have "calling fl (Some (s, False, []))" using assms(2,3) by (simp add: calling_def shell_inv_def)
  from poll_bytes_keeps [where P = "calling fl" and cmd = "bridge_command e" and n = 128 and pending = pending, OF h this
      bridge_command_keeps [OF assms(1)]]
  obtain out rest b st cur' where
    q: "bridge_poll (bridge_command e) pending (sh_bridge s, Some (s, False, [])) = Some (out, rest, b, st)" "holds b cur'" "calling fl st"
    unfolding bridge_poll_def by blast
  then obtain s' opened events where st: "st = Some (s', opened, events)" and p: "parts_ok s'" "flags s' = fl"
      "sh_desktop s' \<noteq> None \<longrightarrow> opened \<or> \<not> screen_enabled (sh_terminal s')"
    by (auto simp: calling_def split: option.splits)
  let ?s = "s'\<lparr>sh_bridge := b, com2_out := com2_out s' @ out\<rparr>"
  let ?t = "?s\<lparr>sh_terminal := set_screen_enabled False (sh_terminal ?s)\<rparr>"
  have "parts_ok ?s" "parts_ok ?t" using p(1) q(2)
    by (auto simp: parts_ok_def line_ok_def desktop_ok_def terminal_ok_def cells_def set_screen_enabled_def split: option.split)
  then have "shell_inv (if opened then ?t else ?s)" using p(3) by (auto simp: shell_inv_def set_screen_enabled_def)
  then have "good fl (send_events events (if opened then ?t else ?s))"
    unfolding send_events_def using p(2) by (intro good_send) auto
  then show ?thesis by (simp add: poll_bridge_def q(1) st Let_def)
qed

section \<open>Runs of the shell\<close>

text \<open>An input of the shell, with its surroundings and the state the rest of the kernel is in when the input arrives: between
  two inputs, interrupts and applications may change it. A shell that has turned the machine off takes no more
  inputs.\<close>

datatype shell_input = Serial u8 | Host "u8 list" | Key u8 | Mouse u32

definition shell_handle :: "env \<Rightarrow> shell_input \<Rightarrow> shell \<Rightarrow> shell_outcome" where
  "shell_handle e i s =
     (case i of Serial b \<Rightarrow> serial_byte e b s | Host pending \<Rightarrow> fst (poll_bridge e pending s)
      | Key scan \<Rightarrow> key_scancode e scan s | Mouse packet \<Rightarrow> shell_mouse_packet e packet s)"

definition shell_step :: "env \<times> kernel \<times> shell_input \<Rightarrow> shell option \<Rightarrow> shell option option" where
  "shell_step = (\<lambda>(e, k, i) st.
     case st of
       None \<Rightarrow> Some None
     | Some s \<Rightarrow> (case shell_handle e i (s\<lparr>sh_kernel := k\<rparr>) of Runs s \<Rightarrow> Some (Some s) | Stops _ \<Rightarrow> Some None | Panics \<Rightarrow> None))"

definition shell_allowed :: "env \<times> kernel \<times> shell_input \<Rightarrow> bool" where
  "shell_allowed = (\<lambda>(e, k, i). env_ok e \<and> kernel_ok k)"

definition shell_state_ok :: "shell option \<Rightarrow> bool" where
  "shell_state_ok st \<longleftrightarrow> (case st of None \<Rightarrow> True | Some s \<Rightarrow> shell_inv s)"

lemma good_shell_handle:
  assumes "env_ok e" "kernel_ok (sh_kernel s)" "shell_inv s"
  shows "\<exists>fl. good fl (shell_handle e i s)"
  using good_serial_byte [OF assms] good_poll_bridge [OF assms(1,3) refl] good_key_scancode [OF assms refl] good_mouse [OF assms refl]
  unfolding shell_handle_def by (cases i) (simp_all only: shell_input.case, blast+)

interpretation sh: safe_machine shell_step shell_allowed shell_state_ok
proof
  fix x st assume a: "shell_allowed x" "shell_state_ok st"
  obtain e k i where x: "x = (e, k, i)" using prod_cases3 by blast
  show "\<exists>st'. shell_step x st = Some st' \<and> shell_state_ok st'"
  proof (cases st)
    case (Some s)
    then obtain fl where "good fl (shell_handle e i (s\<lparr>sh_kernel := k\<rparr>))"
      using good_shell_handle [of e "s\<lparr>sh_kernel := k\<rparr>" i] a by (auto simp: x shell_allowed_def shell_state_ok_def)
    then show ?thesis using Some by (cases "shell_handle e i (s\<lparr>sh_kernel := k\<rparr>)") (auto simp: x shell_step_def shell_state_ok_def)
  qed (simp add: shell_step_def x shell_state_ok_def)
qed

text \<open>What closing the desktop puts back.\<close>

definition screen_restored :: "shell \<Rightarrow> desktop \<Rightarrow> bool" where
  "screen_restored s d \<longleftrightarrow> (let s' = close_desktop s in
     sh_desktop s' = None \<and> screen_enabled (sh_terminal s') \<and> cells (sh_terminal s') = cells (sh_terminal s) \<and>
     (\<forall>p. p < d_framebuffer d + LEGACY_VRAM_BYTES div 4 \<or> d_framebuffer d + WIDTH * HEIGHT \<le> p \<longrightarrow> sh_vram s' p = sh_vram s p))"

lemma close_restores:
  assumes "shell_inv s" "sh_desktop s = Some d"
  shows "screen_restored s d"
proof -
  have d: "d_text d = cells (sh_terminal s)" "d_legacy d = map (\<lambda>i. sh_vram s (d_framebuffer d + i)) [0..<LEGACY_VRAM_BYTES div 4]"
      "\<And>p. p < d_framebuffer d \<or> d_framebuffer d + WIDTH * HEIGHT \<le> p \<Longrightarrow> d_vram d p = sh_vram s p"
    using shell_inv_desktop_ok [OF assms] unfolding desktop_ok_def by blast+
  have l: "LEGACY_VRAM_BYTES div 4 \<le> WIDTH * HEIGHT" by (simp add: LEGACY_VRAM_BYTES_def WIDTH_def HEIGHT_def)
  have "fold (\<lambda>(k, word) m. m(d_framebuffer d + k := word)) (enumerate 0 (d_legacy d)) (d_vram d) p = sh_vram s p"
    if "p < d_framebuffer d + LEGACY_VRAM_BYTES div 4 \<or> d_framebuffer d + WIDTH * HEIGHT \<le> p" for p
    using that d(3) [of p] l unfolding fold_enumerate by (auto simp: d(2))
  then show ?thesis
    using assms(2) d(1) by (simp add: screen_restored_def close_desktop_def desktop_drop_def
      restore_cells_same [unfolded cells_def] set_screen_enabled_def cells_def Let_def)
qed

definition fresh_shell :: "terminal \<Rightarrow> app_bundle option \<Rightarrow> u16 \<Rightarrow> kernel \<Rightarrow> (nat \<Rightarrow> u32) \<Rightarrow> shell" where
  "fresh_shell t bn port k vram =
     \<lparr>sh_terminal = t, sh_line = replicate LINE_CAPACITY 0, sh_len = 0, sh_shift = False, sh_alt = False, terminal_capture = False,
        sh_caps = False, sh_extended = False, last_was_cr = False, sh_bundle = bn, sh_event_port = port, sh_desktop = None,
        sh_bridge = bridge_new, sh_theme = Classic, sh_kernel = k, sh_vram = vram, com2_out = []\<rparr>"

lemma shell_new_ok:
  assumes "terminal_ok t"
  obtains t' where "shell_new t bn port k vram = Runs (fresh_shell t' bn port k vram)" "shell_inv (fresh_shell t' bn port k vram)"
    "serial_ready t' = serial_ready t"
proof -
  let ?s = "fresh_shell t bn port k vram"
  have i: "shell_inv ?s" using assms holds_new by (auto simp: fresh_shell_def shell_inv_def parts_ok_def line_ok_def LINE_CAPACITY_def)
  obtain t1 where 1: "say (''Pippin command shell'' @ ''\<newline>'') ?s = Runs (?s\<lparr>sh_terminal := t1\<rparr>)" "shell_inv (?s\<lparr>sh_terminal := t1\<rparr>)"
      "serial_ready t1 = serial_ready (sh_terminal ?s)" using say_runs [OF i] .
  let ?s1 = "?s\<lparr>sh_terminal := t1\<rparr>"
  obtain t2 where 2: "say (''Type 'help' for commands or 'desktop' to start the graphical desktop.'' @ ''\<newline>'') ?s1 = Runs (?s1\<lparr>sh_terminal := t2\<rparr>)"
      "shell_inv (?s1\<lparr>sh_terminal := t2\<rparr>)" "serial_ready t2 = serial_ready (sh_terminal ?s1)" using say_runs [OF 1(2)] .
  obtain t3 where 3: "prompt (?s1\<lparr>sh_terminal := t2\<rparr>) = Runs (?s1\<lparr>sh_terminal := t2, sh_terminal := t3\<rparr>)"
      "shell_inv (?s1\<lparr>sh_terminal := t2, sh_terminal := t3\<rparr>)" "serial_ready t3 = serial_ready t2"
    using prompt_runs [OF 2(2)] by auto
  have "shell_new t bn port k vram = Runs (?s\<lparr>sh_terminal := t3\<rparr>)"
    unfolding shell_new_def fresh_shell_def [symmetric] sayln_def 1(1) and_then.simps 2(1) 3(1) by simp
  then show thesis using that [of t3] 1(3) 2(3) 3(2,3) by (simp add: fresh_shell_def)
qed

section \<open>Properties of the shell\<close>


definition demo_env :: env where
  "demo_env = \<lparr>env_ticks = 1234, env_pci_count = 0, env_pci = (\<lambda>_. None), env_pci_parent = (\<lambda>_. - 1), env_bar = 0x10000000,
     env_vbe_version = 0xb0c5, env_mode_set = True, env_abi = 3, env_surfaces = [Some demo_surface], env_hello = [], env_layout = demo_layout\<rparr>"


section \<open>The command line as a line editor\<close>

definition typed :: "shell \<Rightarrow> u8 list" where
  "typed s = take (sh_len s) (sh_line s)"

text \<open>The specification: what a byte does to the line, and what is echoed.\<close>

definition erases :: "u8 \<Rightarrow> bool" where
  "erases b \<longleftrightarrow> b = 8 \<or> b = 127"

definition edit_line :: "u8 \<Rightarrow> u8 list \<Rightarrow> u8 list" where
  "edit_line b l = (if erases b then butlast l else if line_byte b \<and> length l < 127 then l @ [b] else l)"

definition echo :: "u8 \<Rightarrow> u8 list \<Rightarrow> u8 list" where
  "echo b l = (if erases b \<and> l \<noteq> [] then [8, 32, 8] else if line_byte b \<and> length l < 127 then [b] else [])"

fun echoes :: "u8 list \<Rightarrow> u8 list \<Rightarrow> u8 list" where
  "echoes [] l = []"
| "echoes (b # bs) l = echo b l @ echoes bs (edit_line b l)"

definition serial_log :: "shell \<Rightarrow> u8 list" where
  "serial_log s = serial_out (sh_terminal s)"

text \<open>Editing touches the terminal, the line and the pending-line-feed flag only.\<close>

definition line_edited :: "shell \<Rightarrow> shell \<Rightarrow> bool" where
  "line_edited s s' \<longleftrightarrow> s' = s\<lparr>sh_terminal := sh_terminal s', sh_line := sh_line s', sh_len := sh_len s', last_was_cr := last_was_cr s'\<rparr>"

lemma line_edited_trans: "line_edited a b \<Longrightarrow> line_edited b c \<Longrightarrow> line_edited a c"
  by (cases a; cases b; cases c) (simp add: line_edited_def)

lemma line_edited_kernel: "line_edited s s' \<Longrightarrow> sh_kernel s' = sh_kernel s"
  unfolding line_edited_def by (cases s; cases s') simp

text \<open>The serial line, given that the port is ready.\<close>

lemma on_screen_serial: "on_screen_console f t = Some t' \<Longrightarrow> serial_out t' = serial_out t"
  by (auto simp: on_screen_console_def split: if_splits option.splits)

lemma term_write_serial: "serial_ready t \<Longrightarrow> term_write txt t = Some t' \<Longrightarrow> serial_out t' = serial_out t @ bytes_of txt"
  by (auto simp: term_write_def write_serial_ansi_def dest: on_screen_serial)

lemma term_backspace_serial: "serial_ready t \<Longrightarrow> term_backspace t = Some t' \<Longrightarrow> serial_out t' = serial_out t @ [8, 32, 8]"
proof -
  assume r: "serial_ready t" and b: "term_backspace t = Some t'"
  then obtain u where u: "on_screen_console (tc_write_str [8]) t = Some u" "t' = write_serial_ansi [BS, CHR '' '', BS] u"
    by (auto simp: term_backspace_def)
  have "serial_ready u" using u(1) r by (auto simp: on_screen_console_def split: if_splits option.splits)
  then show ?thesis using u on_screen_serial [OF u(1)] by (simp add: write_serial_ansi_def bytes_of_def BS_def)
qed

lemma bytes_of_str_of: "bytes_of (str_of bs) = bs"
proof -
  have "unat b mod 256 = unat b" for b :: u8 using unsigned_less [of b, where 'a = nat] by simp
  then show ?thesis by (simp add: bytes_of_def str_of_def o_def)
qed

lemma serial_byte_edits:
  assumes "shell_inv s" "b \<noteq> 10" "b \<noteq> 13" "serial_ready (sh_terminal s)"
  obtains s' where "serial_byte e b s = Runs s'" "shell_inv s'" "typed s' = edit_line b (typed s)" "line_edited s s'"
    "serial_ready (sh_terminal s')" "serial_log s' = serial_log s @ echo b (typed s)"
proof -
  let ?s = "s\<lparr>last_was_cr := False\<rparr>"
  have l: "length (sh_line s) = 128" "sh_len s < 128" using assms(1) by (simp_all add: shell_inv_def parts_ok_def line_ok_def LINE_CAPACITY_def)
  then have n: "length (typed s) = sh_len s" by (simp add: typed_def)
  have sb: "serial_byte e b s = input e b ?s" using assms(2,3) by (simp add: serial_byte_def)
  have "\<not> (erases b \<and> line_byte b)" by (auto simp: erases_def line_byte_def)
  then consider "erases b" "sh_len s > 0" "\<not> line_byte b" | "line_byte b" "sh_len s < 127" "\<not> erases b"
    | "\<not> (erases b \<and> sh_len s > 0)" "\<not> (line_byte b \<and> sh_len s < 127)" by argo
  then show thesis
  proof cases
    case 1
    have i: "shell_inv (?s\<lparr>sh_len := sh_len s - 1\<rparr>)" using assms(1) by (intro shell_inv_len) simp_all
    obtain t where t: "on_terminal term_backspace (?s\<lparr>sh_len := sh_len s - 1\<rparr>) = Runs (?s\<lparr>sh_len := sh_len s - 1, sh_terminal := t\<rparr>)"
        "shell_inv (?s\<lparr>sh_len := sh_len s - 1, sh_terminal := t\<rparr>)" "serial_ready t = serial_ready (sh_terminal s)"
        "term_backspace (sh_terminal s) = Some t"
      using on_terminal_ok [OF term_backspace_op i] by auto
    have "input e b ?s = on_terminal term_backspace (?s\<lparr>sh_len := sh_len s - 1\<rparr>)" unfolding input_def using 1 assms(2,3) by (simp add: erases_def)
    moreover have "take (sh_len s - 1) (sh_line s) = butlast (typed s)" using l by (simp add: typed_def butlast_take)
    moreover have "sh_line s \<noteq> []" using l by auto
    ultimately show thesis using that [of "?s\<lparr>sh_len := sh_len s - 1, sh_terminal := t\<rparr>"] t sb 1 n assms(4) term_backspace_serial [OF assms(4) t(4)]
      by (auto simp: typed_def edit_line_def line_edited_def serial_log_def echo_def)
  next
    case 2
    let ?u = "?s\<lparr>sh_line := (sh_line s)[sh_len s := b], sh_len := Suc (sh_len s)\<rparr>"
    have i: "shell_inv ?u" using shell_inv_type [of ?s b] assms(1) 2 by (simp add: LINE_CAPACITY_def)
    obtain t where t: "say (str_of [b]) ?u = Runs (?u\<lparr>sh_terminal := t\<rparr>)" "shell_inv (?u\<lparr>sh_terminal := t\<rparr>)"
        "serial_ready t = serial_ready (sh_terminal s)" "term_write (str_of [b]) (sh_terminal s) = Some t"
      using say_runs [OF i] by auto
    have "input e b ?s = say (str_of [b]) ?u"
      unfolding input_def using 2 assms(2,3) l by (simp add: erases_def line_byte_def LINE_CAPACITY_def)
    moreover have "take (Suc (sh_len s)) ((sh_line s)[sh_len s := b]) = typed s @ [b]"
      using l by (simp add: typed_def take_Suc_conv_app_nth)
    ultimately show thesis using that [of "?u\<lparr>sh_terminal := t\<rparr>"] t sb 2 n assms(4) term_write_serial [OF assms(4) t(4)]
      by (auto simp: typed_def edit_line_def line_edited_def serial_log_def echo_def bytes_of_str_of)
  next
    case 3
    have "input e b ?s = Runs ?s" unfolding input_def using 3 assms(2,3) by (auto simp: erases_def line_byte_def LINE_CAPACITY_def)
    moreover have "edit_line b (typed s) = typed s \<and> echo b (typed s) = []"
      using 3 n by (auto simp: edit_line_def echo_def)
    ultimately show thesis using that [of ?s] sb assms(1,4) by (simp add: typed_def line_edited_def serial_log_def)
  qed
qed

text \<open>Bytes one after the other, as polling takes them from the port.\<close>

fun feed :: "env \<Rightarrow> u8 list \<Rightarrow> shell \<Rightarrow> shell_outcome" where
  "feed e [] s = Runs s"
| "feed e (b # bs) s = and_then (serial_byte e b s) (feed e bs)"

lemma feed_append: "feed e (xs @ ys) s = and_then (feed e xs s) (feed e ys)"
proof (induction xs arbitrary: s)
  case (Cons x xs)
  then show ?case by (cases "serial_byte e x s") simp_all
qed simp

lemma poll_serial_feeds: "fst (poll_serial_loop n e pending s) = feed e (take n pending) s"
proof (induction n arbitrary: pending s)
  case (Suc n)
  then show ?case by (cases pending) (auto split: shell_outcome.split)
qed simp

lemma feed_edits:
  assumes "shell_inv s" "list_all (\<lambda>b. b \<noteq> 10 \<and> b \<noteq> 13) bs" "serial_ready (sh_terminal s)"
  shows "\<exists>s'. feed e bs s = Runs s' \<and> shell_inv s' \<and> typed s' = fold edit_line bs (typed s) \<and> line_edited s s' \<and>
    serial_ready (sh_terminal s') \<and> serial_log s' = serial_log s @ echoes bs (typed s)"
  using assms
proof (induction bs arbitrary: s)
  case Nil
  then show ?case by (simp add: line_edited_def)
next
  case (Cons b bs)
  then have b: "b \<noteq> 10" "b \<noteq> 13" by simp_all
  obtain s1 where s1: "serial_byte e b s = Runs s1" "shell_inv s1" "typed s1 = edit_line b (typed s)" "line_edited s s1"
      "serial_ready (sh_terminal s1)" "serial_log s1 = serial_log s @ echo b (typed s)"
    using serial_byte_edits [OF Cons.prems(1) b Cons.prems(3)] .
  then show ?case using Cons.IH [OF s1(2) _ s1(5)] Cons.prems(2) line_edited_trans [OF s1(4)] by fastforce
qed

lemma utf8_line: "list_all line_byte bs \<Longrightarrow> utf8_ok bs"
proof (induction bs)
  case (Cons b bs)
  have "b \<le> 0x7F" using Cons.prems by (auto simp: line_byte_def intro: order_trans)
  then show ?case using Cons by simp
qed simp

lemma enter_executes:
  assumes "shell_inv s" "serial_ready (sh_terminal s)"
  obtains s1 where "serial_byte e 13 s = and_then (execute e (trim (str_of (typed s))) s1) (\<lambda>s. prompt (s\<lparr>sh_len := 0\<rparr>))"
    "shell_inv s1" "line_edited s s1" "flags s1 = (True, True)" "serial_log s1 = serial_log s @ [10]"
proof -
  let ?s = "s\<lparr>last_was_cr := True\<rparr>"
  have i: "shell_inv ?s" using assms(1) by simp
  obtain t where t: "say ''\<newline>'' ?s = Runs (?s\<lparr>sh_terminal := t\<rparr>)" "shell_inv (?s\<lparr>sh_terminal := t\<rparr>)"
      "serial_ready t = serial_ready (sh_terminal ?s)" "term_write ''\<newline>'' (sh_terminal ?s) = Some t"
    using say_runs [OF i] .
  have l: "sh_len s \<le> length (sh_line s)" "utf8_ok (take (sh_len s) (sh_line s))"
    using assms(1) utf8_line by (auto simp: shell_inv_def parts_ok_def line_ok_def)
  have "serial_byte e 13 s = input e 13 ?s" by (simp add: serial_byte_def)
  also have "\<dots> = and_then (execute e (trim (str_of (typed s))) (?s\<lparr>sh_terminal := t\<rparr>)) (\<lambda>s. prompt (s\<lparr>sh_len := 0\<rparr>))"
    using t(1) l by (simp add: input_def Let_def typed_def)
  finally show thesis
    using that [of "?s\<lparr>sh_terminal := t\<rparr>"] t assms(2) term_write_serial [of "sh_terminal s" "''\<newline>''" t]
    by (simp add: line_edited_def flags_def serial_log_def bytes_of_def)
qed

text \<open>C39. The serial command line is a line editor. Whatever printable bytes, backspaces and other bytes arrive, the line and its echo
  follow the specification: at most 127 printable bytes are kept, a backspace removes the last one, anything else is ignored.
  A carriage return executes the line, without the white space around it, and clears it, and a line feed right after
  it is swallowed, so that CR LF runs a command once; and a poll takes the first 32 waiting bytes in order.\<close>

theorem shell_edits_lines:
  assumes "shell_inv s" "env_ok e" "kernel_ok (sh_kernel s)" "serial_ready (sh_terminal s)" "typed s = []"
    "list_all (\<lambda>b. b \<noteq> 10 \<and> b \<noteq> 13) bs"
  shows "(\<exists>s1. feed e (bs @ [13, 10]) s =
        and_then (execute e (trim (str_of (fold edit_line bs []))) s1)
          (\<lambda>s. and_then (prompt (s\<lparr>sh_len := 0\<rparr>)) (\<lambda>s. Runs (s\<lparr>last_was_cr := False\<rparr>))) \<and>
      line_edited s s1 \<and> serial_log s1 = serial_log s @ echoes bs [] @ [10]) \<and>
    fst (poll_serial e pending s) = feed e (take 32 pending) s"
proof
  obtain s' where s': "feed e bs s = Runs s'" "shell_inv s'" "typed s' = fold edit_line bs []" "line_edited s s'" "serial_ready (sh_terminal s')"
      "serial_log s' = serial_log s @ echoes bs []"
    using feed_edits [OF assms(1,6,4)] assms(5) by auto
  obtain s1 where s1: "serial_byte e 13 s' = and_then (execute e (trim (str_of (typed s'))) s1) (\<lambda>s. prompt (s\<lparr>sh_len := 0\<rparr>))"
      "shell_inv s1" "line_edited s' s1" "flags s1 = (True, True)" "serial_log s1 = serial_log s' @ [10]"
    using enter_executes [OF s'(2,5)] .
  have k: "kernel_ok (sh_kernel s1)" using line_edited_kernel [OF line_edited_trans [OF s'(4) s1(3)]] assms(3) by simp
  have g: "good (True, True) (serial_byte e 13 s')"
    using good_serial_byte [OF assms(2) _ s'(2), of 13] line_edited_kernel [OF s'(4)] assms(3) s'(5) by simp
  have "feed e [] = Runs" by (simp add: fun_eq_iff)
  then have "feed e (bs @ [13, 10]) s = and_then (serial_byte e 13 s') (\<lambda>s. and_then (serial_byte e 10 s) Runs)"
    using s'(1) by (cases "serial_byte e 13 s'") (simp_all add: feed_append)
  also have "\<dots> = and_then (serial_byte e 13 s') (\<lambda>s. Runs (s\<lparr>last_was_cr := False\<rparr>))"
    using g by (cases "serial_byte e 13 s'") (simp_all add: serial_byte_def flags_def)
  finally show "\<exists>s1. feed e (bs @ [13, 10]) s =
        and_then (execute e (trim (str_of (fold edit_line bs []))) s1)
          (\<lambda>s. and_then (prompt (s\<lparr>sh_len := 0\<rparr>)) (\<lambda>s. Runs (s\<lparr>last_was_cr := False\<rparr>))) \<and>
      line_edited s s1 \<and> serial_log s1 = serial_log s @ echoes bs [] @ [10]"
    using s1 s'(3,6) line_edited_trans [OF s'(4) s1(3)] by (auto simp: and_then_assoc)
  show "fst (poll_serial e pending s) = feed e (take 32 pending) s"
    using assms(4) by (simp add: poll_serial_def poll_serial_feeds)
qed

theorem shell_edits_lines_witness:
  "\<exists>s. shell_new (terminal_new (Some (tc_new (replicate 2000 0) 0)) True []) None 1 demo_kernel (\<lambda>_. 0) = Runs s \<and>
     (\<exists>s1. feed demo_env ([108, 120, 127, 115] @ [13, 10]) s =
        and_then (execute demo_env (trim ''ls'') s1)
          (\<lambda>s. and_then (prompt (s\<lparr>sh_len := 0\<rparr>)) (\<lambda>s. Runs (s\<lparr>last_was_cr := False\<rparr>))) \<and>
      line_edited s s1 \<and> serial_log s1 = serial_log s @ [108, 120, 8, 32, 8, 115, 10])"
proof -
  let ?t = "terminal_new (Some (tc_new (replicate 2000 0) 0)) True []"
  have t: "terminal_ok ?t" unfolding tc_new_def by (simp add: terminal_ok_def terminal_new_def clear_ok(1))
  obtain t' where n: "shell_new ?t None 1 demo_kernel (\<lambda>_. 0) = Runs (fresh_shell t' None 1 demo_kernel (\<lambda>_. 0))"
      "shell_inv (fresh_shell t' None 1 demo_kernel (\<lambda>_. 0))" "serial_ready t' = serial_ready ?t"
    using shell_new_ok [OF t] .
  have "env_ok demo_env" by (simp add: env_ok_def demo_env_def surface_i32_def demo_surface_def is_i32_def)
  moreover have "kernel_ok (sh_kernel (fresh_shell t' None 1 demo_kernel (\<lambda>_. 0)))" using demo_kernel_ok by (simp add: fresh_shell_def)
  moreover have "serial_ready (sh_terminal (fresh_shell t' None 1 demo_kernel (\<lambda>_. 0)))" using n(3) by (simp add: fresh_shell_def terminal_new_def)
  moreover have "typed (fresh_shell t' None 1 demo_kernel (\<lambda>_. 0)) = []" by (simp add: fresh_shell_def typed_def)
  moreover have "list_all (\<lambda>b. b \<noteq> 10 \<and> b \<noteq> 13) [108, 120, 127, 115 :: u8]" by simp
  moreover have "fold edit_line [108, 120, 127, 115] [] = [108, 115]" "echoes [108, 120, 127, 115] [] = [108, 120, 8, 32, 8, 115]"
    by (simp_all add: edit_line_def echo_def erases_def line_byte_def)
  moreover have "str_of [108, 115] = ''ls''" by (simp add: str_of_def char_of_eq_iff)
  ultimately show ?thesis
    using shell_edits_lines [OF n(2), of demo_env "[108, 120, 127, 115]" "[]"] n(1) by (auto simp del: feed.simps)
qed

end
