(* ===== verification/Main_Loop.thy ===== *)
theory Main_Loop
  imports Ps2 Shell_Safe
begin

text \<open>
  The loop in which the kernel ends (\<^verbatim>\<open>core_main\<close> of \<^verbatim>\<open>lib.rs\<close>): each round polls the PS/2
  controller, the serial port and the host, releases an application that has exited, and hands the waiting events to the shell. It
  is where the input path from the controller to the shell closes. The loop runs in the boot task, whose slot does not change, so
  the scheduler state that \<^verbatim>\<open>event::poll\<close> reads is an argument. Draining the port is a loop; \<open>None\<close> is a
  drain that does not end.
\<close>

section \<open>One round\<close>

definition dispatch :: "env \<Rightarrow> event \<Rightarrow> shell \<Rightarrow> shell_outcome" where
  "dispatch e ev s =
     (if ev_kind ev = KEY_EVENT then key_scancode e (ucast (ev_value ev)) s
      else if ev_kind ev = MOUSE_EVENT then shell_mouse_packet e (ucast (ev_value ev)) s
      else Runs s)"

partial_function (option) drain :: "env \<Rightarrow> sched \<Rightarrow> shell \<Rightarrow> ports \<Rightarrow> (shell_outcome \<times> ports) option" where
  "drain e sc s ps =
     (case event_poll sc ps of
        (None, ps) \<Rightarrow> Some (Runs s, ps)
      | (Some ev, ps) \<Rightarrow>
          (case dispatch e ev s of
             Runs s \<Rightarrow> drain e sc s ps
           | stopped \<Rightarrow> Some (stopped, ps)))"

definition reap :: "shell \<Rightarrow> shell_outcome" where
  "reap s = (case reap_if_exited (sh_kernel s) of None \<Rightarrow> Panics | Some k \<Rightarrow> Runs (s\<lparr>sh_kernel := k\<rparr>))"

text \<open>The bytes waiting at the controller and at the two serial ports are arguments; the round returns what the shell has become,
  the mouse packet buffer and the ports.\<close>

definition main_round ::
    "env \<Rightarrow> sched \<Rightarrow> u16 \<Rightarrow> (bool \<times> u8) list \<Rightarrow> u8 list \<Rightarrow> u8 list \<Rightarrow> shell \<times> ps2 \<times> ports \<Rightarrow> (shell_outcome \<times> ps2 \<times> ports) option" where
  "main_round e sc port pending com1 com2 st =
     (case st of (s, m, ps) \<Rightarrow>
      case ps2_poll port pending m ps of
        None \<Rightarrow> Some (Panics, m, ps)
      | Some (_, _, m, ps) \<Rightarrow>
          (case and_then (fst (poll_serial e com1 s)) (\<lambda>s. and_then (fst (poll_bridge e com2 s)) reap) of
             Runs s \<Rightarrow> map_option (\<lambda>(r, ps). (r, m, ps)) (drain e sc s ps)
           | stopped \<Rightarrow> Some (stopped, m, ps)))"

section \<open>Draining the port\<close>

fun handle_all :: "env \<Rightarrow> event list \<Rightarrow> shell \<Rightarrow> shell_outcome" where
  "handle_all e [] s = Runs s"
| "handle_all e (ev # evs) s = and_then (dispatch e ev s) (handle_all e evs)"

definition own_port :: "sched \<Rightarrow> u16 \<Rightarrow> ports \<Rightarrow> bool" where
  "own_port sc i ps \<longleftrightarrow> wf_ports ps \<and> i \<noteq> 0 \<and> unat i \<le> MAX_PORTS \<and> event_port (current_slot sc) = i \<and>
     p_owner (ps ! (unat i - 1)) = current_pid sc"

lemma port_pop_owner: "p_owner (snd (port_pop p)) = p_owner p"
  by (simp add: port_pop_def Let_def)

lemma port_pop_None: "fst (port_pop p) = None \<Longrightarrow> snd (port_pop p) = p"
  by (simp add: port_pop_def Let_def split: if_splits)

lemma event_poll_own:
  assumes "own_port sc i ps"
  shows "queued i ps = [] \<and> event_poll sc ps = (None, ps) \<or>
    (\<exists>ev ps'. queued i ps = ev # queued i ps' \<and> event_poll sc ps = (Some ev, ps') \<and> own_port sc i ps')"
proof -
  let ?p = "ps ! (unat i - 1)"
  have p: "wf_ports ps" "i \<noteq> 0" "unat i \<le> MAX_PORTS" "event_port (current_slot sc) = i" "p_owner ?p = current_pid sc"
    using assms by (simp_all add: own_port_def)
  have r: "ipc_recv (current_pid sc) i ps = (fst (port_pop ?p), ps[unat i - 1 := snd (port_pop ?p)])"
    using p(2,3,5) by (simp add: ipc_recv_def Let_def split_beta)
  let ?ps = "ps[unat i - 1 := snd (port_pop ?p)]"
  have e: "event_poll sc ps = (fst (port_pop ?p), ?ps)" by (simp add: event_poll_def p(4) r)
  have q: "queued i ps = (case fst (port_pop ?p) of None \<Rightarrow> [] | Some ev \<Rightarrow> [ev]) @ queued i ?ps"
    using queued_recv [OF p(1-3), of i "current_pid sc"] by (simp add: r)
  have l: "unat i - 1 < length ps" using p(1) port_slot [OF p(2,3)] by (simp add: wf_ports_def)
  have "wf_ports ?ps" using wf_recv [OF p(1), of "current_pid sc" i] by (simp add: r)
  then have own: "own_port sc i ?ps" using p l by (simp add: own_port_def port_pop_owner)
  show ?thesis
  proof (cases "fst (port_pop ?p)")
    case None
    have "port_items ?p = []" using None by (simp add: port_pop_def Let_def port_items_def ring_items_def split: if_splits)
    then show ?thesis using None port_pop_None [OF None] e by (simp add: queued_def)
  next
    case (Some ev)
    then show ?thesis using e q own by auto
  qed
qed

lemma drain_handles:
  assumes "own_port sc i ps"
  shows "\<exists>ps'. drain e sc s ps = Some (handle_all e (queued i ps) s, ps') \<and>
    ((\<exists>s'. handle_all e (queued i ps) s = Runs s') \<longrightarrow> queued i ps' = [])"
  using assms
proof (induction "queued i ps" arbitrary: s ps)
  case Nil
  have "event_poll sc ps = (None, ps)" using event_poll_own [OF Nil.prems] Nil.hyps by auto
  then show ?case using Nil.hyps [symmetric] by (simp add: drain.simps)
next
  case (Cons ev evs)
  obtain ps1 where p: "event_poll sc ps = (Some ev, ps1)" "evs = queued i ps1" "own_port sc i ps1"
    using event_poll_own [OF Cons.prems] Cons.hyps(2) by auto
  show ?case
  proof (cases "dispatch e ev s")
    case (Runs s1)
    then show ?thesis using Cons.hyps(1) [OF p(2,3), of s1] p Cons.hyps(2) [symmetric] by (simp add: drain.simps [of e sc s ps])
  qed (use p Cons.hyps(2) [symmetric] in \<open>simp_all add: drain.simps [of e sc s ps]\<close>)
qed

section \<open>From the controller to the shell\<close>

text \<open>The inputs that a list of events means to the shell, and handling them one after the other.\<close>

definition inputs_of :: "event list \<Rightarrow> shell_input list" where
  "inputs_of evs = concat (map (\<lambda>ev. if ev_kind ev = 0x100 then [Key (ucast (ev_value ev))]
     else if ev_kind ev = 0x101 then [Mouse (ucast (ev_value ev))] else []) evs)"

fun handle_inputs :: "env \<Rightarrow> shell_input list \<Rightarrow> shell \<Rightarrow> shell_outcome" where
  "handle_inputs e [] s = Runs s"
| "handle_inputs e (i # is) s = and_then (shell_handle e i s) (handle_inputs e is)"

lemma handle_all_inputs: "handle_all e evs s = handle_inputs e (inputs_of evs) s"
proof (induction evs arbitrary: s)
  case (Cons ev evs)
  then have "handle_all e evs = handle_inputs e (inputs_of evs)" by (simp add: fun_eq_iff)
  then show ?case by (simp add: inputs_of_def dispatch_def KEY_EVENT_def MOUSE_EVENT_def shell_handle_def)
qed (simp add: inputs_of_def)

lemma handle_all_inputs_fun: "handle_all e evs = handle_inputs e (inputs_of evs)"
  by (simp add: fun_eq_iff handle_all_inputs)

lemma send_system_owner: "p_owner (snd (send_system i k v ps) ! j) = p_owner (ps ! j)"
proof (cases "unat i - 1 < length ps \<and> j = unat i - 1")
  case True
  then show ?thesis by (simp add: send_system_def send_as_def port_push_def)
next
  case False
  then show ?thesis by (auto simp: send_system_def send_as_def nth_list_update_neq list_update_beyond split: prod.split)
qed

lemma poll_loop_owner:
  "poll_loop n port pending (k, m, ps) = Some (k', rest, m', ps') \<Longrightarrow> p_owner (ps' ! j) = p_owner (ps ! j)"
proof (induction n port pending "(k, m, ps)" arbitrary: k m ps rule: poll_loop.induct)
  case (3 n port a b pending k m ps)
  show ?case
  proof (cases a)
    case False
    obtain ok ps1 where s: "send_system port KEY_EVENT (ucast b) ps = (ok, ps1)" by force
    then show ?thesis using 3(1) [OF False s [symmetric]] 3(4) False send_system_owner [of port KEY_EVENT "ucast b" ps j] by simp
  next
    case True
    then obtain r m1 where r: "mouse_byte b m = Some (r, m1)" using 3(4) by (cases "mouse_byte b m") auto
    show ?thesis
    proof (cases r)
      case None
      then show ?thesis using 3(2) [of "(r, m1)"] 3(4) True r by simp
    next
      case (Some packet)
      obtain ok ps1 where s: "send_system port MOUSE_EVENT (ucast packet) ps = (ok, ps1)" by force
      then show ?thesis using 3(3) [of "(r, m1)"] 3(4) True r Some send_system_owner [of port MOUSE_EVENT "ucast packet" ps j] by simp
    qed
  qed
qed simp_all



end
