(* ===== verification/Descriptors.thy ===== *)
theory Descriptors
  imports Sched
begin

text \<open>
  The tables that tell the CPU where interrupts go and which segments exist: the interrupt descriptor table
  (\<^verbatim>\<open>idt.rs\<close>) and the global descriptor table with its task-state segment (\<^verbatim>\<open>gdt.rs\<close>), and the
  CPU's reading of them as the architecture defines it. The addresses of the assembly stubs, of the task-state segment
  and of the double-fault stack are arguments.
\<close>

section \<open>The interrupt descriptor table\<close>

definition GDT_CODE :: u16 where "GDT_CODE = 0x08"
definition GATE_INTERRUPT :: u8 where "GATE_INTERRUPT = 0x0E"

record idt_entry =
  offset_low :: u16
  selector :: u16
  ie_ist :: u8
  ie_flags :: u8
  offset_mid :: u16
  offset_high :: u32
  ie_reserved :: u32

definition idt_entry_new :: "u64 \<Rightarrow> u16 \<Rightarrow> u8 \<Rightarrow> u8 \<Rightarrow> u8 \<Rightarrow> idt_entry" where
  "idt_entry_new off sel dpl gate ist =
     \<lparr>offset_low = ucast (off AND 0xFFFF), selector = sel, ie_ist = ist, ie_flags = 0x80 OR push_bit 5 dpl OR gate,
      offset_mid = ucast (drop_bit 16 off AND 0xFFFF), offset_high = ucast (drop_bit 32 off), ie_reserved = 0\<rparr>"

definition idt_offset :: "idt_entry \<Rightarrow> u64" where
  "idt_offset d = ucast (offset_low d) OR push_bit 16 (ucast (offset_mid d)) OR push_bit 32 (ucast (offset_high d))"

definition DOUBLE_FAULT_IST :: u8 where "DOUBLE_FAULT_IST = 1"

definition double_fault_ist :: u8 where "double_fault_ist = DOUBLE_FAULT_IST"

text \<open>The table that \<^verbatim>\<open>init\<close> fills, from the addresses of the stubs.\<close>

definition idt_init :: "(nat \<Rightarrow> u64) \<Rightarrow> idt_entry list" where
  "idt_init stubs =
     map (\<lambda>i. idt_entry_new (stubs i) GDT_CODE 0 GATE_INTERRUPT (if i = 8 then double_fault_ist else 0)) [0..<256]"

definition idt_limit :: u16 where "idt_limit = of_nat (256 * 16 - 1)"

section \<open>The global descriptor table\<close>

definition TSS_SELECTOR :: u16 where "TSS_SELECTOR = 0x18"

record tss =
  tss_rsp :: "u64 list"
  tss_ist :: "u64 list"
  iomap_base :: u16

definition size_of_Tss :: nat where "size_of_Tss = 4 + 3 * 8 + 8 + 7 * 8 + 8 + 2 + 2"

definition tss_static :: tss where
  "tss_static = \<lparr>tss_rsp = replicate 3 0, tss_ist = replicate 7 0, iomap_base = of_nat size_of_Tss\<rparr>"

definition tss_descriptor :: "u64 \<Rightarrow> u64" where
  "tss_descriptor base =
     (let limit = of_nat (size_of_Tss - 1) :: u64 in
      (limit AND 0xFFFF) OR push_bit 16 (base AND 0xFFFFFF) OR push_bit 40 0x89 OR push_bit 32 (limit AND 0xF0000) OR
      push_bit 56 (drop_bit 24 base AND 0xFF))"

definition gdt_init :: "u64 \<Rightarrow> u64 \<Rightarrow> u64 \<Rightarrow> tss \<Rightarrow> u64 list \<times> tss" where
  "gdt_init rsp stack_end base t =
     ([0, 0x00AF9A000000FFFF, 0x00CF92000000FFFF, tss_descriptor base, drop_bit 32 base, 0x00CFF2000000FFFF, 0x00AFFA000000FFFF],
      t\<lparr>tss_rsp := (tss_rsp t)[0 := rsp], tss_ist := (tss_ist t)[0 := stack_end]\<rparr>)"

section \<open>The CPU's reading\<close>

text \<open>A segment selector names an entry by its upper thirteen bits; of a code or data descriptor, bit 47 is
  presence, bits 45 and 46 the privilege level, bit 44 marks code and data, bit 43 code, bit 53 64-bit code, and bit 41 a
  writable data segment.\<close>

datatype seg_kind = Code64 | WritableData | OtherSegment

definition seg_index :: "u64 \<Rightarrow> nat" where "seg_index sel = unat (drop_bit 3 sel)"
definition seg_rpl :: "u64 \<Rightarrow> nat" where "seg_rpl sel = unat (take_bit 2 sel)"

definition seg_dpl :: "u64 \<Rightarrow> nat" where "seg_dpl d = unat (take_bit 2 (drop_bit 45 d))"

definition seg_kind_of :: "u64 \<Rightarrow> seg_kind" where
  "seg_kind_of d =
     (if bit d 47 \<and> bit d 44 \<and> bit d 43 \<and> bit d 53 then Code64
      else if bit d 47 \<and> bit d 44 \<and> \<not> bit d 43 \<and> bit d 41 then WritableData else OtherSegment)"

definition names_segment :: "u64 list \<Rightarrow> u64 \<Rightarrow> nat \<Rightarrow> seg_kind \<Rightarrow> bool" where
  "names_segment gdt sel level kind \<longleftrightarrow> seg_index sel < length gdt \<and> seg_rpl sel = level \<and>
     seg_dpl (gdt ! seg_index sel) = level \<and> seg_kind_of (gdt ! seg_index sel) = kind"

text \<open>A system descriptor takes two entries; base and limit are scattered over them.\<close>

definition tss_base_of :: "u64 \<Rightarrow> u64 \<Rightarrow> u64" where
  "tss_base_of low high = take_bit 24 (drop_bit 16 low) OR push_bit 24 (take_bit 8 (drop_bit 56 low)) OR push_bit 32 (take_bit 32 high)"

definition tss_limit_of :: "u64 \<Rightarrow> u64" where
  "tss_limit_of low = take_bit 16 low OR push_bit 16 (take_bit 4 (drop_bit 48 low))"

definition tss_type_of :: "u64 \<Rightarrow> u64" where "tss_type_of low = take_bit 8 (drop_bit 40 low)"

section \<open>Properties\<close>

lemma masks:
  "(0xFFFF :: u64) = mask 16" "(0xFFFFFF :: u64) = mask 24" "(0xFF :: u64) = mask 8"
  by (simp_all add: mask_eq_exp_minus_1)

lemma idt_offset_new: "idt_offset (idt_entry_new off sel dpl gate ist) = off"
proof (rule bit_word_eqI)
  fix n assume n: "n < LENGTH(64)"
  then consider "n < 16" | "16 \<le> n" "n < 32" | "32 \<le> n" by linarith
  then show "bit (idt_offset (idt_entry_new off sel dpl gate ist)) n = bit off n"
    unfolding idt_offset_def idt_entry_new_def masks using n by cases (auto simp: bit_simps)
qed

lemma tss_descriptor_simp:
  "tss_descriptor base = 103 OR push_bit 16 (base AND mask 24) OR push_bit 40 0x89 OR push_bit 56 (drop_bit 24 base AND mask 8)"
  by (simp add: tss_descriptor_def size_of_Tss_def masks(2,3) Let_def or.assoc)

lemma bits_below_8:
  assumes "take_bit 8 w = (w :: u64)"
  shows "bit w n \<longleftrightarrow> n < 8 \<and> bit w n"
  by (metis assms bit_take_bit_iff)

lemma below_8: "n < 8 \<longleftrightarrow> n \<in> {0, 1, 2, 3, 4, 5, 6, 7 :: nat}"
  by auto

lemma bit_103: "bit (103 :: u64) n \<longleftrightarrow> n \<in> {0, 1, 2, 5, 6}"
  by (subst bits_below_8, simp, subst below_8) auto

lemma bit_0x89: "bit (0x89 :: u64) n \<longleftrightarrow> n \<in> {0, 3, 7}"
  by (subst bits_below_8, simp, subst below_8) auto

lemma bit_tss_descriptor:
  assumes "n < 64"
  shows "bit (tss_descriptor base) n \<longleftrightarrow>
    (if n < 16 then n \<in> {0, 1, 2, 5, 6} else if n < 40 then bit base (n - 16) else if n < 56 then n \<in> {40, 43, 47} else bit base (n - 32))"
proof -
  have s: "24 + (n - 56) = n - 32" if "56 \<le> n" using that by simp
  have t: "n - 40 \<in> {0, 3, 7} \<longleftrightarrow> n \<in> {40, 43, 47}" if "40 \<le> n" using that by auto
  consider "n < 16" | "16 \<le> n" "n < 40" | "40 \<le> n" "n < 56" | "56 \<le> n" by linarith
  then show ?thesis
    unfolding tss_descriptor_simp bit_or_iff bit_push_bit_iff bit_and_iff bit_mask_iff bit_drop_bit_eq bit_103 bit_0x89 o_apply possible_bit_word
    using assms s t by cases auto
qed

lemma tss_base: "tss_base_of (tss_descriptor base) (drop_bit 32 base) = base"
proof (rule bit_word_eqI)
  fix n assume n: "n < LENGTH(64)"
  then consider "n < 24" | "24 \<le> n" "n < 32" | "32 \<le> n" by linarith
  then show "bit (tss_base_of (tss_descriptor base) (drop_bit 32 base)) n = bit base n"
    unfolding tss_base_of_def bit_or_iff bit_push_bit_iff bit_take_bit_iff bit_drop_bit_eq o_apply possible_bit_word
    using n by cases (auto simp: bit_tss_descriptor)
qed

lemma tss_limit: "tss_limit_of (tss_descriptor base) = 103"
proof (rule bit_word_eqI)
  fix n assume n: "n < LENGTH(64)"
  then consider "n < 16" | "16 \<le> n" "n < 20" | "20 \<le> n" by linarith
  then show "bit (tss_limit_of (tss_descriptor base)) n = bit (103 :: u64) n"
    unfolding tss_limit_of_def bit_or_iff bit_push_bit_iff bit_take_bit_iff bit_drop_bit_eq o_apply possible_bit_word bit_103
    using n by cases (auto simp: bit_tss_descriptor)
qed

lemma tss_type: "tss_type_of (tss_descriptor base) = 0x89"
proof (rule bit_word_eqI)
  fix n assume n: "n < LENGTH(64)"
  then show "bit (tss_type_of (tss_descriptor base)) n = bit (0x89 :: u64) n"
    unfolding tss_type_of_def bit_take_bit_iff bit_drop_bit_eq o_apply bit_0x89 by (cases "n < 8") (auto simp: bit_tss_descriptor)
qed

text \<open>What the table entries are for the CPU.\<close>

definition gate_ok :: "u64 list \<Rightarrow> u64 \<Rightarrow> u8 \<Rightarrow> idt_entry \<Rightarrow> bool" where
  "gate_ok gdt handler ist d \<longleftrightarrow> idt_offset d = handler \<and> bit (ie_flags d) 7 \<and> take_bit 2 (drop_bit 5 (ie_flags d)) = 0 \<and>
     take_bit 5 (ie_flags d) = 0x0E \<and> ie_ist d = ist \<and> ie_reserved d = 0 \<and> names_segment gdt (ucast (selector d)) 0 Code64"

lemma selectors_ok:
  assumes "gdt = fst (gdt_init rsp stack_end base t)"
  shows "names_segment gdt 0x08 0 Code64" "names_segment gdt 0x10 0 WritableData"
    "names_segment gdt 0x33 3 Code64" "names_segment gdt 0x2b 3 WritableData"
  by (simp_all add: assms gdt_init_def names_segment_def seg_index_def seg_rpl_def seg_dpl_def seg_kind_of_def)

lemma gates_ok:
  assumes "gdt = fst (gdt_init rsp stack_end base t)" "v < 256"
  shows "gate_ok gdt (stubs v) (if v = 8 then 1 else 0) (idt_init stubs ! v)"
  using selectors_ok(1) [OF assms(1)] assms(2)
  by (auto simp: gate_ok_def idt_init_def idt_offset_new)
    (simp_all add: idt_entry_new_def GDT_CODE_def GATE_INTERRUPT_def double_fault_ist_def DOUBLE_FAULT_IST_def)

text \<open>C37. What the CPU reads out of the descriptor tables is what the kernel means, wherever the linker put the stubs and the
  task-state segment: each of the 256 interrupt gates is a present ring-0 interrupt gate that leads to the stub of its
  vector through the kernel's code segment, only the double fault switches stacks, and to the top of its own stack; the task
  register finds the task-state segment with its exact limit; and the selectors with which the scheduler starts a kernel thread and
  a user program name code and data segments of ring 0 and of ring 3.\<close>

theorem descriptor_tables_decode:
  assumes "gdt_init rsp stack_end base tss_static = (gdt, t)" "k < length (TASKS s)" "length (TASKS s) = MAX_TASKS"
  shows "(\<forall>v < 256. gate_ok gdt (stubs v) (if v = 8 then 1 else 0) (idt_init stubs ! v)) \<and>
    length (idt_init stubs) = 256 \<and> unat idt_limit = 16 * length (idt_init stubs) - 1 \<and>
    tss_ist t ! (unat double_fault_ist - 1) = stack_end \<and> tss_rsp t ! 0 = rsp \<and>
    seg_index (ucast TSS_SELECTOR) = 3 \<and> tss_base_of (gdt ! 3) (gdt ! 4) = base \<and>
    tss_limit_of (gdt ! 3) = of_nat size_of_Tss - 1 \<and> tss_type_of (gdt ! 3) = 0x89 \<and>
    (let f = frame_store (spawn L k entry s) (t_frame (TASKS (spawn L k entry s) ! k)) in
       names_segment gdt (fr_cs f) 0 Code64 \<and> names_segment gdt (fr_ss f) 0 WritableData) \<and>
    (\<forall>s'. spawn_user L rip ursp port s = (True, s') \<longrightarrow>
       (let f = frame_store s' (t_frame (TASKS s' ! 3)) in
        names_segment gdt (fr_cs f) 3 Code64 \<and> names_segment gdt (fr_ss f) 3 WritableData))"
proof -
  have g: "gdt = fst (gdt_init rsp stack_end base tss_static)" "t = snd (gdt_init rsp stack_end base tss_static)"
    using assms(1) by simp_all
  note sel = selectors_ok [OF g(1)]
  have "gdt ! 3 = tss_descriptor base" "gdt ! 4 = drop_bit 32 base" using g(1) by (simp_all add: gdt_init_def)
  moreover have "tss_ist t ! 0 = stack_end" "tss_rsp t ! 0 = rsp" using g(2) by (simp_all add: gdt_init_def tss_static_def)
  moreover have "fr_cs (frame_store (spawn L k entry s) (t_frame (TASKS (spawn L k entry s) ! k))) = 0x08"
    "fr_ss (frame_store (spawn L k entry s) (t_frame (TASKS (spawn L k entry s) ! k))) = 0x10"
    using assms(2) by (simp_all add: spawn_def enqueue_def Let_def)
  moreover have "fr_cs (frame_store s' (t_frame (TASKS s' ! 3))) = 0x33 \<and> fr_ss (frame_store s' (t_frame (TASKS s' ! 3))) = 0x2b"
    if "spawn_user L rip ursp port s = (True, s')" for s'
    using that assms(3) by (auto simp: spawn_user_def enqueue_def Let_def MAX_TASKS_def split: if_splits)
  ultimately show ?thesis
    using gates_ok [OF g(1)] sel tss_base tss_limit tss_type
    by (simp add: idt_init_def idt_limit_def double_fault_ist_def DOUBLE_FAULT_IST_def seg_index_def TSS_SELECTOR_def size_of_Tss_def Let_def)
qed

theorem descriptor_tables_witness:
  "let gdt = fst (gdt_init 0x9000 0x8000 0x7000 tss_static);
       idt = idt_init (\<lambda>v. of_nat (0x1000 + 16 * v));
       (ok, s') = spawn_user demo_layout 0x400000 0x500000 2 sched_statics;
       f = frame_store s' (t_frame (TASKS s' ! 3)) in
   gate_ok gdt 0x10e0 0 (idt ! 14) \<and> gate_ok gdt 0x1080 1 (idt ! 8) \<and> ok \<and>
   names_segment gdt (fr_cs f) 3 Code64 \<and> names_segment gdt (fr_ss f) 3 WritableData"
proof -
  let ?gdt = "fst (gdt_init 0x9000 0x8000 0x7000 tss_static)"
  let ?stubs = "\<lambda>v. of_nat (0x1000 + 16 * v) :: u64"
  let ?r = "spawn_user demo_layout 0x400000 0x500000 2 sched_statics"
  have g: "gdt_init 0x9000 0x8000 0x7000 tss_static = (?gdt, snd (gdt_init 0x9000 0x8000 0x7000 tss_static))" by simp
  have k: "0 < length (TASKS sched_statics)" "length (TASKS sched_statics) = MAX_TASKS"
    by (simp_all add: sched_statics_def MAX_TASKS_def)
  note d = descriptor_tables_decode [OF g k, where stubs = ?stubs and L = demo_layout and rip = "0x400000" and ursp = "0x500000" and port = 2]
  have gates: "gate_ok ?gdt (?stubs v) (if v = 8 then 1 else 0) (idt_init ?stubs ! v)" if "v < 256" for v
    using conjunct1 [OF d] that by blast
  have ok: "fst ?r" by (simp add: spawn_user_def sched_statics_def MAX_TASKS_def empty_task_def Let_def)
  then have r: "?r = (True, snd ?r)" by (cases ?r) simp
  have "gate_ok ?gdt 0x10e0 0 (idt_init ?stubs ! 14)" using gates [where v = 14] by simp
  moreover have "gate_ok ?gdt 0x1080 1 (idt_init ?stubs ! 8)" using gates [where v = 8] by simp
  moreover have "let f = frame_store (snd ?r) (t_frame (TASKS (snd ?r) ! 3)) in
      names_segment ?gdt (fr_cs f) 3 Code64 \<and> names_segment ?gdt (fr_ss f) 3 WritableData"
    using d r by blast
  ultimately show ?thesis using ok by (simp add: Let_def split_beta)
qed

end
