(* ===== verification/Acpi.thy ===== *)
theory Acpi
  imports Pippin_Prelude
begin

text \<open>
  Discovery of the ACPI root table (\<^verbatim>\<open>acpi.rs\<close>): the root pointer that the firmware left in memory and the table it
  leads to are accepted only with the right signatures, lengths and checksums. Memory is a function from addresses to bytes; the
  address of the root pointer, zero for none, comes from the C++ side.
\<close>

section \<open>Discovery\<close>

record acpi_root =
  ar_revision :: u8
  ar_xsdt_address :: u64
  ar_table_count :: nat

definition acpi_checksum :: "ram \<Rightarrow> nat \<Rightarrow> nat \<Rightarrow> bool" where
  "acpi_checksum m p len = (fold (\<lambda>i sum. sum + m (p + i)) [0..<len] 0 = 0)"

definition RSD_PTR :: "u8 list" where "RSD_PTR = [0x52, 0x53, 0x44, 0x20, 0x50, 0x54, 0x52, 0x20]"
definition XSDT_SIG :: "u8 list" where "XSDT_SIG = [0x58, 0x53, 0x44, 0x54]"
definition RSDT_SIG :: "u8 list" where "RSDT_SIG = [0x52, 0x53, 0x44, 0x54]"

definition acpi_discover :: "ram \<Rightarrow> nat \<Rightarrow> acpi_root option" where
  "acpi_discover m ptr =
     (if ptr = 0 then None
      else if read_bytes m ptr 8 \<noteq> RSD_PTR \<or> \<not> acpi_checksum m ptr 20 then None
      else
        let revision = m (ptr + 15);
            rsdt_address = (ucast (from_le (read_bytes m (ptr + 16) 4) :: u32) :: u64);
            len = (from_le (read_bytes m (ptr + 20) 4) :: u32) in
        if revision \<ge> 2 \<and> (\<not> (36 \<le> len \<and> len \<le> 4096) \<or> \<not> acpi_checksum m ptr (unat len)) then None
        else
          let xsdt_address = (if revision \<ge> 2 then from_le (read_bytes m (ptr + 24) 8) else 0 :: u64);
              (address, xsdt) = (if xsdt_address \<noteq> 0 \<and> xsdt_address < 0x40000000 then (xsdt_address, True) else (rsdt_address, False)) in
          if \<not> (0x1000 \<le> address \<and> address < 0x40000000) then None
          else
            let table = unat address;
                signature = (if xsdt then XSDT_SIG else RSDT_SIG);
                length' = unat (from_le (read_bytes m (table + 4) 4) :: u32);
                entry_size = (if xsdt then 8 else 4) in
            if read_bytes m table 4 \<noteq> signature \<or> \<not> (36 \<le> length' \<and> length' \<le> 16384) \<or> (length' - 36) mod entry_size \<noteq> 0 \<or>
               \<not> acpi_checksum m table length'
            then None
            else Some \<lparr>ar_revision = revision, ar_xsdt_address = xsdt_address, ar_table_count = (length' - 36) div entry_size\<rparr>)"

section \<open>What discovery reads\<close>

lemma checksum_sum: "acpi_checksum m p len \<longleftrightarrow> sum_list (read_bytes m p len) = 0"
proof -
  have "fold (\<lambda>i sum. sum + m (p + i)) [0..<len] a = a + sum_list (read_bytes m p len)" for a
    by (induction len) (simp_all add: read_bytes_def add.assoc)
  then show ?thesis by (simp add: acpi_checksum_def)
qed

text \<open>The bytes that discovery may look at: a root pointer of at most 4096 bytes, and a table of at most 16384 bytes that starts
  below one gibibyte.\<close>

definition acpi_reads :: "nat \<Rightarrow> nat set" where
  "acpi_reads ptr = {ptr..<ptr + 4096} \<union> {0x1000..<0x40000000 + 16384}"

lemma acpi_discover_reads:
  assumes "\<And>a. a \<in> acpi_reads ptr \<Longrightarrow> m' a = m a"
  shows "acpi_discover m' ptr = acpi_discover m ptr"
proof -
  have root: "read_bytes m' (ptr + k) n = read_bytes m (ptr + k) n" if "k + n \<le> 4096" for k n
    using that assms by (intro read_bytes_cong) (auto simp: acpi_reads_def)
  have table: "read_bytes m' (a + k) n = read_bytes m (a + k) n" if "0x1000 \<le> a" "a < 0x40000000" "k + n \<le> 16384" for a k n
    using that assms by (intro read_bytes_cong) (auto simp: acpi_reads_def)
  have r: "m' (ptr + 15) = m (ptr + 15)" "read_bytes m' ptr 8 = read_bytes m ptr 8" "read_bytes m' (ptr + 16) 4 = read_bytes m (ptr + 16) 4"
      "read_bytes m' (ptr + 20) 4 = read_bytes m (ptr + 20) 4" "read_bytes m' (ptr + 24) 8 = read_bytes m (ptr + 24) 8"
      "acpi_checksum m' ptr 20 = acpi_checksum m ptr 20"
    using assms [of "ptr + 15"] root [of 0 8] root [of 16 4] root [of 20 4] root [of 24 8] root [of 0 20]
    by (simp_all add: acpi_reads_def checksum_sum)
  have c: "acpi_checksum m' ptr (unat len) = acpi_checksum m ptr (unat len)" if "len \<le> 4096" for len :: u32
    using root [of 0 "unat len"] that by (simp add: checksum_sum word_le_nat_alt)
  have t: "read_bytes m' (unat a) 4 = read_bytes m (unat a) 4" "read_bytes m' (unat a + 4) 4 = read_bytes m (unat a + 4) 4"
      "n \<le> 16384 \<Longrightarrow> acpi_checksum m' (unat a) n = acpi_checksum m (unat a) n"
    if "0x1000 \<le> a" "a < 0x40000000" for a :: u64 and n
    using that table [of "unat a" 0 4] table [of "unat a" 4 4] table [of "unat a" 0 n]
    by (simp_all add: checksum_sum word_le_nat_alt word_less_nat_alt)
  show ?thesis unfolding acpi_discover_def Let_def r using c t by (simp cong: if_cong conj_cong disj_cong)
qed

text \<open>What an accepted root table is: the root pointer and the table have their signatures and sum to zero, the table lies in the
  direct map, and the reported number of entries is what its length leaves after the header.\<close>

definition root_table :: "ram \<Rightarrow> nat \<Rightarrow> nat \<Rightarrow> nat \<Rightarrow> nat \<Rightarrow> bool" where
  "root_table m ptr table len entry \<longleftrightarrow> read_bytes m ptr 8 = RSD_PTR \<and> sum_list (read_bytes m ptr 20) = 0 \<and>
     0x1000 \<le> table \<and> table < 0x40000000 \<and> read_bytes m table 4 = (if entry = 8 then XSDT_SIG else RSDT_SIG) \<and>
     36 \<le> len \<and> len \<le> 16384 \<and> sum_list (read_bytes m table len) = 0"

lemma if_None: "((if c then None else x) = Some r) \<longleftrightarrow> \<not> c \<and> x = Some r"
  by simp

lemma acpi_discover_sound:
  assumes "acpi_discover m ptr = Some r"
  obtains table len entry where "root_table m ptr table len entry" "entry = 4 \<or> entry = 8" "len = 36 + entry * ar_table_count r"
    "ar_revision r = m (ptr + 15)" "entry = 8 \<longrightarrow> table = unat (ar_xsdt_address r)"
proof -
  define revision where "revision = m (ptr + 15)"
  define xaddr where "xaddr = (if revision \<ge> 2 then from_le (read_bytes m (ptr + 24) 8) else 0 :: u64)"
  define xsdt where "xsdt = (xaddr \<noteq> 0 \<and> xaddr < 0x40000000)"
  define address where "address = (if xsdt then xaddr else ucast (from_le (read_bytes m (ptr + 16) 4) :: u32))"
  define len where "len = unat (from_le (read_bytes m (unat address + 4) 4) :: u32)"
  define entry :: nat where "entry = (if xsdt then 8 else 4)"
  have pair: "(if xsdt then (xaddr, True) else (ucast (from_le (read_bytes m (ptr + 16) 4) :: u32), False)) = (address, xsdt)"
    by (simp add: address_def)
  have *: "read_bytes m ptr 8 = RSD_PTR \<and> acpi_checksum m ptr 20 \<and> 0x1000 \<le> address \<and> address < 0x40000000 \<and>
      read_bytes m (unat address) 4 = (if xsdt then XSDT_SIG else RSDT_SIG) \<and> 36 \<le> len \<and> len \<le> 16384 \<and> (len - 36) mod entry = 0 \<and>
      acpi_checksum m (unat address) len \<and>
      r = \<lparr>ar_revision = revision, ar_xsdt_address = xaddr, ar_table_count = (len - 36) div entry\<rparr>"
    using assms unfolding acpi_discover_def Let_def revision_def [symmetric] xaddr_def [symmetric] xsdt_def [symmetric] pair prod.case
      len_def [symmetric] entry_def [symmetric] if_None option.inject
    by blast
  have "len = 36 + entry * ((len - 36) div entry)" using * by (metis add_diff_inverse_nat mult_div_mod_eq add_0_right not_le)
  moreover have "root_table m ptr (unat address) len entry"
    using * by (simp add: root_table_def checksum_sum word_le_nat_alt word_less_nat_alt entry_def)
  moreover have r: "r = \<lparr>ar_revision = revision, ar_xsdt_address = xaddr, ar_table_count = (len - 36) div entry\<rparr>" using * by blast
  have "ar_table_count r = (len - 36) div entry" "ar_revision r = m (ptr + 15)" "ar_xsdt_address r = xaddr"
    unfolding r revision_def by simp_all
  moreover have "entry = 4 \<or> entry = 8" "entry = 8 \<longrightarrow> address = xaddr" by (simp_all add: entry_def address_def)
  ultimately show thesis using that by metis
qed

text \<open>Discovery accepts only a root table as described, and its answer depends on no byte outside the root pointer and
  a table of at most 16 KiB that starts below one gibibyte.\<close>

theorem acpi_discover_correct:
  "(\<forall>m'. (\<forall>a \<in> acpi_reads ptr. m' a = m a) \<longrightarrow> acpi_discover m' ptr = acpi_discover m ptr) \<and>
   (\<forall>r. acpi_discover m ptr = Some r \<longrightarrow>
      (\<exists>table len entry. root_table m ptr table len entry \<and> (entry = 4 \<or> entry = 8) \<and> len = 36 + entry * ar_table_count r))"
  using acpi_discover_reads [of ptr _ m] acpi_discover_sound [of m ptr] by (metis (no_types, lifting))

end
