(* ===== verification/Spec2Isabelle.thy ===== *)
theory Spec2Isabelle
  imports Pippin_Prelude Ring_Queue Frame_Alloc Sched Ipc Zones Paging Elf_Loader Elf_Correct
    Syscall Rust_Text Raster Window_Server Console Bridge Heap_Alloc File_Fat
    Compositor_State Compositor_Draw Compositor_Paint Compositor Compositor_Edit Compositor_Safe
    Compositor_Frame Compositor_Focus Compositor_Press Ps2 Interrupts
    Step_Machine Shell Shell_Safe Main_Loop Descriptors Acpi
begin

text \<open>
  Verification of the Pippin kernel core, the Rust crate under \<^verbatim>\<open>src/kernel/rust/src/\<close>.

  \<^bold>\<open>The program.\<close> Pippin is a small x86-64 operating system. The boot runtime (C++ and assembly) enters \<^verbatim>\<open>core_main\<close>
  of \<^verbatim>\<open>lib.rs\<close>, which initialises the physical memory manager (\<^verbatim>\<open>mem.rs\<close>), the page tables (\<^verbatim>\<open>mm.rs\<close>), the kernel heap
  (\<^verbatim>\<open>heap.rs\<close>), the File Manager (\<^verbatim>\<open>file.rs\<close>), the interrupt dispatcher (\<^verbatim>\<open>interrupts.rs\<close>), the scheduler (\<^verbatim>\<open>sched.rs\<close>), the
  message ports (\<^verbatim>\<open>ipc.rs\<close>) with the Event Manager (\<^verbatim>\<open>event.rs\<close>) and the zones (\<^verbatim>\<open>zones.rs\<close>), loads an embedded ELF application (\<^verbatim>\<open>elf.rs\<close>),
  and ends in a loop that polls the PS/2 controller (\<^verbatim>\<open>ps2.rs\<close>), the serial ports and the host bridge
  (\<^verbatim>\<open>bridge.rs\<close>) and hands what arrives to the command shell (\<^verbatim>\<open>cli.rs\<close>). The shell prints to a text console (\<^verbatim>\<open>display.rs\<close>) or opens
  a desktop (\<^verbatim>\<open>desktop.rs\<close>), a compositor (\<^verbatim>\<open>compositor.rs\<close>) with a window server for client programs (\<^verbatim>\<open>window_server.rs\<close>). User
  programs enter through numbered system calls (\<^verbatim>\<open>syscall.rs\<close>).

  \<^bold>\<open>Conventions.\<close> A structure of the code is a record, an enumeration a datatype, a static variable a field of the record of its
  component; an operation takes the state and returns it. Machine integers are words of their width, or \<open>nat\<close> with
  the wrap-around written out for \<open>usize\<close> and for sizes, or \<open>int\<close> with a wrap to 32 bits for \<open>i32\<close>; the kernel is built
  in release mode, where unchecked arithmetic wraps. A panic (an index out of range, an explicit assertion) is the value
  \<open>None\<close>, the constructor \<open>Panics\<close> or \<open>Panicked\<close>, according to the component; an error result is a value of a sum
  type. Memory that the code reads and writes through raw pointers (page tables, the heap, application frames, video memory) is
  a function from addresses to bytes or words. Text is a list of characters that stand for bytes.

  \<^bold>\<open>Theories.\<close>
  \<^item> \<open>Pippin_Prelude\<close>: the integer types, Rust's checked, saturating and wrapping arithmetic, little-endian bytes, and shared list
    lemmas. \<open>Rust_Text\<close>: Rust's string operations (splitting, parsing and printing numbers, UTF-8). \<open>Ring_Queue\<close>: the
    locale \<open>bounded_fifo\<close> of the circular queues that the scheduler and the ports use; both interpret it. \<open>Step_Machine\<close>:
    the locale \<open>safe_machine\<close> of programs that react to inputs without panicking; the compositor and the shell interpret it.
  \<^item> \<open>Frame_Alloc\<close> (\<^verbatim>\<open>mem.rs\<close>): the frame bitmap, its initialisation from Multiboot or Limine, allocation and release, against the
    abstract set of free frames: an allocated run is free, contiguous, inside the direct map, and removed from the set; the counter is
    exact; releasing a bad range panics.
  \<^item> \<open>Sched\<close> (\<^verbatim>\<open>sched.rs\<close>): task table, run queue, process slots, preemption by ticks, yield, exit and spawning, as a step relation with
    its reachable states. Exactly one task runs, the run queue is the ready tasks, a switch resumes its head, and every
    ready task runs within a bounded number of ticks.
  \<^item> \<open>Ipc\<close> (\<^verbatim>\<open>ipc.rs\<close>, \<^verbatim>\<open>event.rs\<close>): ports as FIFO queues under any interleaving, ownership of reception, timer events.
  \<^item> \<open>Zones\<close> (\<^verbatim>\<open>zones.rs\<close>): generation-checked handles; reads and writes by live handles, isolation between processes, and dead handles
    that stay dead.
  \<^item> \<open>Paging\<close> (\<^verbatim>\<open>mm.rs\<close>): page tables in memory, on top of the locale \<open>frame_provider\<close> that the frame allocator interprets:
    mapping and unmapping change the translation of one page only, through table allocation and huge-page
    splits; the user-pointer check; the initial map.
  \<^item> \<open>Elf_Loader\<close>, \<open>Elf_Correct\<close> (\<^verbatim>\<open>elf.rs\<close>): parsing and validating untrusted images, mapping, copying, spawning, and reaping. A load of
    arbitrary bytes never panics, loses no frame and undoes itself on failure; a successful one puts exactly the image in
    memory.
  \<^item> \<open>Syscall\<close> (\<^verbatim>\<open>syscall.rs\<close>): the dispatcher over the components above touches no unmapped address, whatever the arguments.
  \<^item> \<open>Raster\<close>, \<open>Window_Server\<close> (\<^verbatim>\<open>window_server.rs\<close>, the font and drawing of \<^verbatim>\<open>compositor.rs\<close>): the protocol of client windows, pointer
    routing and painting, with an invariant of the server's state.
  \<^item> \<open>Console\<close> (\<^verbatim>\<open>display.rs\<close>): the text console refines a scrolling grid; clearing a framebuffer stays inside it.
  \<^item> \<open>Bridge\<close> (\<^verbatim>\<open>bridge.rs\<close>): framing of host lines against splitting the byte stream, however polls cut it.
  \<^item> \<open>Heap_Alloc\<close> (\<^verbatim>\<open>heap.rs\<close>): the first-fit free list in the heap's own bytes: blocks in use are aligned, disjoint and inside the
    heap; the walk ends.
  \<^item> \<open>File_Fat\<close> (\<^verbatim>\<open>file.rs\<close>): bundle format and FAT32 reader over an arbitrary disk, which is a parameter (a partial function from
    sector numbers to 512 bytes); reading ends without a panic and stays inside the volume.
  \<^item> \<open>Compositor_State\<close>, \<open>Compositor_Draw\<close>, \<open>Compositor\<close> (\<^verbatim>\<open>compositor.rs\<close>): the desktop's windows, controls, text fields, focus, scrolling,
    rendering and input. \<open>Compositor_Paint\<close> and \<open>Compositor_Frame\<close>: drawing stays in the buffer and in the window's
    content. \<open>Compositor_Edit\<close>: text fields refine an editor on the text before and after the caret. \<open>Compositor_Focus\<close>: keyboard
    traversal. \<open>Compositor_Press\<close>: which control a press meets. \<open>Compositor_Safe\<close>: no input makes it panic.
  \<^item> \<open>Ps2\<close> (\<^verbatim>\<open>ps2.rs\<close>): mouse packets are assembled so that the compositor decodes the reports the mouse sent.
  \<^item> \<open>Interrupts\<close> (\<^verbatim>\<open>interrupts.rs\<close>): the dispatcher over clock, Event Manager and scheduler, for any run of interrupts.
  \<^item> \<open>Shell\<close>, \<open>Shell_Safe\<close> (\<^verbatim>\<open>cli.rs\<close>, \<^verbatim>\<open>desktop.rs\<close>): every command, the line editor, the keyboard map, and the routing of keys, packets and
    host lines; nothing panics, the command line refines a line editor, and closing the desktop restores what it covered.
  \<^item> \<open>Descriptors\<close> (\<^verbatim>\<open>idt.rs\<close>, \<^verbatim>\<open>gdt.rs\<close>): the CPU's reading of the descriptor tables is what the kernel means by them. \<open>Acpi\<close>
    (\<^verbatim>\<open>acpi.rs\<close>): discovery of the firmware's root table accepts valid tables only and reads a bounded part of memory.
  \<^item> \<open>Main_Loop\<close> (the end of \<^verbatim>\<open>lib.rs\<close>): a round of the main loop ends and delivers the controller's input to the shell in order.

  \<^bold>\<open>Parameters and hypotheses.\<close> Code outside the crate is an argument: the addresses of the kernel image and stacks (\<open>layout\<close>), the
  boot loader's memory map and framebuffer, the disk, the surfaces and PCI devices of the C++ side and the display adapter
  (record \<open>env\<close>), the embedded application (a list of bytes). What is assumed of them is stated in the theorems: 32-bit surface
  positions (\<open>surface_i32\<close>), a length below \<open>2 ^ 64\<close> for the application image. The shell's inputs each come with the kernel state at
  that moment, which interrupts and applications may have changed; it is assumed well formed (\<open>kernel_ok\<close>), as the
  theorems on loading and reaping establish it; opening the desktop maps the framebuffer with \<open>map_mmio_page\<close>, whose effect on that
  condition is not proved.

  \<^bold>\<open>Loops and bounds.\<close> Loops whose bound is in the code use that bound: 32 bytes per serial and PS/2 poll, 128 per bridge poll, 16
  clusters of the root directory, 16 program headers. Loops over memory contents or queues that could run on (the heap's free list, cluster
  chains, the event drain of the main loop) are \<open>partial_function\<close>s in \<open>option\<close>, or recursion with a termination
  proof, and are proved to return.

  \<^bold>\<open>Not modelled.\<close> Device registers and port I/O: the AHCI driver (\<^verbatim>\<open>ahci.rs\<close>; the File Manager's disk is its interface), programming the
  PIC, PIT and APIC (\<^verbatim>\<open>interrupts.rs\<close>, \<^verbatim>\<open>apic.rs\<close>), setting up the mouse (\<^verbatim>\<open>ps2.rs\<close>), the UART (\<^verbatim>\<open>serial.rs\<close>) and the VGA mode
  registers (\<^verbatim>\<open>desktop.rs\<close>). Inline assembly (\<^verbatim>\<open>cpu.rs\<close>, and the loading of the descriptor tables), the C linkage of
  \<^verbatim>\<open>ffi.rs\<close>, and the boot sequence of \<^verbatim>\<open>core_main\<close> before its loop, which calls the initialisers above and prints. Interrupts are
  atomic steps between operations; what they can change inside one is not considered.
\<close>

end
